(* ===== verification/Sched_Prelude.thy ===== *)
theory Sched_Prelude
  imports Main "HOL-Library.Word" "HOL-Library.Monad_Syntax"
begin

text \<open>
  Shared vocabulary of the development: the C integer types at their widths, null
  pointers, byte memory with explicit undefined behaviour, the bounded drain loop that
  every service uses, and the list and word facts that several components need.

  A C function that can run into undefined behaviour (an out-of-bounds copy, a call
  through a null function pointer) is a function into an option type: the value
  \<open>None\<close> is "undefined behaviour", never a normal error return.
\<close>

named_theorems c_consts "definitions of the C constants"
named_theorems queue_simps "equations of the queue operations under their invariant"

section \<open>C types\<close>

type_synonym u8 = "8 word"
type_synonym u16 = "16 word"
type_synonym u32 = "32 word"
type_synonym i32 = "32 word" \<comment> \<open>read with \<open>sint\<close>\<close>
type_synonym i16 = "16 word"
type_synonym size_t = "32 word" \<comment> \<open>32-bit targets (C28x, R5F)\<close>

section \<open>Null pointers\<close>

text \<open>A pointer that may be null is an option; \<open>is_null\<close> is the comparison with NULL.\<close>

primrec is_null :: "'a option \<Rightarrow> bool" where
  "is_null None = True"
| "is_null (Some x) = False"

lemma is_null_iff: "is_null x \<longleftrightarrow> x = None"
  by (cases x) auto

lemma not_is_null_iff: "\<not> is_null x \<longleftrightarrow> (\<exists>y. x = Some y)"
  by (cases x) auto

section \<open>Byte memory\<close>

text \<open>
  \<open>mem_copy dst off src n\<close> is \<open>memcpy(&dst[off], src, n)\<close> on the byte arrays \<open>dst\<close> and
  \<open>src\<close>: undefined (\<open>None\<close>) when either access leaves its array.
\<close>

definition mem_copy :: "u8 list \<Rightarrow> nat \<Rightarrow> u8 list \<Rightarrow> nat \<Rightarrow> u8 list option" where
  "mem_copy dst off src n =
     (if off + n \<le> length dst \<and> n \<le> length src
      then Some (take off dst @ take n src @ drop (off + n) dst) else None)"

definition mem_block :: "u8 list \<Rightarrow> nat \<Rightarrow> nat \<Rightarrow> u8 list" where
  "mem_block m off n = take n (drop off m)"

lemma mem_copy_Some:
  "off + n \<le> length dst \<Longrightarrow> n \<le> length src \<Longrightarrow>
   mem_copy dst off src n = Some (take off dst @ take n src @ drop (off + n) dst)"
  by (simp add: mem_copy_def)

lemma mem_copy_length: "mem_copy dst off src n = Some m \<Longrightarrow> length m = length dst"
  by (auto simp: mem_copy_def split: if_splits)

lemma length_mem_block: "off + n \<le> length m \<Longrightarrow> length (mem_block m off n) = n"
  by (simp add: mem_block_def)

lemma mem_block_copy_same:
  assumes "mem_copy dst off src n = Some m"
  shows "mem_block m off n = take n src"
proof -
  from assms have b: "off + n \<le> length dst" "n \<le> length src"
    and m: "m = take off dst @ take n src @ drop (off + n) dst"
    by (auto simp: mem_copy_def split: if_splits)
  from b have "drop off m = take n src @ drop (off + n) dst"
    by (simp add: m)
  with b show ?thesis by (simp add: mem_block_def)
qed

lemma mem_block_copy_before:
  assumes "mem_copy dst off src n = Some m" and "off' + k \<le> off"
  shows "mem_block m off' k = mem_block dst off' k"
proof -
  from assms(1) have b: "off + n \<le> length dst"
    and m: "m = take off dst @ take n src @ drop (off + n) dst"
    by (auto simp: mem_copy_def split: if_splits)
  have "take (off' + k) m = take (off' + k) dst"
    using b assms(2) by (simp add: m min_def)
  then show ?thesis by (simp add: mem_block_def take_drop add.commute)
qed

lemma mem_block_copy_after:
  assumes "mem_copy dst off src n = Some m" and "off + n \<le> off'"
  shows "mem_block m off' k = mem_block dst off' k"
proof -
  from assms(1) have b: "off + n \<le> length dst" "n \<le> length src"
    and m: "m = take off dst @ take n src @ drop (off + n) dst"
    by (auto simp: mem_copy_def split: if_splits)
  have "drop off' m = drop off' dst"
    using b assms(2) by (simp add: m)
  then show ?thesis by (simp add: mem_block_def)
qed

section \<open>Lists\<close>

lemma find_upt_Some_iff:
  "find P [0..<n] = Some i \<longleftrightarrow> i < n \<and> P i \<and> (\<forall>j<i. \<not> P j)"
  by (auto simp: find_Some_iff)

lemma find_upt_None_iff: "find P [0..<n] = None \<longleftrightarrow> (\<forall>i<n. \<not> P i)"
  by (auto simp: find_None_iff)

lemma nth_list_update_if:
  "i < length xs \<Longrightarrow> xs[j := x] ! i = (if i = j then x else xs ! i)"
  by (auto simp: nth_list_update)

text \<open>Writing the same slot of every index of an interval, one index at a time.\<close>

lemma fold_upt_update:
  "n \<le> length xs \<Longrightarrow>
   fold (\<lambda>i ys. ys[i := f (ys ! i)]) [0..<n] xs = map f (take n xs) @ drop n xs"
proof (induction n)
  case 0
  then show ?case by simp
next
  case (Suc n)
  then have "fold (\<lambda>i ys. ys[i := f (ys ! i)]) [0..<n] xs = map f (take n xs) @ drop n xs"
    by simp
  with Suc.prems show ?case
    by (simp add: take_Suc_conv_app_nth list_update_append nth_append
        Cons_nth_drop_Suc [symmetric])
qed

lemma length_filter_update:
  "i < length xs \<Longrightarrow>
   length (filter P (xs[i := y])) + (if P (xs ! i) then 1 else 0) =
   length (filter P xs) + (if P y then 1 else 0)"
proof (induction xs arbitrary: i)
  case Nil
  then show ?case by simp
next
  case (Cons x xs)
  then show ?case by (cases i) auto
qed

lemma length_filter_full_iff: "length (filter P xs) = length xs \<longleftrightarrow> list_all P xs"
  by (induction xs) (auto simp: le_imp_less_Suc less_Suc_eq_le dest: sym
      intro: le_antisym [OF length_filter_le] order.strict_implies_not_eq)

section \<open>Cyclic indices\<close>

lemma mod_add_eq_imp_eq:
  fixes t :: nat
  assumes "(t + i) mod c = (t + j) mod c" and "i < c" and "j < c"
  shows "i = j"
proof (rule ccontr)
  assume "i \<noteq> j"
  have *: False if "i < j" "j < c" "(t + i) mod c = (t + j) mod c" for i j
  proof -
    from that have "c dvd (t + j) - (t + i)"
      by (metis add_le_cancel_left less_or_eq_imp_le mod_eq_dvd_iff_nat)
    then have "c dvd j - i" by simp
    with that show False
      by (metis dvd_imp_le less_imp_diff_less not_le zero_less_diff)
  qed
  from \<open>i \<noteq> j\<close> assms * [of i j] * [of j i] show False
    by (metis linorder_neqE_nat)
qed

section \<open>Words\<close>

lemma unat_Suc_no_wrap: "unat (x :: 'a :: len word) + 1 < 2 ^ LENGTH('a) \<Longrightarrow> unat (x + 1) = unat x + 1"
  by (simp add: unat_word_ariths)

lemma unat_pred: "x \<noteq> 0 \<Longrightarrow> unat (x - 1 :: 'a :: len word) = unat x - 1"
  by (metis unat_minus_one)

lemma unat_Suc_below:
  assumes "unat (x :: 'a :: len word) < unat (y :: 'a word)"
  shows "unat (x + 1) = unat x + 1"
proof -
  have "unat x + 1 < 2 ^ LENGTH('a)"
    using assms le_less_trans [of "unat x + 1" "unat y", OF _ unsigned_less] by simp
  then show ?thesis by (rule unat_Suc_no_wrap)
qed

lemma unat_succ_mod:
  "unat (x :: 'a :: len word) < unat c \<Longrightarrow> unat ((x + 1) mod c) = (unat x + 1) mod unat c"
  by (simp add: unat_mod unat_Suc_below)

section \<open>The bounded drain loop\<close>

text \<open>
  Every service drains its queues by the same loop,
  \<^verbatim>\<open>for (i = 0; i < budget; ++i) { if (!pop(q, &x)) break; ... }\<close>
  The loop state \<open>s\<close> is the service, \<open>x\<close> the out variable, \<open>w\<close> the platform; the body
  says whether the loop goes on (\<open>False\<close> is a \<open>break\<close>).
\<close>

fun drain_loop ::
  "nat \<Rightarrow> ('s \<Rightarrow> 'a \<Rightarrow> 'w \<Rightarrow> (bool \<times> 'a \<times> 's \<times> 'w) option) \<Rightarrow>
   ('a \<Rightarrow> 's \<Rightarrow> 'w \<Rightarrow> (bool \<times> 's \<times> 'w) option) \<Rightarrow>
   's \<Rightarrow> 'a \<Rightarrow> 'w \<Rightarrow> ('s \<times> 'a \<times> 'w) option" where
  "drain_loop 0 pop body s x w = Some (s, x, w)"
| "drain_loop (Suc n) pop body s x w = do {
     (ok, x, s, w) \<leftarrow> pop s x w;
     if \<not> ok then Some (s, x, w)
     else do {
       (continue, s, w) \<leftarrow> body x s w;
       if continue then drain_loop n pop body s x w else Some (s, x, w)
     }
   }"

lemma drop_min: "drop (min n (length xs)) xs = drop n xs"
  by (simp add: min_def)

end
