(* ===== verification/Port.thy ===== *)
theory Port
  imports Sched_Prelude
begin

text \<open>
  The platform hooks of \<^verbatim>\<open>include/scheduler/port/scheduler_port.h\<close>. The library only calls
  them; their code belongs to the target, so a port is a record of state transformers on
  an abstract platform state \<open>'w\<close> (hardware, interrupt mask, memory outside the library)
  and every model definition that calls a hook takes the port as an argument.

  \<open>crit\<close> is the platform effect of one critical section around a body that touches
  library memory only. The locale \<open>port_contract\<close> states the part of
  \<^verbatim>\<open>docs/porting_contract.md\<close> that concerns the interrupt state: leaving a section restores
  the level found on entry, reading the clock and idling do not change it. It is
  interpreted on the hooks the repository itself defines: the example program's and the
  nesting counter of the unit tests.
\<close>

record 'w port =
  sch_port_now_ticks :: "'w \<Rightarrow> u32 \<times> 'w"
  sch_port_enter_critical :: "'w \<Rightarrow> u32 \<times> 'w"
  sch_port_exit_critical :: "u32 \<Rightarrow> 'w \<Rightarrow> 'w"
  sch_port_idle :: "'w \<Rightarrow> 'w"

definition crit :: "'w port \<Rightarrow> 'w \<Rightarrow> 'w" where
  "crit p w = (let (state, w) = sch_port_enter_critical p w in sch_port_exit_critical p state w)"

section \<open>The porting contract\<close>

locale port_contract =
  fixes p :: "'w port"
    and level :: "'w \<Rightarrow> 'l"
  assumes exit_restores:
      "level v = level (snd (sch_port_enter_critical p w)) \<Longrightarrow>
       level (sch_port_exit_critical p (fst (sch_port_enter_critical p w)) v) = level w"
    and now_ticks_level: "level (snd (sch_port_now_ticks p w)) = level w"
    and idle_level: "level (sch_port_idle p w) = level w"
begin

lemma crit_level: "level (crit p w) = level w"
  by (simp add: crit_def split_beta exit_restores)

text \<open>Nested sections, in strict last-in first-out order, restore every level on the way.\<close>

lemma nested_level:
  assumes "sch_port_enter_critical p w = (outer, w1)"
    and "level v = level w1"
    and "sch_port_enter_critical p v = (inner, w2)"
    and "level v' = level w2"
  shows "level (sch_port_exit_critical p inner v') = level w1"
    and "level (sch_port_exit_critical p outer (sch_port_exit_critical p inner v')) = level w"
proof -
  show inner: "level (sch_port_exit_critical p inner v') = level w1"
    using assms(2-4) exit_restores [of v' v] by simp
  then show "level (sch_port_exit_critical p outer (sch_port_exit_critical p inner v')) = level w"
    using assms(1) exit_restores [of "sch_port_exit_critical p inner v'" w] by simp
qed

end

section \<open>The ports of the repository\<close>

text \<open>
  \<^verbatim>\<open>examples/main_events_example.c\<close> runs on a host without interrupts: the hooks do nothing
  and the clock is the host's, read relative to the start of the program. The time of day that a
  call of \<^verbatim>\<open>gettimeofday\<close> leaves in its argument, zero where the call fails, and the start time of
  the program are the platform state; how the time moves on between two calls is a parameter, which
  may depend on \<open>host_readings\<close>, the number of calls made so far.
\<close>

record timeval =
  tv_sec :: "64 word"
  tv_usec :: "64 word"

definition timeval_us :: "timeval \<Rightarrow> 64 word" where
  "timeval_us tv = tv_sec tv * 1000000 + tv_usec tv"

abbreviation timeval_of :: "64 word \<Rightarrow> timeval" where
  "timeval_of us \<equiv> \<lparr>tv_sec = us div 1000000, tv_usec = us mod 1000000\<rparr>"

lemma timeval_us_of [simp]: "timeval_us (timeval_of us) = us"
  by (simp add: timeval_us_def div_mult_mod_eq)

record host =
  host_tv :: timeval
  host_readings :: nat
  g_start_time :: timeval

abbreviation host_us :: "'a host_scheme \<Rightarrow> 64 word" where
  "host_us h \<equiv> timeval_us (host_tv h)"

abbreviation start_us :: "'a host_scheme \<Rightarrow> 64 word" where
  "start_us h \<equiv> timeval_us (g_start_time h)"

definition sch_mono_now_us ::
  "('a host_scheme \<Rightarrow> 'a host_scheme) \<Rightarrow> 'a host_scheme \<Rightarrow> 64 word \<times> 'a host_scheme" where
  "sch_mono_now_us gettimeofday h =
     (let h = gettimeofday h in (timeval_us (host_tv h), h))"

definition sch_port_now_ticks_example ::
  "('a host_scheme \<Rightarrow> 'a host_scheme) \<Rightarrow> 'a host_scheme \<Rightarrow> u32 \<times> 'a host_scheme" where
  "sch_port_now_ticks_example gettimeofday h =
     (let (now_us, h) = sch_mono_now_us gettimeofday h;
          start_us = timeval_us (g_start_time h)
      in if now_us < start_us then (0, h) else (ucast (now_us - start_us), h))"

lemmas example_clock_defs = sch_port_now_ticks_example_def sch_mono_now_us_def Let_def split_beta

definition example_port :: "('a host_scheme \<Rightarrow> 'a host_scheme) \<Rightarrow> 'a host_scheme port" where
  "example_port gettimeofday =
     \<lparr>sch_port_now_ticks = sch_port_now_ticks_example gettimeofday,
      sch_port_enter_critical = (\<lambda>h. (0, h)),
      sch_port_exit_critical = (\<lambda>state h. h),
      sch_port_idle = (\<lambda>h. h)\<rparr>"

text \<open>
  The stubs of \<^verbatim>\<open>tests/unit/test_scheduler.c\<close>: a clock the test sets, no interrupts, and a
  count of the idle calls.
\<close>

record test_bench =
  fake_time_us :: u32
  idle_call_count :: u32

definition test_port :: "'a test_bench_scheme port" where
  "test_port =
     \<lparr>sch_port_now_ticks = (\<lambda>b. (fake_time_us b, b)),
      sch_port_enter_critical = (\<lambda>b. (0, b)),
      sch_port_exit_critical = (\<lambda>state b. b),
      sch_port_idle = (\<lambda>b. b\<lparr>idle_call_count := idle_call_count b + 1\<rparr>)\<rparr>"

text \<open>
  The pattern that \<^verbatim>\<open>docs/porting_contract.md\<close> recommends: the token is a snapshot of the
  interrupt mask register, which entering sets and leaving writes back. Its wrong variant,
  also from that document, forgets the token and always enables.
\<close>

record cpu =
  primask :: u32
  ticks :: u32

definition snapshot_port :: "cpu port" where
  "snapshot_port =
     \<lparr>sch_port_now_ticks = (\<lambda>c. (ticks c, c\<lparr>ticks := ticks c + 1\<rparr>)),
      sch_port_enter_critical = (\<lambda>c. (primask c, c\<lparr>primask := 1\<rparr>)),
      sch_port_exit_critical = (\<lambda>state c. c\<lparr>primask := state\<rparr>),
      sch_port_idle = (\<lambda>c. c)\<rparr>"

definition broken_port :: "cpu port" where
  "broken_port =
     \<lparr>sch_port_now_ticks = (\<lambda>c. (ticks c, c\<lparr>ticks := ticks c + 1\<rparr>)),
      sch_port_enter_critical = (\<lambda>c. (0, c\<lparr>primask := 1\<rparr>)),
      sch_port_exit_critical = (\<lambda>state c. c\<lparr>primask := 0\<rparr>),
      sch_port_idle = (\<lambda>c. c)\<rparr>"

text \<open>Hooks that do nothing, for a host without interrupts.\<close>

definition quiet_port :: "'w port" where
  "quiet_port = \<lparr>sch_port_now_ticks = (\<lambda>w. (0, w)), sch_port_enter_critical = (\<lambda>w. (0, w)),
     sch_port_exit_critical = (\<lambda>state w. w), sch_port_idle = (\<lambda>w. w)\<rparr>"

lemma crit_quiet [simp]: "crit quiet_port w = w"
  by (simp add: crit_def quiet_port_def)

interpretation example: port_contract "example_port gettimeofday" "\<lambda>h. ()"
  for gettimeofday
  by unfold_locales auto

interpretation bench: port_contract test_port "\<lambda>b. ()"
  by unfold_locales auto

interpretation quiet: port_contract quiet_port "\<lambda>w. w"
  by unfold_locales (simp_all add: quiet_port_def)

interpretation snapshot: port_contract snapshot_port primask
  by unfold_locales (auto simp: snapshot_port_def)

text \<open>The wrong variant breaks the contract as soon as a section is entered with interrupts masked.\<close>

lemma broken_port_no_contract: "\<not> port_contract broken_port primask"
proof
  assume "port_contract broken_port primask"
  then have "primask (crit broken_port \<lparr>primask = 1, ticks = 0\<rparr>) = 1"
    by (simp add: port_contract.crit_level)
  then show False by (simp add: crit_def broken_port_def)
qed

end
