(* ===== verification/Scheduler.thy ===== *)
theory Scheduler
  imports Sched_Prelude Port
begin

text \<open>
  \<^verbatim>\<open>src/scheduler.c\<close> and \<^verbatim>\<open>include/scheduler/scheduler.h\<close>: the cooperative scheduler. Its
  state is the record \<open>sch\<close> with the C fields; the compile-time switches are the record
  \<open>sch_config\<close>, so one definition covers the four builds (a build without statistics never
  touches \<open>stats\<close>, one without tracing never touches the hook).

  Task functions, contexts and trace hooks are application code reached through pointers:
  they are identifiers of types \<open>'f\<close>, \<open>'c\<close> and \<open>'h\<close>, and \<open>sch_env\<close> says what a call does.
  A task may change the scheduler (register tasks, for instance) and the platform state; a
  hook changes the platform state only, as its contract in the header demands. Calling a
  null task pointer is undefined, and a task that never returns is \<open>None\<close> too.
\<close>

section \<open>Data\<close>

definition SCH_MAX_TASKS :: nat where
  "SCH_MAX_TASKS = 64"

definition SCH_INVALID_TASK_ID :: i32 where
  "SCH_INVALID_TASK_ID = -1"

definition SCH_ERR_INVALID_ARG :: i32 where
  "SCH_ERR_INVALID_ARG = -2"

definition SCH_ERR_NO_SPACE :: i32 where
  "SCH_ERR_NO_SPACE = -3"

definition SCH_LOWEST_PRIORITY :: u16 where
  "SCH_LOWEST_PRIORITY = 65535"

declare SCH_INVALID_TASK_ID_def [c_consts] SCH_ERR_INVALID_ARG_def [c_consts]
  SCH_ERR_NO_SPACE_def [c_consts] SCH_LOWEST_PRIORITY_def [c_consts]

record sch_config =
  sch_enable_stats :: bool
  sch_enable_trace :: bool

datatype sch_trace_event =
    SCH_TRACE_TASK_START
  | SCH_TRACE_TASK_END
  | SCH_TRACE_TASK_MISS
  | SCH_TRACE_TASK_OVERRUN
  | SCH_TRACE_IDLE

record ('f, 'c) sch_task =
  fn :: "'f option"
  ctx :: "'c option"
  period_ticks :: u32
  next_release :: u32
  priority :: u16
  enabled :: bool
  pending :: bool
  in_use :: bool

record sch_task_stats =
  run_count :: u32
  miss_count :: u32
  overrun_count :: u32
  last_start_tick :: u32
  last_end_tick :: u32
  last_exec_ticks :: u32
  max_exec_ticks :: u32
  total_exec_ticks :: u32

record ('f, 'c, 'h) sch =
  tasks :: "('f, 'c) sch_task list"
  task_count :: u32
  next_background_idx :: u32
  stats :: "sch_task_stats list"
  trace_hook :: "'h option"
  trace_user_ctx :: "'c option"

record ('f, 'c, 'h, 'w) sch_env =
  call_task :: "'f \<Rightarrow> 'c option \<Rightarrow> ('f, 'c, 'h) sch \<Rightarrow> 'w \<Rightarrow> (('f, 'c, 'h) sch \<times> 'w) option"
  call_hook :: "'h \<Rightarrow> sch_trace_event \<Rightarrow> i32 \<Rightarrow> u32 \<Rightarrow> 'c option \<Rightarrow> 'w \<Rightarrow> 'w"

text \<open>Writes through a pointer to one slot of the two arrays.\<close>

definition upd_task ::
  "nat \<Rightarrow> (('f, 'c) sch_task \<Rightarrow> ('f, 'c) sch_task) \<Rightarrow> ('f, 'c, 'h) sch \<Rightarrow> ('f, 'c, 'h) sch" where
  "upd_task i g s = s\<lparr>tasks := (tasks s)[i := g (tasks s ! i)]\<rparr>"

definition upd_stats ::
  "nat \<Rightarrow> (sch_task_stats \<Rightarrow> sch_task_stats) \<Rightarrow> ('f, 'c, 'h) sch \<Rightarrow> ('f, 'c, 'h) sch" where
  "upd_stats i g s = s\<lparr>stats := (stats s)[i := g (stats s ! i)]\<rparr>"

section \<open>Helpers\<close>

definition sch_trace_emit ::
  "('f, 'c, 'h, 'w) sch_env \<Rightarrow> ('f, 'c, 'h) sch option \<Rightarrow> sch_trace_event \<Rightarrow> i32 \<Rightarrow> u32 \<Rightarrow> 'w \<Rightarrow> 'w" where
  "sch_trace_emit env scheduler event task_id timestamp w =
     (case scheduler of
        None \<Rightarrow> w
      | Some s \<Rightarrow>
          (case trace_hook s of
             None \<Rightarrow> w
           | Some hook \<Rightarrow> call_hook env hook event task_id timestamp (trace_user_ctx s) w))"

definition sch_stats_clear_slot :: "sch_task_stats \<Rightarrow> sch_task_stats" where
  "sch_stats_clear_slot st =
     st\<lparr>run_count := 0, miss_count := 0, overrun_count := 0, last_start_tick := 0,
        last_end_tick := 0, last_exec_ticks := 0, max_exec_ticks := 0, total_exec_ticks := 0\<rparr>"

definition sch_time_reached :: "u32 \<Rightarrow> u32 \<Rightarrow> bool" where
  "sch_time_reached now target \<longleftrightarrow> 0 \<le> sint (now - target)"

definition sch_advance_next_release :: "u32 \<Rightarrow> u32 \<Rightarrow> u32 \<Rightarrow> u32" where
  "sch_advance_next_release now release period =
     (if period = 0 then release
      else
        let lateness = now - release :: i32
        in
          if sint lateness < 0 then release
          else
            let releases_to_skip = lateness div period + 1
            in release + releases_to_skip * period)"

section \<open>Set-up\<close>

definition sch_init ::
  "sch_config \<Rightarrow> 'w port \<Rightarrow> ('f, 'c, 'h) sch option \<Rightarrow> 'w \<Rightarrow> ('f, 'c, 'h) sch option \<times> 'w" where
  "sch_init cfg p scheduler w =
     (if is_null scheduler then (scheduler, w)
      else
        let (state, w) = sch_port_enter_critical p w;
            s = fold (\<lambda>i. upd_task i (\<lambda>t. t\<lparr>fn := None, ctx := None, period_ticks := 0,
                    next_release := 0, priority := SCH_LOWEST_PRIORITY, enabled := False,
                    pending := False, in_use := False\<rparr>))
                  [0..<SCH_MAX_TASKS] (the scheduler);
            s = s\<lparr>task_count := 0, next_background_idx := 0\<rparr>;
            s = (if sch_enable_stats cfg
                 then fold (\<lambda>i. upd_stats i sch_stats_clear_slot) [0..<SCH_MAX_TASKS] s else s);
            s = (if sch_enable_trace cfg then s\<lparr>trace_hook := None, trace_user_ctx := None\<rparr> else s)
        in (Some s, sch_port_exit_critical p state w))"

definition sch_add_task ::
  "sch_config \<Rightarrow> 'w port \<Rightarrow> ('f, 'c, 'h) sch option \<Rightarrow> 'f option \<Rightarrow> 'c option \<Rightarrow> u32 \<Rightarrow> u32 \<Rightarrow> u16 \<Rightarrow>
   'w \<Rightarrow> i32 \<times> ('f, 'c, 'h) sch option \<times> 'w" where
  "sch_add_task cfg p scheduler fn_arg ctx_arg period start_delay_ticks prio w =
     (if is_null scheduler \<or> is_null fn_arg then (SCH_ERR_INVALID_ARG, scheduler, w)
      else
        let s = the scheduler;
            (state, w) = sch_port_enter_critical p w
        in
          if of_nat SCH_MAX_TASKS \<le> task_count s
          then (SCH_ERR_NO_SPACE, Some s, sch_port_exit_critical p state w)
          else
            let (now, w) = sch_port_now_ticks p w
            in
              (case find (\<lambda>i. \<not> in_use (tasks s ! i)) [0..<SCH_MAX_TASKS] of
                 Some i \<Rightarrow>
                   let s = upd_task i (\<lambda>t. t\<lparr>fn := fn_arg, ctx := ctx_arg, period_ticks := period,
                             next_release := now + start_delay_ticks, priority := prio,
                             enabled := True, pending := False, in_use := True\<rparr>) s;
                       s = (if sch_enable_stats cfg then upd_stats i sch_stats_clear_slot s else s);
                       s = s\<lparr>task_count := task_count s + 1\<rparr>
                   in (of_nat i, Some s, sch_port_exit_critical p state w)
               | None \<Rightarrow> (SCH_ERR_NO_SPACE, Some s, sch_port_exit_critical p state w)))"

definition sch_enable_task ::
  "('f, 'c, 'h) sch option \<Rightarrow> u32 \<Rightarrow> bool \<Rightarrow> ('f, 'c, 'h) sch option" where
  "sch_enable_task scheduler task_id enable = scheduler"

section \<open>Marking and selecting\<close>

definition sch_mark_slot ::
  "sch_config \<Rightarrow> ('f, 'c, 'h, 'w) sch_env \<Rightarrow> u32 \<Rightarrow> nat \<Rightarrow> ('f, 'c, 'h) sch \<times> 'w \<Rightarrow>
   ('f, 'c, 'h) sch \<times> 'w" where
  "sch_mark_slot cfg env now i sw =
     (let (s, w) = sw; task = tasks s ! i
      in
        if \<not> in_use task \<or> \<not> enabled task \<or> period_ticks task = 0 then (s, w)
        else if sch_time_reached now (next_release task)
        then
          let s = (if sch_enable_stats cfg \<and> pending task
                   then upd_stats i (\<lambda>st. st\<lparr>miss_count := miss_count st + 1\<rparr>) s else s);
              w = (if sch_enable_trace cfg \<and> pending task
                   then sch_trace_emit env (Some s) SCH_TRACE_TASK_MISS (of_nat i) now w else w);
              s = upd_task i (\<lambda>t. t\<lparr>pending := True\<rparr>) s
          in (s, w)
        else (s, w))"

definition sch_mark_periodic_ready ::
  "sch_config \<Rightarrow> ('f, 'c, 'h, 'w) sch_env \<Rightarrow> ('f, 'c, 'h) sch \<Rightarrow> u32 \<Rightarrow> 'w \<Rightarrow>
   ('f, 'c, 'h) sch \<times> 'w" where
  "sch_mark_periodic_ready cfg env s now w =
     fold (sch_mark_slot cfg env now) [0..<SCH_MAX_TASKS] (s, w)"

definition sch_select_step ::
  "('f, 'c, 'h) sch \<Rightarrow> nat \<Rightarrow> i32 \<times> u16 \<Rightarrow> i32 \<times> u16" where
  "sch_select_step s i sb =
     (let (selected, best_priority) = sb; task = tasks s ! i
      in
        if \<not> in_use task \<or> \<not> enabled task \<or> \<not> pending task \<or> period_ticks task = 0
        then (selected, best_priority)
        else if selected = SCH_INVALID_TASK_ID \<or> priority task < best_priority \<or>
            (priority task = best_priority \<and> of_nat i < selected)
        then (of_nat i, priority task)
        else (selected, best_priority))"

definition sch_select_pending_task :: "('f, 'c, 'h) sch \<Rightarrow> i32" where
  "sch_select_pending_task s =
     fst (fold (sch_select_step s) [0..<SCH_MAX_TASKS] (SCH_INVALID_TASK_ID, SCH_LOWEST_PRIORITY))"

definition sch_select_background_task :: "('f, 'c, 'h) sch \<Rightarrow> i32 \<times> ('f, 'c, 'h) sch" where
  "sch_select_background_task s =
     (let start = next_background_idx s;
          idx_of = (\<lambda>offset. (start + of_nat offset) mod of_nat SCH_MAX_TASKS);
          hit = find (\<lambda>offset.
                  let task = tasks s ! unat (idx_of offset)
                  in in_use task \<and> enabled task \<and> period_ticks task = 0)
                [0..<SCH_MAX_TASKS]
      in
        case hit of
          Some offset \<Rightarrow>
            (idx_of offset,
             s\<lparr>next_background_idx := (idx_of offset + 1) mod of_nat SCH_MAX_TASKS\<rparr>)
        | None \<Rightarrow> (SCH_INVALID_TASK_ID, s))"

section \<open>Running\<close>

text \<open>The call through a function pointer.\<close>

definition call_fn ::
  "('f, 'c, 'h, 'w) sch_env \<Rightarrow> 'f option \<Rightarrow> 'c option \<Rightarrow> ('f, 'c, 'h) sch \<Rightarrow> 'w \<Rightarrow>
   (('f, 'c, 'h) sch \<times> 'w) option" where
  "call_fn env f c s w = (case f of None \<Rightarrow> None | Some g \<Rightarrow> call_task env g c s w)"

text \<open>Statistics after a call, the same code for periodic and background tasks.\<close>

definition sch_stats_account :: "u32 \<Rightarrow> sch_task_stats \<Rightarrow> sch_task_stats" where
  "sch_stats_account exec_end st =
     (let exec_ticks = exec_end - last_start_tick st;
          st = st\<lparr>run_count := run_count st + 1, last_end_tick := exec_end,
                  last_exec_ticks := exec_ticks,
                  total_exec_ticks := total_exec_ticks st + exec_ticks\<rparr>
      in if max_exec_ticks st < exec_ticks then st\<lparr>max_exec_ticks := exec_ticks\<rparr> else st)"

text \<open>The part of one iteration inside the critical section, for the selected slot.\<close>

definition sch_take_task :: "u32 \<Rightarrow> nat \<Rightarrow> ('f, 'c, 'h) sch \<Rightarrow> ('f, 'c, 'h) sch" where
  "sch_take_task now i s =
     upd_task i (\<lambda>t. t\<lparr>pending := False,
       next_release := sch_advance_next_release now (next_release t) (period_ticks t)\<rparr>) s"

text \<open>The part after it: the call, its instrumentation and the overrun check.\<close>

definition sch_exec_periodic ::
  "sch_config \<Rightarrow> 'w port \<Rightarrow> ('f, 'c, 'h, 'w) sch_env \<Rightarrow> nat \<Rightarrow> 'f option \<Rightarrow> 'c option \<Rightarrow> u32 \<Rightarrow>
   ('f, 'c, 'h) sch \<Rightarrow> 'w \<Rightarrow> (('f, 'c, 'h) sch \<times> 'w) option" where
  "sch_exec_periodic cfg p env i f c period s w = do {
     let (s, w) =
       (if sch_enable_stats cfg
        then let (exec_start, w) = sch_port_now_ticks p w
             in (upd_stats i (\<lambda>st. st\<lparr>last_start_tick := exec_start\<rparr>) s, w)
        else (s, w));
     let w =
       (if sch_enable_trace cfg
        then let (t, w) = sch_port_now_ticks p w
             in sch_trace_emit env (Some s) SCH_TRACE_TASK_START (of_nat i) t w
        else w);
     (s, w) \<leftarrow> call_fn env f c s w;
     let (s, w) =
       (if sch_enable_stats cfg
        then let (exec_end, w) = sch_port_now_ticks p w
             in (upd_stats i (sch_stats_account exec_end) s, w)
        else (s, w));
     let w =
       (if sch_enable_trace cfg
        then let (trace_end, w) = sch_port_now_ticks p w
             in sch_trace_emit env (Some s) SCH_TRACE_TASK_END (of_nat i) trace_end w
        else w);
     let (completed_at, w) = sch_port_now_ticks p w;
     if period \<noteq> 0 \<and> sch_time_reached completed_at (next_release (tasks s ! i))
     then
       let s = (if sch_enable_stats cfg
                then upd_stats i (\<lambda>st. st\<lparr>overrun_count := overrun_count st + 1\<rparr>) s else s);
           w = (if sch_enable_trace cfg
                then sch_trace_emit env (Some s) SCH_TRACE_TASK_OVERRUN (of_nat i) completed_at w
                else w)
       in Some (s, w)
     else Some (s, w)
   }"

text \<open>The loop over the ready set; the first argument is the number of iterations left.\<close>

fun sch_run_periodic ::
  "nat \<Rightarrow> sch_config \<Rightarrow> 'w port \<Rightarrow> ('f, 'c, 'h, 'w) sch_env \<Rightarrow> u32 \<Rightarrow> ('f, 'c, 'h) sch \<Rightarrow> 'w \<Rightarrow>
   (('f, 'c, 'h) sch \<times> 'w) option" where
  "sch_run_periodic 0 cfg p env now s w = Some (s, w)"
| "sch_run_periodic (Suc n) cfg p env now s w =
     (let (state, w) = sch_port_enter_critical p w;
          selected = sch_select_pending_task s
      in
        if selected = SCH_INVALID_TASK_ID then Some (s, sch_port_exit_critical p state w)
        else do {
          let i = unat selected;
          let task = tasks s ! i;
          let s = sch_take_task now i s;
          let w = sch_port_exit_critical p state w;
          (s, w) \<leftarrow> sch_exec_periodic cfg p env i (fn task) (ctx task) (period_ticks task) s w;
          sch_run_periodic n cfg p env now s w
        })"

definition sch_run_background ::
  "sch_config \<Rightarrow> 'w port \<Rightarrow> ('f, 'c, 'h, 'w) sch_env \<Rightarrow> ('f, 'c, 'h) sch \<Rightarrow> 'w \<Rightarrow>
   (('f, 'c, 'h) sch \<times> 'w) option" where
  "sch_run_background cfg p env s w = do {
     let (background_state, w) = sch_port_enter_critical p w;
     let (background_id, s) = sch_select_background_task s;
     let i = unat background_id;
     let (background_fn, background_ctx) =
       (if background_id \<noteq> SCH_INVALID_TASK_ID then (fn (tasks s ! i), ctx (tasks s ! i))
        else (None, None));
     let w = sch_port_exit_critical p background_state w;
     if \<not> is_null background_fn then do {
       let w =
         (if sch_enable_trace cfg
          then let (t, w) = sch_port_now_ticks p w
               in sch_trace_emit env (Some s) SCH_TRACE_TASK_START background_id t w
          else w);
       let (s, w) =
         (if sch_enable_stats cfg
          then let (exec_start, w) = sch_port_now_ticks p w
               in (upd_stats i (\<lambda>st. st\<lparr>last_start_tick := exec_start\<rparr>) s, w)
          else (s, w));
       (s, w) \<leftarrow> call_fn env background_fn background_ctx s w;
       let (s, w) =
         (if sch_enable_stats cfg
          then let (exec_end, w) = sch_port_now_ticks p w
               in (upd_stats i (sch_stats_account exec_end) s, w)
          else (s, w));
       let w =
         (if sch_enable_trace cfg
          then let (t, w) = sch_port_now_ticks p w
               in sch_trace_emit env (Some s) SCH_TRACE_TASK_END background_id t w
          else w);
       Some (s, w)
     } else do {
       let w =
         (if sch_enable_trace cfg
          then let (t, w) = sch_port_now_ticks p w
               in sch_trace_emit env (Some s) SCH_TRACE_IDLE SCH_INVALID_TASK_ID t w
          else w);
       Some (s, sch_port_idle p w)
     }
   }"

definition sch_run ::
  "sch_config \<Rightarrow> 'w port \<Rightarrow> ('f, 'c, 'h, 'w) sch_env \<Rightarrow> ('f, 'c, 'h) sch option \<Rightarrow> 'w \<Rightarrow>
   (('f, 'c, 'h) sch option \<times> 'w) option" where
  "sch_run cfg p env scheduler w =
     (if is_null scheduler then Some (scheduler, w)
      else do {
        let (state, w) = sch_port_enter_critical p w;
        let (now, w) = sch_port_now_ticks p w;
        let (s, w) = sch_mark_periodic_ready cfg env (the scheduler) now w;
        let w = sch_port_exit_critical p state w;
        (s, w) \<leftarrow> sch_run_periodic SCH_MAX_TASKS cfg p env now s w;
        (s, w) \<leftarrow> sch_run_background cfg p env s w;
        Some (Some s, w)
      })"

section \<open>Instrumentation access\<close>

definition sch_reset_stats ::
  "'w port \<Rightarrow> ('f, 'c, 'h) sch option \<Rightarrow> 'w \<Rightarrow> ('f, 'c, 'h) sch option \<times> 'w" where
  "sch_reset_stats p scheduler w =
     (if is_null scheduler then (scheduler, w)
      else
        let (state, w) = sch_port_enter_critical p w;
            s = fold (\<lambda>i. upd_stats i sch_stats_clear_slot) [0..<SCH_MAX_TASKS] (the scheduler)
        in (Some s, sch_port_exit_critical p state w))"

definition sch_get_task_stats ::
  "('f, 'c, 'h) sch option \<Rightarrow> u32 \<Rightarrow> sch_task_stats option \<Rightarrow> bool \<times> sch_task_stats option" where
  "sch_get_task_stats scheduler task_id out_stats =
     (if is_null scheduler \<or> is_null out_stats \<or> of_nat SCH_MAX_TASKS \<le> task_id \<or>
         \<not> in_use (tasks (the scheduler) ! unat task_id)
      then (False, out_stats)
      else (True, Some (stats (the scheduler) ! unat task_id)))"

definition sch_set_trace_hook ::
  "'w port \<Rightarrow> ('f, 'c, 'h) sch option \<Rightarrow> 'h option \<Rightarrow> 'c option \<Rightarrow> 'w \<Rightarrow>
   ('f, 'c, 'h) sch option \<times> 'w" where
  "sch_set_trace_hook p scheduler hook user_ctx w =
     (if is_null scheduler then (scheduler, w)
      else
        let (state, w) = sch_port_enter_critical p w;
            s = (the scheduler)\<lparr>trace_hook := hook, trace_user_ctx := user_ctx\<rparr>
        in (Some s, sch_port_exit_critical p state w))"

end
