(* ===== verification/Scheduler_Time.thy ===== *)
theory Scheduler_Time
  imports Scheduler
begin

text \<open>
  The wrapping tick arithmetic of the scheduler. Ticks are 32-bit words; the comparisons
  are right for distances below half the range. The lemmas state exactly what
  \<open>sch_time_reached\<close> and \<open>sch_advance_next_release\<close> compute, first on words, then against
  unwrapped time (natural numbers that \<open>of_nat\<close> wraps), where a release is a point of the
  grid \<open>R, R + p, R + 2p, \<dots>\<close>.
\<close>

section \<open>Half-range comparison\<close>

lemma sint_nonneg_iff: "0 \<le> sint (x :: u32) \<longleftrightarrow> unat x < 2 ^ 31"
proof -
  have "uint x < 2 ^ LENGTH(32)" by (rule unsigned_less)
  then have b: "uint x < 4294967296" "0 \<le> uint x" by simp_all
  have "sint x = (uint x + 2147483648) mod 4294967296 - 2147483648"
    by (simp add: sint_uint signed_take_bit_eq_take_bit_shift take_bit_eq_mod)
  moreover have "(uint x + 2147483648) mod 4294967296 =
      (if uint x < 2147483648 then uint x + 2147483648 else uint x - 2147483648)"
    using b by (simp add: mod_pos_pos_trivial mod_pos_geq)
  ultimately have "0 \<le> sint x \<longleftrightarrow> uint x < 2147483648"
    using b by simp
  moreover have "unat x < 2147483648 \<longleftrightarrow> int (unat x) < int 2147483648"
    by (rule of_nat_less_iff [symmetric])
  ultimately show ?thesis by simp
qed

lemma time_reached_iff: "sch_time_reached now target \<longleftrightarrow> unat (now - target) < 2 ^ 31"
  by (simp add: sch_time_reached_def sint_nonneg_iff)

lemma unat_minus_pos: "unat (- x :: u32) = (if x = 0 then 0 else 2 ^ 32 - unat x)"
proof (cases "x = 0")
  case False
  have "unat x < 2 ^ LENGTH(32)" by (rule unsigned_less)
  then have b: "unat x \<le> 2 ^ 32" by simp
  have "(of_nat (2 ^ 32 - unat x) :: u32) = of_nat (2 ^ 32) - of_nat (unat x)"
    using b by (rule of_nat_diff)
  then have "(of_nat (2 ^ 32 - unat x) :: u32) = - x" by simp
  then have "unat (- x) = unat (of_nat (2 ^ 32 - unat x) :: u32)" by simp
  also have "\<dots> = 2 ^ 32 - unat x"
    using False unat_gt_0 [of x] by (simp add: unat_of_nat take_bit_eq_mod)
  finally show ?thesis using False by simp
qed simp

lemma time_reached_after: "sch_time_reached (t + d) t \<longleftrightarrow> unat d < 2 ^ 31"
  by (simp add: time_reached_iff)

lemma time_reached_before: "sch_time_reached now (now + d) \<longleftrightarrow> d = 0 \<or> 2 ^ 31 < unat d"
proof -
  have "unat d < 2 ^ LENGTH(32)" by (rule unsigned_less)
  then show ?thesis by (auto simp: time_reached_iff unat_minus_pos unat_gt_0)
qed

section \<open>The next release\<close>

lemma advance_early:
  "\<not> sch_time_reached now release \<Longrightarrow> sch_advance_next_release now release period = release"
  by (simp add: sch_advance_next_release_def sch_time_reached_def)

lemma advance_background: "sch_advance_next_release now release 0 = release"
  by (simp add: sch_advance_next_release_def)

text \<open>The skipped releases are counted without wrap-around: the lateness is below half the range.\<close>

lemma advance_late:
  assumes "sch_time_reached now release" and "period \<noteq> 0"
  shows "sch_advance_next_release now release period =
    release + of_nat (unat (now - release) div unat period + 1) * period"
proof -
  have "unat (now - release) < 2 ^ 31" using assms(1) by (simp add: time_reached_iff)
  then have "\<not> sint (now - release) < 0" using sint_nonneg_iff [of "now - release"] by simp
  moreover have "(now - release) div period + 1 = of_nat (unat (now - release) div unat period + 1)"
    by (simp add: unat_div [symmetric] add.commute)
  ultimately show ?thesis
    using assms(2) by (simp add: sch_advance_next_release_def Let_def algebra_simps)
qed

lemma advance_distance:
  assumes "sch_time_reached now release" and "period \<noteq> 0"
  shows "unat (sch_advance_next_release now release period - now) =
    unat period - unat (now - release) mod unat period"
proof -
  let ?d = "unat (now - release)" and ?p = "unat period"
  have p: "0 < ?p" using assms(2) by (simp add: unat_gt_0)
  have eq: "?d + (?p - ?d mod ?p) = (?d div ?p + 1) * ?p"
  proof -
    have "?d mod ?p < ?p" "?d div ?p * ?p + ?d mod ?p = ?d"
      using p by (simp_all add: div_mult_mod_eq)
    then show ?thesis unfolding distrib_right mult_1 by linarith
  qed
  have "sch_advance_next_release now release period - now =
      of_nat (?d div ?p + 1) * of_nat ?p - of_nat ?d"
    using advance_late [OF assms] by (simp add: algebra_simps)
  also have "\<dots> = of_nat (?d + (?p - ?d mod ?p)) - of_nat ?d"
    by (simp only: eq of_nat_mult)
  also have "\<dots> = of_nat (?p - ?d mod ?p)"
    by simp
  finally have "sch_advance_next_release now release period - now = of_nat (?p - ?d mod ?p)" .
  moreover have "?p - ?d mod ?p < 2 ^ LENGTH(32)"
    using unsigned_less [of period] by (rule le_less_trans [OF diff_le_self])
  ultimately show ?thesis by (simp add: unat_of_nat take_bit_nat_eq_self take_bit_eq_mod)
qed

text \<open>
  So the new release is not yet reached, and at most one period away, for every period up
  to half the range.
\<close>

lemma advance_not_reached:
  assumes "sch_time_reached now release" and "period \<noteq> 0" and "unat period \<le> 2 ^ 31"
  shows "\<not> sch_time_reached now (sch_advance_next_release now release period)"
proof -
  let ?r = "sch_advance_next_release now release period"
  have "0 < unat period" using assms(2) by (simp add: unat_gt_0)
  then have "unat (?r - now) \<le> 2 ^ 31" "0 < unat (?r - now)"
    using advance_distance [OF assms(1,2)] assms(3) by simp_all
  then show ?thesis
    using time_reached_before [of now "?r - now"] by (auto simp: unat_gt_0)
qed

section \<open>Unwrapped time\<close>

text \<open>The first point of the grid from \<open>R\<close> with step \<open>p\<close> that lies strictly after \<open>T\<close>.\<close>

definition next_grid :: "nat \<Rightarrow> nat \<Rightarrow> nat \<Rightarrow> nat" where
  "next_grid R p T = R + ((T - R) div p + 1) * p"

lemma next_grid_bounds:
  assumes "R \<le> T" and "0 < p"
  shows "T < next_grid R p T" and "next_grid R p T \<le> T + p"
proof -
  have "(T - R) div p * p \<le> T - R" by simp
  moreover have "T - R < (T - R) div p * p + p"
    using assms(2) by (metis add.commute dividend_less_div_times)
  ultimately show "T < next_grid R p T" and "next_grid R p T \<le> T + p"
    using assms(1) unfolding next_grid_def distrib_right mult_1 by linarith+
qed

lemma next_grid_first:
  assumes "R \<le> T" and "0 < p" and "T < R + j * p"
  shows "next_grid R p T \<le> R + j * p"
proof -
  have "T - R < j * p" using assms(1,3) by simp
  then have "(T - R) div p < j" using assms(2) by (simp add: div_less_iff_less_mult)
  then have "((T - R) div p + 1) * p \<le> j * p" by (intro mult_le_mono1) simp
  then show ?thesis by (simp add: next_grid_def)
qed

lemma of_nat_diff_less:
  assumes "b \<le> a" and "a - b < 2 ^ 31"
  shows "unat (of_nat a - of_nat b :: u32) = a - b"
  using assms by (simp flip: of_nat_diff add: unat_of_nat take_bit_nat_eq_self take_bit_eq_mod)

lemma time_reached_of_nat:
  assumes "a < b + 2 ^ 31" and "b \<le> a + 2 ^ 31"
  shows "sch_time_reached (of_nat a) (of_nat b) \<longleftrightarrow> b \<le> a"
proof (cases "b \<le> a")
  case True
  then show ?thesis using of_nat_diff_less [of b a] assms(1) by (simp add: time_reached_iff)
next
  case False
  define d where "d = b - a"
  have d: "b = a + d" "0 < d" "d \<le> 2 ^ 31" using False assms(2) by (simp_all add: d_def)
  then have "unat (of_nat d :: u32) = d" by (simp add: unat_of_nat take_bit_eq_mod)
  with d False show ?thesis
    using time_reached_before [of "of_nat a" "of_nat d"] by auto
qed

lemma advance_of_nat:
  assumes "R \<le> T" and "T - R < 2 ^ 31" and "0 < p" and "p < 2 ^ 32"
  shows "sch_advance_next_release (of_nat T) (of_nat R) (of_nat p) = of_nat (next_grid R p T)"
proof -
  have p: "unat (of_nat p :: u32) = p" using assms(4) by (simp add: unat_of_nat take_bit_eq_mod)
  then have p0: "(of_nat p :: u32) \<noteq> 0" using assms(3) by (metis less_irrefl unat_0)
  have d: "unat (of_nat T - of_nat R :: u32) = T - R" using assms(1,2) by (rule of_nat_diff_less)
  have "sch_time_reached (of_nat T) (of_nat R)" using d assms(2) by (simp add: time_reached_iff)
  from advance_late [OF this p0] show ?thesis by (simp add: d p next_grid_def algebra_simps)
qed

end
