(* ===== verification/Scheduler_Inv.thy ===== *)
theory Scheduler_Inv
  imports Scheduler_Time
begin

text \<open>
  The well-formedness invariant of a scheduler instance, and what initialisation, task
  registration, marking and the instrumentation calls do to it. \<open>sch_shape\<close> is what the C
  type itself guarantees (array lengths).
\<close>

section \<open>Slot updates\<close>

lemma upd_task_fields [simp]:
  "tasks (upd_task i g s) = (tasks s)[i := g (tasks s ! i)]"
  "task_count (upd_task i g s) = task_count s"
  "next_background_idx (upd_task i g s) = next_background_idx s"
  "stats (upd_task i g s) = stats s"
  "trace_hook (upd_task i g s) = trace_hook s"
  "trace_user_ctx (upd_task i g s) = trace_user_ctx s"
  by (simp_all add: upd_task_def)

lemma upd_stats_fields [simp]:
  "tasks (upd_stats i h s) = tasks s"
  "task_count (upd_stats i h s) = task_count s"
  "next_background_idx (upd_stats i h s) = next_background_idx s"
  "stats (upd_stats i h s) = (stats s)[i := h (stats s ! i)]"
  "trace_hook (upd_stats i h s) = trace_hook s"
  "trace_user_ctx (upd_stats i h s) = trace_user_ctx s"
  by (simp_all add: upd_stats_def)

lemma fold_upd_task:
  "n \<le> length (tasks s) \<Longrightarrow>
   fold (\<lambda>i. upd_task i g) [0..<n] s = s\<lparr>tasks := map g (take n (tasks s)) @ drop n (tasks s)\<rparr>"
proof -
  have "fold (\<lambda>i. upd_task i g) is s =
      s\<lparr>tasks := fold (\<lambda>i ys. ys[i := g (ys ! i)]) is (tasks s)\<rparr>" for "is" and s :: "('a, 'b, 'c) sch"
    by (induction "is" arbitrary: s) (simp_all add: upd_task_def)
  then show "n \<le> length (tasks s) \<Longrightarrow>
      fold (\<lambda>i. upd_task i g) [0..<n] s = s\<lparr>tasks := map g (take n (tasks s)) @ drop n (tasks s)\<rparr>"
    by (simp add: fold_upt_update)
qed

lemma fold_upd_stats:
  "n \<le> length (stats s) \<Longrightarrow>
   fold (\<lambda>i. upd_stats i g) [0..<n] s = s\<lparr>stats := map g (take n (stats s)) @ drop n (stats s)\<rparr>"
proof -
  have "fold (\<lambda>i. upd_stats i g) is s =
      s\<lparr>stats := fold (\<lambda>i ys. ys[i := g (ys ! i)]) is (stats s)\<rparr>" for "is" and s :: "('a, 'b, 'c) sch"
    by (induction "is" arbitrary: s) (simp_all add: upd_stats_def)
  then show "n \<le> length (stats s) \<Longrightarrow>
      fold (\<lambda>i. upd_stats i g) [0..<n] s = s\<lparr>stats := map g (take n (stats s)) @ drop n (stats s)\<rparr>"
    by (simp add: fold_upt_update)
qed

section \<open>Invariant\<close>

definition sch_shape :: "('f, 'c, 'h) sch \<Rightarrow> bool" where
  "sch_shape s \<longleftrightarrow> length (tasks s) = SCH_MAX_TASKS \<and> length (stats s) = SCH_MAX_TASKS"

definition task_wf :: "('f, 'c) sch_task \<Rightarrow> bool" where
  "task_wf t \<longleftrightarrow>
     (in_use t \<longrightarrow> \<not> is_null (fn t) \<and> enabled t) \<and> (\<not> in_use t \<longrightarrow> \<not> pending t) \<and>
     (pending t \<longrightarrow> period_ticks t \<noteq> 0)"

definition sch_wf :: "('f, 'c, 'h) sch \<Rightarrow> bool" where
  "sch_wf s \<longleftrightarrow> sch_shape s \<and> unat (next_background_idx s) < SCH_MAX_TASKS \<and>
     unat (task_count s) = length (filter in_use (tasks s)) \<and> list_all task_wf (tasks s)"

text \<open>Between two runs no task is pending.\<close>

definition sch_quiet :: "('f, 'c, 'h) sch \<Rightarrow> bool" where
  "sch_quiet s \<longleftrightarrow> list_all (\<lambda>t. \<not> pending t) (tasks s)"

lemma SCH_MAX_TASKS_pos [simp]: "0 < SCH_MAX_TASKS" "SCH_MAX_TASKS \<noteq> 0"
  by (simp_all add: SCH_MAX_TASKS_def)

lemma unat_of_slot [simp]: "i < SCH_MAX_TASKS \<Longrightarrow> unat (of_nat i :: 32 word) = i"
  by (simp add: SCH_MAX_TASKS_def unat_of_nat take_bit_eq_mod)

lemma unat_max_tasks [simp]: "unat (of_nat SCH_MAX_TASKS :: 32 word) = SCH_MAX_TASKS"
  by (simp add: SCH_MAX_TASKS_def)

lemma slot_valid [simp]: "i < SCH_MAX_TASKS \<Longrightarrow> of_nat i \<noteq> SCH_INVALID_TASK_ID"
proof
  assume "i < SCH_MAX_TASKS" and "of_nat i = SCH_INVALID_TASK_ID"
  then have "i = unat SCH_INVALID_TASK_ID" by (metis unat_of_slot)
  moreover have "unat SCH_INVALID_TASK_ID = 2 ^ 32 - 1"
    by (simp add: SCH_INVALID_TASK_ID_def unat_minus_pos)
  ultimately show False using \<open>i < SCH_MAX_TASKS\<close> by (simp add: SCH_MAX_TASKS_def)
qed

lemma shape_lengths:
  "sch_shape s \<Longrightarrow> length (tasks s) = SCH_MAX_TASKS"
  "sch_shape s \<Longrightarrow> length (stats s) = SCH_MAX_TASKS"
  by (simp_all add: sch_shape_def)

lemma shape_upd [simp]:
  "sch_shape (upd_task i g s) = sch_shape s" "sch_shape (upd_stats i h s) = sch_shape s"
  by (simp_all add: sch_shape_def)

lemma wf_shape: "sch_wf s \<Longrightarrow> sch_shape s"
  by (simp add: sch_wf_def)

lemma wf_lengths:
  "sch_wf s \<Longrightarrow> length (tasks s) = SCH_MAX_TASKS"
  "sch_wf s \<Longrightarrow> length (stats s) = SCH_MAX_TASKS"
  by (simp_all add: wf_shape shape_lengths)

lemma wf_task: "sch_wf s \<Longrightarrow> i < SCH_MAX_TASKS \<Longrightarrow> task_wf (tasks s ! i)"
  using wf_lengths [of s] by (simp add: sch_wf_def list_all_length)

lemma wf_upd_stats [simp]: "sch_wf (upd_stats i h s) = sch_wf s"
  by (simp add: sch_wf_def)

lemma wf_upd_task:
  assumes "sch_wf s" and "i < SCH_MAX_TASKS" and "task_wf (g (tasks s ! i))"
    and "in_use (g (tasks s ! i)) = in_use (tasks s ! i)"
  shows "sch_wf (upd_task i g s)"
proof -
  have "length (filter in_use ((tasks s)[i := g (tasks s ! i)])) = length (filter in_use (tasks s))"
    using length_filter_update [of i "tasks s" in_use "g (tasks s ! i)"] assms
    by (simp add: wf_lengths)
  moreover have "list_all task_wf ((tasks s)[i := g (tasks s ! i)])"
    using assms by (simp add: sch_wf_def list_all_length nth_list_update_if)
  ultimately show ?thesis using assms(1) by (simp add: sch_wf_def)
qed

section \<open>Initialisation\<close>

definition empty_task :: "('f, 'c) sch_task" where
  "empty_task = \<lparr>fn = None, ctx = None, period_ticks = 0, next_release = 0,
     priority = SCH_LOWEST_PRIORITY, enabled = False, pending = False, in_use = False\<rparr>"

definition empty_stats :: sch_task_stats where
  "empty_stats = \<lparr>run_count = 0, miss_count = 0, overrun_count = 0, last_start_tick = 0,
     last_end_tick = 0, last_exec_ticks = 0, max_exec_ticks = 0, total_exec_ticks = 0\<rparr>"

definition empty_sch :: "sch_config \<Rightarrow> ('f, 'c, 'h) sch \<Rightarrow> ('f, 'c, 'h) sch" where
  "empty_sch cfg s =
     \<lparr>tasks = replicate SCH_MAX_TASKS empty_task, task_count = 0, next_background_idx = 0,
      stats = (if sch_enable_stats cfg then replicate SCH_MAX_TASKS empty_stats else stats s),
      trace_hook = (if sch_enable_trace cfg then None else trace_hook s),
      trace_user_ctx = (if sch_enable_trace cfg then None else trace_user_ctx s)\<rparr>"

lemma clear_slot_eq: "sch_stats_clear_slot st = empty_stats"
  by (cases st) (simp add: sch_stats_clear_slot_def empty_stats_def)

lemma clear_slot_fun: "sch_stats_clear_slot = (\<lambda>st. empty_stats)"
  by (rule ext) (rule clear_slot_eq)

lemma clear_task_eq:
  "t\<lparr>fn := None, ctx := None, period_ticks := 0, next_release := 0,
     priority := SCH_LOWEST_PRIORITY, enabled := False, pending := False, in_use := False\<rparr> = empty_task"
  by (cases t) (simp add: empty_task_def)

lemma init_eq:
  assumes "sch_shape s"
  shows "sch_init cfg p (Some s) w = (Some (empty_sch cfg s), crit p w)"
proof -
  have t: "map (\<lambda>t. empty_task) (tasks s) = replicate SCH_MAX_TASKS empty_task"
    and st: "map (\<lambda>st. empty_stats) (stats s) = replicate SCH_MAX_TASKS empty_stats"
    using assms by (simp_all add: map_replicate_const shape_lengths)
  show ?thesis
    using assms t st
    by (cases s)
      (simp add: sch_init_def crit_def split_beta clear_task_eq fold_upd_task fold_upd_stats
        empty_sch_def sch_shape_def clear_slot_fun)
qed

lemma init_wf:
  assumes "sch_shape s"
  shows "sch_wf (empty_sch cfg s)" and "sch_quiet (empty_sch cfg s)"
    and "filter in_use (tasks (empty_sch cfg s)) = []"
  using assms
  by (simp_all add: sch_wf_def sch_shape_def sch_quiet_def empty_sch_def empty_task_def task_wf_def
      list_all_length filter_replicate)

section \<open>Registration\<close>

definition free_slot :: "('f, 'c, 'h) sch \<Rightarrow> nat option" where
  "free_slot s = find (\<lambda>i. \<not> in_use (tasks s ! i)) [0..<SCH_MAX_TASKS]"

definition new_task :: "'f option \<Rightarrow> 'c option \<Rightarrow> u32 \<Rightarrow> u32 \<Rightarrow> u16 \<Rightarrow> ('f, 'c) sch_task" where
  "new_task f c period release prio =
     \<lparr>fn = f, ctx = c, period_ticks = period, next_release = release, priority = prio,
      enabled = True, pending = False, in_use = True\<rparr>"

definition add_at ::
  "sch_config \<Rightarrow> nat \<Rightarrow> ('f, 'c) sch_task \<Rightarrow> ('f, 'c, 'h) sch \<Rightarrow> ('f, 'c, 'h) sch" where
  "add_at cfg i t s =
     s\<lparr>tasks := (tasks s)[i := t], task_count := task_count s + 1,
       stats := (if sch_enable_stats cfg then (stats s)[i := empty_stats] else stats s)\<rparr>"

lemma full_iff:
  assumes "sch_wf s"
  shows "of_nat SCH_MAX_TASKS \<le> task_count s \<longleftrightarrow> free_slot s = None"
proof -
  have "of_nat SCH_MAX_TASKS \<le> task_count s \<longleftrightarrow> length (filter in_use (tasks s)) = length (tasks s)"
    using assms length_filter_le [of in_use "tasks s"]
    by (auto simp: word_le_nat_alt sch_wf_def sch_shape_def)
  also have "\<dots> \<longleftrightarrow> free_slot s = None"
    unfolding length_filter_full_iff
    using assms by (simp add: list_all_length free_slot_def find_upt_None_iff wf_lengths)
  finally show ?thesis .
qed

lemma add_task_full:
  assumes "sch_wf s" and "free_slot s = None"
  shows "sch_add_task cfg p (Some s) (Some f) c period delay prio w =
    (SCH_ERR_NO_SPACE, Some s, crit p w)"
  using full_iff [OF assms(1)] assms(2)
  by (simp add: sch_add_task_def crit_def split_beta)

text \<open>The platform after a section that also reads the clock, and the value read.\<close>

definition crit_now :: "'w port \<Rightarrow> 'w \<Rightarrow> u32 \<times> 'w" where
  "crit_now p w =
     (let (state, w) = sch_port_enter_critical p w; (now, w) = sch_port_now_ticks p w
      in (now, sch_port_exit_critical p state w))"

lemma add_task_free:
  assumes "sch_wf s" and "free_slot s = Some i"
  shows "sch_add_task cfg p (Some s) (Some f) c period delay prio w =
    (of_nat i,
     Some (add_at cfg i (new_task (Some f) c period (fst (crit_now p w) + delay) prio) s),
     snd (crit_now p w))"
proof -
  have "\<not> of_nat SCH_MAX_TASKS \<le> task_count s" using full_iff [OF assms(1)] assms(2) by simp
  moreover have "t\<lparr>fn := Some f, ctx := c, period_ticks := period, next_release := r,
      priority := prio, enabled := True, pending := False, in_use := True\<rparr> =
      new_task (Some f) c period r prio" for t r
    by (cases t) (simp add: new_task_def)
  ultimately show ?thesis
    using assms(2)
    by (simp add: sch_add_task_def free_slot_def crit_now_def split_beta Let_def add_at_def
        upd_task_def upd_stats_def clear_slot_eq)
qed

lemma free_slot_SomeD:
  "free_slot s = Some i \<Longrightarrow> i < SCH_MAX_TASKS \<and> \<not> in_use (tasks s ! i) \<and> (\<forall>j<i. in_use (tasks s ! j))"
  by (simp add: free_slot_def find_upt_Some_iff)

lemma add_at_wf:
  assumes "sch_wf s" and "free_slot s = Some i" and "task_wf t" and "in_use t"
  shows "sch_wf (add_at cfg i t s)"
proof -
  from assms(2) have i: "i < SCH_MAX_TASKS" "\<not> in_use (tasks s ! i)"
    by (simp_all add: free_slot_SomeD)
  have len: "length (filter in_use ((tasks s)[i := t])) = length (filter in_use (tasks s)) + 1"
    using length_filter_update [of i "tasks s" in_use t] assms i by (simp add: wf_lengths)
  have "length (filter in_use ((tasks s)[i := t])) \<le> SCH_MAX_TASKS"
    using length_filter_le [of in_use "(tasks s)[i := t]"] assms(1) by (simp add: wf_lengths)
  then have "unat (task_count s + 1) = unat (task_count s) + 1"
    using len assms(1) by (intro unat_Suc_no_wrap) (simp add: sch_wf_def SCH_MAX_TASKS_def)
  moreover have "list_all task_wf ((tasks s)[i := t])"
    using assms i by (simp add: sch_wf_def list_all_length nth_list_update_if)
  ultimately show ?thesis
    using assms(1) len by (simp add: sch_wf_def sch_shape_def add_at_def)
qed

lemma new_task_wf [simp]: "task_wf (new_task (Some f) c period r prio)" "in_use (new_task f' c period r prio)"
  "pending (new_task f' c period r prio) = False"
  by (simp_all add: new_task_def task_wf_def)

lemma add_at_quiet:
  "sch_wf s \<Longrightarrow> free_slot s = Some i \<Longrightarrow> sch_quiet s \<Longrightarrow> \<not> pending t \<Longrightarrow> sch_quiet (add_at cfg i t s)"
  by (auto simp: sch_quiet_def add_at_def list_all_length nth_list_update_if wf_lengths)

section \<open>Marking\<close>

definition is_due :: "u32 \<Rightarrow> ('f, 'c) sch_task \<Rightarrow> bool" where
  "is_due now t \<longleftrightarrow> in_use t \<and> enabled t \<and> period_ticks t \<noteq> 0 \<and> sch_time_reached now (next_release t)"

definition mark_task :: "u32 \<Rightarrow> ('f, 'c) sch_task \<Rightarrow> ('f, 'c) sch_task" where
  "mark_task now t = (if is_due now t then t\<lparr>pending := True\<rparr> else t)"

lemma mark_slot_tasks:
  "tasks (fst (sch_mark_slot cfg env now i (s, w))) = (tasks s)[i := mark_task now (tasks s ! i)]"
  "task_count (fst (sch_mark_slot cfg env now i (s, w))) = task_count s"
  "next_background_idx (fst (sch_mark_slot cfg env now i (s, w))) = next_background_idx s"
  "sch_shape (fst (sch_mark_slot cfg env now i (s, w))) = sch_shape s"
  by (auto simp: sch_mark_slot_def Let_def mark_task_def is_due_def)

text \<open>A slot that is not pending is marked without touching statistics or trace.\<close>

lemma mark_slot_quiet:
  "\<not> pending (tasks s ! i) \<Longrightarrow>
   sch_mark_slot cfg env now i (s, w) = (upd_task i (mark_task now) s, w)"
  by (auto simp: sch_mark_slot_def Let_def mark_task_def is_due_def upd_task_def)

lemma mark_fold:
  assumes "sch_shape s" and "n \<le> SCH_MAX_TASKS"
  shows "let (s', w') = fold (sch_mark_slot cfg env now) [0..<n] (s, w)
    in tasks s' = map (mark_task now) (take n (tasks s)) @ drop n (tasks s) \<and>
       task_count s' = task_count s \<and> next_background_idx s' = next_background_idx s \<and>
       sch_shape s'"
  using assms(2)
proof (induction n)
  case 0
  then show ?case using assms(1) by simp
next
  case (Suc n)
  obtain s1 w1 where f: "fold (sch_mark_slot cfg env now) [0..<n] (s, w) = (s1, w1)"
    by (metis surj_pair)
  obtain s2 w2 where g: "sch_mark_slot cfg env now n (s1, w1) = (s2, w2)"
    by (metis surj_pair)
  from Suc f have s1: "tasks s1 = map (mark_task now) (take n (tasks s)) @ drop n (tasks s)"
    "task_count s1 = task_count s" "next_background_idx s1 = next_background_idx s" "sch_shape s1"
    by simp_all
  have "tasks s2 = (tasks s1)[n := mark_task now (tasks s1 ! n)]" "task_count s2 = task_count s1"
    "next_background_idx s2 = next_background_idx s1" "sch_shape s2 = sch_shape s1"
    using mark_slot_tasks [of cfg env now n s1 w1] g by simp_all
  moreover have "drop n (tasks s) = tasks s ! n # drop (Suc n) (tasks s)"
    using Suc.prems assms(1) by (simp add: Cons_nth_drop_Suc shape_lengths)
  ultimately show ?case
    using s1 Suc.prems assms(1) f g
    by (simp add: shape_lengths take_Suc_conv_app_nth nth_append list_update_append min_def)
qed

lemma mark_all:
  assumes "sch_shape s" and "sch_mark_periodic_ready cfg env s now w = (s', w')"
  shows "tasks s' = map (mark_task now) (tasks s)" and "task_count s' = task_count s"
    and "next_background_idx s' = next_background_idx s" and "sch_shape s'"
  using mark_fold [OF assms(1) order_refl, of cfg env now w] assms
  by (simp_all add: sch_mark_periodic_ready_def shape_lengths)

lemma mark_all_quiet:
  assumes "sch_shape s" and "sch_quiet s"
  shows "sch_mark_periodic_ready cfg env s now w = (s\<lparr>tasks := map (mark_task now) (tasks s)\<rparr>, w)"
proof -
  have "fold (sch_mark_slot cfg env now) [0..<n] (s, w) =
      (s\<lparr>tasks := map (mark_task now) (take n (tasks s)) @ drop n (tasks s)\<rparr>, w)"
    if "n \<le> SCH_MAX_TASKS" for n
    using that
  proof (induction n)
    case 0
    then show ?case by simp
  next
    case (Suc n)
    have "drop n (tasks s) = tasks s ! n # drop (Suc n) (tasks s)"
      using Suc.prems assms(1) by (simp add: Cons_nth_drop_Suc shape_lengths)
    moreover have "\<not> pending (tasks s ! n)"
      using Suc.prems assms by (simp add: sch_quiet_def list_all_length shape_lengths)
    ultimately show ?case
      using Suc assms(1)
      by (simp add: shape_lengths mark_slot_quiet upd_task_def take_Suc_conv_app_nth nth_append
          list_update_append min_def)
  qed
  from this [OF order_refl] show ?thesis
    using assms(1) by (simp add: sch_mark_periodic_ready_def shape_lengths)
qed

lemma mark_task_wf: "task_wf t \<Longrightarrow> task_wf (mark_task now t)" "in_use (mark_task now t) = in_use t"
  by (auto simp: mark_task_def task_wf_def is_due_def)

lemma mark_wf:
  assumes "sch_wf s" and "sch_mark_periodic_ready cfg env s now w = (s', w')"
  shows "sch_wf s'"
proof -
  note m = mark_all [OF wf_shape [OF assms(1)] assms(2)]
  have "filter in_use (map (mark_task now) (tasks s)) = map (mark_task now) (filter in_use (tasks s))"
    by (simp add: filter_map comp_def mark_task_wf)
  then show ?thesis
    using m assms(1) by (simp add: sch_wf_def list_all_length mark_task_wf)
qed

end
