(* ===== verification/Scheduler_Select.thy ===== *)
theory Scheduler_Select
  imports Scheduler_Inv
begin

text \<open>
  The order in which one run dispatches its ready set. A task is dispatched by its key,
  the priority with the slot number to break ties; \<open>dispatch_order\<close> sorts the ready slots by
  it. The selection loop of \<open>sch_select_pending_task\<close> returns the head of that order, and
  taking the selected task leaves its tail, whatever well-behaved code runs in between.
\<close>

section \<open>Dispatch keys\<close>

datatype dispatch_key = Dispatch_Key (key_priority: u16) (key_slot: nat)

instantiation dispatch_key :: linorder
begin

definition less_eq_dispatch_key :: "dispatch_key \<Rightarrow> dispatch_key \<Rightarrow> bool" where
  "less_eq_dispatch_key a b \<longleftrightarrow>
     key_priority a < key_priority b \<or> (key_priority a = key_priority b \<and> key_slot a \<le> key_slot b)"

definition less_dispatch_key :: "dispatch_key \<Rightarrow> dispatch_key \<Rightarrow> bool" where
  "less_dispatch_key a b \<longleftrightarrow>
     key_priority a < key_priority b \<or> (key_priority a = key_priority b \<and> key_slot a < key_slot b)"

instance
  by standard (auto simp: less_eq_dispatch_key_def less_dispatch_key_def intro: dispatch_key.expand)

end

lemma key_le_iff:
  "Dispatch_Key p i \<le> Dispatch_Key q j \<longleftrightarrow> p < q \<or> (p = q \<and> i \<le> j)"
  by (simp add: less_eq_dispatch_key_def)

section \<open>The ready set\<close>

definition is_ready :: "('f, 'c) sch_task \<Rightarrow> bool" where
  "is_ready t \<longleftrightarrow> in_use t \<and> enabled t \<and> pending t \<and> period_ticks t \<noteq> 0"

definition ready_slots :: "('f, 'c, 'h) sch \<Rightarrow> nat list" where
  "ready_slots s = filter (\<lambda>i. is_ready (tasks s ! i)) [0..<SCH_MAX_TASKS]"

definition slot_key :: "('f, 'c, 'h) sch \<Rightarrow> nat \<Rightarrow> dispatch_key" where
  "slot_key s i = Dispatch_Key (priority (tasks s ! i)) i"

definition dispatch_order :: "('f, 'c, 'h) sch \<Rightarrow> nat list" where
  "dispatch_order s = map key_slot (sort (map (slot_key s) (ready_slots s)))"

lemma key_slot_key [simp]: "key_slot (slot_key s i) = i"
  by (simp add: slot_key_def)

lemma set_dispatch_order: "set (dispatch_order s) = {i. i < SCH_MAX_TASKS \<and> is_ready (tasks s ! i)}"
  by (auto simp: dispatch_order_def ready_slots_def image_image)

lemma distinct_dispatch_order: "distinct (dispatch_order s)"
proof -
  have "distinct (map (slot_key s) (ready_slots s))"
    by (simp add: distinct_map ready_slots_def inj_on_def slot_key_def)
  moreover have "inj_on key_slot (set (map (slot_key s) (ready_slots s)))"
    by (auto simp: inj_on_def)
  ultimately show ?thesis by (simp add: dispatch_order_def distinct_map)
qed

lemma length_dispatch_order: "length (dispatch_order s) \<le> SCH_MAX_TASKS"
  using length_filter_le [of _ "[0..<SCH_MAX_TASKS]"]
  by (simp add: dispatch_order_def ready_slots_def)

lemma sorted_dispatch_order: "sorted (map (slot_key s) (dispatch_order s))"
proof -
  have "map (slot_key s) (dispatch_order s) = sort (map (slot_key s) (ready_slots s))"
    unfolding dispatch_order_def map_map by (rule map_idI) (auto simp: slot_key_def)
  then show ?thesis by simp
qed

text \<open>The first slot of the order is the only ready slot with a minimal key.\<close>

lemma dispatch_order_hd:
  assumes "k < SCH_MAX_TASKS" and "is_ready (tasks s ! k)"
    and "\<And>j. j < SCH_MAX_TASKS \<Longrightarrow> is_ready (tasks s ! j) \<Longrightarrow> slot_key s k \<le> slot_key s j"
  shows "dispatch_order s \<noteq> [] \<and> hd (dispatch_order s) = k"
proof -
  have k: "k \<in> set (dispatch_order s)" using assms(1,2) by (simp add: set_dispatch_order)
  then obtain h rest where o: "dispatch_order s = h # rest" by (cases "dispatch_order s") auto
  then have "h \<in> set (dispatch_order s)" by simp
  then have "slot_key s k \<le> slot_key s h" using assms(3) by (simp add: set_dispatch_order)
  moreover have "slot_key s h \<le> slot_key s k"
    using sorted_dispatch_order [of s] o k by auto
  ultimately have "slot_key s h = slot_key s k" by (rule order.antisym [rotated])
  then show ?thesis using o by (simp add: slot_key_def)
qed

section \<open>The selection loop\<close>

lemma select_fold:
  assumes "n \<le> SCH_MAX_TASKS"
  shows "(if \<exists>i<n. is_ready (tasks s ! i)
     then \<exists>k<n. is_ready (tasks s ! k) \<and>
       fold (sch_select_step s) [0..<n] (SCH_INVALID_TASK_ID, SCH_LOWEST_PRIORITY) =
         (of_nat k, priority (tasks s ! k)) \<and>
       (\<forall>j<n. is_ready (tasks s ! j) \<longrightarrow> slot_key s k \<le> slot_key s j)
     else fold (sch_select_step s) [0..<n] (SCH_INVALID_TASK_ID, SCH_LOWEST_PRIORITY) =
       (SCH_INVALID_TASK_ID, SCH_LOWEST_PRIORITY))"
  using assms
proof (induction n)
  case 0
  then show ?case by simp
next
  case (Suc n)
  let ?acc = "fold (sch_select_step s) [0..<n] (SCH_INVALID_TASK_ID, SCH_LOWEST_PRIORITY)"
  have fold: "fold (sch_select_step s) [0..<Suc n] (SCH_INVALID_TASK_ID, SCH_LOWEST_PRIORITY) =
      sch_select_step s n ?acc"
    by simp
  have skip: "sch_select_step s n sb = sb" if "\<not> is_ready (tasks s ! n)" for sb
    using that by (cases sb) (simp add: sch_select_step_def is_ready_def)
  show ?case
  proof (cases "\<exists>i<n. is_ready (tasks s ! i)")
    case False
    then have acc: "?acc = (SCH_INVALID_TASK_ID, SCH_LOWEST_PRIORITY)"
      using Suc by simp
    show ?thesis
    proof (cases "is_ready (tasks s ! n)")
      case True
      then have "sch_select_step s n ?acc = (of_nat n, priority (tasks s ! n))"
        by (simp add: acc sch_select_step_def is_ready_def)
      with True False show ?thesis
        by (auto simp: fold less_Suc_eq intro!: exI [of _ n])
    next
      case notready: False
      with False have "\<not> (\<exists>i<Suc n. is_ready (tasks s ! i))" by (auto simp: less_Suc_eq)
      then show ?thesis unfolding fold skip [OF notready] acc by (simp only: if_False)
    qed
  next
    case True
    then obtain k where k: "k < n" "is_ready (tasks s ! k)"
      "?acc = (of_nat k, priority (tasks s ! k))"
      "\<And>j. j < n \<Longrightarrow> is_ready (tasks s ! j) \<Longrightarrow> slot_key s k \<le> slot_key s j"
      using Suc by auto
    have ex: "\<exists>i<Suc n. is_ready (tasks s ! i)" using True less_Suc_eq by auto
    have sel: "(of_nat k :: i32) \<noteq> SCH_INVALID_TASK_ID" "\<not> (of_nat n :: i32) < of_nat k"
      using k(1) Suc.prems by (simp_all add: word_less_nat_alt)
    show ?thesis
    proof (cases "is_ready (tasks s ! n) \<and> priority (tasks s ! n) < priority (tasks s ! k)")
      case better: True
      then have "sch_select_step s n ?acc = (of_nat n, priority (tasks s ! n))"
        by (simp add: k(3) sch_select_step_def is_ready_def)
      moreover have "slot_key s n \<le> slot_key s j" if "j < Suc n" "is_ready (tasks s ! j)" for j
        using that k(4) [of j] better by (auto simp: less_Suc_eq slot_key_def key_le_iff)
      ultimately show ?thesis using better ex by (auto simp: fold)
    next
      case worse: False
      then have "sch_select_step s n ?acc = (of_nat k, priority (tasks s ! k))"
        using sel by (auto simp: k(3) sch_select_step_def is_ready_def Let_def)
      moreover have "slot_key s k \<le> slot_key s j" if "j < Suc n" "is_ready (tasks s ! j)" for j
        using that k(1) k(4) [of j] worse by (auto simp: less_Suc_eq slot_key_def key_le_iff)
      moreover have "k < Suc n" using k(1) by simp
      ultimately show ?thesis unfolding if_P [OF ex] fold using k(2) by blast
    qed
  qed
qed

lemma select_eq:
  "sch_select_pending_task s =
     (case dispatch_order s of [] \<Rightarrow> SCH_INVALID_TASK_ID | k # ks \<Rightarrow> of_nat k)"
proof (cases "\<exists>i<SCH_MAX_TASKS. is_ready (tasks s ! i)")
  case False
  then have "dispatch_order s = []"
    using set_dispatch_order [of s] by (metis (no_types, lifting) empty_Collect_eq set_empty)
  with False select_fold [OF order_refl, of s] show ?thesis
    by (simp add: sch_select_pending_task_def)
next
  case True
  then obtain k where k: "k < SCH_MAX_TASKS" "is_ready (tasks s ! k)"
    "fst (fold (sch_select_step s) [0..<SCH_MAX_TASKS] (SCH_INVALID_TASK_ID, SCH_LOWEST_PRIORITY)) = of_nat k"
    "\<And>j. j < SCH_MAX_TASKS \<Longrightarrow> is_ready (tasks s ! j) \<Longrightarrow> slot_key s k \<le> slot_key s j"
    using select_fold [OF order_refl, of s] by auto
  with dispatch_order_hd [of k s] show ?thesis
    by (cases "dispatch_order s") (simp_all add: sch_select_pending_task_def)
qed

section \<open>Taking the head\<close>

lemma dispatch_order_cong:
  assumes "\<And>i. i < SCH_MAX_TASKS \<Longrightarrow> is_ready (tasks s' ! i) = is_ready (tasks s ! i)"
    and "\<And>i. i < SCH_MAX_TASKS \<Longrightarrow> is_ready (tasks s ! i) \<Longrightarrow> priority (tasks s' ! i) = priority (tasks s ! i)"
  shows "dispatch_order s' = dispatch_order s"
proof -
  have "ready_slots s' = ready_slots s"
    unfolding ready_slots_def using assms(1) by (intro filter_cong) simp_all
  moreover have "map (slot_key s') (ready_slots s) = map (slot_key s) (ready_slots s)"
    using assms(2) by (simp add: ready_slots_def slot_key_def)
  ultimately show ?thesis unfolding dispatch_order_def by (simp only:)
qed

lemma dispatch_order_remove:
  assumes order: "dispatch_order s = k # ks"
    and gone: "\<not> is_ready (tasks s' ! k)"
    and same: "\<And>i. i < SCH_MAX_TASKS \<Longrightarrow> i \<noteq> k \<Longrightarrow> tasks s' ! i = tasks s ! i"
  shows "dispatch_order s' = ks"
proof -
  have k: "k < SCH_MAX_TASKS" and nk: "k \<notin> set ks"
    using set_dispatch_order [of s] distinct_dispatch_order [of s] order by auto
  have r: "ready_slots s' = filter (\<lambda>i. i \<noteq> k) (ready_slots s)"
    unfolding ready_slots_def filter_filter
  proof (rule filter_cong [OF refl])
    fix i assume "i \<in> set [0..<SCH_MAX_TASKS]"
    then show "is_ready (tasks s' ! i) \<longleftrightarrow> is_ready (tasks s ! i) \<and> i \<noteq> k"
      using gone same [of i] by (cases "i = k") simp_all
  qed
  have "map (slot_key s') (ready_slots s') = filter (\<lambda>x. key_slot x \<noteq> k) (map (slot_key s) (ready_slots s))"
    using same by (simp add: r filter_map comp_def) (simp add: ready_slots_def slot_key_def)
  then have "dispatch_order s' = map key_slot (filter (\<lambda>x. key_slot x \<noteq> k) (sort (map (slot_key s) (ready_slots s))))"
    by (simp add: dispatch_order_def filter_sort)
  also have "\<dots> = filter (\<lambda>i. i \<noteq> k) (dispatch_order s)"
    by (simp add: dispatch_order_def filter_map comp_def)
  also have "\<dots> = ks"
    using nk by (auto simp: order filter_id_conv)
  finally show ?thesis .
qed

lemma dispatch_order_take:
  assumes "sch_shape s" and "dispatch_order s = k # ks"
  shows "dispatch_order (sch_take_task now k s) = ks"
proof (rule dispatch_order_remove [OF assms(2)])
  have k: "k < SCH_MAX_TASKS" using set_dispatch_order [of s] assms(2) by auto
  show "\<not> is_ready (tasks (sch_take_task now k s) ! k)"
    using k assms(1) by (simp add: sch_take_task_def is_ready_def shape_lengths)
  show "tasks (sch_take_task now k s) ! i = tasks s ! i" if "i \<noteq> k" for i
    using that by (simp add: sch_take_task_def)
qed

end
