(* ===== verification/Scheduler_Background.thy ===== *)
theory Scheduler_Background
  imports Scheduler_Select
begin

text \<open>
  Round-robin selection of background tasks. \<open>background_ring\<close> lists the background slots
  in the cyclic order that starts at the cursor; a selection returns its head and rotates
  it by one, so that consecutive selections visit every background task in turn.
\<close>

section \<open>Lists\<close>

lemma find_filter: "find P xs = (case filter P xs of [] \<Rightarrow> None | x # _ \<Rightarrow> Some x)"
  by (induction xs) auto

lemma rotate_upt: "rotate c [0..<n] = map (\<lambda>i. (c + i) mod n) [0..<n]"
  by (intro nth_equalityI) (simp_all add: nth_rotate)

text \<open>Rotating just past the first hit rotates the list of hits by one.\<close>

lemma filter_rotate_first:
  assumes "k < length ys" and "P (ys ! k)" and "\<forall>j<k. \<not> P (ys ! j)"
  shows "filter P (rotate (Suc k) ys) = rotate1 (filter P ys)"
proof -
  have none: "filter P (take k ys) = []"
    using assms(1,3) by (auto simp: filter_empty_conv in_set_conv_nth)
  have split: "ys = take k ys @ ys ! k # drop (Suc k) ys"
    using assms(1) by (rule id_take_nth_drop)
  then have rot: "rotate (Suc k) ys = drop (Suc k) ys @ take k ys @ [ys ! k]"
    using rotate_append [of "take (Suc k) ys" "drop (Suc k) ys"] assms(1)
    by (simp add: take_Suc_conv_app_nth min_def)
  have "filter P ys = ys ! k # filter P (drop (Suc k) ys)"
    by (subst split) (simp add: none assms(2))
  then show ?thesis unfolding rot by (simp add: none assms(2))
qed

section \<open>Selection\<close>

definition is_background :: "('f, 'c) sch_task \<Rightarrow> bool" where
  "is_background t \<longleftrightarrow> in_use t \<and> enabled t \<and> period_ticks t = 0"

definition background_ring :: "('f, 'c, 'h) sch \<Rightarrow> nat list" where
  "background_ring s =
     filter (\<lambda>i. is_background (tasks s ! i)) (rotate (unat (next_background_idx s)) [0..<SCH_MAX_TASKS])"

lemma set_background_ring:
  "set (background_ring s) = {i. i < SCH_MAX_TASKS \<and> is_background (tasks s ! i)}"
  by (auto simp: background_ring_def)

lemma distinct_background_ring: "distinct (background_ring s)"
  by (simp add: background_ring_def)

lemma cursor_index:
  assumes "unat (start :: u32) < SCH_MAX_TASKS" and "k < SCH_MAX_TASKS"
  shows "(start + of_nat k) mod of_nat SCH_MAX_TASKS = of_nat ((unat start + k) mod SCH_MAX_TASKS)"
proof -
  have "unat (start + of_nat k) = unat start + k"
    using assms by (simp add: unat_word_ariths SCH_MAX_TASKS_def unat_of_nat take_bit_eq_mod)
  moreover have "(unat start + k) mod SCH_MAX_TASKS < SCH_MAX_TASKS" by simp
  ultimately show ?thesis
    by (simp add: word_unat_eq_iff unat_mod)
qed

definition background_cursor :: "nat \<Rightarrow> u32" where
  "background_cursor i = of_nat ((i + 1) mod SCH_MAX_TASKS)"

lemma select_background_eq:
  assumes "unat (next_background_idx s) < SCH_MAX_TASKS"
  shows "sch_select_background_task s =
    (case background_ring s of
       [] \<Rightarrow> (SCH_INVALID_TASK_ID, s)
     | i # _ \<Rightarrow> (of_nat i, s\<lparr>next_background_idx := background_cursor i\<rparr>))"
proof -
  let ?c = "unat (next_background_idx s)"
  let ?g = "\<lambda>k. (?c + k) mod SCH_MAX_TASKS"
  let ?P = "\<lambda>i. is_background (tasks s ! i)"
  define off where "off = filter (\<lambda>k. ?P (?g k)) [0..<SCH_MAX_TASKS]"
  have ring: "background_ring s = map ?g off"
    by (simp add: background_ring_def rotate_upt filter_map comp_def off_def)
  have hit: "find (\<lambda>k. let task = tasks s ! unat ((next_background_idx s + of_nat k) mod of_nat SCH_MAX_TASKS)
        in in_use task \<and> enabled task \<and> period_ticks task = 0) [0..<SCH_MAX_TASKS] =
      (case off of [] \<Rightarrow> None | k # _ \<Rightarrow> Some k)"
  proof -
    have "unat ((next_background_idx s + of_nat k) mod of_nat SCH_MAX_TASKS) = ?g k" if "k < SCH_MAX_TASKS" for k
      using cursor_index [OF assms that] by simp
    then show ?thesis
      unfolding off_def find_filter [symmetric]
      by (intro find_cong) (simp_all add: Let_def is_background_def)
  qed
  show ?thesis
  proof (cases off)
    case Nil
    then show ?thesis using hit by (simp add: sch_select_background_task_def ring)
  next
    case (Cons k ks)
    then have k: "k < SCH_MAX_TASKS"
      using filter_is_subset [of "\<lambda>k. ?P (?g k)" "[0..<SCH_MAX_TASKS]"] by (auto simp: off_def)
    have idx: "(next_background_idx s + of_nat k) mod of_nat SCH_MAX_TASKS = of_nat (?g k)"
      using cursor_index [OF assms k] .
    have lt: "?g k < SCH_MAX_TASKS" by simp
    have "(of_nat (?g k) + 1 :: u32) mod of_nat SCH_MAX_TASKS = background_cursor (?g k)"
      using cursor_index [of "of_nat (?g k)" 1] lt
      by (simp add: background_cursor_def SCH_MAX_TASKS_def)
    with Cons hit idx show ?thesis
      by (simp add: sch_select_background_task_def ring Let_def)
  qed
qed

text \<open>A selection rotates the ring and keeps everything but the cursor.\<close>

lemma background_ring_rotates:
  assumes "unat (next_background_idx s) < SCH_MAX_TASKS" and "background_ring s = i # is"
  shows "background_ring (s\<lparr>next_background_idx := background_cursor i\<rparr>) = is @ [i]"
    and "unat (background_cursor i) < SCH_MAX_TASKS"
proof -
  let ?n = SCH_MAX_TASKS and ?c = "unat (next_background_idx s)"
  let ?P = "\<lambda>i. is_background (tasks s ! i)"
  let ?ys = "rotate ?c [0..<?n]"
  have cursor: "unat (background_cursor i) = (i + 1) mod ?n"
    by (simp add: background_cursor_def)
  then show "unat (background_cursor i) < ?n" by simp
  have "filter ?P ?ys = i # is" using assms(2) by (simp add: background_ring_def)
  then have "find ?P ?ys = Some i" by (simp add: find_filter)
  then obtain k where k: "k < length ?ys" "?P (?ys ! k)" "i = ?ys ! k" "\<forall>j<k. \<not> ?P (?ys ! j)"
    by (auto simp: find_Some_iff)
  then have i: "i = (?c + k) mod ?n" by (simp add: nth_rotate)
  have "rotate ((i + 1) mod ?n) [0..<?n] = rotate (?c + k + 1) [0..<?n]"
    using rotate_conv_mod [of "?c + k + 1" "[0..<?n]"] by (simp add: i mod_Suc_eq)
  also have "\<dots> = rotate (Suc k) ?ys"
    by (simp add: rotate_rotate add.commute)
  finally have "filter ?P (rotate ((i + 1) mod ?n) [0..<?n]) = rotate1 (filter ?P ?ys)"
    using filter_rotate_first [OF k(1,2,4)] by simp
  then show "background_ring (s\<lparr>next_background_idx := background_cursor i\<rparr>) = is @ [i]"
    using assms(2) by (simp add: background_ring_def cursor)
qed

section \<open>Fairness\<close>

fun background_rounds :: "nat \<Rightarrow> ('f, 'c, 'h) sch \<Rightarrow> i32 list \<times> ('f, 'c, 'h) sch" where
  "background_rounds 0 s = ([], s)"
| "background_rounds (Suc n) s =
     (let (i, s) = sch_select_background_task s; (is, s) = background_rounds n s in (i # is, s))"

lemma background_rounds_prefix:
  assumes "unat (next_background_idx s) < SCH_MAX_TASKS" and "background_ring s = xs @ ys"
  shows "fst (background_rounds (length xs) s) = map of_nat xs \<and>
    background_ring (snd (background_rounds (length xs) s)) = ys @ xs"
  using assms
proof (induction xs arbitrary: s ys)
  case Nil
  then show ?case by simp
next
  case (Cons i xs)
  let ?s = "s\<lparr>next_background_idx := background_cursor i\<rparr>"
  have ring: "background_ring s = i # (xs @ ys)" using Cons.prems by simp
  have sel: "sch_select_background_task s = (of_nat i, ?s)"
    using select_background_eq [OF Cons.prems(1)] ring by simp
  have "background_ring ?s = xs @ (ys @ [i])" and "unat (next_background_idx ?s) < SCH_MAX_TASKS"
    using background_ring_rotates [OF Cons.prems(1) ring] by simp_all
  with Cons.IH [of ?s "ys @ [i]"] sel show ?case by (simp add: split_beta)
qed

end
