(* ===== verification/Scheduler_Run.thy ===== *)
theory Scheduler_Run
  imports Scheduler_Background
begin

text \<open>
  One scheduler cycle. Application tasks enter through the contract \<open>task_contract\<close>: a task
  returns, it leaves the slots in use as they are, and a slot it takes into use is not
  pending. Registering tasks from inside a task satisfies it. Under the contract the cycle
  is refined to a plain sequence: mark the due slots, dispatch the ready slots in key order
  each once, then one background selection.
\<close>

section \<open>What a task may do to the scheduler\<close>

definition task_frame :: "('f, 'c, 'h) sch \<Rightarrow> ('f, 'c, 'h) sch \<Rightarrow> bool" where
  "task_frame s s' \<longleftrightarrow> sch_wf s' \<and> next_background_idx s' = next_background_idx s \<and>
     (\<forall>i<SCH_MAX_TASKS.
        if in_use (tasks s ! i) then tasks s' ! i = tasks s ! i else \<not> pending (tasks s' ! i))"

lemma frame_refl: "sch_wf s \<Longrightarrow> task_frame s s"
  by (auto simp: task_frame_def dest: wf_task simp: task_wf_def)

lemma frame_wf: "task_frame s s' \<Longrightarrow> sch_wf s'"
  by (simp add: task_frame_def)

lemma frame_used: "task_frame s s' \<Longrightarrow> i < SCH_MAX_TASKS \<Longrightarrow> in_use (tasks s ! i) \<Longrightarrow> tasks s' ! i = tasks s ! i"
  by (simp add: task_frame_def)

lemma frame_upd_stats_left [simp]: "task_frame (upd_stats i h s) s' = task_frame s s'"
  by (simp add: task_frame_def)

lemma frame_upd_stats_right [simp]: "task_frame s (upd_stats i h s') = task_frame s s'"
  by (simp add: task_frame_def)

lemma frame_ready:
  assumes "sch_wf s" and "task_frame s s'" and "i < SCH_MAX_TASKS"
  shows "is_ready (tasks s' ! i) = is_ready (tasks s ! i)"
  using assms wf_task [of s i]
  by (cases "in_use (tasks s ! i)") (auto simp: task_frame_def is_ready_def)

lemma frame_order:
  assumes "sch_wf s" and "task_frame s s'"
  shows "dispatch_order s' = dispatch_order s"
proof (rule dispatch_order_cong)
  fix i assume i: "i < SCH_MAX_TASKS"
  show "is_ready (tasks s' ! i) = is_ready (tasks s ! i)"
    using assms i by (rule frame_ready)
  show "priority (tasks s' ! i) = priority (tasks s ! i)" if "is_ready (tasks s ! i)"
    using that frame_used [OF assms(2) i] by (simp add: is_ready_def)
qed

text \<open>Registering a task, the call the library offers to tasks, respects the frame.\<close>

lemma add_task_frame:
  assumes "sch_wf s"
    and "sch_add_task cfg p (Some s) (Some f) c period delay prio w = (tid, Some s', w')"
  shows "task_frame s s'"
proof (cases "free_slot s")
  case None
  then have "s' = s" using assms(2) by (simp add: add_task_full [OF assms(1)])
  then show ?thesis using frame_refl [OF assms(1)] by simp
next
  case (Some i)
  let ?t = "new_task (Some f) c period (fst (crit_now p w) + delay) prio"
  have s': "s' = add_at cfg i ?t s"
    using assms(2) add_task_free [OF assms(1) Some, of cfg p f c period delay prio w] by simp
  have i: "i < SCH_MAX_TASKS" "\<not> in_use (tasks s ! i)"
    using free_slot_SomeD [OF Some] by simp_all
  have "sch_wf s'"
    unfolding s' using assms(1) Some by (rule add_at_wf) simp_all
  moreover have "tasks s' ! j = (if j = i then ?t else tasks s ! j)" if "j < SCH_MAX_TASKS" for j
    using that assms(1) i by (simp add: s' add_at_def wf_lengths nth_list_update_if)
  moreover have "next_background_idx s' = next_background_idx s" by (simp add: s' add_at_def)
  ultimately show ?thesis
    using i wf_task [OF assms(1)] by (auto simp: task_frame_def task_wf_def)
qed

section \<open>The contract and the sequence of dispatches\<close>

definition dispatch_slot ::
  "sch_config \<Rightarrow> 'w port \<Rightarrow> ('f, 'c, 'h, 'w) sch_env \<Rightarrow> u32 \<Rightarrow> nat \<Rightarrow> ('f, 'c, 'h) sch \<Rightarrow> 'w \<Rightarrow>
   (('f, 'c, 'h) sch \<times> 'w) option" where
  "dispatch_slot cfg p env now i s w =
     sch_exec_periodic cfg p env i (fn (tasks s ! i)) (ctx (tasks s ! i)) (period_ticks (tasks s ! i))
       (sch_take_task now i s) (crit p w)"

fun dispatch_all ::
  "sch_config \<Rightarrow> 'w port \<Rightarrow> ('f, 'c, 'h, 'w) sch_env \<Rightarrow> u32 \<Rightarrow> nat list \<Rightarrow> ('f, 'c, 'h) sch \<Rightarrow> 'w \<Rightarrow>
   (('f, 'c, 'h) sch \<times> 'w) option" where
  "dispatch_all cfg p env now [] s w = Some (s, w)"
| "dispatch_all cfg p env now (i # is) s w = do {
     (s, w) \<leftarrow> dispatch_slot cfg p env now i s w;
     dispatch_all cfg p env now is s w
   }"

definition taken :: "u32 \<Rightarrow> ('f, 'c) sch_task \<Rightarrow> ('f, 'c) sch_task" where
  "taken now t = t\<lparr>pending := False,
     next_release := sch_advance_next_release now (next_release t) (period_ticks t)\<rparr>"

lemma taken_fields [simp]:
  "fn (taken now t) = fn t" "ctx (taken now t) = ctx t" "period_ticks (taken now t) = period_ticks t"
  "priority (taken now t) = priority t" "enabled (taken now t) = enabled t"
  "pending (taken now t) = False" "in_use (taken now t) = in_use t"
  "next_release (taken now t) = sch_advance_next_release now (next_release t) (period_ticks t)"
  by (simp_all add: taken_def)

lemma take_task_eq: "sch_take_task now i s = upd_task i (taken now) s"
  by (simp add: sch_take_task_def upd_task_def taken_def)

lemma take_wf:
  assumes "sch_wf s" and "i < SCH_MAX_TASKS"
  shows "sch_wf (sch_take_task now i s)"
  unfolding take_task_eq using wf_task [OF assms] assms
  by (intro wf_upd_task) (simp_all add: task_wf_def)

text \<open>One call, split at the call itself: instrumentation before it and after it.\<close>

definition exec_before ::
  "sch_config \<Rightarrow> 'w port \<Rightarrow> ('f, 'c, 'h, 'w) sch_env \<Rightarrow> nat \<Rightarrow> ('f, 'c, 'h) sch \<Rightarrow> 'w \<Rightarrow>
   ('f, 'c, 'h) sch \<times> 'w" where
  "exec_before cfg p env i s w =
     (let (s, w) =
       (if sch_enable_stats cfg
        then let (exec_start, w) = sch_port_now_ticks p w
             in (upd_stats i (\<lambda>st. st\<lparr>last_start_tick := exec_start\<rparr>) s, w)
        else (s, w));
     w =
       (if sch_enable_trace cfg
        then let (t, w) = sch_port_now_ticks p w
             in sch_trace_emit env (Some s) SCH_TRACE_TASK_START (of_nat i) t w
        else w)
     in (s, w))"

definition exec_after ::
  "sch_config \<Rightarrow> 'w port \<Rightarrow> ('f, 'c, 'h, 'w) sch_env \<Rightarrow> nat \<Rightarrow> u32 \<Rightarrow> ('f, 'c, 'h) sch \<Rightarrow> 'w \<Rightarrow>
   ('f, 'c, 'h) sch \<times> 'w" where
  "exec_after cfg p env i period s w =
     (let (s, w) =
       (if sch_enable_stats cfg
        then let (exec_end, w) = sch_port_now_ticks p w
             in (upd_stats i (sch_stats_account exec_end) s, w)
        else (s, w));
     w =
       (if sch_enable_trace cfg
        then let (trace_end, w) = sch_port_now_ticks p w
             in sch_trace_emit env (Some s) SCH_TRACE_TASK_END (of_nat i) trace_end w
        else w);
     (completed_at, w) = sch_port_now_ticks p w
     in
       if period \<noteq> 0 \<and> sch_time_reached completed_at (next_release (tasks s ! i))
       then
         (if sch_enable_stats cfg
          then upd_stats i (\<lambda>st. st\<lparr>overrun_count := overrun_count st + 1\<rparr>) s else s,
          if sch_enable_trace cfg
          then sch_trace_emit env
                 (Some (if sch_enable_stats cfg
                        then upd_stats i (\<lambda>st. st\<lparr>overrun_count := overrun_count st + 1\<rparr>) s else s))
                 SCH_TRACE_TASK_OVERRUN (of_nat i) completed_at w
          else w)
       else (s, w))"

lemma exec_periodic_split:
  "sch_exec_periodic cfg p env i (Some f) c period s w =
     (case exec_before cfg p env i s w of (s1, w1) \<Rightarrow>
       (case call_task env f c s1 w1 of
          None \<Rightarrow> None
        | Some (s2, w2) \<Rightarrow> Some (exec_after cfg p env i period s2 w2)))"
  by (simp add: sch_exec_periodic_def exec_before_def exec_after_def call_fn_def Let_def split_beta
      split: option.splits)

text \<open>Instrumentation writes the statistics array only.\<close>

definition same_core :: "('f, 'c, 'h) sch \<Rightarrow> ('f, 'c, 'h) sch \<Rightarrow> bool" where
  "same_core s s' \<longleftrightarrow>
     tasks s' = tasks s \<and> task_count s' = task_count s \<and>
     next_background_idx s' = next_background_idx s \<and> length (stats s') = length (stats s) \<and>
     trace_hook s' = trace_hook s \<and> trace_user_ctx s' = trace_user_ctx s"

lemma same_core_refl [simp]: "same_core s s"
  by (simp add: same_core_def)

lemma same_core_upd_stats [simp]: "same_core s (upd_stats i h s') = same_core s s'"
  by (simp add: same_core_def)

lemma same_core_tasks: "same_core s s' \<Longrightarrow> tasks s' = tasks s"
  by (simp add: same_core_def)

lemma same_core_wf: "same_core s s' \<Longrightarrow> sch_wf s' = sch_wf s"
  by (simp add: same_core_def sch_wf_def sch_shape_def)

lemma same_core_frame:
  "same_core s s' \<Longrightarrow> task_frame s' t = task_frame s t"
  "same_core t t' \<Longrightarrow> task_frame s t' = task_frame s t"
  using same_core_wf [of t t'] by (simp_all add: task_frame_def same_core_def)

lemma exec_before_core: "same_core s (fst (exec_before cfg p env i s w))"
  by (simp add: exec_before_def Let_def split_beta)

lemma exec_after_core: "same_core s (fst (exec_after cfg p env i period s w))"
  by (simp add: exec_after_def Let_def split_beta)

text \<open>
  The contract of the application: under an invariant \<open>ok\<close> of the platform state that the
  hooks keep, every task function returns, respects the frame and keeps the invariant.
\<close>

locale task_contract =
  fixes p :: "'w port"
    and env :: "('f, 'c, 'h, 'w) sch_env"
    and ok :: "'w \<Rightarrow> bool"
  assumes call_returns:
      "sch_wf s \<Longrightarrow> ok w \<Longrightarrow>
       \<exists>s' w'. call_task env f c s w = Some (s', w') \<and> task_frame s s' \<and> ok w'"
    and hook_ok: "ok w \<Longrightarrow> ok (call_hook env h e i t c w)"
    and now_ok: "ok w \<Longrightarrow> ok (snd (sch_port_now_ticks p w))"
    and enter_ok: "ok w \<Longrightarrow> ok (snd (sch_port_enter_critical p w))"
    and exit_ok: "ok w \<Longrightarrow> ok (sch_port_exit_critical p state w)"
    and idle_ok: "ok w \<Longrightarrow> ok (sch_port_idle p w)"
begin

lemma crit_ok: "ok w \<Longrightarrow> ok (crit p w)"
  by (simp add: crit_def split_beta enter_ok exit_ok)

lemma emit_ok: "ok w \<Longrightarrow> ok (sch_trace_emit env sc e i t w)"
  by (simp add: sch_trace_emit_def hook_ok split: option.split)

lemma exec_before_ok: "ok w \<Longrightarrow> ok (snd (exec_before cfg p env i s w))"
  by (simp add: exec_before_def Let_def split_beta now_ok emit_ok)

lemma exec_after_ok: "ok w \<Longrightarrow> ok (snd (exec_after cfg p env i period s w))"
  by (simp add: exec_after_def Let_def split_beta now_ok emit_ok)

lemma exec_periodic_returns:
  assumes "sch_wf s" and "ok w"
  shows "\<exists>s' w'. sch_exec_periodic cfg p env i (Some f) c period s w = Some (s', w') \<and>
    task_frame s s' \<and> ok w'"
proof -
  obtain s1 w1 where b: "exec_before cfg p env i s w = (s1, w1)" by (metis surj_pair)
  have core: "same_core s s1" using exec_before_core [of s cfg p env i w] b by simp
  have "ok w1" using exec_before_ok [OF assms(2), of cfg i s] b by simp
  moreover have "sch_wf s1" using same_core_wf [OF core] assms(1) by simp
  ultimately obtain s2 w2 where c: "call_task env f c s1 w1 = Some (s2, w2)" "task_frame s1 s2" "ok w2"
    using call_returns by blast
  obtain s3 w3 where a: "exec_after cfg p env i period s2 w2 = (s3, w3)" by (metis surj_pair)
  have "same_core s2 s3" using exec_after_core [of s2 cfg p env i period w2] a by simp
  then have "task_frame s s3" using c(2) core by (simp add: same_core_frame)
  moreover have "ok w3" using exec_after_ok [OF c(3), of cfg i period s2] a by simp
  ultimately show ?thesis by (simp add: exec_periodic_split b c(1) a)
qed

text \<open>One dispatch: the slot becomes \<open>taken\<close>, the other slots keep to the frame.\<close>

lemma dispatch_slot_returns:
  assumes "sch_wf s" and "i < SCH_MAX_TASKS" and "in_use (tasks s ! i)" and "ok w"
  shows "\<exists>s' w'. dispatch_slot cfg p env now i s w = Some (s', w') \<and>
    task_frame (sch_take_task now i s) s' \<and> ok w'"
proof -
  obtain f where f: "fn (tasks s ! i) = Some f"
    using wf_task [OF assms(1,2)] assms(3) by (cases "fn (tasks s ! i)") (simp_all add: task_wf_def)
  show ?thesis
    unfolding dispatch_slot_def f
    using take_wf [OF assms(1,2)] crit_ok [OF assms(4)] by (rule exec_periodic_returns)
qed

lemma dispatch_slot_step:
  assumes "sch_wf s" and "dispatch_order s = i # is" and "ok w"
  shows "\<exists>s' w'. dispatch_slot cfg p env now i s w = Some (s', w') \<and> sch_wf s' \<and>
    dispatch_order s' = is \<and> ok w' \<and>
    (\<forall>j<SCH_MAX_TASKS. if in_use (tasks s ! j)
       then tasks s' ! j = (if j = i then taken now (tasks s ! j) else tasks s ! j)
       else \<not> pending (tasks s' ! j))"
proof -
  have i: "i < SCH_MAX_TASKS" "is_ready (tasks s ! i)"
    using set_dispatch_order [of s] assms(2) by auto
  then have "in_use (tasks s ! i)" by (simp add: is_ready_def)
  from dispatch_slot_returns [OF assms(1) i(1) this assms(3), of cfg now]
  obtain s' w' where s': "dispatch_slot cfg p env now i s w = Some (s', w')"
    "task_frame (sch_take_task now i s) s'" "ok w'" by blast
  have wf: "sch_wf (sch_take_task now i s)" by (rule take_wf [OF assms(1) i(1)])
  have "dispatch_order s' = is"
    using frame_order [OF wf s'(2)] dispatch_order_take [OF wf_shape [OF assms(1)] assms(2)] by simp
  moreover have "if in_use (tasks s ! j)
       then tasks s' ! j = (if j = i then taken now (tasks s ! j) else tasks s ! j)
       else \<not> pending (tasks s' ! j)" if "j < SCH_MAX_TASKS" for j
    using s'(2) that i(1) assms(1)
    by (auto simp: task_frame_def take_task_eq wf_lengths nth_list_update_if split: if_splits)
  ultimately show ?thesis using s' frame_wf [OF s'(2)] by blast
qed


text \<open>The whole sequence returns, empties the ready set and takes exactly its slots.\<close>

lemma dispatch_all_returns:
  assumes "sch_wf s" and "dispatch_order s = is" and "ok w"
  shows "\<exists>s' w'. dispatch_all cfg p env now is s w = Some (s', w') \<and> sch_wf s' \<and>
    dispatch_order s' = [] \<and> ok w' \<and>
    (\<forall>j<SCH_MAX_TASKS. if in_use (tasks s ! j)
       then tasks s' ! j = (if j \<in> set is then taken now (tasks s ! j) else tasks s ! j)
       else \<not> pending (tasks s' ! j))"
  using assms
proof (induction "is" arbitrary: s w)
  case Nil
  then show ?case by (auto simp: task_wf_def dest: wf_task)
next
  case (Cons i "is")
  from dispatch_slot_step [OF Cons.prems, of cfg now] obtain s1 w1 where s1:
    "dispatch_slot cfg p env now i s w = Some (s1, w1)" "sch_wf s1" "dispatch_order s1 = is" "ok w1"
    "\<forall>j<SCH_MAX_TASKS. if in_use (tasks s ! j)
       then tasks s1 ! j = (if j = i then taken now (tasks s ! j) else tasks s ! j)
       else \<not> pending (tasks s1 ! j)" by blast
  from Cons.IH [OF s1(2-4)] obtain s2 w2 where s2:
    "dispatch_all cfg p env now is s1 w1 = Some (s2, w2)" "sch_wf s2" "dispatch_order s2 = []" "ok w2"
    "\<forall>j<SCH_MAX_TASKS. if in_use (tasks s1 ! j)
       then tasks s2 ! j = (if j \<in> set is then taken now (tasks s1 ! j) else tasks s1 ! j)
       else \<not> pending (tasks s2 ! j)" by blast
  have i: "i \<notin> set is" using distinct_dispatch_order [of s] Cons.prems(2) by simp
  have "if in_use (tasks s ! j)
       then tasks s2 ! j = (if j \<in> set (i # is) then taken now (tasks s ! j) else tasks s ! j)
       else \<not> pending (tasks s2 ! j)" if j: "j < SCH_MAX_TASKS" for j
    using s1(5) [rule_format, OF j] s2(5) [rule_format, OF j] i
    by (auto split: if_splits)
  then show ?case using s1(1) s2 by simp
qed

text \<open>
  The bounded loop of \<open>sch_run\<close> performs that sequence. When an iteration is left, the loop
  enters one more critical section to find the ready set empty.
\<close>

lemma run_periodic_refines:
  assumes "sch_wf s" and "length (dispatch_order s) \<le> n" and "ok w"
  shows "sch_run_periodic n cfg p env now s w =
    map_option (\<lambda>(s', w'). (s', if length (dispatch_order s) < n then crit p w' else w'))
      (dispatch_all cfg p env now (dispatch_order s) s w)"
  using assms
proof (induction n arbitrary: s w)
  case 0
  then show ?case by simp
next
  case (Suc n)
  show ?case
  proof (cases "dispatch_order s")
    case Nil
    then show ?thesis by (simp add: select_eq crit_def split_beta)
  next
    case (Cons i "is")
    have i: "i < SCH_MAX_TASKS" using set_dispatch_order [of s] Cons by auto
    from dispatch_slot_step [OF Suc.prems(1) Cons Suc.prems(3), of cfg now] obtain s1 w1 where s1:
      "dispatch_slot cfg p env now i s w = Some (s1, w1)" "sch_wf s1" "dispatch_order s1 = is" "ok w1"
      by blast
    have "sch_run_periodic (Suc n) cfg p env now s w =
        Option.bind (dispatch_slot cfg p env now i s w) (\<lambda>(s, w). sch_run_periodic n cfg p env now s w)"
      using i by (simp add: select_eq Cons dispatch_slot_def crit_def split_beta Let_def)
    also have "\<dots> = map_option (\<lambda>(s', w'). (s', if length is < n then crit p w' else w'))
        (dispatch_all cfg p env now is s1 w1)"
      using s1 Suc.IH [OF s1(2) _ s1(4)] Suc.prems(2) Cons by simp
    also have "dispatch_all cfg p env now is s1 w1 = dispatch_all cfg p env now (i # is) s w"
      using s1(1) by simp
    finally show ?thesis by (simp add: Cons)
  qed
qed

lemma mark_ok:
  assumes "ok w"
  shows "ok (snd (sch_mark_periodic_ready cfg env s now w))"
proof -
  have "ok (snd (fold (sch_mark_slot cfg env now) is sw))" if "ok (snd sw)" for "is" sw
    using that
    by (induction "is" arbitrary: sw) (simp_all add: sch_mark_slot_def Let_def split_beta emit_ok)
  from this [of "(s, w)"] show ?thesis using assms by (simp add: sch_mark_periodic_ready_def)
qed

end

end
