(* ===== verification/Scheduler_Cycle.thy ===== *)
theory Scheduler_Cycle
  imports Scheduler_Run
begin

text \<open>
  The second half of a cycle, one background task or idling, and the whole of \<open>sch_run\<close>:
  what it dispatches, in which order, and the state it leaves.
\<close>

section \<open>The background phase\<close>

definition background_before ::
  "sch_config \<Rightarrow> 'w port \<Rightarrow> ('f, 'c, 'h, 'w) sch_env \<Rightarrow> nat \<Rightarrow> ('f, 'c, 'h) sch \<Rightarrow> 'w \<Rightarrow>
   ('f, 'c, 'h) sch \<times> 'w" where
  "background_before cfg p env i s w =
     (let w =
        (if sch_enable_trace cfg
         then let (t, w) = sch_port_now_ticks p w
              in sch_trace_emit env (Some s) SCH_TRACE_TASK_START (of_nat i) t w
         else w)
      in
        if sch_enable_stats cfg
        then let (exec_start, w) = sch_port_now_ticks p w
             in (upd_stats i (\<lambda>st. st\<lparr>last_start_tick := exec_start\<rparr>) s, w)
        else (s, w))"

definition background_after ::
  "sch_config \<Rightarrow> 'w port \<Rightarrow> ('f, 'c, 'h, 'w) sch_env \<Rightarrow> nat \<Rightarrow> ('f, 'c, 'h) sch \<Rightarrow> 'w \<Rightarrow>
   ('f, 'c, 'h) sch \<times> 'w" where
  "background_after cfg p env i s w =
     (let (s, w) =
        (if sch_enable_stats cfg
         then let (exec_end, w) = sch_port_now_ticks p w
              in (upd_stats i (sch_stats_account exec_end) s, w)
         else (s, w))
      in
        if sch_enable_trace cfg
        then let (t, w) = sch_port_now_ticks p w
             in (s, sch_trace_emit env (Some s) SCH_TRACE_TASK_END (of_nat i) t w)
        else (s, w))"

definition idle_phase ::
  "sch_config \<Rightarrow> 'w port \<Rightarrow> ('f, 'c, 'h, 'w) sch_env \<Rightarrow> ('f, 'c, 'h) sch \<Rightarrow> 'w \<Rightarrow> 'w" where
  "idle_phase cfg p env s w =
     (let w =
        (if sch_enable_trace cfg
         then let (t, w) = sch_port_now_ticks p w
              in sch_trace_emit env (Some s) SCH_TRACE_IDLE SCH_INVALID_TASK_ID t w
         else w)
      in sch_port_idle p w)"

definition background_slot ::
  "sch_config \<Rightarrow> 'w port \<Rightarrow> ('f, 'c, 'h, 'w) sch_env \<Rightarrow> nat \<Rightarrow> ('f, 'c, 'h) sch \<Rightarrow> 'w \<Rightarrow>
   (('f, 'c, 'h) sch \<times> 'w) option" where
  "background_slot cfg p env i s w =
     (case background_before cfg p env i s w of (s1, w1) \<Rightarrow>
        (case call_fn env (fn (tasks s ! i)) (ctx (tasks s ! i)) s1 w1 of
           None \<Rightarrow> None
         | Some (s2, w2) \<Rightarrow> Some (background_after cfg p env i s2 w2)))"

text \<open>Exactly one of two things happens: the head of the ring is called, or the platform idles.\<close>

lemma run_background_eq:
  assumes "sch_wf s"
  shows "sch_run_background cfg p env s w =
    (case background_ring s of
       [] \<Rightarrow> Some (s, idle_phase cfg p env s (crit p w))
     | i # _ \<Rightarrow>
         background_slot cfg p env i (s\<lparr>next_background_idx := background_cursor i\<rparr>) (crit p w))"
proof (cases "background_ring s")
  case Nil
  then have "sch_select_background_task s = (SCH_INVALID_TASK_ID, s)"
    using assms select_background_eq [of s] by (simp add: sch_wf_def)
  with Nil show ?thesis
    by (simp add: sch_run_background_def crit_def split_beta Let_def idle_phase_def)
next
  case (Cons i "is")
  let ?s = "s\<lparr>next_background_idx := background_cursor i\<rparr>"
  have sel: "sch_select_background_task s = (of_nat i, ?s)"
    using assms select_background_eq [of s] Cons by (simp add: sch_wf_def)
  have i: "i < SCH_MAX_TASKS" "in_use (tasks s ! i)"
    using set_background_ring [of s] Cons by (auto simp: is_background_def)
  then obtain f where "fn (tasks s ! i) = Some f"
    using wf_task [OF assms i(1)] by (cases "fn (tasks s ! i)") (simp_all add: task_wf_def)
  with Cons sel i(1) show ?thesis
    by (simp add: sch_run_background_def crit_def split_beta Let_def background_slot_def
        background_before_def background_after_def call_fn_def split: option.splits)
qed

lemma background_before_core: "same_core s (fst (background_before cfg p env i s w))"
  by (simp add: background_before_def Let_def split_beta)

lemma background_after_core: "same_core s (fst (background_after cfg p env i s w))"
  by (simp add: background_after_def Let_def split_beta)

text \<open>Moving the cursor to another slot keeps the invariant and the tasks.\<close>

lemma cursor_wf: "sch_wf s \<Longrightarrow> sch_wf (s\<lparr>next_background_idx := background_cursor i\<rparr>)"
  by (simp add: sch_wf_def sch_shape_def background_cursor_def)

context task_contract
begin

lemma background_returns:
  assumes "sch_wf s" and "ok w"
  shows "\<exists>s' w'. sch_run_background cfg p env s w = Some (s', w') \<and> ok w' \<and>
    task_frame
      (case background_ring s of [] \<Rightarrow> s | i # _ \<Rightarrow> s\<lparr>next_background_idx := background_cursor i\<rparr>) s'"
proof (cases "background_ring s")
  case Nil
  then show ?thesis
    using assms frame_refl
    by (simp add: run_background_eq idle_phase_def Let_def split_beta idle_ok emit_ok now_ok crit_ok)
next
  case (Cons i "is")
  let ?s = "s\<lparr>next_background_idx := background_cursor i\<rparr>"
  have i: "i < SCH_MAX_TASKS" "in_use (tasks s ! i)"
    using set_background_ring [of s] Cons by (auto simp: is_background_def)
  then obtain f where f: "fn (tasks s ! i) = Some f"
    using wf_task [OF assms(1) i(1)] by (cases "fn (tasks s ! i)") (simp_all add: task_wf_def)
  obtain s1 w1 where b: "background_before cfg p env i ?s (crit p w) = (s1, w1)" by (metis surj_pair)
  have core: "same_core ?s s1" using background_before_core [of ?s cfg p env i "crit p w"] b by simp
  then have "sch_wf s1" using same_core_wf [OF core] cursor_wf [OF assms(1)] by simp
  moreover have "ok (snd (background_before cfg p env i ?s (crit p w)))"
    by (simp add: background_before_def Let_def split_beta now_ok emit_ok crit_ok assms(2))
  ultimately obtain s2 w2 where c: "call_task env f (ctx (tasks s ! i)) s1 w1 = Some (s2, w2)"
    "task_frame s1 s2" "ok w2"
    using call_returns b by (metis snd_conv)
  obtain s3 w3 where a: "background_after cfg p env i s2 w2 = (s3, w3)" by (metis surj_pair)
  have "same_core s2 s3" using background_after_core [of s2 cfg p env i w2] a by simp
  then have "task_frame ?s s3" using c(2) core by (simp add: same_core_frame)
  moreover have "ok (snd (background_after cfg p env i s2 w2))"
    by (simp add: background_after_def Let_def split_beta now_ok emit_ok c(3))
  ultimately show ?thesis
    using assms(1) Cons f a b c(1) by (simp add: run_background_eq background_slot_def call_fn_def)
qed

end

section \<open>The whole cycle\<close>

text \<open>The ready set of a run: the tasks due at the tick read on entry, in dispatch order.\<close>

definition marked :: "u32 \<Rightarrow> ('f, 'c, 'h) sch \<Rightarrow> ('f, 'c, 'h) sch" where
  "marked now s = s\<lparr>tasks := map (mark_task now) (tasks s)\<rparr>"

lemma marked_wf: "sch_wf s \<Longrightarrow> sch_wf (marked now s)"
proof -
  assume wf: "sch_wf s"
  have "filter in_use (map (mark_task now) (tasks s)) = map (mark_task now) (filter in_use (tasks s))"
    by (simp add: filter_map comp_def mark_task_wf)
  then show ?thesis
    using wf by (simp add: marked_def sch_wf_def sch_shape_def list_all_length mark_task_wf)
qed

lemma ready_marked:
  assumes "sch_wf s" and "sch_quiet s" and "i < SCH_MAX_TASKS"
  shows "is_ready (tasks (marked now s) ! i) \<longleftrightarrow> is_due now (tasks s ! i)"
  using assms
  by (auto simp: marked_def mark_task_def is_ready_def is_due_def sch_quiet_def list_all_length wf_lengths)

lemma set_dispatch_marked:
  assumes "sch_wf s" and "sch_quiet s"
  shows "set (dispatch_order (marked now s)) = {i. i < SCH_MAX_TASKS \<and> is_due now (tasks s ! i)}"
  using ready_marked [OF assms] by (auto simp: set_dispatch_order)

lemma run_unfold:
  assumes "sch_wf s" and "sch_quiet s"
  shows "sch_run cfg p env (Some s) w =
    (case crit_now p w of (now, w1) \<Rightarrow>
      Option.bind (sch_run_periodic SCH_MAX_TASKS cfg p env now (marked now s) w1)
        (\<lambda>(s2, w2). Option.bind (sch_run_background cfg p env s2 w2) (\<lambda>(s3, w3). Some (Some s3, w3))))"
  by (simp add: sch_run_def mark_all_quiet [OF wf_shape [OF assms(1)] assms(2)] crit_now_def
      split_beta Let_def marked_def)

text \<open>What one run leaves of a task, as a function of the tick read on entry.\<close>

definition run_task :: "u32 \<Rightarrow> ('f, 'c) sch_task \<Rightarrow> ('f, 'c) sch_task" where
  "run_task now t = (if is_due now t then taken now t else t)"

text \<open>What a registration fixes in a slot; the flags and the release are what remains to change.\<close>

definition same_slot :: "('f, 'c) sch_task \<Rightarrow> ('f, 'c) sch_task \<Rightarrow> bool" where
  "same_slot t t' \<longleftrightarrow> fn t' = fn t \<and> ctx t' = ctx t \<and> period_ticks t' = period_ticks t \<and>
     priority t' = priority t \<and> enabled t' = enabled t \<and> in_use t' = in_use t"

lemma same_slot_refl [simp]: "same_slot t t"
  by (simp add: same_slot_def)

lemma same_slot_trans: "same_slot t u \<Longrightarrow> same_slot u v \<Longrightarrow> same_slot t v"
  by (simp add: same_slot_def)

lemma same_slot_run: "same_slot t (run_task now t)"
  by (simp add: same_slot_def run_task_def)

text \<open>Releases move by whole periods, in the arithmetic of the tick counter.\<close>

definition on_grid_of :: "('f, 'c) sch_task \<Rightarrow> ('f, 'c) sch_task \<Rightarrow> bool" where
  "on_grid_of t t' \<longleftrightarrow> (\<exists>k. next_release t' = next_release t + k * period_ticks t)"

lemma on_grid_refl [simp]: "on_grid_of t t"
  unfolding on_grid_of_def by (rule exI [of _ 0]) simp

lemma on_grid_trans:
  assumes "on_grid_of t u" and "on_grid_of u v" and "same_slot t u"
  shows "on_grid_of t v"
proof -
  obtain j k where "next_release u = next_release t + j * period_ticks t"
    "next_release v = next_release u + k * period_ticks u" using assms(1,2) by (auto simp: on_grid_of_def)
  then have "next_release v = next_release t + (j + k) * period_ticks t"
    using assms(3) by (simp add: same_slot_def algebra_simps)
  then show ?thesis unfolding on_grid_of_def ..
qed

lemma advance_whole_periods:
  "sch_advance_next_release now release period = release +
     (if period = 0 \<or> sint (now - release) < 0 then 0 else (now - release) div period + 1) * period"
  by (simp add: sch_advance_next_release_def Let_def)

lemma on_grid_run: "on_grid_of t (run_task now t)"
proof (cases "is_due now t")
  case True
  then have "next_release (run_task now t) = sch_advance_next_release now (next_release t) (period_ticks t)"
    by (simp add: run_task_def)
  then show ?thesis unfolding on_grid_of_def advance_whole_periods by (rule exI)
next
  case False
  then show ?thesis by (simp add: run_task_def)
qed

context task_contract
begin

lemma crit_now_ok: "ok w \<Longrightarrow> ok (snd (crit_now p w))"
  by (simp add: crit_now_def split_beta Let_def enter_ok now_ok exit_ok)

lemma run_phases:
  assumes "sch_wf s" and "sch_quiet s" and "ok w" and "crit_now p w = (now, w1)"
  obtains s2 w2 s3 w3 where
    "dispatch_all cfg p env now (dispatch_order (marked now s)) (marked now s) w1 = Some (s2, w2)"
    "sch_run_background cfg p env s2
      (if length (dispatch_order (marked now s)) < SCH_MAX_TASKS then crit p w2 else w2) = Some (s3, w3)"
    "sch_run cfg p env (Some s) w = Some (Some s3, w3)"
    "sch_wf s2" "sch_wf s3" "sch_quiet s3" "ok w3"
    "\<forall>j<SCH_MAX_TASKS. in_use (tasks s ! j) \<longrightarrow>
       tasks s2 ! j = run_task now (tasks s ! j) \<and> tasks s3 ! j = run_task now (tasks s ! j)"
proof -
  let ?m = "marked now s"
  have w1: "ok w1" using crit_now_ok [OF assms(3)] assms(4) by simp
  from dispatch_all_returns [OF marked_wf [OF assms(1)] refl w1, of cfg now now]
  obtain s2 w2 where s2:
    "dispatch_all cfg p env now (dispatch_order ?m) ?m w1 = Some (s2, w2)"
    "sch_wf s2" "dispatch_order s2 = []" "ok w2"
    "\<forall>j<SCH_MAX_TASKS. if in_use (tasks ?m ! j)
       then tasks s2 ! j = (if j \<in> set (dispatch_order ?m) then taken now (tasks ?m ! j) else tasks ?m ! j)
       else \<not> pending (tasks s2 ! j)" by blast
  let ?w2 = "if length (dispatch_order ?m) < SCH_MAX_TASKS then crit p w2 else w2"
  have "ok ?w2" using s2(4) crit_ok by simp
  from background_returns [OF s2(2) this, of cfg] obtain s3 w3 where s3:
    "sch_run_background cfg p env s2 ?w2 = Some (s3, w3)" "ok w3"
    "task_frame (case background_ring s2 of [] \<Rightarrow> s2 | i # _ \<Rightarrow>
       s2\<lparr>next_background_idx := background_cursor i\<rparr>) s3" by blast
  have t3: "if in_use (tasks s2 ! j) then tasks s3 ! j = tasks s2 ! j else \<not> pending (tasks s3 ! j)"
    if "j < SCH_MAX_TASKS" for j
    using s3(3) that by (cases "background_ring s2") (simp_all add: task_frame_def)
  have t2: "if in_use (tasks s ! j) then tasks s2 ! j = run_task now (tasks s ! j)
      else \<not> pending (tasks s2 ! j)" if j: "j < SCH_MAX_TASKS" for j
  proof -
    have m: "tasks ?m ! j = mark_task now (tasks s ! j)"
      using j assms(1) by (simp add: marked_def wf_lengths)
    have np: "\<not> pending (tasks s ! j)"
      using j assms(1,2) by (simp add: sch_quiet_def list_all_length wf_lengths)
    show ?thesis
      using s2(5) [rule_format, OF j] j
      by (auto simp: set_dispatch_marked [OF assms(1,2)] m mark_task_wf run_task_def mark_task_def
          taken_def split: if_splits)
  qed
  have quiet2: "\<not> pending (tasks s2 ! j)" if j: "j < SCH_MAX_TASKS" for j
  proof -
    have "\<not> pending (tasks s ! j)"
      using j assms(1,2) by (simp add: sch_quiet_def list_all_length wf_lengths)
    then show ?thesis
      using t2 [OF j] by (auto simp: run_task_def split: if_splits)
  qed
  show thesis
  proof (rule that [OF s2(1) s3(1) _ s2(2) frame_wf [OF s3(3)] _ s3(2)])
    show "sch_run cfg p env (Some s) w = Some (Some s3, w3)"
      using s2(1) s3(1)
      by (simp add: run_unfold [OF assms(1,2)] assms(4)
          run_periodic_refines [OF marked_wf [OF assms(1)] length_dispatch_order w1])
    show "sch_quiet s3"
      unfolding sch_quiet_def list_all_length wf_lengths(1) [OF frame_wf [OF s3(3)]]
      using t3 quiet2 by metis
    show "\<forall>j<SCH_MAX_TASKS. in_use (tasks s ! j) \<longrightarrow>
       tasks s2 ! j = run_task now (tasks s ! j) \<and> tasks s3 ! j = run_task now (tasks s ! j)"
    proof (intro allI impI)
      fix j assume j: "j < SCH_MAX_TASKS" "in_use (tasks s ! j)"
      then show "tasks s2 ! j = run_task now (tasks s ! j) \<and> tasks s3 ! j = run_task now (tasks s ! j)"
        using t2 [OF j(1)] t3 [OF j(1)] by (auto simp: run_task_def split: if_splits)
    qed
  qed
qed


lemma run_eq:
  assumes "sch_wf s" and "sch_quiet s" and "ok w" and "crit_now p w = (now, w1)"
    and "ready = dispatch_order (marked now s)"
  shows "sch_run cfg p env (Some s) w =
    Option.bind (dispatch_all cfg p env now ready (marked now s) w1) (\<lambda>(s2, w2).
      Option.bind (sch_run_background cfg p env s2
          (if length ready < SCH_MAX_TASKS then crit p w2 else w2)) (\<lambda>(s3, w3).
        Some (Some s3, w3)))"
proof -
  have "ok w1" using crit_now_ok [OF assms(3)] assms(4) by simp
  note refines = run_periodic_refines [OF marked_wf [OF assms(1)] length_dispatch_order this]
  show ?thesis
    by (cases "dispatch_all cfg p env now ready (marked now s) w1")
      (simp_all add: run_unfold [OF assms(1,2)] assms(4) assms(5) [symmetric] refines split_beta)
qed

end

end
