(* ===== verification/Scheduler_Log.thy ===== *)
theory Scheduler_Log
  imports Scheduler_Cycle
begin

text \<open>
  Which functions a run calls, for an observer who sees only their effect on the platform.
  \<open>R fs w w'\<close> says that calling the functions \<open>fs\<close>, one after the other and nothing else, may have
  moved the platform from \<open>w\<close> to \<open>w'\<close>; hooks and clock readings are no such calls. A run then
  relates its two platforms by the functions of the ready tasks in dispatch order, followed by
  that of the background task. The special case of a log to which a call of \<open>f\<close> adds \<open>msg f\<close>
  makes the order of the calls visible.
\<close>

definition slot_fn :: "('f, 'c, 'h) sch \<Rightarrow> nat \<Rightarrow> 'f" where
  "slot_fn s i = the (fn (tasks s ! i))"

section \<open>The calls of a run\<close>

locale called_run = task_contract p env ok
  for p :: "'w port"
    and env :: "('f, 'c, 'h, 'w) sch_env"
    and ok :: "'w \<Rightarrow> bool" +
  fixes R :: "'f list \<Rightarrow> 'w \<Rightarrow> 'w \<Rightarrow> bool"
  assumes none: "R [] w w"
    and join: "R fs u v \<Longrightarrow> R gs v w \<Longrightarrow> R (fs @ gs) u w"
    and now_calls: "R [] w (snd (sch_port_now_ticks p w))"
    and enter_calls: "R [] w (snd (sch_port_enter_critical p w))"
    and exit_calls: "R [] w (sch_port_exit_critical p state w)"
    and idle_calls: "R [] w (sch_port_idle p w)"
    and hook_calls: "R [] w (call_hook env h e i t c w)"
    and task_calls: "sch_wf s \<Longrightarrow> ok w \<Longrightarrow> call_task env f c s w = Some (s', w') \<Longrightarrow> R [f] w w'"
begin

lemma join_after: "R fs u v \<Longrightarrow> R [] v w \<Longrightarrow> R fs u w"
  using join [of fs u v "[]" w] by simp

lemma join_before: "R [] u v \<Longrightarrow> R fs v w \<Longrightarrow> R fs u w"
  using join [of "[]" u v fs w] by simp

lemma crit_calls: "R [] w (crit p w)"
  unfolding crit_def split_beta Let_def by (rule join_after [OF enter_calls exit_calls])

lemma emit_calls: "R [] w (sch_trace_emit env sc e i t w)"
  by (simp add: sch_trace_emit_def none hook_calls split: option.split)

lemma now_emit_calls: "R [] w (sch_trace_emit env sc e i t (snd (sch_port_now_ticks p w)))"
  by (rule join_after [OF now_calls emit_calls])

lemma now_emit_after: "R [] w v \<Longrightarrow> R [] w (sch_trace_emit env sc e i t (snd (sch_port_now_ticks p v)))"
  by (rule join_after [OF _ now_emit_calls])

lemma now_after: "R [] w v \<Longrightarrow> R [] w (snd (sch_port_now_ticks p v))"
  by (rule join_after [OF _ now_calls])

lemmas quiet_calls = none now_calls now_emit_calls now_emit_after now_after

lemma around_calls:
  "R [] w (snd (exec_before cfg p env i s w))" "R [] w (snd (exec_after cfg p env i period s w))"
  "R [] w (snd (background_before cfg p env i s w))" "R [] w (snd (background_after cfg p env i s w))"
  "R [] w (idle_phase cfg p env s w)"
  by (auto simp: exec_before_def exec_after_def background_before_def background_after_def idle_phase_def
      Let_def split_beta intro!: join_after [OF _ idle_calls] quiet_calls)

lemma background_before_ok: "ok w \<Longrightarrow> ok (snd (background_before cfg p env i s w))"
  by (simp add: background_before_def Let_def split_beta now_ok emit_ok)

lemma dispatch_calls:
  assumes "sch_wf s" and "i < SCH_MAX_TASKS" and "ok w" and "dispatch_slot cfg p env now i s w = Some (s', w')"
  shows "R [slot_fn s i] w w'"
proof (cases "fn (tasks s ! i)")
  case None
  with assms(4) show ?thesis by (auto simp: dispatch_slot_def sch_exec_periodic_def call_fn_def Let_def split_beta)
next
  case (Some f)
  let ?s = "sch_take_task now i s"
  obtain s1 w1 where b: "exec_before cfg p env i ?s (crit p w) = (s1, w1)" by (metis surj_pair)
  have "same_core ?s s1" using exec_before_core [of ?s cfg p env i "crit p w"] b by simp
  then have wf: "sch_wf s1" using same_core_wf take_wf [OF assms(1,2)] by blast
  have ok1: "ok w1" using exec_before_ok [OF crit_ok [OF assms(3)], of cfg i ?s] b by simp
  from assms(4) obtain s2 w2 where c: "call_task env f (ctx (tasks s ! i)) s1 w1 = Some (s2, w2)"
    and a: "exec_after cfg p env i (period_ticks (tasks s ! i)) s2 w2 = (s', w')"
    by (auto simp: dispatch_slot_def Some exec_periodic_split b split: option.splits)
  have "R [] w w1" using join_after [OF crit_calls around_calls(1), of w cfg i ?s] b by simp
  moreover have "R [] w2 w'" using around_calls(2) [of w2 cfg i "period_ticks (tasks s ! i)" s2] a by simp
  ultimately show ?thesis
    using join_after [OF join_before [OF _ task_calls [OF wf ok1 c]]] by (simp add: slot_fn_def Some)
qed

lemma dispatch_all_calls:
  assumes "sch_wf s" and "dispatch_order s = is" and "ok w"
    and "dispatch_all cfg p env now is s w = Some (s', w')"
  shows "R (map (slot_fn s) is) w w'"
  using assms
proof (induction "is" arbitrary: s w)
  case Nil
  then show ?case by (simp add: none)
next
  case (Cons i "is")
  have i: "i < SCH_MAX_TASKS" using set_dispatch_order [of s] Cons.prems(2) by auto
  from dispatch_slot_step [OF Cons.prems(1-3), of cfg now] obtain s1 w1 where s1:
    "dispatch_slot cfg p env now i s w = Some (s1, w1)" "sch_wf s1" "dispatch_order s1 = is" "ok w1"
    "\<forall>j<SCH_MAX_TASKS. if in_use (tasks s ! j)
       then tasks s1 ! j = (if j = i then taken now (tasks s ! j) else tasks s ! j)
       else \<not> pending (tasks s1 ! j)" by blast
  have "slot_fn s1 j = slot_fn s j" if "j \<in> set is" for j
  proof -
    have "j \<in> set (dispatch_order s)" using that Cons.prems(2) by simp
    then have "j < SCH_MAX_TASKS" "in_use (tasks s ! j)" by (simp_all add: set_dispatch_order is_ready_def)
    then have "fn (tasks s1 ! j) = fn (tasks s ! j)" using s1(5) by (metis taken_fields(1))
    then show ?thesis by (simp add: slot_fn_def)
  qed
  then have m: "map (slot_fn s1) is = map (slot_fn s) is" by simp
  have rest: "dispatch_all cfg p env now is s1 w1 = Some (s', w')"
    using Cons.prems(4) s1(1) by simp
  from join [OF dispatch_calls [OF Cons.prems(1) i Cons.prems(3) s1(1)] Cons.IH [OF s1(2-4) rest]]
  show ?case by (simp add: m)
qed

lemma background_calls:
  assumes "sch_wf s" and "ok w" and "sch_run_background cfg p env s w = Some (s', w')"
  shows "R (map (slot_fn s) (take 1 (background_ring s))) w w'"
proof (cases "background_ring s")
  case Nil
  then show ?thesis using assms join_after [OF crit_calls around_calls(5)] by (auto simp: run_background_eq)
next
  case (Cons i "is")
  let ?s = "s\<lparr>next_background_idx := background_cursor i\<rparr>"
  have i: "i < SCH_MAX_TASKS" "in_use (tasks s ! i)"
    using set_background_ring [of s] Cons by (auto simp: is_background_def)
  then obtain f where f: "fn (tasks s ! i) = Some f"
    using wf_task [OF assms(1) i(1)] by (cases "fn (tasks s ! i)") (simp_all add: task_wf_def)
  obtain s1 w1 where b: "background_before cfg p env i ?s (crit p w) = (s1, w1)" by (metis surj_pair)
  have "same_core ?s s1" using background_before_core [of ?s cfg p env i "crit p w"] b by simp
  then have wf: "sch_wf s1" using same_core_wf cursor_wf [OF assms(1)] by blast
  have ok1: "ok w1" using background_before_ok [OF crit_ok [OF assms(2)], of cfg i ?s] b by simp
  from assms f Cons b obtain s2 w2 where
    c: "call_task env f (ctx (tasks s ! i)) s1 w1 = Some (s2, w2)" and
    a: "background_after cfg p env i s2 w2 = (s', w')"
    by (auto simp: run_background_eq background_slot_def call_fn_def split: option.splits)
  have "R [] w w1" using join_after [OF crit_calls around_calls(3), of w cfg i ?s] b by simp
  moreover have "R [] w2 w'" using around_calls(4) [of w2 cfg i s2] a by simp
  ultimately show ?thesis
    using join_after [OF join_before [OF _ task_calls [OF wf ok1 c]]] by (simp add: Cons slot_fn_def f)
qed

text \<open>A whole run: the tasks due, in dispatch order, then the head of the background ring.\<close>

lemma run_calls:
  assumes "sch_wf s" and "sch_quiet s" and "ok w" and "crit_now p w = (now, w1)"
  shows "\<exists>s2 w2 s3 w3.
    dispatch_all cfg p env now (dispatch_order (marked now s)) (marked now s) w1 = Some (s2, w2) \<and>
    sch_run cfg p env (Some s) w = Some (Some s3, w3) \<and>
    R (map (slot_fn s) (dispatch_order (marked now s)) @ map (slot_fn s2) (take 1 (background_ring s2))) w w3"
proof -
  let ?m = "marked now s"
  let ?order = "dispatch_order ?m"
  from run_phases [OF assms] obtain s2 w2 s3 w3 where r:
    "dispatch_all cfg p env now ?order ?m w1 = Some (s2, w2)"
    "sch_run_background cfg p env s2 (if length ?order < SCH_MAX_TASKS then crit p w2 else w2) = Some (s3, w3)"
    "sch_run cfg p env (Some s) w = Some (Some s3, w3)" "sch_wf s2" by metis
  have "slot_fn ?m i = slot_fn s i" if "i \<in> set ?order" for i
    using that assms(1) set_dispatch_order [of ?m]
    by (simp add: slot_fn_def marked_def mark_task_def wf_lengths)
  then have m: "map (slot_fn ?m) ?order = map (slot_fn s) ?order" by simp
  have ok1: "ok w1" using crit_now_ok [OF assms(3)] assms(4) by (metis snd_conv)
  then have ok2: "ok w2" using dispatch_all_returns [OF marked_wf [OF assms(1)] refl ok1, of cfg now now] r(1) by auto
  have entry: "R [] w w1"
    using join_after [OF join_after [OF enter_calls now_calls] exit_calls, of w] assms(4)
    by (auto simp: crit_now_def split_beta Let_def)
  have leave: "R [] w2 (if length ?order < SCH_MAX_TASKS then crit p w2 else w2)"
    "ok (if length ?order < SCH_MAX_TASKS then crit p w2 else w2)" using crit_calls none crit_ok [OF ok2] ok2 by simp_all
  from join [OF join_before [OF entry dispatch_all_calls [OF marked_wf [OF assms(1)] refl ok1 r(1)]]
      join_before [OF leave(1) background_calls [OF r(4) leave(2) r(2)]]] r(1,3)
  show ?thesis by (auto simp: m)
qed

end

section \<open>A log of the calls\<close>

text \<open>What the slot \<open>i\<close> adds when its function is called, for an observer to whom \<open>f\<close> adds \<open>msg f\<close>.\<close>

definition slot_msg :: "('f \<Rightarrow> 'b list) \<Rightarrow> ('f, 'c, 'h) sch \<Rightarrow> nat \<Rightarrow> 'b list" where
  "slot_msg msg s i = msg (the (fn (tasks s ! i)))"

lemma slot_msg_fn: "concat (map msg (map (slot_fn s) is)) = concat (map (slot_msg msg s) is)"
  by (simp add: slot_fn_def slot_msg_def [abs_def] comp_def)

locale logged_run = task_contract p env ok
  for p :: "'w port"
    and env :: "('f, 'c, 'h, 'w) sch_env"
    and ok :: "'w \<Rightarrow> bool" +
  fixes log :: "'w \<Rightarrow> 'b list"
    and msg :: "'f \<Rightarrow> 'b list"
  assumes now_log: "log (snd (sch_port_now_ticks p w)) = log w"
    and enter_log: "log (snd (sch_port_enter_critical p w)) = log w"
    and exit_log: "log (sch_port_exit_critical p state w) = log w"
    and idle_log: "log (sch_port_idle p w) = log w"
    and hook_log: "log (call_hook env h e i t c w) = log w"
    and call_log: "sch_wf s \<Longrightarrow> call_task env f c s w = Some (s', w') \<Longrightarrow> log w' = log w @ msg f"

sublocale logged_run \<subseteq> calls: called_run p env ok "\<lambda>fs w w'. log w' = log w @ concat (map msg fs)"
  by unfold_locales (simp_all add: now_log enter_log exit_log idle_log hook_log call_log)

context logged_run
begin

lemma run_log:
  assumes "sch_wf s" and "sch_quiet s" and "ok w" and "crit_now p w = (now, w1)"
  shows "\<exists>s2 w2 s3 w3.
    dispatch_all cfg p env now (dispatch_order (marked now s)) (marked now s) w1 = Some (s2, w2) \<and>
    sch_run cfg p env (Some s) w = Some (Some s3, w3) \<and>
    log w3 = log w @ concat (map (slot_msg msg s) (dispatch_order (marked now s)))
       @ concat (map (slot_msg msg s2) (take 1 (background_ring s2)))"
  using calls.run_calls [OF assms, of cfg] unfolding map_append concat_append slot_msg_fn by blast

end

end
