(* ===== verification/Test_Bench.thy ===== *)
theory Test_Bench
  imports Scheduler_Log
begin

text \<open>
  The application of \<^verbatim>\<open>tests/unit/test_scheduler.c\<close>: tasks that log their call, one of which
  may advance the fake clock, and a trace hook that logs its events. A task that registers
  another one is added, the one change of the scheduler that the library offers to tasks.
  The application satisfies the task contract, and on it the order of the calls is
  observable in the log.
\<close>

section \<open>The application\<close>

datatype bench_fn =
    TASK_A
  | TASK_B
  | BACKGROUND_TASK
  | is_REGISTER_TASK: REGISTER_TASK (registered: bench_fn) (registered_period: u32) (registered_priority: u16)

record bench = test_bench +
  call_trace :: "bench_fn list"
  trace_calls :: "(sch_trace_event \<times> i32 \<times> u32) list"
  task_a_delay :: u32

definition bench_env ::
  "sch_config \<Rightarrow> (bench_fn, unit, unit, bench) sch_env" where
  "bench_env cfg =
     \<lparr>call_task = (\<lambda>f c s b.
        let b = b\<lparr>call_trace := call_trace b @ [f]\<rparr>
        in
          case f of
            TASK_A \<Rightarrow> Some (s, b\<lparr>fake_time_us := fake_time_us b + task_a_delay b\<rparr>)
          | TASK_B \<Rightarrow> Some (s, b)
          | BACKGROUND_TASK \<Rightarrow> Some (s, b)
          | REGISTER_TASK g period prio \<Rightarrow>
              (let (task_id, s', b) = sch_add_task cfg test_port (Some s) (Some g) None period 0 prio b
               in map_option (\<lambda>s. (s, b)) s')),
      call_hook = (\<lambda>h event task_id timestamp user_ctx b.
        b\<lparr>trace_calls := trace_calls b @ [(event, task_id, timestamp)]\<rparr>)\<rparr>"

definition bench_start :: bench where
  "bench_start = \<lparr>fake_time_us = 0, idle_call_count = 0, call_trace = [], trace_calls = [],
     task_a_delay = 0\<rparr>"

lemma bench_add_task_some:
  assumes "sch_wf s"
  obtains s' where
    "sch_add_task cfg test_port (Some s) (Some g) c period delay prio (b :: bench) =
      (fst (sch_add_task cfg test_port (Some s) (Some g) c period delay prio b), Some s', b)"
    and "task_frame s s'"
proof -
  obtain tid s'' b' where r:
    "sch_add_task cfg test_port (Some s) (Some g) c period delay prio b = (tid, s'', b')"
    by (metis surj_pair)
  have "b' = b \<and> s'' \<noteq> None"
  proof (cases "free_slot s")
    case None
    with r show ?thesis
      using add_task_full [OF assms None, of cfg test_port g c period delay prio b]
      by (auto simp: crit_def test_port_def)
  next
    case (Some i)
    with r show ?thesis
      using add_task_free [OF assms Some, of cfg test_port g c period delay prio b]
      by (auto simp: crit_now_def test_port_def)
  qed
  then obtain s' where s': "s'' = Some s'" "b' = b" by auto
  have "task_frame s s'"
    using assms r unfolding s' by (rule add_task_frame)
  with that r s' show thesis by simp
qed

interpretation bench_app: task_contract test_port "bench_env cfg'" "\<lambda>b. True"
  for cfg'
proof unfold_locales
  fix s :: "(bench_fn, unit, unit) sch" and b :: bench and f and c :: "unit option"
  assume wf: "sch_wf s"
  show "\<exists>s' b'. call_task (bench_env cfg') f c s b = Some (s', b') \<and> task_frame s s' \<and> True"
  proof (cases f)
    case (REGISTER_TASK g period prio)
    obtain s' where "sch_add_task cfg' test_port (Some s) (Some g) None period 0 prio
        (b\<lparr>call_trace := call_trace b @ [f]\<rparr>) =
        (fst (sch_add_task cfg' test_port (Some s) (Some g) None period 0 prio
          (b\<lparr>call_trace := call_trace b @ [f]\<rparr>)), Some s', b\<lparr>call_trace := call_trace b @ [f]\<rparr>)"
      and "task_frame s s'"
      using bench_add_task_some [OF wf, of cfg' g None period 0 prio] by blast
    then show ?thesis by (auto simp: bench_env_def REGISTER_TASK Let_def split_beta prod_eq_iff)
  qed (simp_all add: bench_env_def frame_refl [OF wf] Let_def)
qed simp_all

section \<open>The order of the calls is observable\<close>

lemma bench_now [simp]: "sch_port_now_ticks test_port (b :: bench) = (fake_time_us b, b)"
  by (simp add: test_port_def)

lemma bench_idle [simp]:
  "sch_port_idle test_port (b :: bench) = b\<lparr>idle_call_count := idle_call_count b + 1\<rparr>"
  by (simp add: test_port_def)

lemma bench_crit [simp]: "crit test_port (b :: bench) = b"
  by (simp add: crit_def test_port_def)

lemma bench_crit_now [simp]: "crit_now test_port (b :: bench) = (fake_time_us b, b)"
  by (simp add: crit_now_def test_port_def)

lemma bench_emit_trace [simp]: "call_trace (sch_trace_emit (bench_env cfg) sc e i t b) = call_trace b"
  by (simp add: sch_trace_emit_def bench_env_def split: option.split)

lemma bench_call_trace:
  "call_task (bench_env cfg) f c s b = Some (s', b') \<Longrightarrow> sch_wf s \<Longrightarrow> call_trace b' = call_trace b @ [f]"
proof (cases f)
  case (REGISTER_TASK g period prio)
  assume call: "call_task (bench_env cfg) f c s b = Some (s', b')" and wf: "sch_wf s"
  from bench_add_task_some [OF wf, of cfg g None period 0 prio "b\<lparr>call_trace := call_trace b @ [f]\<rparr>"]
  obtain s1 tid where "sch_add_task cfg test_port (Some s) (Some g) None period 0 prio
      (b\<lparr>call_trace := call_trace b @ [f]\<rparr>) = (tid, Some s1, b\<lparr>call_trace := call_trace b @ [f]\<rparr>)"
    by metis
  with call show ?thesis by (auto simp: bench_env_def REGISTER_TASK)
qed (auto simp: bench_env_def)

interpretation bench_log: logged_run test_port "bench_env cfg'" "\<lambda>b. True" call_trace "\<lambda>f. [f]"
  for cfg'
  by unfold_locales (simp_all add: bench_call_trace, simp_all add: bench_env_def test_port_def)

end
