(* ===== verification/Scheduler_Cadence.thy ===== *)
theory Scheduler_Cadence
  imports Test_Bench
begin

text \<open>
  Consecutive runs. \<open>run_seq\<close> polls the scheduler repeatedly, the platform state changing in
  between as it likes, and records for each run the tick it read and the slots it
  dispatched. Against unwrapped time, a periodic task is dispatched by a poll exactly when
  a point of its release grid lies after the previous poll and not after this one, however
  often the tick counter wraps around in the meantime.
\<close>

section \<open>One task against its grid\<close>

definition released_within :: "nat \<Rightarrow> nat \<Rightarrow> nat \<Rightarrow> nat \<Rightarrow> bool" where
  "released_within R period lo T \<longleftrightarrow> (\<exists>k. lo \<le> R + k * period \<and> R + k * period \<le> T)"

text \<open>The releases expected at the polls \<open>Ts\<close>; polls are less than half the tick range apart.\<close>

fun expected_releases :: "nat \<Rightarrow> nat \<Rightarrow> nat \<Rightarrow> nat list \<Rightarrow> bool list" where
  "expected_releases R period lo [] = []"
| "expected_releases R period lo (T # Ts) =
     released_within R period lo T # expected_releases R period (T + 1) Ts"

fun polls_close :: "nat \<Rightarrow> nat list \<Rightarrow> bool" where
  "polls_close T [] \<longleftrightarrow> True"
| "polls_close T (T' # Ts) \<longleftrightarrow> T \<le> T' \<and> T' < T + 2 ^ 31 \<and> polls_close T' Ts"

text \<open>The pending release as a grid point: the first one not before \<open>lo\<close>.\<close>

definition next_point :: "nat \<Rightarrow> nat \<Rightarrow> nat \<Rightarrow> nat \<Rightarrow> bool" where
  "next_point R period lo x \<longleftrightarrow>
     (\<exists>k. x = R + k * period) \<and> lo \<le> x \<and> (\<forall>k. lo \<le> R + k * period \<longrightarrow> x \<le> R + k * period)"

lemma released_iff_next_point:
  "next_point R period lo x \<Longrightarrow> released_within R period lo T \<longleftrightarrow> x \<le> T"
  unfolding next_point_def released_within_def by (metis order.trans)

lemma next_point_start: "next_point R period 0 R"
  unfolding next_point_def by (metis add_0_right le0 le_add1 mult_0)

lemma next_point_later:
  "next_point R period lo x \<Longrightarrow> lo \<le> T + 1 \<Longrightarrow> T < x \<Longrightarrow> next_point R period (T + 1) x"
  unfolding next_point_def by (metis Suc_eq_plus1 Suc_leI order.trans)

lemma next_point_advance:
  assumes "next_point R period lo x" and "0 < period" and "x \<le> T"
  shows "next_point R period (T + 1) (next_grid x period T)"
proof -
  obtain k where k: "x = R + k * period" using assms(1) by (auto simp: next_point_def)
  have "next_grid x period T = R + (k + ((T - x) div period + 1)) * period"
    by (simp add: next_grid_def k algebra_simps)
  moreover have "T + 1 \<le> next_grid x period T"
    using next_grid_bounds [OF assms(3,2)] by simp
  moreover have "next_grid x period T \<le> R + j * period" if "T + 1 \<le> R + j * period" for j
  proof (rule ccontr)
    assume small: "\<not> ?thesis"
    have "k \<le> j"
    proof (rule ccontr)
      assume "\<not> k \<le> j"
      then have "j * period \<le> k * period" by (intro mult_le_mono1) simp
      then show False using that assms(3) k by linarith
    qed
    then obtain d where "j = k + d" by (auto simp: le_iff_add)
    then have "R + j * period = x + d * period" by (simp add: k algebra_simps)
    with small that next_grid_first [OF assms(3,2), of d] show False by simp
  qed
  ultimately show ?thesis unfolding next_point_def by blast
qed

text \<open>
  One poll of the model's task. \<open>T0\<close> is the last time the task was touched, its registration
  or a poll, and releases before \<open>lo\<close> have been served.
\<close>

definition tracks :: "nat \<Rightarrow> nat \<Rightarrow> nat \<Rightarrow> nat \<Rightarrow> ('f, 'c) sch_task \<Rightarrow> bool" where
  "tracks R period T0 lo t \<longleftrightarrow> T0 \<le> lo \<and> lo \<le> T0 + 1 \<and>
     in_use t \<and> enabled t \<and> period_ticks t = of_nat period \<and>
     (\<exists>x. next_release t = of_nat x \<and> next_point R period lo x \<and> x \<le> T0 + 2 ^ 31)"

text \<open>A task just registered at \<open>T\<close>, with its first release at most one period away.\<close>

lemma tracks_start:
  assumes "in_use t" and "enabled t" and "period_ticks t = of_nat period" and "next_release t = of_nat (T + r)"
    and "r < 2 ^ 31" and "r < period"
  shows "tracks (T + r) period T T t"
proof -
  have "next_point (T + r) period T (T + r)" by (auto simp: next_point_def intro: exI [of _ 0])
  then show ?thesis using assms unfolding tracks_def by (auto intro!: exI [of _ "T + r"])
qed

lemma tracks_poll:
  assumes t: "tracks R period T0 lo t" and period: "0 < period" "period \<le> 2 ^ 31"
    and T: "T0 \<le> T" "T < T0 + 2 ^ 31"
  shows "is_due (of_nat T) t \<longleftrightarrow> released_within R period lo T"
    and "tracks R period T (T + 1) (run_task (of_nat T) t)"
proof -
  from t obtain x where x: "next_release t = of_nat x" "next_point R period lo x" "x \<le> T0 + 2 ^ 31"
    and t': "in_use t" "enabled t" "period_ticks t = of_nat period"
    and lo: "T0 \<le> lo" "lo \<le> T0 + 1"
    by (auto simp: tracks_def)
  then have x_lo: "T0 \<le> x" by (simp add: next_point_def)
  have "(of_nat period :: u32) \<noteq> 0"
  proof
    assume "(of_nat period :: u32) = 0"
    then have "unat (of_nat period :: u32) = 0" by simp
    then show False using period by (simp add: unat_of_nat take_bit_eq_mod)
  qed
  moreover have "sch_time_reached (of_nat T) (of_nat x) \<longleftrightarrow> x \<le> T"
    using T x(3) x_lo by (intro time_reached_of_nat) simp_all
  ultimately have due: "is_due (of_nat T) t \<longleftrightarrow> x \<le> T" using t' x(1) by (simp add: is_due_def)
  then show "is_due (of_nat T) t \<longleftrightarrow> released_within R period lo T"
    using released_iff_next_point [OF x(2)] by simp
  show "tracks R period T (T + 1) (run_task (of_nat T) t)"
  proof (cases "x \<le> T")
    case True
    have "next_release (taken (of_nat T) t) = of_nat (next_grid x period T)"
      using True T x_lo period by (simp add: t' x(1) advance_of_nat)
    moreover have "next_grid x period T \<le> T + 2 ^ 31"
      using next_grid_bounds(2) [OF True period(1)] period(2) by simp
    ultimately show ?thesis
      using True due t' next_point_advance [OF x(2) period(1) True]
      by (auto simp: tracks_def run_task_def)
  next
    case False
    then have "next_point R period (T + 1) x" using T(1) lo next_point_later [OF x(2)] by simp
    then show ?thesis using False due t' x(1,3) T(1) by (auto simp: tracks_def run_task_def)
  qed
qed

section \<open>Consecutive runs\<close>

text \<open>
  The platform moves on between two runs: interrupts, other code, the passing of time. Each
  run is described by what happens before it.
\<close>

fun run_seq ::
  "sch_config \<Rightarrow> 'w port \<Rightarrow> ('f, 'c, 'h, 'w) sch_env \<Rightarrow> ('w \<Rightarrow> 'w) list \<Rightarrow> ('f, 'c, 'h) sch option \<Rightarrow>
   'w \<Rightarrow> ((u32 \<times> nat list) list \<times> ('f, 'c, 'h) sch option \<times> 'w) option" where
  "run_seq cfg p env [] s w = Some ([], s, w)"
| "run_seq cfg p env (between # gs) s w = do {
     let w = between w;
     let now = fst (crit_now p w);
     let ready = dispatch_order (marked now (the s));
     (s, w) \<leftarrow> sch_run cfg p env s w;
     (log, s, w) \<leftarrow> run_seq cfg p env gs s w;
     Some ((now, ready) # log, s, w)
   }"

context task_contract
begin

lemma run_step:
  assumes "sch_wf s" and "sch_quiet s" and "ok w"
  obtains s' w' where "sch_run cfg p env (Some s) w = Some (Some s', w')" "sch_wf s'" "sch_quiet s'" "ok w'"
    "\<forall>j<SCH_MAX_TASKS. in_use (tasks s ! j) \<longrightarrow> tasks s' ! j = run_task (fst (crit_now p w)) (tasks s ! j)"
proof -
  obtain now w1 where c: "crit_now p w = (now, w1)" by (metis surj_pair)
  show thesis
    by (rule run_phases [OF assms c, where cfg = cfg], rule that) (auto simp: c)
qed

lemma run_seq_returns:
  assumes "sch_wf s" and "sch_quiet s" and "ok w" and "\<forall>g\<in>set gs. \<forall>w. ok w \<longrightarrow> ok (g w)"
  shows "\<exists>log s' w'. run_seq cfg p env gs (Some s) w = Some (log, Some s', w') \<and> sch_wf s' \<and>
    sch_quiet s' \<and> ok w'"
  using assms
proof (induction gs arbitrary: s w)
  case Nil
  then show ?case by simp
next
  case (Cons g gs)
  then have "ok (g w)" by simp
  from run_step [OF Cons.prems(1,2) this, of cfg] obtain s1 w1 where
    r: "sch_run cfg p env (Some s) (g w) = Some (Some s1, w1)" "sch_wf s1" "sch_quiet s1" "ok w1" by metis
  with Cons.IH [OF r(2-4)] Cons.prems(4) show ?case by (auto simp: Let_def)
qed

text \<open>The dispatches of one slot follow its grid.\<close>

lemma run_seq_cadence:
  assumes "sch_wf s" and "sch_quiet s" and "ok w" and "\<forall>g\<in>set gs. \<forall>w. ok w \<longrightarrow> ok (g w)"
    and "run_seq cfg p env gs (Some s) w = Some (log, s', w')"
    and "map fst log = map of_nat Ts" and "polls_close T0 Ts"
    and "j < SCH_MAX_TASKS" and "tracks R period T0 lo (tasks s ! j)"
    and "0 < period" and "period \<le> 2 ^ 31"
  shows "map (\<lambda>(now, ready). j \<in> set ready) log = expected_releases R period lo Ts"
  using assms(1-7,9)
proof (induction gs arbitrary: s w log Ts T0 lo)
  case Nil
  then show ?case by simp
next
  case (Cons g gs)
  then have "ok (g w)" by simp
  let ?now = "fst (crit_now p (g w))"
  from run_step [OF Cons.prems(1,2) \<open>ok (g w)\<close>, of cfg] obtain s1 w1 where r:
    "sch_run cfg p env (Some s) (g w) = Some (Some s1, w1)" "sch_wf s1" "sch_quiet s1" "ok w1"
    "\<forall>j<SCH_MAX_TASKS. in_use (tasks s ! j) \<longrightarrow> tasks s1 ! j = run_task ?now (tasks s ! j)" by metis
  from Cons.prems(5) r(1) obtain log' where log: "log = (?now, dispatch_order (marked ?now s)) # log'"
    and rest: "run_seq cfg p env gs (Some s1) w1 = Some (log', s', w')"
    by (auto simp: Let_def bind_eq_Some_conv)
  from Cons.prems(6) log obtain T Ts' where Ts: "Ts = T # Ts'" "?now = of_nat T"
    "map fst log' = map of_nat Ts'" by (cases Ts) auto
  have T: "T0 \<le> T" "T < T0 + 2 ^ 31" "polls_close T Ts'" using Cons.prems(7) Ts(1) by simp_all
  note poll = tracks_poll [OF Cons.prems(8) assms(10,11) T(1,2)]
  have "in_use (tasks s ! j)" using Cons.prems(8) by (simp add: tracks_def)
  then have "tasks s1 ! j = run_task (of_nat T) (tasks s ! j)"
    using r(5) assms(8) Ts(2) by simp
  then have "map (\<lambda>(now, ready). j \<in> set ready) log' = expected_releases R period (T + 1) Ts'"
    using Cons.IH [OF r(2-4) _ rest Ts(3) T(3)] poll(2) Cons.prems(4) by simp
  moreover have "j \<in> set (dispatch_order (marked ?now s)) \<longleftrightarrow> released_within R period lo T"
    using poll(1) assms(8) by (simp add: set_dispatch_marked [OF Cons.prems(1,2)] Ts(2))
  ultimately show ?case by (simp add: log Ts(1))
qed

end

end
