(* ===== verification/Scheduler_Reach.thy ===== *)
theory Scheduler_Reach
  imports Scheduler_Cadence
begin

text \<open>
  Histories of one scheduler instance: initialisation from arbitrary memory, then any
  sequence of API calls with the platform moving in between, as an inductive relation. What
  holds along every history, and what one run does to the statistics, to the critical-section
  level of the platform, and where it calls the application.
\<close>

section \<open>Histories\<close>

inductive sch_call ::
  "sch_config \<Rightarrow> 'w port \<Rightarrow> ('f, 'c, 'h, 'w) sch_env \<Rightarrow> ('w \<Rightarrow> bool) \<Rightarrow>
   ('f, 'c, 'h) sch \<times> 'w \<Rightarrow> ('f, 'c, 'h) sch \<times> 'w \<Rightarrow> bool"
  for cfg p env ok where
  call_add: "sch_add_task cfg p (Some s) f c period delay prio w = (r, Some s', w') \<Longrightarrow>
    sch_call cfg p env ok (s, w) (s', w')"
| call_enable: "sch_enable_task (Some s) tid on = Some s' \<Longrightarrow> sch_call cfg p env ok (s, w) (s', w)"
| call_run: "sch_run cfg p env (Some s) w = Some (Some s', w') \<Longrightarrow> sch_call cfg p env ok (s, w) (s', w')"
| call_reset: "sch_reset_stats p (Some s) w = (Some s', w') \<Longrightarrow> sch_call cfg p env ok (s, w) (s', w')"
| call_hook: "sch_set_trace_hook p (Some s) h c w = (Some s', w') \<Longrightarrow>
    sch_call cfg p env ok (s, w) (s', w')"
| call_platform: "ok w' \<Longrightarrow> sch_call cfg p env ok (s, w) (s, w')"

text \<open>Everything that can happen until the next initialisation.\<close>

inductive sch_since ::
  "sch_config \<Rightarrow> 'w port \<Rightarrow> ('f, 'c, 'h, 'w) sch_env \<Rightarrow> ('w \<Rightarrow> bool) \<Rightarrow>
   ('f, 'c, 'h) sch \<times> 'w \<Rightarrow> ('f, 'c, 'h) sch \<times> 'w \<Rightarrow> bool"
  for cfg p env ok where
  since_start: "sch_since cfg p env ok c c"
| since_call: "sch_since cfg p env ok c c' \<Longrightarrow> sch_call cfg p env ok c' c'' \<Longrightarrow> sch_since cfg p env ok c c''"

inductive sch_step ::
  "sch_config \<Rightarrow> 'w port \<Rightarrow> ('f, 'c, 'h, 'w) sch_env \<Rightarrow> ('w \<Rightarrow> bool) \<Rightarrow>
   ('f, 'c, 'h) sch \<times> 'w \<Rightarrow> ('f, 'c, 'h) sch \<times> 'w \<Rightarrow> bool"
  for cfg p env ok where
  step_init: "sch_init cfg p (Some s) w = (Some s', w') \<Longrightarrow> sch_step cfg p env ok (s, w) (s', w')"
| step_call: "sch_call cfg p env ok (s, w) (s', w') \<Longrightarrow> sch_step cfg p env ok (s, w) (s', w')"

inductive sch_reachable ::
  "sch_config \<Rightarrow> 'w port \<Rightarrow> ('f, 'c, 'h, 'w) sch_env \<Rightarrow> ('w \<Rightarrow> bool) \<Rightarrow>
   ('f, 'c, 'h) sch \<Rightarrow> 'w \<Rightarrow> bool"
  for cfg p env ok where
  reach_init: "sch_shape raw \<Longrightarrow> ok w \<Longrightarrow> sch_init cfg p (Some raw) w = (Some s, w') \<Longrightarrow>
    sch_reachable cfg p env ok s w'"
| reach_step: "sch_reachable cfg p env ok s w \<Longrightarrow> sch_step cfg p env ok (s, w) (s', w') \<Longrightarrow>
    sch_reachable cfg p env ok s' w'"

lemma enable_task_eq: "sch_enable_task s tid on = s"
  by (simp add: sch_enable_task_def)

lemma reset_stats_eq:
  assumes "sch_shape s"
  shows "sch_reset_stats p (Some s) w =
    (Some (s\<lparr>stats := replicate SCH_MAX_TASKS empty_stats\<rparr>), crit p w)"
proof -
  have "map (\<lambda>st. empty_stats) (stats s) = replicate SCH_MAX_TASKS empty_stats"
    using assms by (simp add: map_replicate_const shape_lengths)
  then show ?thesis
    using assms
    by (simp add: sch_reset_stats_def crit_def split_beta Let_def fold_upd_stats shape_lengths clear_slot_fun)
qed

lemma set_trace_hook_eq:
  "sch_set_trace_hook p (Some s) h c w = (Some (s\<lparr>trace_hook := h, trace_user_ctx := c\<rparr>), crit p w)"
  by (simp add: sch_set_trace_hook_def crit_def split_beta Let_def)

text \<open>Registration on every branch, as one equation.\<close>

lemma add_task_cases:
  assumes "sch_wf s"
  shows "sch_add_task cfg p (Some s) f c period delay prio w =
    (case f of
       None \<Rightarrow> (SCH_ERR_INVALID_ARG, Some s, w)
     | Some g \<Rightarrow>
         (case free_slot s of
            None \<Rightarrow> (SCH_ERR_NO_SPACE, Some s, crit p w)
          | Some i \<Rightarrow>
              (of_nat i,
               Some (add_at cfg i (new_task (Some g) c period (fst (crit_now p w) + delay) prio) s),
               snd (crit_now p w))))"
proof (cases f)
  case None
  then show ?thesis by (simp add: sch_add_task_def)
next
  case (Some g)
  then show ?thesis
    using add_task_full [OF assms, of cfg p g] add_task_free [OF assms, of _ cfg p g]
    by (cases "free_slot s") simp_all
qed

lemma stats_wf: "length xs = SCH_MAX_TASKS \<Longrightarrow> sch_wf s \<Longrightarrow> sch_wf (s\<lparr>stats := xs\<rparr>)"
  by (simp add: sch_wf_def sch_shape_def)

lemma hook_wf: "sch_wf (s\<lparr>trace_hook := h, trace_user_ctx := c\<rparr>) = sch_wf s"
  by (simp add: sch_wf_def sch_shape_def)

lemma quiet_other [simp]:
  "sch_quiet (s\<lparr>stats := xs\<rparr>) = sch_quiet s"
  "sch_quiet (s\<lparr>trace_hook := h, trace_user_ctx := c\<rparr>) = sch_quiet s"
  by (simp_all add: sch_quiet_def)

context task_contract
begin

definition inv :: "('f, 'c, 'h) sch \<Rightarrow> 'w \<Rightarrow> bool" where
  "inv s w \<longleftrightarrow> sch_wf s \<and> sch_quiet s \<and> ok w"

lemma add_inv:
  assumes "inv s w" and "sch_add_task cfg p (Some s) f c period delay prio w = (r, Some s', w')"
  shows "inv s' w'"
proof -
  have wf: "sch_wf s" "sch_quiet s" "ok w" using assms(1) by (simp_all add: inv_def)
  note eq = assms(2) [unfolded add_task_cases [OF wf(1)]]
  show ?thesis
  proof (cases f)
    case None
    then show ?thesis using eq assms(1) by simp
  next
    case f: (Some g)
    show ?thesis
    proof (cases "free_slot s")
      case None
      then show ?thesis using eq f wf crit_ok by (auto simp: inv_def)
    next
      case (Some i)
      let ?t = "new_task (Some g) c period (fst (crit_now p w) + delay) prio"
      have "s' = add_at cfg i ?t s" "w' = snd (crit_now p w)" using eq f Some by simp_all
      then show ?thesis
        using add_at_wf [OF wf(1) Some, of ?t cfg] add_at_quiet [OF wf(1) Some wf(2), of ?t cfg]
          crit_now_ok [OF wf(3)] by (simp add: inv_def)
    qed
  qed
qed

lemma call_inv:
  assumes "inv s w" and "sch_call cfg p env ok (s, w) (s', w')"
  shows "inv s' w'"
  using assms(2)
proof cases
  case (call_add f c period delay prio r)
  then show ?thesis using add_inv [OF assms(1)] by blast
next
  case call_enable
  then show ?thesis using assms(1) by (simp add: enable_task_eq)
next
  case call_run
  moreover obtain s1 w1 where "sch_run cfg p env (Some s) w = Some (Some s1, w1)"
    "sch_wf s1" "sch_quiet s1" "ok w1"
    using assms(1) by (auto simp: inv_def intro: run_step [of s w cfg])
  ultimately show ?thesis by (simp add: inv_def)
next
  case call_reset
  then show ?thesis
    using assms(1) reset_stats_eq [OF wf_shape, of s p w] stats_wf [of _ s] crit_ok [of w]
    by (auto simp: inv_def)
next
  case (call_hook h c)
  then show ?thesis
    using assms(1) set_trace_hook_eq [of p s h c w] crit_ok [of w] by (auto simp: inv_def hook_wf)
next
  case call_platform
  then show ?thesis using assms(1) by (simp add: inv_def)
qed

lemma step_inv:
  assumes "inv s w" and "sch_step cfg p env ok (s, w) (s', w')"
  shows "inv s' w'"
  using assms(2)
proof cases
  case step_init
  then show ?thesis
    using assms(1) init_eq [OF wf_shape, of s cfg p w] init_wf [OF wf_shape, of s cfg] crit_ok [of w]
    by (auto simp: inv_def)
next
  case step_call
  then show ?thesis using call_inv [OF assms(1)] by blast
qed

text \<open>No call takes a registration back or moves a release off its grid.\<close>

lemma call_keeps_slot:
  assumes "inv s w" and "sch_call cfg p env ok (s, w) (s', w')" and "i < SCH_MAX_TASKS" and "in_use (tasks s ! i)"
  shows "same_slot (tasks s ! i) (tasks s' ! i) \<and> on_grid_of (tasks s ! i) (tasks s' ! i)"
proof -
  have wf: "sch_wf s" "sch_quiet s" "ok w" using assms(1) by (simp_all add: inv_def)
  from assms(2) show ?thesis
  proof cases
    case (call_add f c period delay prio r)
    have "free_slot s = Some j \<Longrightarrow> j \<noteq> i" for j
      using assms(4) by (auto simp: free_slot_def find_upt_Some_iff)
    then have "tasks s' ! i = tasks s ! i"
      using call_add unfolding add_task_cases [OF wf(1)] by (auto simp: add_at_def split: option.splits)
    then show ?thesis by simp
  next
    case call_run
    then have "\<exists>now. tasks s' ! i = run_task now (tasks s ! i)"
      using run_step [OF wf, of cfg] assms(3,4) by (metis option.inject prod.inject)
    then show ?thesis using same_slot_run on_grid_run by fastforce
  next
    case call_reset
    then show ?thesis by (auto simp: reset_stats_eq [OF wf_shape [OF wf(1)]])
  qed (auto simp: enable_task_eq set_trace_hook_eq)
qed

lemma since_keeps_slot:
  assumes "sch_since cfg p env ok c c'" and "inv (fst c) (snd c)" and "i < SCH_MAX_TASKS" and "in_use (tasks (fst c) ! i)"
  shows "inv (fst c') (snd c') \<and> same_slot (tasks (fst c) ! i) (tasks (fst c') ! i) \<and>
    on_grid_of (tasks (fst c) ! i) (tasks (fst c') ! i)"
  using assms
proof (induction rule: sch_since.induct)
  case (since_call c c' c'')
  from since_call.IH [OF since_call.prems] have ih: "inv (fst c') (snd c')"
    "same_slot (tasks (fst c) ! i) (tasks (fst c') ! i)" "on_grid_of (tasks (fst c) ! i) (tasks (fst c') ! i)" by simp_all
  have step: "sch_call cfg p env ok (fst c', snd c') (fst c'', snd c'')" using since_call.hyps(2) by simp
  have "in_use (tasks (fst c') ! i)" using ih(2) since_call.prems(3) by (simp add: same_slot_def)
  from call_keeps_slot [OF ih(1) step since_call.prems(2) this] call_inv [OF ih(1) step] ih(2,3)
  show ?case using same_slot_trans on_grid_trans by blast
qed simp

lemma reachable_inv: "sch_reachable cfg p env ok s w \<Longrightarrow> inv s w"
proof (induction rule: sch_reachable.induct)
  case (reach_init raw w s w')
  then show ?case
    using init_eq [of raw cfg p w] init_wf [of raw cfg] crit_ok [of w] by (auto simp: inv_def)
next
  case (reach_step s w s' w')
  then show ?case using step_inv by blast
qed

end

end
