(* ===== verification/Scheduler_Effects.thy ===== *)
theory Scheduler_Effects
  imports Scheduler_Reach
begin

text \<open>
  What one run does besides dispatching: the critical-section level it keeps under the
  porting contract, the places where it calls the application, and the statistics.
\<close>

section \<open>Critical sections\<close>

definition app_keeps_level :: "('f, 'c, 'h, 'w) sch_env \<Rightarrow> ('w \<Rightarrow> 'l) \<Rightarrow> bool" where
  "app_keeps_level env level \<longleftrightarrow>
     (\<forall>f c s w s' w'. call_task env f c s w = Some (s', w') \<longrightarrow> level w' = level w) \<and>
     (\<forall>h e i t c w. level (call_hook env h e i t c w) = level w)"

lemma app_level:
  assumes "app_keeps_level env level"
  shows "call_task env f c s w = Some (s', w') \<Longrightarrow> level w' = level w"
    and "level (sch_trace_emit env sc e i t w) = level w"
  using assms by (auto simp: app_keeps_level_def sch_trace_emit_def split: option.split)

context port_contract
begin

lemma exec_before_level:
  "app_keeps_level env level \<Longrightarrow> level (snd (exec_before cfg p env i s w)) = level w"
  by (simp add: exec_before_def Let_def split_beta now_ticks_level app_level(2))

lemma exec_after_level:
  "app_keeps_level env level \<Longrightarrow> level (snd (exec_after cfg p env i period s w)) = level w"
  by (simp add: exec_after_def Let_def split_beta now_ticks_level app_level(2))

lemma exec_periodic_level:
  assumes "app_keeps_level env level"
    and "sch_exec_periodic cfg p env i f c period s w = Some (s', w')"
  shows "level w' = level w"
proof (cases f)
  case None
  then show ?thesis using assms(2) by (simp add: sch_exec_periodic_def call_fn_def Let_def split_beta)
next
  case (Some g)
  obtain s1 w1 where b: "exec_before cfg p env i s w = (s1, w1)" by (metis surj_pair)
  with assms(2) Some obtain s2 w2 where c: "call_task env g c s1 w1 = Some (s2, w2)"
    and a: "exec_after cfg p env i period s2 w2 = (s', w')"
    by (auto simp: exec_periodic_split split: option.splits)
  have "level w' = level w2" using exec_after_level [OF assms(1), of cfg i period s2 w2] a by simp
  also have "\<dots> = level w1" by (rule app_level(1) [OF assms(1) c])
  also have "\<dots> = level w" using exec_before_level [OF assms(1), of cfg i s w] b by simp
  finally show ?thesis .
qed

lemma mark_level:
  assumes "app_keeps_level env level"
  shows "level (snd (sch_mark_periodic_ready cfg env s now w)) = level w"
proof -
  have "level (snd (fold (sch_mark_slot cfg env now) is sw)) = level (snd sw)" for "is" sw
    by (induction "is" arbitrary: sw)
      (simp_all add: sch_mark_slot_def Let_def split_beta app_level(2) [OF assms])
  from this [of _ "(s, w)"] show ?thesis by (simp add: sch_mark_periodic_ready_def)
qed

lemma run_periodic_level:
  assumes "app_keeps_level env level"
  shows "sch_run_periodic n cfg p env now s w = Some (s', w') \<Longrightarrow> level w' = level w"
proof (induction n arbitrary: s w)
  case 0
  then show ?case by simp
next
  case (Suc n)
  let ?i = "unat (sch_select_pending_task s)"
  have body: "sch_port_exit_critical p (fst (sch_port_enter_critical p w))
      (snd (sch_port_enter_critical p w)) = crit p w"
    by (simp add: crit_def split_beta)
  show ?case
  proof (cases "sch_select_pending_task s = SCH_INVALID_TASK_ID")
    case True
    then show ?thesis using Suc.prems crit_level by (auto simp: split_beta body)
  next
    case False
    with Suc.prems obtain s1 w1 where
      e: "sch_exec_periodic cfg p env ?i (fn (tasks s ! ?i)) (ctx (tasks s ! ?i))
        (period_ticks (tasks s ! ?i)) (sch_take_task now ?i s) (crit p w) = Some (s1, w1)"
      and r: "sch_run_periodic n cfg p env now s1 w1 = Some (s', w')"
      by (auto simp: split_beta Let_def body bind_eq_Some_conv)
    show ?thesis using Suc.IH [OF r] exec_periodic_level [OF assms e] crit_level by simp
  qed
qed

lemma run_background_level:
  assumes "app_keeps_level env level" and "sch_run_background cfg p env s w = Some (s', w')"
  shows "level w' = level w"
proof -
  have body: "level (sch_port_exit_critical p (fst (sch_port_enter_critical p w))
      (snd (sch_port_enter_critical p w))) = level w"
    by (rule exit_restores) simp
  show ?thesis
    using assms(2) app_level(1) [OF assms(1)]
    by (auto simp: sch_run_background_def split_beta Let_def body bind_eq_Some_conv call_fn_def
        now_ticks_level idle_level app_level(2) [OF assms(1)] split: if_splits option.splits)
qed

lemma run_level:
  assumes "app_keeps_level env level" and "sch_run cfg p env s w = Some (s', w')"
  shows "level w' = level w"
proof (cases s)
  case None
  then show ?thesis using assms(2) by (simp add: sch_run_def)
next
  case (Some s0)
  let ?e = "sch_port_enter_critical p w"
  let ?t = "sch_port_now_ticks p (snd ?e)"
  let ?m = "sch_mark_periodic_ready cfg env s0 (fst ?t) (snd ?t)"
  let ?w = "sch_port_exit_critical p (fst ?e) (snd ?m)"
  from assms(2) Some obtain s1 w1 s2 w2 where
    r: "sch_run_periodic SCH_MAX_TASKS cfg p env (fst ?t) (fst ?m) ?w = Some (s1, w1)"
    and b: "sch_run_background cfg p env s1 w1 = Some (s2, w2)" and w2: "w' = w2"
    by (auto simp: sch_run_def split_beta Let_def bind_eq_Some_conv)
  have "level ?w = level w"
    by (rule exit_restores) (simp add: mark_level [OF assms(1)] now_ticks_level)
  then show ?thesis
    using run_periodic_level [OF assms(1) r] run_background_level [OF assms(1) b] w2 by simp
qed

text \<open>
  Task functions run at the level of the caller: what they would do at any other level, inside
  a section in particular, has no influence on the run.
\<close>

lemma run_periodic_calls:
  assumes "app_keeps_level env level"
    and agree: "\<And>f c s v. level v = l \<Longrightarrow> call_task env' f c s v = call_task env f c s v"
    and hook: "call_hook env' = call_hook env"
  shows "level w = l \<Longrightarrow> sch_run_periodic n cfg p env' now s w = sch_run_periodic n cfg p env now s w"
proof (induction n arbitrary: s w)
  case 0
  then show ?case by simp
next
  case (Suc n)
  have emit: "sch_trace_emit env' = sch_trace_emit env"
    by (intro ext) (simp add: sch_trace_emit_def hook split: option.split)
  have same: "sch_exec_periodic cfg p env' i f c period s v = sch_exec_periodic cfg p env i f c period s v"
    if v: "level v = l" for i f c period s v
  proof (cases f)
    case None
    then show ?thesis by (simp add: sch_exec_periodic_def call_fn_def Let_def split_beta)
  next
    case (Some g)
    have "exec_before cfg p env' i s v = exec_before cfg p env i s v"
      "exec_after cfg p env' i period v' w' = exec_after cfg p env i period v' w'" for v' w'
      by (simp_all only: exec_before_def exec_after_def emit)
    then show ?thesis
      using exec_before_level [OF assms(1), of cfg i s v] v Some
      by (simp add: exec_periodic_split agree split_beta split: option.split)
  qed
  let ?x = "sch_port_exit_critical p (fst (sch_port_enter_critical p w)) (snd (sch_port_enter_critical p w))"
  have x: "level ?x = l" using Suc.prems exit_restores [of "snd (sch_port_enter_critical p w)" w] by simp
  let ?i = "unat (sch_select_pending_task s)"
  have "sch_run_periodic n cfg p env' now s2 w2 = sch_run_periodic n cfg p env now s2 w2"
    if "sch_exec_periodic cfg p env ?i f c period s1 ?x = Some (s2, w2)" for f c period s1 s2 w2
    using Suc.IH exec_periodic_level [OF assms(1) that] x by simp
  then show ?case
    by (simp add: split_beta Let_def same [OF x] bind_split)
qed


lemma run_background_calls:
  assumes "app_keeps_level env level"
    and agree: "\<And>f c s v. level v = level w \<Longrightarrow> call_task env' f c s v = call_task env f c s v"
    and hook: "call_hook env' = call_hook env"
  shows "sch_run_background cfg p env' s w = sch_run_background cfg p env s w"
proof -
  have emit: "sch_trace_emit env' = sch_trace_emit env"
    by (intro ext) (simp add: sch_trace_emit_def hook split: option.split)
  have body: "level (sch_port_exit_critical p (fst (sch_port_enter_critical p w))
      (snd (sch_port_enter_critical p w))) = level w"
    by (rule exit_restores) simp
  have call: "call_fn env' f c s v = call_fn env f c s v" if "level v = level w" for f c s v
    using that by (simp add: call_fn_def agree split: option.split)
  show ?thesis
    by (simp add: sch_run_background_def emit call body split_beta Let_def now_ticks_level
        app_level(2) [OF assms(1)])
qed

lemma run_calls:
  assumes "app_keeps_level env level"
    and agree: "\<And>f c s v. level v = level w \<Longrightarrow> call_task env' f c s v = call_task env f c s v"
    and hook: "call_hook env' = call_hook env"
  shows "sch_run cfg p env' s w = sch_run cfg p env s w"
proof (cases s)
  case None
  then show ?thesis by (simp add: sch_run_def)
next
  case (Some s0)
  have emit: "sch_trace_emit env' = sch_trace_emit env"
    by (intro ext) (simp add: sch_trace_emit_def hook split: option.split)
  have slot: "sch_mark_slot cfg env' = sch_mark_slot cfg env"
    by (intro ext) (simp only: sch_mark_slot_def emit)
  have mark: "sch_mark_periodic_ready cfg env' = sch_mark_periodic_ready cfg env"
    by (intro ext) (simp only: sch_mark_periodic_ready_def slot)
  let ?e = "sch_port_enter_critical p w"
  let ?t = "sch_port_now_ticks p (snd ?e)"
  let ?m = "sch_mark_periodic_ready cfg env s0 (fst ?t) (snd ?t)"
  let ?w = "sch_port_exit_critical p (fst ?e) (snd ?m)"
  have level: "level ?w = level w"
    by (rule exit_restores) (simp add: mark_level [OF assms(1)] now_ticks_level)
  have per: "sch_run_periodic SCH_MAX_TASKS cfg p env' (fst ?t) (fst ?m) ?w =
      sch_run_periodic SCH_MAX_TASKS cfg p env (fst ?t) (fst ?m) ?w"
    by (rule run_periodic_calls [OF assms(1) _ hook level]) (rule agree)
  show ?thesis
  proof (cases "sch_run_periodic SCH_MAX_TASKS cfg p env (fst ?t) (fst ?m) ?w")
    case None
    then show ?thesis by (simp add: sch_run_def Some split_beta Let_def mark per)
  next
    case r: (Some sw)
    obtain s1 w1 where sw: "sw = (s1, w1)" by fastforce
    have "level w1 = level w" using run_periodic_level [OF assms(1)] r sw level by metis
    then have "sch_run_background cfg p env' s1 w1 = sch_run_background cfg p env s1 w1"
      by (intro run_background_calls [OF assms(1) _ hook] agree) simp
    then show ?thesis using r sw by (simp add: sch_run_def Some split_beta Let_def mark per)
  qed
qed

end

section \<open>Missed releases\<close>

text \<open>The statistics count no miss, and that is all they can count between quiet states.\<close>

definition no_miss :: "('f, 'c, 'h) sch \<Rightarrow> bool" where
  "no_miss s \<longleftrightarrow> list_all (\<lambda>st. miss_count st = 0) (stats s)"

lemma no_miss_upd:
  assumes "no_miss s" and "\<And>st. miss_count st = 0 \<Longrightarrow> miss_count (h st) = 0"
  shows "no_miss (upd_stats i h s)"
  using assms by (auto simp: no_miss_def list_all_length nth_list_update_if)

lemma account_miss: "miss_count (sch_stats_account t st) = miss_count st"
  by (simp add: sch_stats_account_def Let_def)

definition app_keeps_no_miss :: "('f, 'c, 'h, 'w) sch_env \<Rightarrow> bool" where
  "app_keeps_no_miss env \<longleftrightarrow>
     (\<forall>f c s w s' w'. call_task env f c s w = Some (s', w') \<longrightarrow> no_miss s \<longrightarrow> no_miss s')"

lemma exec_before_miss: "no_miss s \<Longrightarrow> no_miss (fst (exec_before cfg p env i s w))"
  by (simp add: exec_before_def Let_def split_beta no_miss_upd)

lemma exec_after_miss: "no_miss s \<Longrightarrow> no_miss (fst (exec_after cfg p env i period s w))"
  by (simp add: exec_after_def Let_def split_beta no_miss_upd account_miss)

lemma exec_periodic_miss:
  assumes "app_keeps_no_miss env" and "no_miss s"
    and "sch_exec_periodic cfg p env i f c period s w = Some (s', w')"
  shows "no_miss s'"
proof (cases f)
  case None
  then show ?thesis using assms(3) by (simp add: sch_exec_periodic_def call_fn_def Let_def split_beta)
next
  case (Some g)
  obtain s1 w1 where b: "exec_before cfg p env i s w = (s1, w1)" by (metis surj_pair)
  with assms(3) Some obtain s2 w2 where c: "call_task env g c s1 w1 = Some (s2, w2)"
    and a: "exec_after cfg p env i period s2 w2 = (s', w')"
    by (auto simp: exec_periodic_split split: option.splits)
  have "no_miss s1" using exec_before_miss [OF assms(2), of cfg p env i w] b by simp
  then have "no_miss s2" using assms(1) c unfolding app_keeps_no_miss_def by blast
  then show ?thesis using exec_after_miss [of s2 cfg p env i period w2] a by simp
qed

lemma run_periodic_miss:
  assumes "app_keeps_no_miss env"
  shows "no_miss s \<Longrightarrow> sch_run_periodic n cfg p env now s w = Some (s', w') \<Longrightarrow> no_miss s'"
proof (induction n arbitrary: s w)
  case 0
  then show ?case by simp
next
  case (Suc n)
  let ?i = "unat (sch_select_pending_task s)"
  let ?w = "sch_port_exit_critical p (fst (sch_port_enter_critical p w)) (snd (sch_port_enter_critical p w))"
  show ?case
  proof (cases "sch_select_pending_task s = SCH_INVALID_TASK_ID")
    case True
    then show ?thesis using Suc.prems by (auto simp: split_beta)
  next
    case False
    with Suc.prems obtain s1 w1 where
      e: "sch_exec_periodic cfg p env ?i (fn (tasks s ! ?i)) (ctx (tasks s ! ?i))
        (period_ticks (tasks s ! ?i)) (sch_take_task now ?i s) ?w = Some (s1, w1)"
      and r: "sch_run_periodic n cfg p env now s1 w1 = Some (s', w')"
      by (auto simp: split_beta Let_def bind_eq_Some_conv)
    have "no_miss (sch_take_task now ?i s)"
      using Suc.prems(1) by (simp add: no_miss_def sch_take_task_def)
    from Suc.IH [OF exec_periodic_miss [OF assms this e] r] show ?thesis .
  qed
qed

lemma run_background_miss:
  assumes "app_keeps_no_miss env" and "sch_wf s" and "no_miss s"
    and "sch_run_background cfg p env s w = Some (s', w')"
  shows "no_miss s'"
proof (cases "background_ring s")
  case Nil
  then show ?thesis using assms by (auto simp: run_background_eq)
next
  case (Cons i "is")
  let ?s = "s\<lparr>next_background_idx := background_cursor i\<rparr>"
  obtain s1 w1 where b: "background_before cfg p env i ?s (crit p w) = (s1, w1)" by (metis surj_pair)
  with assms Cons obtain f s2 w2 where
    c: "call_task env f (ctx (tasks s ! i)) s1 w1 = Some (s2, w2)" and
    a: "background_after cfg p env i s2 w2 = (s', w')"
    by (auto simp: run_background_eq background_slot_def call_fn_def split: option.splits)
  have "no_miss ?s" using assms(3) by (simp add: no_miss_def)
  then have "no_miss (fst (background_before cfg p env i ?s (crit p w)))"
    by (simp add: background_before_def Let_def split_beta no_miss_upd)
  then have "no_miss s2" using assms(1) b c unfolding app_keeps_no_miss_def by (metis fst_conv)
  then have "no_miss (fst (background_after cfg p env i s2 w2))"
    by (simp add: background_after_def Let_def split_beta no_miss_upd account_miss)
  then show ?thesis using a by simp
qed

context task_contract
begin

lemma run_no_miss:
  assumes "inv s w" and "app_keeps_no_miss env" and "no_miss s"
    and "sch_run cfg p env (Some s) w = Some (Some s', w')"
  shows "no_miss s'"
proof -
  have wf: "sch_wf s" "sch_quiet s" "ok w" using assms(1) by (simp_all add: inv_def)
  obtain now w1 where c: "crit_now p w = (now, w1)" by (metis surj_pair)
  have w1: "ok w1" using crit_now_ok [OF wf(3)] c by simp
  obtain s2 w2 where r: "sch_run_periodic SCH_MAX_TASKS cfg p env now (marked now s) w1 = Some (s2, w2)"
    and b: "sch_run_background cfg p env s2 w2 = Some (s', w')"
    using assms(4) by (auto simp: run_unfold [OF wf(1,2)] c bind_eq_Some_conv)
  have "sch_wf s2"
    using r dispatch_all_returns [OF marked_wf [OF wf(1)] refl w1, of cfg now now]
    by (auto simp: run_periodic_refines [OF marked_wf [OF wf(1)] length_dispatch_order w1])
  moreover have "no_miss (marked now s)" using assms(3) by (simp add: no_miss_def marked_def)
  then have "no_miss s2" using r by (rule run_periodic_miss [OF assms(2)])
  ultimately show ?thesis using b by (rule run_background_miss [OF assms(2)])
qed

lemma call_no_miss:
  assumes "inv s w" and "app_keeps_no_miss env" and "no_miss s" and "sch_call cfg p env ok (s, w) (s', w')"
  shows "no_miss s'"
proof -
  have wf: "sch_wf s" "sch_shape s" using assms(1) by (simp_all add: inv_def wf_shape)
  from assms(4) show ?thesis
  proof cases
    case (call_add f c period delay prio r)
    then show ?thesis
      using assms(3) unfolding add_task_cases [OF wf(1)]
      by (auto simp: no_miss_def add_at_def empty_stats_def list_all_length nth_list_update_if
          split: option.splits)
  next
    case call_enable
    then show ?thesis using assms(3) by (simp add: enable_task_eq)
  next
    case call_run
    then show ?thesis using run_no_miss [OF assms(1-3)] by blast
  next
    case call_reset
    then show ?thesis
      by (auto simp: reset_stats_eq [OF wf(2)] no_miss_def empty_stats_def list_all_length)
  next
    case (call_hook h c)
    then show ?thesis using assms(3) by (auto simp: set_trace_hook_eq no_miss_def)
  next
    case call_platform
    then show ?thesis using assms(3) by simp
  qed
qed

text \<open>With statistics enabled no history ever counts a miss.\<close>

lemma reachable_no_miss:
  assumes "sch_enable_stats cfg" and "app_keeps_no_miss env"
  shows "sch_reachable cfg p env ok s w \<Longrightarrow> no_miss s"
proof (induction rule: sch_reachable.induct)
  case (reach_init raw w s w')
  then show ?case
    using assms(1) init_eq [of raw cfg p w]
    by (auto simp: no_miss_def empty_sch_def empty_stats_def list_all_length)
next
  case (reach_step s w s' w')
  have inv: "inv s w" by (rule reachable_inv) (rule reach_step.hyps)
  from reach_step.hyps(2) show ?case
  proof cases
    case step_init
    then show ?thesis
      using assms(1) init_eq [OF wf_shape, of s cfg p w] inv
      by (auto simp: no_miss_def empty_sch_def empty_stats_def list_all_length inv_def)
  next
    case step_call
    then show ?thesis using call_no_miss [OF inv assms(2) reach_step.IH] by blast
  qed
qed

end

end
