(* ===== verification/Scheduler_Register.thy ===== *)
theory Scheduler_Register
  imports Scheduler_Effects
begin

text \<open>
  Registration as a client sees it: slots are never released, so the slots in use are always
  an initial segment of the table, identifiers are handed out in order, and the table is full
  after \<open>SCH_MAX_TASKS\<close> registrations. The sample scheduler that the witnesses use, with
  the tasks of the unit tests, is built here with the code's own calls.
\<close>

section \<open>Packed tables\<close>

definition packed :: "nat \<Rightarrow> ('f, 'c, 'h) sch \<Rightarrow> bool" where
  "packed n s \<longleftrightarrow> sch_wf s \<and> sch_quiet s \<and> n \<le> SCH_MAX_TASKS \<and>
     (\<forall>i<SCH_MAX_TASKS. in_use (tasks s ! i) \<longleftrightarrow> i < n)"

lemma packed_free_slot:
  assumes "packed n s"
  shows "free_slot s = (if n < SCH_MAX_TASKS then Some n else None)"
proof (cases "n < SCH_MAX_TASKS")
  case True
  then show ?thesis using assms by (simp add: packed_def free_slot_def find_upt_Some_iff)
next
  case False
  then show ?thesis using assms by (simp add: packed_def free_slot_def find_upt_None_iff)
qed

lemma packed_init: "sch_shape s \<Longrightarrow> packed 0 (empty_sch cfg s)"
  using init_wf [of s cfg] by (simp add: packed_def empty_sch_def empty_task_def)

lemma packed_add_at:
  assumes "packed n s" and "n < SCH_MAX_TASKS"
  shows "packed (Suc n) (add_at cfg n (new_task (Some f) c period r prio) s)"
proof -
  have free: "free_slot s = Some n" using packed_free_slot [OF assms(1)] assms(2) by simp
  have wf: "sch_wf s" "sch_quiet s" using assms(1) by (simp_all add: packed_def)
  have "tasks (add_at cfg n t s) ! i = (if i = n then t else tasks s ! i)" if "i < SCH_MAX_TASKS" for i t
    using that assms(2) wf by (simp add: add_at_def wf_lengths nth_list_update_if)
  then show ?thesis
    using assms add_at_wf [OF wf(1) free, of "new_task (Some f) c period r prio" cfg]
      add_at_quiet [OF wf(1) free wf(2), of "new_task (Some f) c period r prio" cfg]
    by (auto simp: packed_def)
qed

lemma packed_add:
  assumes "packed n s"
  shows "sch_add_task cfg p (Some s) (Some f) c period delay prio w =
    (if n < SCH_MAX_TASKS
     then (of_nat n,
           Some (add_at cfg n (new_task (Some f) c period (fst (crit_now p w) + delay) prio) s),
           snd (crit_now p w))
     else (SCH_ERR_NO_SPACE, Some s, crit p w))"
proof -
  have "sch_wf s" using assms by (simp add: packed_def)
  show ?thesis unfolding add_task_cases [OF \<open>sch_wf s\<close>] by (simp add: packed_free_slot [OF assms])
qed

lemma packed_count:
  assumes "packed n s"
  shows "unat (task_count s) = n"
proof -
  have len: "length (tasks s) = SCH_MAX_TASKS" and n: "n \<le> SCH_MAX_TASKS"
    using assms by (simp_all add: packed_def wf_lengths)
  have "{i. i < length (tasks s) \<and> in_use (tasks s ! i)} = {..<n}"
    using assms n by (auto simp: packed_def len)
  then have "length (filter in_use (tasks s)) = n" by (simp add: length_filter_conv_card)
  then show ?thesis using assms by (simp add: packed_def sch_wf_def)
qed

text \<open>A sequence of registrations, with the results the client receives.\<close>

fun add_all ::
  "sch_config \<Rightarrow> 'w port \<Rightarrow> ('f \<times> 'c option \<times> u32 \<times> u32 \<times> u16) list \<Rightarrow> ('f, 'c, 'h) sch option \<Rightarrow> 'w \<Rightarrow>
   i32 list \<times> ('f, 'c, 'h) sch option \<times> 'w" where
  "add_all cfg p [] s w = ([], s, w)"
| "add_all cfg p ((f, c, period, delay, prio) # ds) s w =
     (let (r, s, w) = sch_add_task cfg p s (Some f) c period delay prio w;
          (rs, s, w) = add_all cfg p ds s w
      in (r # rs, s, w))"

lemma add_all_packed:
  assumes "packed n s"
  shows "\<exists>s' w'. add_all cfg p ds (Some s) w =
      (map (\<lambda>i. if i < SCH_MAX_TASKS then of_nat i else SCH_ERR_NO_SPACE) [n..<n + length ds], Some s', w') \<and>
    packed (min (n + length ds) SCH_MAX_TASKS) s' \<and>
    (\<forall>i<n. tasks s' ! i = tasks s ! i)"
  using assms
proof (induction ds arbitrary: n s w)
  case Nil
  then show ?case by (simp add: packed_def min_def)
next
  case (Cons d ds)
  obtain f c period delay prio where d: "d = (f, c, period, delay, prio)" by (metis prod_cases5)
  show ?case
  proof (cases "n < SCH_MAX_TASKS")
    case True
    let ?t = "new_task (Some f) c period (fst (crit_now p w) + delay) prio"
    let ?s = "add_at cfg n ?t s"
    have "packed (Suc n) ?s" using Cons.prems True by (rule packed_add_at)
    from Cons.IH [OF this, of "snd (crit_now p w)"] obtain s' w' where ih:
      "add_all cfg p ds (Some ?s) (snd (crit_now p w)) =
        (map (\<lambda>i. if i < SCH_MAX_TASKS then of_nat i else SCH_ERR_NO_SPACE) [Suc n..<Suc n + length ds],
         Some s', w')"
      "packed (min (Suc n + length ds) SCH_MAX_TASKS) s'" "\<forall>i<Suc n. tasks s' ! i = tasks ?s ! i"
      by blast
    have "tasks ?s ! i = tasks s ! i" if "i < n" for i using that by (simp add: add_at_def)
    then have "\<forall>i<n. tasks s' ! i = tasks s ! i" using ih(3) by simp
    then show ?thesis
      using ih(1,2) True by (simp add: d packed_add [OF Cons.prems] upt_conv_Cons del: upt_Suc)
  next
    case False
    from Cons.IH [OF Cons.prems, of "crit p w"] obtain s' w' where ih:
      "add_all cfg p ds (Some s) (crit p w) =
        (map (\<lambda>i. if i < SCH_MAX_TASKS then of_nat i else SCH_ERR_NO_SPACE) [n..<n + length ds], Some s', w')"
      "packed (min (n + length ds) SCH_MAX_TASKS) s'" "\<forall>i<n. tasks s' ! i = tasks s ! i" by blast
    have full: "map (\<lambda>i. if i < SCH_MAX_TASKS then of_nat i else SCH_ERR_NO_SPACE) [m..<m + k] =
        replicate k (SCH_ERR_NO_SPACE :: i32)" if "n \<le> m" for m k
      using that False by (intro nth_equalityI) simp_all
    have "min (n + length ds) SCH_MAX_TASKS = SCH_MAX_TASKS"
      "min (n + length (d # ds)) SCH_MAX_TASKS = SCH_MAX_TASKS" using False by simp_all
    then show ?thesis
      using ih False full [of n "length ds"] full [of n "Suc (length ds)"]
      by (simp add: d packed_add [OF Cons.prems] del: upt_Suc)
  qed
qed

section \<open>The sample scheduler\<close>

definition all_on :: sch_config where
  "all_on = \<lparr>sch_enable_stats = True, sch_enable_trace = True\<rparr>"

text \<open>Memory before initialisation holds anything.\<close>

definition stale_sch :: "(bench_fn, unit, unit) sch" where
  "stale_sch =
     \<lparr>tasks = replicate SCH_MAX_TASKS
        \<lparr>fn = Some TASK_B, ctx = None, period_ticks = 3, next_release = 5, priority = 1,
         enabled = True, pending = True, in_use = True\<rparr>,
      task_count = 7, next_background_idx = 99,
      stats = replicate SCH_MAX_TASKS
        \<lparr>run_count = 1, miss_count = 2, overrun_count = 3, last_start_tick = 4, last_end_tick = 5,
         last_exec_ticks = 6, max_exec_ticks = 7, total_exec_ticks = 8\<rparr>,
      trace_hook = Some (), trace_user_ctx = None\<rparr>"

definition sample_tasks :: "(bench_fn \<times> unit option \<times> u32 \<times> u32 \<times> u16) list" where
  "sample_tasks =
     [(TASK_B, None, 1000, 1000, 10), (TASK_A, None, 1000, 1000, 0), (BACKGROUND_TASK, None, 0, 0, 20)]"

definition sample_sch :: "(bench_fn, unit, unit) sch" where
  "sample_sch =
     (let (s, b) = sch_init all_on test_port (Some stale_sch) bench_start;
          (ids, s, b) = add_all all_on test_port sample_tasks s b
      in the s)"

lemma stale_shape: "sch_shape stale_sch"
  by (simp add: sch_shape_def stale_sch_def)

lemma sample_eq:
  "sample_sch = add_at all_on 2 (new_task (Some BACKGROUND_TASK) None 0 0 20)
     (add_at all_on 1 (new_task (Some TASK_A) None 1000 1000 0)
       (add_at all_on 0 (new_task (Some TASK_B) None 1000 1000 10) (empty_sch all_on stale_sch)))"
  and sample_packed: "packed 3 sample_sch"
proof -
  let ?s0 = "empty_sch all_on stale_sch"
  let ?s1 = "add_at all_on 0 (new_task (Some TASK_B) None 1000 1000 10) ?s0"
  let ?s2 = "add_at all_on 1 (new_task (Some TASK_A) None 1000 1000 0) ?s1"
  let ?s3 = "add_at all_on 2 (new_task (Some BACKGROUND_TASK) None 0 0 20) ?s2"
  have m: "0 < SCH_MAX_TASKS" "1 < SCH_MAX_TASKS" "2 < SCH_MAX_TASKS" by (simp_all add: SCH_MAX_TASKS_def)
  have p0: "packed 0 ?s0" by (rule packed_init [OF stale_shape])
  have p1: "packed 1 ?s1" using packed_add_at [OF p0 m(1)] by simp
  have p2: "packed 2 ?s2" using packed_add_at [OF p1 m(2)] by (simp add: numeral_2_eq_2)
  have p3: "packed 3 ?s3" using packed_add_at [OF p2 m(3)] by (simp add: numeral_3_eq_3)
  show eq: "sample_sch = ?s3"
    using m
    by (simp add: sample_sch_def sample_tasks_def init_eq [OF stale_shape] bench_start_def
        packed_add [OF p0] packed_add [OF p1, unfolded One_nat_def] packed_add [OF p2, unfolded One_nat_def])
  show "packed 3 sample_sch" unfolding eq by (rule p3)
qed

lemma sample_tasks_nth:
  assumes "i < SCH_MAX_TASKS"
  shows "tasks sample_sch ! i =
    (if i = 0 then new_task (Some TASK_B) None 1000 1000 10
     else if i = 1 then new_task (Some TASK_A) None 1000 1000 0
     else if i = 2 then new_task (Some BACKGROUND_TASK) None 0 0 20
     else empty_task)"
  using assms by (simp add: sample_eq add_at_def empty_sch_def nth_list_update_if)

lemma sample_wf: "sch_wf sample_sch" "sch_quiet sample_sch"
  using sample_packed by (simp_all add: packed_def)

lemma sample_due:
  assumes "i < SCH_MAX_TASKS"
  shows "is_due t (tasks sample_sch ! i) \<longleftrightarrow> (i = 0 \<or> i = 1) \<and> sch_time_reached t 1000"
  using assms by (auto simp: sample_tasks_nth is_due_def new_task_def empty_task_def)

text \<open>At tick 1000 both periodic tasks are due, and the higher priority goes first.\<close>

lemma sample_order: "dispatch_order (marked 1000 sample_sch) = [1, 0]"
proof -
  let ?o = "dispatch_order (marked 1000 sample_sch)"
  have "sch_time_reached 1000 1000" by (simp add: time_reached_iff)
  then have set: "set ?o = {0, 1}"
    by (auto simp: set_dispatch_marked [OF sample_wf] sample_due SCH_MAX_TASKS_def)
  have "length ?o = card (set ?o)"
    using distinct_card [OF distinct_dispatch_order, of "marked 1000 sample_sch"] by simp
  then have "length ?o = 2" by (simp add: set)
  then obtain x y where o: "?o = [x, y]" by (auto simp: numeral_2_eq_2 length_Suc_conv)
  have prio: "priority (tasks (marked 1000 sample_sch) ! i) = (if i = 0 then 10 else 0)" if "i = 0 \<or> i = 1" for i
  proof -
    have i: "i < SCH_MAX_TASKS" using that by (auto simp: SCH_MAX_TASKS_def)
    then have "tasks (marked 1000 sample_sch) ! i = mark_task 1000 (tasks sample_sch ! i)"
      by (simp add: marked_def wf_lengths [OF sample_wf(1)])
    then show ?thesis using that i by (auto simp: mark_task_def sample_tasks_nth new_task_def)
  qed
  have "slot_key (marked 1000 sample_sch) x \<le> slot_key (marked 1000 sample_sch) y"
    using sorted_dispatch_order [of "marked 1000 sample_sch"] o by simp
  moreover have "{x, y} = {0, 1}" using set o by simp
  then have "(x = 0 \<and> y = 1) \<or> (x = 1 \<and> y = 0)" by (auto simp: doubleton_eq_iff)
  ultimately show ?thesis using o by (auto simp: slot_key_def key_le_iff prio)
qed

section \<open>The test bench counts no missed release\<close>

lemma bench_add_no_miss:
  assumes "no_miss s" and "sch_add_task cfg p (Some s) f c period delay prio w = (r, Some s', w')"
  shows "no_miss s'"
  using assms
  by (auto simp: sch_add_task_def split_beta Let_def no_miss_def clear_slot_eq empty_stats_def
      list_all_length nth_list_update_if split: if_splits option.splits)

lemma bench_keeps_no_miss: "app_keeps_no_miss (bench_env cfg)"
  unfolding app_keeps_no_miss_def
proof (intro allI impI)
  fix f c s b s' b'
  assume call: "call_task (bench_env cfg) f c s b = Some (s', b')" and s: "no_miss s"
  show "no_miss s'"
  proof (cases f)
    case (REGISTER_TASK g period prio)
    with call obtain r b1 where
      "sch_add_task cfg test_port (Some s) (Some g) None period 0 prio (b\<lparr>call_trace := call_trace b @ [f]\<rparr>) =
        (r, Some s', b1)"
      by (auto simp: bench_env_def split_beta Let_def prod_eq_iff)
    with s show ?thesis by (rule bench_add_no_miss)
  qed (use call s in \<open>auto simp: bench_env_def\<close>)
qed

section \<open>A target with an interrupt mask\<close>

text \<open>
  The sample application on the port that saves and restores the interrupt mask: a task is the
  number of ticks it takes.
\<close>

definition cpu_env :: "(nat, unit, unit, cpu) sch_env" where
  "cpu_env = \<lparr>call_task = (\<lambda>f c s w. Some (s, w\<lparr>ticks := ticks w + of_nat f\<rparr>)),
     call_hook = (\<lambda>h e i t c w. w)\<rparr>"

interpretation cpu_app: task_contract snapshot_port cpu_env "\<lambda>w. True"
  by unfold_locales (auto simp: cpu_env_def frame_refl)

lemma cpu_keeps_level: "app_keeps_level cpu_env primask"
  by (auto simp: app_keeps_level_def cpu_env_def)

definition cpu_sch :: "(nat, unit, unit) sch" where
  "cpu_sch = add_at all_on 0 (new_task (Some 5) None 100 40 3)
     (empty_sch all_on
       \<lparr>tasks = replicate SCH_MAX_TASKS empty_task, task_count = 0, next_background_idx = 0,
        stats = replicate SCH_MAX_TASKS empty_stats, trace_hook = None, trace_user_ctx = None\<rparr>)"

lemma cpu_sch_wf: "sch_wf cpu_sch" "sch_quiet cpu_sch"
proof -
  have "packed 1 cpu_sch"
    unfolding cpu_sch_def One_nat_def
    by (rule packed_add_at [OF packed_init]) (simp_all add: sch_shape_def)
  then show "sch_wf cpu_sch" "sch_quiet cpu_sch" by (simp_all add: packed_def)
qed

end
