(* ===== verification/Scheduler_Records.thy ===== *)
theory Scheduler_Records
  imports Scheduler_Register
begin

text \<open>
  What the instrumentation of one periodic call records, on any platform whose clock readings can be
  told apart: each reading has a number, and the tick it shows depends on that number. So it matters
  which reading goes into which field.
\<close>

text \<open>The clock shows \<open>el k\<close> at reading number \<open>k\<close>; a hook logs its event and does not read the clock.\<close>

definition observed ::
  "'w port \<Rightarrow> ('f, 'c, 'h, 'w) sch_env \<Rightarrow> (nat \<Rightarrow> u32) \<Rightarrow> ('w \<Rightarrow> nat) \<Rightarrow>
   ('w \<Rightarrow> (sch_trace_event \<times> i32 \<times> u32) list) \<Rightarrow> bool" where
  "observed p env el readings seen \<longleftrightarrow>
     (\<forall>w. fst (sch_port_now_ticks p w) = el (readings w) \<and>
        readings (snd (sch_port_now_ticks p w)) = Suc (readings w) \<and> seen (snd (sch_port_now_ticks p w)) = seen w) \<and>
     (\<forall>h e j t c w. readings (call_hook env h e j t c w) = readings w \<and>
        seen (call_hook env h e j t c w) = seen w @ [(e, j, t)])"

text \<open>
  A task that returns after \<open>m\<close> readings of its own and leaves the statistics of slot \<open>i\<close> and the
  hook alone. It may change anything else of the scheduler.
\<close>

definition leaves_records ::
  "('f, 'c, 'h, 'w) sch_env \<Rightarrow> ('w \<Rightarrow> nat) \<Rightarrow> ('w \<Rightarrow> (sch_trace_event \<times> i32 \<times> u32) list) \<Rightarrow> nat \<Rightarrow> nat \<Rightarrow>
   'f \<Rightarrow> 'c option \<Rightarrow> bool" where
  "leaves_records env readings seen i m f c \<longleftrightarrow>
     (\<forall>s w. \<exists>s' w'. call_task env f c s w = Some (s', w') \<and> length (stats s') = length (stats s) \<and>
        stats s' ! i = stats s ! i \<and> trace_hook s' = trace_hook s \<and>
        readings w' = readings w + m \<and> seen w' = seen w)"

text \<open>The statistics of a slot after a call from tick \<open>t0\<close> to tick \<open>t1\<close>.\<close>

definition stats_after :: "u32 \<Rightarrow> u32 \<Rightarrow> bool \<Rightarrow> sch_task_stats \<Rightarrow> sch_task_stats" where
  "stats_after t0 t1 overrun st =
     st\<lparr>run_count := run_count st + 1,
        overrun_count := overrun_count st + (if overrun then 1 else 0),
        last_start_tick := t0, last_end_tick := t1, last_exec_ticks := t1 - t0,
        max_exec_ticks := max (max_exec_ticks st) (t1 - t0),
        total_exec_ticks := total_exec_ticks st + (t1 - t0)\<rparr>"

lemma stats_after_account:
  "sch_stats_account t1 (st\<lparr>last_start_tick := t0\<rparr>) = stats_after t0 t1 False st"
  "(stats_after t0 t1 False st)\<lparr>overrun_count := overrun_count (stats_after t0 t1 False st) + 1\<rparr> =
    stats_after t0 t1 True st"
  by (simp_all add: sch_stats_account_def stats_after_def Let_def max_def)

text \<open>The events a call shows when a hook is installed.\<close>

definition hook_events ::
  "sch_config \<Rightarrow> ('f, 'c, 'h) sch \<Rightarrow> (sch_trace_event \<times> i32 \<times> u32) list \<Rightarrow>
   (sch_trace_event \<times> i32 \<times> u32) list" where
  "hook_events cfg s es = (if sch_enable_trace cfg \<and> \<not> is_null (trace_hook s) then es else [])"

lemma emit_observed:
  assumes "observed p env el readings seen"
  shows "readings (sch_trace_emit env (Some s) e j t w) = readings w"
    and "seen (sch_trace_emit env (Some s) e j t w) = seen w @ (if is_null (trace_hook s) then [] else [(e, j, t)])"
  using assms by (auto simp: observed_def sch_trace_emit_def split: option.split)

lemma now_observed:
  assumes "observed p env el readings seen"
  shows "fst (sch_port_now_ticks p w) = el (readings w)" "readings (snd (sch_port_now_ticks p w)) = Suc (readings w)"
    "seen (snd (sch_port_now_ticks p w)) = seen w"
  using assms by (simp_all add: observed_def)

lemma before_records:
  assumes "observed p env el readings seen" and "exec_before cfg p env i s w = (s1, w1)"
  shows "readings w1 = readings w + of_bool (sch_enable_stats cfg) + of_bool (sch_enable_trace cfg)"
    and "s1 = (if sch_enable_stats cfg then upd_stats i (\<lambda>st. st\<lparr>last_start_tick := el (readings w)\<rparr>) s else s)"
    and "seen w1 = seen w @ hook_events cfg s
      [(SCH_TRACE_TASK_START, of_nat i, el (readings w + of_bool (sch_enable_stats cfg)))]"
  using assms(2)
  by (auto simp: exec_before_def Let_def split_beta emit_observed [OF assms(1)] now_observed [OF assms(1)]
      hook_events_def upd_stats_def split: if_splits)

lemma after_records:
  assumes "observed p env el readings seen" and "exec_after cfg p env i period s w = (s1, w1)"
    and "k = readings w + of_bool (sch_enable_stats cfg)"
    and "overrun = (period \<noteq> 0 \<and> sch_time_reached (el (k + of_bool (sch_enable_trace cfg))) (next_release (tasks s ! i)))"
  shows "readings w1 = k + of_bool (sch_enable_trace cfg) + 1"
    and "sch_enable_stats cfg \<Longrightarrow> i < length (stats s) \<Longrightarrow> stats s1 = (stats s)[i :=
      (let st = sch_stats_account (el (readings w)) (stats s ! i)
       in if overrun then st\<lparr>overrun_count := overrun_count st + 1\<rparr> else st)]"
    and "\<not> sch_enable_stats cfg \<Longrightarrow> stats s1 = stats s" and "tasks s1 = tasks s"
    and "seen w1 = seen w @ hook_events cfg s
      ((SCH_TRACE_TASK_END, of_nat i, el k) #
       (if overrun then [(SCH_TRACE_TASK_OVERRUN, of_nat i, el (k + of_bool (sch_enable_trace cfg)))] else []))"
  using assms(2-4)
  by (auto simp: exec_after_def Let_def split_beta emit_observed [OF assms(1)] now_observed [OF assms(1)]
      hook_events_def upd_stats_def split: if_splits)

lemma exec_records:
  assumes "observed p env el readings seen" and "leaves_records env readings seen i m f c"
    and "i < length (stats s)" and "k = readings w"
    and "a = of_bool (sch_enable_stats cfg)" and "b = of_bool (sch_enable_trace cfg)"
  shows "\<exists>s1 w1 s2 w2 s' w' overrun. sch_exec_periodic cfg p env i (Some f) c period s w = Some (s', w') \<and>
    call_task env f c s1 w1 = Some (s2, w2) \<and> readings w1 = k + a + b \<and> tasks s1 = tasks s \<and> tasks s' = tasks s2 \<and>
    (\<forall>j. j \<noteq> i \<longrightarrow> stats s1 ! j = stats s ! j \<and> stats s' ! j = stats s2 ! j) \<and>
    overrun = (period \<noteq> 0 \<and> sch_time_reached (el (k + 2 * a + 2 * b + m)) (next_release (tasks s2 ! i))) \<and>
    stats s' ! i = (if sch_enable_stats cfg then stats_after (el k) (el (k + a + b + m)) overrun (stats s ! i) else stats s ! i) \<and>
    readings w' = k + 2 * a + 2 * b + m + 1 \<and>
    seen w' = seen w @ hook_events cfg s
      ([(SCH_TRACE_TASK_START, of_nat i, el (k + a)), (SCH_TRACE_TASK_END, of_nat i, el (k + 2 * a + b + m))] @
       (if overrun then [(SCH_TRACE_TASK_OVERRUN, of_nat i, el (k + 2 * a + 2 * b + m))] else []))"
proof -
  obtain s1 w1 where before: "exec_before cfg p env i s w = (s1, w1)" by (metis surj_pair)
  note b = before_records [OF assms(1) before]
  obtain s2 w2 where call: "call_task env f c s1 w1 = Some (s2, w2)" and
    kept: "length (stats s2) = length (stats s1)" "stats s2 ! i = stats s1 ! i" "trace_hook s2 = trace_hook s1"
      "readings w2 = readings w1 + m" "seen w2 = seen w1"
    using assms(2) unfolding leaves_records_def by blast
  obtain s' w' where after: "exec_after cfg p env i period s2 w2 = (s', w')" by (metis surj_pair)
  have k1: "readings w1 = k + a + b" and k2: "readings w2 = k + a + b + m" using b(1) kept(4) assms(4-6) by simp_all
  have run: "sch_exec_periodic cfg p env i (Some f) c period s w = Some (s', w')"
    by (simp add: exec_periodic_split before call after)
  have i: "i < length (stats s2)" using assms(3) kept(1) b(2) by (simp add: upd_stats_def)
  define overrun where
    "overrun = (period \<noteq> 0 \<and> sch_time_reached (el (k + 2 * a + 2 * b + m)) (next_release (tasks s2 ! i)))"
  note r = after_records [OF assms(1) after refl]
  have n: "readings w2 + of_bool (sch_enable_stats cfg) = k + 2 * a + b + m"
    "k + 2 * a + b + m + of_bool (sch_enable_trace cfg) = k + 2 * a + 2 * b + m" using k2 assms(5,6) by simp_all
  note r = r [unfolded n, OF overrun_def]
  have "stats s' ! i = (if sch_enable_stats cfg then stats_after (el k) (el (k + a + b + m)) overrun (stats s ! i) else stats s ! i)"
  proof (cases "sch_enable_stats cfg")
    case True
    have "stats s2 ! i = (stats s ! i)\<lparr>last_start_tick := el k\<rparr>"
      using kept(2) b(2) True assms(3,4) by (simp add: upd_stats_def)
    then show ?thesis using r(2) [OF True i] True i by (simp add: k2 stats_after_account Let_def)
  next
    case False
    then show ?thesis using r(3) kept(2) b(2) by simp
  qed
  moreover have "\<forall>j. j \<noteq> i \<longrightarrow> stats s1 ! j = stats s ! j \<and> stats s' ! j = stats s2 ! j"
    using b(2) r(2) [OF _ i] r(3) by (cases "sch_enable_stats cfg") (simp_all add: upd_stats_def)
  moreover have "tasks s1 = tasks s" using b(2) by (simp add: upd_stats_def)
  moreover have "trace_hook s2 = trace_hook s" using b(2) kept(3) by (simp add: upd_stats_def)
  then have "seen w' = seen w @ hook_events cfg s
      ([(SCH_TRACE_TASK_START, of_nat i, el (k + a)), (SCH_TRACE_TASK_END, of_nat i, el (k + 2 * a + b + m))] @
       (if overrun then [(SCH_TRACE_TASK_OVERRUN, of_nat i, el (k + 2 * a + 2 * b + m))] else []))"
    using r(5) b(3) kept(5) assms(4,5) by (simp add: hook_events_def)
  moreover have "readings w' = k + 2 * a + 2 * b + m + 1" using r(1) assms(6) by simp
  ultimately show ?thesis using run call k1 r(4) overrun_def by blast
qed

section \<open>A target whose clock moves\<close>

text \<open>Every reading takes ten ticks; a task reads the clock once, or registers a task; the hook keeps a list.\<close>

record reading_bench =
  readings_made :: nat
  events_seen :: "(sch_trace_event \<times> i32 \<times> u32) list"

definition reading_port :: "reading_bench port" where
  "reading_port = \<lparr>sch_port_now_ticks = (\<lambda>w. (of_nat (10 * readings_made w), w\<lparr>readings_made := Suc (readings_made w)\<rparr>)),
     sch_port_enter_critical = (\<lambda>w. (0, w)), sch_port_exit_critical = (\<lambda>state w. w), sch_port_idle = (\<lambda>w. w)\<rparr>"

definition reading_env :: "(bench_fn, unit, unit, reading_bench) sch_env" where
  "reading_env = \<lparr>call_task = (\<lambda>f c s w.
       case f of
         REGISTER_TASK g period prio \<Rightarrow>
           (case sch_add_task all_on reading_port (Some s) (Some g) None period 0 prio w of (task_id, s, w) \<Rightarrow> Some (the s, w))
       | _ \<Rightarrow> Some (s, snd (sch_port_now_ticks reading_port w))),
     call_hook = (\<lambda>h e i t c w. w\<lparr>events_seen := events_seen w @ [(e, i, t)]\<rparr>)\<rparr>"

lemma reading_call: "call_task reading_env TASK_A c s w = Some (s, snd (sch_port_now_ticks reading_port w))"
  by (simp add: reading_env_def)

lemma reading_observed: "observed reading_port reading_env (\<lambda>k. of_nat (10 * k)) readings_made events_seen"
  by (simp add: observed_def reading_port_def reading_env_def)

lemma reading_leaves: "leaves_records reading_env readings_made events_seen i 1 TASK_A c"
  by (simp add: leaves_records_def reading_env_def reading_port_def)

end
