(* ===== verification/Scheduler_Work.thy ===== *)
theory Scheduler_Work
  imports Scheduler_Effects
begin

text \<open>
  How much platform activity one run can cause. \<open>R n w w'\<close> says that the platform may have moved
  from \<open>w\<close> to \<open>w'\<close> with at most \<open>n\<close> readings of the clock: such a relation composes by addition,
  a reading costs one, the other hooks cost nothing, and a task function costs at most \<open>k\<close>. The
  number of readings of a run is then bounded by the number of tasks it dispatches, hence by
  \<open>SCH_MAX_TASKS\<close>. Read with time for readings, this bounds how long a run takes.
\<close>

text \<open>The readings that the instrumentation of one call makes in a given build.\<close>

definition instrument_cost :: "sch_config \<Rightarrow> nat" where
  "instrument_cost cfg = (if sch_enable_stats cfg then 2 else 0) + (if sch_enable_trace cfg then 2 else 0)"

text \<open>The bound for a run that dispatches \<open>n\<close> periodic tasks, each call costing at most \<open>k\<close>.\<close>

definition run_cost :: "sch_config \<Rightarrow> nat \<Rightarrow> nat \<Rightarrow> nat" where
  "run_cost cfg k n = 1 + n * (instrument_cost cfg + 1 + k) + (instrument_cost cfg + k)"

locale run_costs =
  fixes p :: "'w port"
    and env :: "('f, 'c, 'h, 'w) sch_env"
    and R :: "nat \<Rightarrow> 'w \<Rightarrow> 'w \<Rightarrow> bool"
    and k :: nat
  assumes refl: "R 0 w w"
    and trans: "R m u v \<Longrightarrow> R n v w \<Longrightarrow> R (m + n) u w"
    and mono: "R m u v \<Longrightarrow> m \<le> n \<Longrightarrow> R n u v"
    and now_cost: "R 1 w (snd (sch_port_now_ticks p w))"
    and enter_cost: "R 0 w (snd (sch_port_enter_critical p w))"
    and exit_cost: "R 0 w (sch_port_exit_critical p state w)"
    and idle_cost: "R 0 w (sch_port_idle p w)"
    and hook_cost: "R 0 w (call_hook env h e i t c w)"
    and task_cost: "call_task env f c s w = Some (s', w') \<Longrightarrow> R k w w'"
begin

lemma trans0: "R m u v \<Longrightarrow> R 0 v w \<Longrightarrow> R m u w"
  using trans [of m u v 0 w] by simp

lemma trans1: "R 0 u v \<Longrightarrow> R n v w \<Longrightarrow> R n u w"
  using trans [of 0 u v n w] by simp

lemma crit_cost: "R 0 w (crit p w)"
  unfolding crit_def split_beta Let_def by (rule trans0 [OF enter_cost exit_cost])

lemma emit_cost: "R 0 w (sch_trace_emit env sc e i t w)"
  by (simp add: sch_trace_emit_def refl hook_cost split: option.split)

lemma now_emit_cost: "R 1 w (sch_trace_emit env sc e i t (snd (sch_port_now_ticks p w)))"
  by (rule trans0 [OF now_cost emit_cost])

lemma now_cost2: "R (Suc (Suc 0)) w (sch_trace_emit env sc e i t (snd (sch_port_now_ticks p (snd (sch_port_now_ticks p w)))))"
  using trans [OF now_cost now_emit_cost] by simp

lemma exec_before_cost:
  "R ((if sch_enable_stats cfg then 1 else 0) + (if sch_enable_trace cfg then 1 else 0)) w
     (snd (exec_before cfg p env i s w))"
  using trans [OF now_cost now_emit_cost]
  by (auto simp: exec_before_def Let_def split_beta refl
      intro: now_cost [simplified] now_emit_cost [simplified])

lemma exec_after_cost:
  "R ((if sch_enable_stats cfg then 1 else 0) + (if sch_enable_trace cfg then 1 else 0) + 1) w
     (snd (exec_after cfg p env i period s w))"
proof -
  let ?w1 = "if sch_enable_stats cfg then snd (sch_port_now_ticks p w) else w"
  let ?s1 = "if sch_enable_stats cfg then upd_stats i (sch_stats_account (fst (sch_port_now_ticks p w))) s else s"
  let ?t = "sch_port_now_ticks p ?w1"
  let ?w2 = "if sch_enable_trace cfg
    then sch_trace_emit env (Some ?s1) SCH_TRACE_TASK_END (of_nat i) (fst ?t) (snd ?t) else ?w1"
  have 1: "R (if sch_enable_stats cfg then 1 else 0) w ?w1" using now_cost refl by simp
  have 2: "R (if sch_enable_trace cfg then 1 else 0) ?w1 ?w2" using now_emit_cost refl by simp
  have 3: "R 1 ?w2 (snd (exec_after cfg p env i period s w))"
    by (cases "sch_enable_stats cfg"; cases "sch_enable_trace cfg")
      (auto simp: exec_after_def Let_def split_beta simp del: One_nat_def intro: now_cost now_emit_cost)
  show ?thesis using trans [OF trans [OF 1 2] 3] .
qed

lemma exec_periodic_cost:
  assumes "sch_exec_periodic cfg p env i f c period s w = Some (s', w')"
  shows "R (instrument_cost cfg + 1 + k) w w'"
proof (cases f)
  case None
  then show ?thesis using assms by (simp add: sch_exec_periodic_def call_fn_def Let_def split_beta)
next
  case (Some g)
  obtain s1 w1 where b: "exec_before cfg p env i s w = (s1, w1)" by (metis surj_pair)
  with assms Some obtain s2 w2 where c: "call_task env g c s1 w1 = Some (s2, w2)"
    and a: "exec_after cfg p env i period s2 w2 = (s', w')"
    by (auto simp: exec_periodic_split split: option.splits)
  have cb: "R ((if sch_enable_stats cfg then 1 else 0) + (if sch_enable_trace cfg then 1 else 0)) w w1"
    using exec_before_cost [of cfg w i s] b by simp
  have ca: "R ((if sch_enable_stats cfg then 1 else 0) + (if sch_enable_trace cfg then 1 else 0) + 1) w2 w'"
    using exec_after_cost [of cfg w2 i period s2] a by simp
  from trans [OF cb trans [OF task_cost [OF c] ca]] show ?thesis
    by (rule mono) (simp add: instrument_cost_def)
qed

lemma dispatch_all_cost:
  "dispatch_all cfg p env now is s w = Some (s', w') \<Longrightarrow> R (length is * (instrument_cost cfg + 1 + k)) w w'"
proof (induction "is" arbitrary: s w)
  case Nil
  then show ?case by (simp add: refl)
next
  case (Cons i "is")
  then obtain s1 w1 where d: "dispatch_slot cfg p env now i s w = Some (s1, w1)"
    and r: "dispatch_all cfg p env now is s1 w1 = Some (s', w')" by (auto simp: bind_eq_Some_conv)
  have "R (instrument_cost cfg + 1 + k) w w1"
    using trans1 [OF crit_cost exec_periodic_cost [OF d [unfolded dispatch_slot_def]]] .
  from trans [OF this Cons.IH [OF r]] show ?case by (simp add: algebra_simps)
qed

lemma run_periodic_cost:
  "sch_run_periodic n cfg p env now s w = Some (s', w') \<Longrightarrow> R (n * (instrument_cost cfg + 1 + k)) w w'"
proof (induction n arbitrary: s w)
  case 0
  then show ?case by (simp add: refl)
next
  case (Suc n)
  let ?i = "unat (sch_select_pending_task s)"
  have body: "sch_port_exit_critical p (fst (sch_port_enter_critical p w))
      (snd (sch_port_enter_critical p w)) = crit p w"
    by (simp add: crit_def split_beta)
  show ?case
  proof (cases "sch_select_pending_task s = SCH_INVALID_TASK_ID")
    case True
    then have "w' = crit p w" using Suc.prems by (simp add: split_beta body)
    then show ?thesis using mono [OF crit_cost] by simp
  next
    case False
    with Suc.prems obtain s1 w1 where
      e: "sch_exec_periodic cfg p env ?i (fn (tasks s ! ?i)) (ctx (tasks s ! ?i))
        (period_ticks (tasks s ! ?i)) (sch_take_task now ?i s) (crit p w) = Some (s1, w1)"
      and r: "sch_run_periodic n cfg p env now s1 w1 = Some (s', w')"
      by (auto simp: split_beta Let_def body bind_eq_Some_conv)
    from trans [OF trans1 [OF crit_cost exec_periodic_cost [OF e]] Suc.IH [OF r]]
    show ?thesis by (simp add: algebra_simps)
  qed
qed

lemma mark_cost: "R 0 w (snd (sch_mark_periodic_ready cfg env s now w))"
proof -
  have "R 0 v (snd (fold (sch_mark_slot cfg env now) is (t, v)))" for "is" t v
  proof (induction "is" arbitrary: t v)
    case (Cons i "is")
    obtain t1 v1 where m: "sch_mark_slot cfg env now i (t, v) = (t1, v1)" by (metis surj_pair)
    then have "R 0 v v1" using refl emit_cost by (auto simp: sch_mark_slot_def Let_def split: if_splits)
    from trans0 [OF this Cons.IH] m show ?case by simp
  qed (simp add: refl)
  then show ?thesis by (simp add: sch_mark_periodic_ready_def)
qed

lemma run_background_cost:
  assumes "sch_run_background cfg p env s w = Some (s', w')"
  shows "R (instrument_cost cfg + k) w w'"
proof -
  let ?b = "sch_select_background_task s" and ?w = "crit p w"
  let ?i = "unat (fst ?b)"
  let ?f = "if fst ?b \<noteq> SCH_INVALID_TASK_ID then fn (tasks (snd ?b) ! ?i) else None"
  let ?c = "if fst ?b \<noteq> SCH_INVALID_TASK_ID then ctx (tasks (snd ?b) ! ?i) else None"
  let ?st = "if sch_enable_stats cfg then 1 else (0 :: nat)" and ?tr = "if sch_enable_trace cfg then 1 else (0 :: nat)"
  have body: "sch_port_exit_critical p (fst (sch_port_enter_critical p w)) (snd (sch_port_enter_critical p w)) = ?w"
    by (simp add: crit_def split_beta)
  show ?thesis
  proof (cases "is_null ?f")
    case True
    let ?w1 = "if sch_enable_trace cfg then let (t, w) = sch_port_now_ticks p ?w
      in sch_trace_emit env (Some (snd ?b)) SCH_TRACE_IDLE SCH_INVALID_TASK_ID t w else ?w"
    have "w' = sch_port_idle p ?w1"
      using assms True by (simp add: sch_run_background_def split_beta Let_def body split: if_splits)
    moreover have "R ?tr ?w ?w1" using now_emit_cost refl by (simp add: split_beta Let_def)
    ultimately have "R ?tr w w'" using trans1 [OF crit_cost trans0 [OF _ idle_cost]] by blast
    then show ?thesis by (rule mono) (simp add: instrument_cost_def)
  next
    case False
    let ?w1 = "if sch_enable_trace cfg then let (t, w) = sch_port_now_ticks p ?w
      in sch_trace_emit env (Some (snd ?b)) SCH_TRACE_TASK_START (fst ?b) t w else ?w"
    let ?w2 = "if sch_enable_stats cfg then snd (sch_port_now_ticks p ?w1) else ?w1"
    let ?s2 = "if sch_enable_stats cfg then upd_stats ?i (\<lambda>st. st\<lparr>last_start_tick := fst (sch_port_now_ticks p ?w1)\<rparr>) (snd ?b) else snd ?b"
    obtain s3 w3 where c: "call_fn env ?f ?c ?s2 ?w2 = Some (s3, w3)"
      using assms False
      by (cases "call_fn env ?f ?c ?s2 ?w2")
        (auto simp: sch_run_background_def split_beta Let_def body split: if_splits)
    let ?w4 = "if sch_enable_stats cfg then snd (sch_port_now_ticks p w3) else w3"
    let ?s4 = "if sch_enable_stats cfg then upd_stats ?i (sch_stats_account (fst (sch_port_now_ticks p w3))) s3 else s3"
    let ?w5 = "if sch_enable_trace cfg then let (t, w) = sch_port_now_ticks p ?w4
      in sch_trace_emit env (Some ?s4) SCH_TRACE_TASK_END (fst ?b) t w else ?w4"
    have w': "w' = ?w5"
      using assms False c by (auto simp: sch_run_background_def split_beta Let_def body split: if_splits)
    have 1: "R ?tr ?w ?w1" and 2: "R ?st ?w1 ?w2" and 4: "R ?st w3 ?w4" and 5: "R ?tr ?w4 ?w5"
      using now_emit_cost now_cost refl by (simp_all add: split_beta Let_def)
    have 3: "R k ?w2 w3" using c task_cost by (auto simp: call_fn_def split: option.splits)
    from trans [OF trans1 [OF crit_cost 1] trans [OF 2 trans [OF 3 trans [OF 4 5]]]]
    show ?thesis unfolding w' by (rule mono) (simp add: instrument_cost_def)
  qed
qed

text \<open>Whatever the tasks do to the table, a run costs no more than a full table would.\<close>

lemma run_cost_max:
  assumes "sch_run cfg p env (Some s) w = Some (s', w')"
  shows "R (run_cost cfg k SCH_MAX_TASKS) w w'"
proof -
  let ?e = "sch_port_enter_critical p w"
  let ?t = "sch_port_now_ticks p (snd ?e)"
  let ?m = "sch_mark_periodic_ready cfg env s (fst ?t) (snd ?t)"
  let ?w = "sch_port_exit_critical p (fst ?e) (snd ?m)"
  from assms obtain s1 w1 s2 where
    r: "sch_run_periodic SCH_MAX_TASKS cfg p env (fst ?t) (fst ?m) ?w = Some (s1, w1)"
    and b: "sch_run_background cfg p env s1 w1 = Some (s2, w')"
    by (auto simp: sch_run_def split_beta Let_def bind_eq_Some_conv)
  have "R 1 w ?w" by (rule trans0 [OF trans0 [OF trans1 [OF enter_cost now_cost] mark_cost] exit_cost])
  from trans [OF trans [OF this run_periodic_cost [OF r]] run_background_cost [OF b]]
  show ?thesis by (simp add: run_cost_def)
qed

text \<open>Under the task contract it costs what the tasks due at its start cost.\<close>

lemma run_cost_due:
  assumes "task_contract p env ok" and "sch_wf s" and "sch_quiet s" and "ok w" and "crit_now p w = (now, w1)"
  shows "\<exists>s' w'. sch_run cfg p env (Some s) w = Some (Some s', w') \<and>
    R (run_cost cfg k (card {i. i < SCH_MAX_TASKS \<and> is_due now (tasks s ! i)})) w w'"
proof -
  let ?ready = "dispatch_order (marked now s)"
  obtain s2 w2 s3 w3 where r:
    "dispatch_all cfg p env now ?ready (marked now s) w1 = Some (s2, w2)"
    "sch_run_background cfg p env s2 (if length ?ready < SCH_MAX_TASKS then crit p w2 else w2) = Some (s3, w3)"
    "sch_run cfg p env (Some s) w = Some (Some s3, w3)"
    using task_contract.run_phases [OF assms] by metis
  have card: "card {i. i < SCH_MAX_TASKS \<and> is_due now (tasks s ! i)} = length ?ready"
    using distinct_card [OF distinct_dispatch_order [of "marked now s"]] set_dispatch_marked [OF assms(2,3)] by simp
  have entry: "R 1 w w1"
    using trans0 [OF trans1 [OF enter_cost now_cost] exit_cost, of w] assms(5)
    by (auto simp: crit_now_def split_beta Let_def)
  have leave: "R 0 w2 (if length ?ready < SCH_MAX_TASKS then crit p w2 else w2)" using crit_cost refl by simp
  from trans [OF trans [OF entry dispatch_all_cost [OF r(1)]] trans1 [OF leave run_background_cost [OF r(2)]]]
  have "R (run_cost cfg k (card {i. i < SCH_MAX_TASKS \<and> is_due now (tasks s ! i)})) w w3"
    by (simp add: run_cost_def card)
  with r(3) show ?thesis by blast
qed

end

section \<open>Counting the readings\<close>

text \<open>\<open>reads\<close> counts the readings of the clock, and a task function makes at most \<open>k\<close> itself.\<close>

definition counts_reads :: "'w port \<Rightarrow> ('f, 'c, 'h, 'w) sch_env \<Rightarrow> ('w \<Rightarrow> nat) \<Rightarrow> nat \<Rightarrow> bool" where
  "counts_reads p env reads k \<longleftrightarrow>
     (\<forall>w. reads (snd (sch_port_now_ticks p w)) = reads w + 1) \<and>
     (\<forall>w. reads (snd (sch_port_enter_critical p w)) = reads w) \<and>
     (\<forall>w state. reads (sch_port_exit_critical p state w) = reads w) \<and>
     (\<forall>w. reads (sch_port_idle p w) = reads w) \<and>
     (\<forall>h e i t c w. reads (call_hook env h e i t c w) = reads w) \<and>
     (\<forall>f c s w s' w'. call_task env f c s w = Some (s', w') \<longrightarrow> reads w \<le> reads w' \<and> reads w' \<le> reads w + k)"

lemma counts_reads_costs:
  "counts_reads p env reads k \<Longrightarrow> run_costs p env (\<lambda>n w w'. reads w \<le> reads w' \<and> reads w' \<le> reads w + n) k"
  by unfold_locales (auto simp: counts_reads_def intro: le_trans)

end
