(* ===== verification/Scheduler_Props.thy ===== *)
theory Scheduler_Props
  imports Scheduler_Records Scheduler_Work
begin

text \<open>
  The properties of the scheduler, each with its witness on the sample scheduler of the test
  bench. The lemmas they rest on are in the theories before this one.
\<close>

lemma bench_contract: "task_contract test_port (bench_env cfg) (\<lambda>b. True)"
  by (rule bench_app.task_contract_axioms)

section \<open>One run\<close>

text \<open>
  C1. A run never gets stuck and never leaves the invariant. From every well-formed scheduler
  between two runs, with an application that meets the task contract, \<open>sch_run\<close> returns
  (in particular no null function is called and no slot outside the table is touched), and it
  leaves a well-formed scheduler with no task pending. Each task registered before the run is
  changed exactly by what its due date asks for: if it was due at the tick read on entry, its
  release is moved on, otherwise the task is as it was.
\<close>

theorem sch_run_safe:
  assumes "task_contract p env ok" and "sch_wf s" and "sch_quiet s" and "ok w"
  shows "\<exists>s' w'. sch_run cfg p env (Some s) w = Some (Some s', w') \<and>
    sch_wf s' \<and> sch_quiet s' \<and> ok w' \<and>
    (\<forall>i<SCH_MAX_TASKS. in_use (tasks s ! i) \<longrightarrow>
       tasks s' ! i = run_task (fst (crit_now p w)) (tasks s ! i))"
  using task_contract.run_step [OF assms] by metis

theorem sch_run_safe_witness:
  "\<exists>s' b'. sch_run all_on test_port (bench_env all_on) (Some sample_sch) bench_start = Some (Some s', b') \<and>
    sch_wf s' \<and> sch_quiet s' \<and> True \<and>
    (\<forall>i<SCH_MAX_TASKS. in_use (tasks sample_sch ! i) \<longrightarrow>
       tasks s' ! i = run_task (fst (crit_now test_port bench_start)) (tasks sample_sch ! i))"
  by (rule sch_run_safe [OF bench_contract sample_wf TrueI])

text \<open>
  C2. The bounded loop of \<open>sch_run\<close> is a plain sequence. A run dispatches the tasks due at
  entry, each exactly once and never more than the table holds, sorted by priority and then
  by slot, whatever the tasks do in between; then it performs one background step. No
  iteration of the selection loop is wasted and none is cut off.
\<close>

theorem sch_run_refines:
  assumes "task_contract p env ok" and "sch_wf s" and "sch_quiet s" and "ok w"
    and "crit_now p w = (now, w1)" and "ready = dispatch_order (marked now s)"
  shows "sch_run cfg p env (Some s) w = do {
      (s2, w2) \<leftarrow> dispatch_all cfg p env now ready (marked now s) w1;
      (s3, w3) \<leftarrow> sch_run_background cfg p env s2 (if length ready < SCH_MAX_TASKS then crit p w2 else w2);
      Some (Some s3, w3)
    } \<and> set ready = {i. i < SCH_MAX_TASKS \<and> is_due now (tasks s ! i)} \<and> distinct ready \<and>
    length ready \<le> SCH_MAX_TASKS \<and> sorted (map (slot_key (marked now s)) ready)"
  by (simp add: task_contract.run_eq [OF assms] assms(6) set_dispatch_marked [OF assms(2,3)]
      distinct_dispatch_order length_dispatch_order sorted_dispatch_order)

theorem sch_run_refines_witness:
  "sch_run all_on test_port (bench_env all_on) (Some sample_sch) (bench_start\<lparr>fake_time_us := 1000\<rparr>) = do {
      (s2, w2) \<leftarrow> dispatch_all all_on test_port (bench_env all_on) 1000 [1, 0] (marked 1000 sample_sch)
        (bench_start\<lparr>fake_time_us := 1000\<rparr>);
      (s3, w3) \<leftarrow> sch_run_background all_on test_port (bench_env all_on) s2
        (if length [1 :: nat, 0] < SCH_MAX_TASKS then crit test_port w2 else w2);
      Some (Some s3, w3)
    }"
  using sch_run_refines [OF bench_contract sample_wf TrueI bench_crit_now refl,
      where cfg = all_on and w = "bench_start\<lparr>fake_time_us := 1000\<rparr>"]
  by (simp add: sample_order)

text \<open>
  C3. The order is observable. Wherever the calls can be logged, each function adding its message
  and nothing else adding any, the log of a run is the messages of the ready tasks in priority
  order, each once, followed by that of the task at the head of the background ring, if there is
  one.
\<close>

theorem sch_run_log:
  assumes "logged_run p env ok log msg" and "sch_wf s" and "sch_quiet s" and "ok w" and "crit_now p w = (now, w1)"
  shows "\<exists>s2 w2 s3 w3.
    dispatch_all cfg p env now (dispatch_order (marked now s)) (marked now s) w1 = Some (s2, w2) \<and>
    sch_run cfg p env (Some s) w = Some (Some s3, w3) \<and>
    log w3 = log w @ concat (map (slot_msg msg s) (dispatch_order (marked now s)))
       @ concat (map (slot_msg msg s2) (take 1 (background_ring s2)))"
  using assms by (rule logged_run.run_log)

theorem sch_run_log_witness:
  "\<exists>s2 b2 s3 b3.
    dispatch_all all_on test_port (bench_env all_on) 1000 [1, 0] (marked 1000 sample_sch)
      (bench_start\<lparr>fake_time_us := 1000\<rparr>) = Some (s2, b2) \<and>
    sch_run all_on test_port (bench_env all_on) (Some sample_sch) (bench_start\<lparr>fake_time_us := 1000\<rparr>) =
      Some (Some s3, b3) \<and>
    call_trace b3 = [TASK_A, TASK_B] @ concat (map (slot_msg (\<lambda>f. [f]) s2) (take 1 (background_ring s2)))"
  using sch_run_log [OF bench_log.logged_run_axioms [of all_on] sample_wf TrueI bench_crit_now,
      where cfg = all_on and w = "bench_start\<lparr>fake_time_us := 1000\<rparr>"]
  by (simp add: sample_order sample_tasks_nth new_task_def bench_start_def SCH_MAX_TASKS_def slot_msg_def)

lemma one_less_tasks: "1 < SCH_MAX_TASKS"
  by (simp add: SCH_MAX_TASKS_def)

declare one_less_tasks [unfolded One_nat_def, simp]

text \<open>
  C33. \<open>sch_select_pending_task\<close> returns the ready task with the smallest priority value, the
  lowest slot among equals, and \<open>SCH_INVALID_TASK_ID\<close> exactly when no task is ready. The
  comparison with \<open>SCH_LOWEST_PRIORITY\<close> never hides a task of that priority.
\<close>

theorem sch_select_pending_task_min:
  "if \<exists>i<SCH_MAX_TASKS. is_ready (tasks s ! i)
   then \<exists>k<SCH_MAX_TASKS. sch_select_pending_task s = of_nat k \<and> is_ready (tasks s ! k) \<and>
     (\<forall>j<SCH_MAX_TASKS. is_ready (tasks s ! j) \<longrightarrow>
       priority (tasks s ! k) < priority (tasks s ! j) \<or>
       (priority (tasks s ! k) = priority (tasks s ! j) \<and> k \<le> j))
   else sch_select_pending_task s = SCH_INVALID_TASK_ID"
proof (cases "\<exists>i<SCH_MAX_TASKS. is_ready (tasks s ! i)")
  case True
  with select_fold [OF order_refl, of s] obtain k where "k < SCH_MAX_TASKS" "is_ready (tasks s ! k)"
    "sch_select_pending_task s = of_nat k"
    "\<forall>j<SCH_MAX_TASKS. is_ready (tasks s ! j) \<longrightarrow> slot_key s k \<le> slot_key s j"
    by (auto simp: sch_select_pending_task_def)
  with True show ?thesis by (auto simp: slot_key_def key_le_iff)
next
  case False
  with select_fold [OF order_refl, of s] have "sch_select_pending_task s = SCH_INVALID_TASK_ID"
    by (simp add: sch_select_pending_task_def)
  with False show ?thesis by (simp only: if_False)
qed

theorem sch_select_pending_task_min_witness:
  "sch_select_pending_task (marked 1000 sample_sch) \<noteq> SCH_INVALID_TASK_ID \<and>
   sch_select_pending_task sample_sch = SCH_INVALID_TASK_ID"
proof
  have "is_ready (tasks (marked 1000 sample_sch) ! 1)"
    using ready_marked [OF sample_wf, of 1 1000] sample_due [of 1 1000]
    by (simp add: SCH_MAX_TASKS_def time_reached_iff)
  then show "sch_select_pending_task (marked 1000 sample_sch) \<noteq> SCH_INVALID_TASK_ID"
    using sch_select_pending_task_min [of "marked 1000 sample_sch"] slot_valid
    by (metis (full_types) one_less_tasks)
  have "\<not> (\<exists>i<SCH_MAX_TASKS. is_ready (tasks sample_sch ! i))"
    using sample_wf by (auto simp: is_ready_def sch_quiet_def list_all_length wf_lengths)
  then show "sch_select_pending_task sample_sch = SCH_INVALID_TASK_ID"
    using sch_select_pending_task_min [of sample_sch] by simp
qed

section \<open>The background\<close>

text \<open>
  C5. Background tasks are served in turn. As many selections as there are background tasks
  return each of them exactly once, in cyclic slot order from the cursor, and leave the cursor
  where the next round repeats the same order.
\<close>

theorem background_selection_fair:
  assumes "sch_wf s"
  shows "fst (background_rounds (length (background_ring s)) s) = map of_nat (background_ring s) \<and>
    background_ring (snd (background_rounds (length (background_ring s)) s)) = background_ring s \<and>
    distinct (background_ring s) \<and>
    set (background_ring s) = {i. i < SCH_MAX_TASKS \<and> is_background (tasks s ! i)}"
  using background_rounds_prefix [of s "background_ring s" "[]"] assms
  by (simp add: sch_wf_def distinct_background_ring set_background_ring)

theorem background_selection_fair_witness:
  "fst (background_rounds 1 sample_sch) = [2]"
proof -
  have "set (background_ring sample_sch) = {2}"
    by (auto simp: set_background_ring sample_tasks_nth is_background_def new_task_def empty_task_def
        SCH_MAX_TASKS_def split: if_splits)
  moreover have "length (background_ring sample_sch) = card (set (background_ring sample_sch))"
    using distinct_card [OF distinct_background_ring, of sample_sch] by simp
  ultimately have "length (background_ring sample_sch) = 1" "set (background_ring sample_sch) = {2}"
    by simp_all
  then have "background_ring sample_sch = [2]" by (auto simp: length_Suc_conv)
  then show ?thesis using background_selection_fair [OF sample_wf(1)] by simp
qed

text \<open>
  C6. The second half of a run does one of two things. If there is a background task, the one
  at the head of the ring is called, once, with its own context, and the cursor moves just past
  it; otherwise the platform's idle hook is called. Which periodic tasks ran before plays no
  part in it: the run idles after periodic work as well.
\<close>

theorem sch_run_background_step:
  assumes "sch_wf s"
  shows "sch_run_background cfg p env s w =
    (case background_ring s of
       [] \<Rightarrow> Some (s, idle_phase cfg p env s (crit p w))
     | i # _ \<Rightarrow> background_slot cfg p env i (s\<lparr>next_background_idx := background_cursor i\<rparr>) (crit p w))"
  using assms by (rule run_background_eq)

theorem sch_run_background_step_witness:
  "sch_run_background all_on test_port (bench_env all_on) (empty_sch all_on stale_sch) bench_start =
    Some (empty_sch all_on stale_sch, bench_start\<lparr>idle_call_count := 1\<rparr>)"
proof -
  have "background_ring (empty_sch all_on stale_sch) = []"
    by (simp add: background_ring_def filter_empty_conv is_background_def empty_sch_def empty_task_def)
  then have "sch_run_background all_on test_port (bench_env all_on) (empty_sch all_on stale_sch) bench_start =
      Some (empty_sch all_on stale_sch,
        idle_phase all_on test_port (bench_env all_on) (empty_sch all_on stale_sch) bench_start)"
    by (simp add: sch_run_background_step [OF init_wf(1) [OF stale_shape]])
  moreover have "trace_hook (empty_sch all_on stale_sch) = None"
    by (simp add: empty_sch_def all_on_def)
  ultimately show ?thesis
    by (simp add: idle_phase_def sch_trace_emit_def bench_start_def all_on_def)
qed

section \<open>Time\<close>

text \<open>
  C7. Periodic tasks keep their cadence over any number of runs and of wrap-arounds of the tick
  counter. If polls are less than half the tick range apart and the period is at most half of
  it, a task is dispatched by a poll exactly when a point of its release grid lies after the
  previous poll and not after this one: releases skipped by a late poll are served once, not
  once each, and lateness does not shift the grid.
\<close>

theorem sch_run_cadence:
  assumes "task_contract p env ok" and "sch_wf s" and "sch_quiet s" and "ok w"
    and "\<forall>g\<in>set gs. \<forall>w. ok w \<longrightarrow> ok (g w)"
    and "run_seq cfg p env gs (Some s) w = Some (log, s', w')"
    and "map fst log = map of_nat Ts" and "polls_close T0 Ts"
    and "j < SCH_MAX_TASKS" and "tracks R period T0 lo (tasks s ! j)"
    and "0 < period" and "period \<le> 2 ^ 31"
  shows "map (\<lambda>(now, ready). j \<in> set ready) log = expected_releases R period lo Ts"
  using assms by (rule task_contract.run_seq_cadence)

text \<open>A task just registered is tracked from its first release on.\<close>

lemma sample_tracks: "tracks 1000 1000 1000 1000 (tasks sample_sch ! 1)"
proof -
  have "next_point 1000 1000 1000 1000" by (auto simp: next_point_def intro: exI [of _ 0])
  then show ?thesis by (auto simp: tracks_def sample_tasks_nth new_task_def intro!: exI [of _ 1000])
qed

theorem sch_run_cadence_witness:
  "\<exists>log s' b'. run_seq all_on test_port (bench_env all_on)
      [\<lambda>b. b\<lparr>fake_time_us := 1500\<rparr>, \<lambda>b. b\<lparr>fake_time_us := 1999\<rparr>, \<lambda>b. b\<lparr>fake_time_us := 4100\<rparr>]
      (Some sample_sch) bench_start = Some (log, Some s', b') \<and>
    map (\<lambda>(now, ready). 1 \<in> set ready) log = expected_releases 1000 1000 1000 [1500, 1999, 4100]"
proof -
  let ?gs = "[\<lambda>b :: bench. b\<lparr>fake_time_us := 1500\<rparr>, \<lambda>b. b\<lparr>fake_time_us := 1999\<rparr>, \<lambda>b. b\<lparr>fake_time_us := 4100\<rparr>]"
  obtain log s' b' where r: "run_seq all_on test_port (bench_env all_on) ?gs (Some sample_sch) bench_start =
      Some (log, Some s', b')"
    using bench_app.run_seq_returns [OF sample_wf TrueI, of ?gs all_on all_on bench_start] by auto
  then have "map fst log = map of_nat [1500, 1999, 4100]"
    by (auto simp: Let_def bind_eq_Some_conv)
  from sch_run_cadence [OF bench_contract sample_wf TrueI _ r this _ one_less_tasks sample_tracks]
  show ?thesis using r by auto
qed

text \<open>
  C8. The next release. When a release \<open>R\<close> is reached at \<open>T\<close>, the release computed is the
  first point of the grid strictly after \<open>T\<close>, in unwrapped time, and at most one period away;
  the number of releases skipped is counted without overflow.
\<close>

theorem advance_first_after:
  assumes "R \<le> T" and "T - R < 2 ^ 31" and "0 < period" and "period < 2 ^ 32"
  shows "\<exists>x. sch_advance_next_release (of_nat T) (of_nat R) (of_nat period) = of_nat x \<and>
    T < x \<and> x \<le> T + period \<and> (\<exists>k. x = R + k * period) \<and>
    (\<forall>j. T < R + j * period \<longrightarrow> x \<le> R + j * period)"
proof (rule exI [of _ "next_grid R period T"], intro conjI)
  show "\<exists>k. next_grid R period T = R + k * period" unfolding next_grid_def by blast
qed (use advance_of_nat [OF assms] next_grid_bounds [OF assms(1,3)] next_grid_first [OF assms(1,3)]
  in simp_all)

theorem advance_first_after_witness:
  "\<exists>x. sch_advance_next_release (of_nat (2 ^ 32 + 3500)) (of_nat (2 ^ 32 - 96)) (of_nat 1000) = of_nat x \<and>
    2 ^ 32 + 3500 < x \<and> x \<le> 2 ^ 32 + 3500 + 1000 \<and> (\<exists>k. x = 2 ^ 32 - 96 + k * 1000) \<and>
    (\<forall>j. 2 ^ 32 + 3500 < 2 ^ 32 - 96 + j * 1000 \<longrightarrow> x \<le> 2 ^ 32 - 96 + j * (1000 :: nat))"
  by (rule advance_first_after) simp_all

text \<open>
  C9. The limit of the tick arithmetic. The release computed counts as reached at once, so that
  the task is due again in the next run and an overrun is recorded, exactly when it lies more
  than half the tick range ahead. That can only happen for a period above \<open>2^31\<close>, which
  \<open>sch_add_task\<close> accepts.
\<close>

theorem advance_reached_again:
  assumes "sch_time_reached now release" and "period \<noteq> 0"
  shows "sch_time_reached now (sch_advance_next_release now release period) \<longleftrightarrow>
    2 ^ 31 < unat period - unat (now - release) mod unat period"
proof -
  let ?d = "sch_advance_next_release now release period - now"
  have d: "unat ?d = unat period - unat (now - release) mod unat period"
    by (rule advance_distance [OF assms])
  have "0 < unat period" using assms(2) by (simp add: unat_gt_0)
  then have "unat ?d \<noteq> 0" using d mod_less_divisor [of "unat period" "unat (now - release)"] by linarith
  then show ?thesis
    using time_reached_before [of now ?d] d by (auto simp: unat_eq_0)
qed

theorem advance_reached_again_witness:
  "sch_time_reached 7 (sch_advance_next_release 7 5 0xFFFFFFFF)"
  using advance_reached_again [of 7 5 "0xFFFFFFFF"] by (simp add: time_reached_iff)

section \<open>Registration\<close>

text \<open>
  C10. Registration after \<open>sch_init\<close>, from any contents of memory. The identifiers handed out
  are \<open>0, 1, 2, \<dots>\<close> in order; after \<open>SCH_MAX_TASKS\<close> tasks every further call returns
  \<open>SCH_ERR_NO_SPACE\<close> and no call ever disturbs a slot handed out before.
\<close>

theorem registration_sequence:
  assumes "sch_shape raw" and "sch_init cfg p (Some raw) w = (s0, w0)"
  shows "\<exists>s' w'. add_all cfg p ds s0 w0 =
      (map (\<lambda>i. if i < SCH_MAX_TASKS then of_nat i else SCH_ERR_NO_SPACE) [0..<length ds], Some s', w') \<and>
    sch_wf s' \<and> sch_quiet s' \<and> unat (task_count s') = min (length ds) SCH_MAX_TASKS \<and>
    (\<forall>i<SCH_MAX_TASKS. in_use (tasks s' ! i) \<longleftrightarrow> i < length ds)"
proof -
  have s0: "s0 = Some (empty_sch cfg raw)" using assms init_eq [OF assms(1), of cfg p w] by simp
  from add_all_packed [OF packed_init [OF assms(1)], of cfg p ds cfg w0] obtain s' w' where r:
    "add_all cfg p ds s0 w0 =
      (map (\<lambda>i. if i < SCH_MAX_TASKS then of_nat i else SCH_ERR_NO_SPACE) [0..<length ds], Some s', w')"
    and pk: "packed (min (length ds) SCH_MAX_TASKS) s'" by (auto simp: s0)
  have "unat (task_count s') = min (length ds) SCH_MAX_TASKS"
    using packed_count [OF pk] .
  then show ?thesis using r pk by (auto simp: packed_def)
qed

theorem registration_sequence_witness:
  "\<exists>s' b'. add_all all_on test_port sample_tasks
      (fst (sch_init all_on test_port (Some stale_sch) bench_start))
      (snd (sch_init all_on test_port (Some stale_sch) bench_start)) =
    ([0, 1, 2], Some s', b') \<and> unat (task_count s') = 3"
proof -
  have "[0..<length sample_tasks] = [0, 1, 2]" by (simp add: sample_tasks_def upt_rec)
  then show ?thesis
    using registration_sequence [OF stale_shape surjective_pairing, where cfg = all_on and
        p = test_port and w = bench_start and ds = sample_tasks]
    by (auto simp: sample_tasks_def SCH_MAX_TASKS_def)
qed

text \<open>
  C11. \<open>sch_add_task\<close> on every branch. A missing scheduler or function is refused before any
  platform call and changes nothing; a full table is refused inside the critical section;
  otherwise the lowest free slot is filled with the arguments, enabled, not pending and
  released \<open>start_delay_ticks\<close> after the tick read in the section.
\<close>

theorem sch_add_task_branches:
  assumes "\<And>s. scheduler = Some s \<Longrightarrow> sch_wf s"
  shows "sch_add_task cfg p scheduler f c period delay prio w =
    (case (scheduler, f) of
       (Some s, Some g) \<Rightarrow>
         (case free_slot s of
            None \<Rightarrow> (SCH_ERR_NO_SPACE, Some s, crit p w)
          | Some i \<Rightarrow>
              (of_nat i,
               Some (add_at cfg i (new_task (Some g) c period (fst (crit_now p w) + delay) prio) s),
               snd (crit_now p w)))
     | _ \<Rightarrow> (SCH_ERR_INVALID_ARG, scheduler, w))"
  using assms by (cases scheduler; cases f) (simp_all add: add_task_cases, simp_all add: sch_add_task_def)

theorem sch_add_task_branches_witness:
  "fst (sch_add_task all_on test_port (Some sample_sch) (Some TASK_A) None 10 0 1 bench_start) = 3 \<and>
   fst (sch_add_task all_on test_port (Some sample_sch) None None 10 0 1 bench_start) = -2"
  using sch_add_task_branches [of "Some sample_sch", OF _, of all_on test_port _ None 10 0 1 bench_start]
    sample_wf(1) packed_free_slot [OF sample_packed]
  by (simp add: SCH_MAX_TASKS_def SCH_ERR_INVALID_ARG_def)

section \<open>Histories\<close>

text \<open>
  C12. The invariant holds along every history: initialisation of arbitrary memory, then any
  interleaving of registrations, enable requests, runs, statistics resets, hook changes and
  platform activity.
\<close>

theorem reachable_well_formed:
  assumes "task_contract p env ok" and "sch_reachable cfg p env ok s w"
  shows "sch_wf s \<and> sch_quiet s \<and> ok w"
  using task_contract.reachable_inv [OF assms] unfolding task_contract.inv_def [OF assms(1)] .

lemma sample_reachable: "sch_reachable all_on test_port (bench_env all_on) (\<lambda>b. True) (empty_sch all_on stale_sch) bench_start"
  by (rule reach_init [OF stale_shape, where w = bench_start]) (simp_all add: init_eq [OF stale_shape])

theorem reachable_well_formed_witness:
  "sch_wf (empty_sch all_on stale_sch) \<and> sch_quiet (empty_sch all_on stale_sch) \<and> True"
  by (rule reachable_well_formed [OF bench_contract sample_reachable])

text \<open>
  C21. Registrations are permanent. Whatever happens to a scheduler until it is initialised anew
  (registrations, requests to disable a task, runs, resets of the statistics, changes of the trace
  hook, platform activity), a registered task stays in its slot with the function, the context,
  the period and the priority it was registered with, it stays enabled, and its release moves by
  whole periods only.
\<close>

theorem registrations_permanent:
  assumes "task_contract p env ok" and "sch_wf s" and "sch_quiet s" and "ok w"
    and "sch_since cfg p env ok (s, w) (s', w')" and "i < SCH_MAX_TASKS" and "in_use (tasks s ! i)"
  shows "in_use (tasks s' ! i) \<and> enabled (tasks s' ! i) \<and> fn (tasks s' ! i) = fn (tasks s ! i) \<and>
    ctx (tasks s' ! i) = ctx (tasks s ! i) \<and> period_ticks (tasks s' ! i) = period_ticks (tasks s ! i) \<and>
    priority (tasks s' ! i) = priority (tasks s ! i) \<and>
    (\<exists>k. next_release (tasks s' ! i) = next_release (tasks s ! i) + k * period_ticks (tasks s ! i))"
proof -
  have "enabled (tasks s ! i)" using wf_task [OF assms(2,6)] assms(7) by (simp add: task_wf_def)
  then show ?thesis
    using task_contract.since_keeps_slot [OF assms(1,5)] assms(2-4,6,7)
    by (simp add: task_contract.inv_def [OF assms(1)] same_slot_def on_grid_of_def)
qed

theorem registrations_permanent_witness:
  "\<exists>s' b'. sch_enable_task (Some sample_sch) 1 False = Some sample_sch \<and>
    sch_run all_on test_port (bench_env all_on) (Some sample_sch) (bench_start\<lparr>fake_time_us := 1500\<rparr>) = Some (Some s', b') \<and>
    in_use (tasks s' ! 1) \<and> enabled (tasks s' ! 1) \<and> period_ticks (tasks s' ! 1) = 1000 \<and>
    (\<exists>k. next_release (tasks s' ! 1) = 1000 + k * 1000)"
proof -
  let ?b = "bench_start\<lparr>fake_time_us := 1500\<rparr>"
  let ?since = "sch_since all_on test_port (bench_env all_on) (\<lambda>b. True) (sample_sch, bench_start)"
  have e: "sch_enable_task (Some sample_sch) 1 False = Some sample_sch" by (simp add: sch_enable_task_def)
  have "?since (sample_sch, ?b)"
    by (rule since_call [OF since_call [OF since_start call_enable [OF e]] call_platform]) simp
  moreover obtain s' b' where r: "sch_run all_on test_port (bench_env all_on) (Some sample_sch) ?b = Some (Some s', b')"
    using bench_app.run_step [OF sample_wf TrueI, of all_on all_on ?b] by blast
  ultimately have "?since (s', b')" by (rule since_call [OF _ call_run])
  from registrations_permanent [OF bench_contract sample_wf TrueI this one_less_tasks] e r
  show ?thesis by (auto simp: sample_tasks_nth new_task_def)
qed

text \<open>
  C13. A missed release is never counted. With statistics enabled, \<open>miss_count\<close> of every slot is
  zero in every history: no task is pending when a run starts, so the branch that counts (and
  traces) a miss is dead, however many releases a late poll skips.
\<close>

theorem miss_count_stays_zero:
  assumes "task_contract p env ok" and "sch_enable_stats cfg" and "app_keeps_no_miss env"
    and "sch_reachable cfg p env ok s w"
  shows "\<forall>st\<in>set (stats s). miss_count st = 0"
  using task_contract.reachable_no_miss [OF assms] by (simp add: no_miss_def list_all_iff)

theorem miss_count_stays_zero_witness:
  "list_all (\<lambda>st. miss_count st = 0) (stats (empty_sch all_on stale_sch)) \<and>
   length (stats (empty_sch all_on stale_sch)) = SCH_MAX_TASKS"
  using miss_count_stays_zero [OF bench_contract _ bench_keeps_no_miss sample_reachable]
  by (simp add: all_on_def list_all_iff empty_sch_def)

section \<open>Critical sections\<close>

text \<open>
  C14. Critical sections are balanced and no application code runs inside one. On a port that
  meets the porting contract and with an application that keeps the interrupt level itself, a run
  returns at exactly the level it was called with, also when it was called inside a section; and
  what the tasks do at any other level has no influence on the outcome: replaced by tasks that
  behave differently there, the run is the same.
\<close>

theorem sch_run_sections:
  assumes "port_contract p level" and "app_keeps_level env level"
    and "\<And>f c s v. level v = level w \<Longrightarrow> call_task env' f c s v = call_task env f c s v"
    and "call_hook env' = call_hook env"
  shows "sch_run cfg p env' scheduler w = sch_run cfg p env scheduler w \<and>
    (case sch_run cfg p env' scheduler w of None \<Rightarrow> True | Some (scheduler', w') \<Rightarrow> level w' = level w)"
  using port_contract.run_calls [OF assms] port_contract.run_level [OF assms(1,2)]
  by (auto split: option.split)

theorem sch_run_sections_witness:
  "\<exists>s' w'. sch_run all_on snapshot_port
     (cpu_env\<lparr>call_task := (\<lambda>f c s w. if primask w = 1 then call_task cpu_env f c s w else None)\<rparr>)
     (Some cpu_sch) \<lparr>primask = 1, ticks = 40\<rparr> = Some (Some s', w') \<and> primask w' = 1"
proof -
  obtain s' w' where r: "sch_run all_on snapshot_port cpu_env (Some cpu_sch) \<lparr>primask = 1, ticks = 40\<rparr> =
      Some (Some s', w')"
    using cpu_app.run_step [OF cpu_sch_wf TrueI] by metis
  from sch_run_sections [OF snapshot.port_contract_axioms cpu_keeps_level, of "\<lparr>primask = 1, ticks = 40\<rparr>"
      "cpu_env\<lparr>call_task := (\<lambda>f c s w. if primask w = 1 then call_task cpu_env f c s w else None)\<rparr>"
      all_on "Some cpu_sch"] r
  show ?thesis by (auto split: option.splits)
qed

section \<open>Bounded work\<close>

text \<open>
  C15. A run does a bounded amount of work. With tasks that read the clock at most \<open>k\<close> times each,
  a run reads it once on entry, at most \<open>k\<close> times and once more for every periodic task that is
  due on entry, at most \<open>k\<close> times for the background step, and two or four times more per call in
  a build with statistics or tracing; never more than a table full of due tasks asks for.
\<close>

theorem sch_run_clock_readings:
  assumes "task_contract p env ok" and "sch_wf s" and "sch_quiet s" and "ok w" and "crit_now p w = (now, w1)"
    and "counts_reads p env reads k"
  shows "\<exists>s' w'. sch_run cfg p env (Some s) w = Some (Some s', w') \<and>
    reads w' \<le> reads w + run_cost cfg k (card {i. i < SCH_MAX_TASKS \<and> is_due now (tasks s ! i)}) \<and>
    run_cost cfg k (card {i. i < SCH_MAX_TASKS \<and> is_due now (tasks s ! i)}) \<le> run_cost cfg k SCH_MAX_TASKS"
proof -
  have "card {i. i < SCH_MAX_TASKS \<and> is_due now (tasks s ! i)} \<le> SCH_MAX_TASKS"
    using card_mono [of "{..<SCH_MAX_TASKS}" "{i. i < SCH_MAX_TASKS \<and> is_due now (tasks s ! i)}"] by auto
  then have "run_cost cfg k (card {i. i < SCH_MAX_TASKS \<and> is_due now (tasks s ! i)}) \<le> run_cost cfg k SCH_MAX_TASKS"
    by (simp add: run_cost_def add_mono mult_le_mono1)
  then show ?thesis
    using run_costs.run_cost_due [OF counts_reads_costs [OF assms(6)] assms(1-5), of cfg] by blast
qed

text \<open>A platform that counts the readings of its clock.\<close>

definition counting_port :: "nat port" where
  "counting_port = \<lparr>sch_port_now_ticks = (\<lambda>n. (of_nat n, Suc n)), sch_port_enter_critical = (\<lambda>n. (0, n)),
     sch_port_exit_critical = (\<lambda>state n. n), sch_port_idle = (\<lambda>n. n)\<rparr>"

definition counting_env :: "(nat, unit, unit, nat) sch_env" where
  "counting_env = \<lparr>call_task = (\<lambda>f c s n. Some (s, Suc n)), call_hook = (\<lambda>h e i t c n. n)\<rparr>"

interpretation counting: task_contract counting_port counting_env "\<lambda>w. True"
  by unfold_locales (auto simp: counting_env_def frame_refl)

theorem sch_run_clock_readings_witness:
  "\<exists>s' n. sch_run all_on counting_port counting_env (Some cpu_sch) 7 = Some (Some s', n) \<and>
    n \<le> 7 + run_cost all_on 1 SCH_MAX_TASKS"
proof -
  have reads: "counts_reads counting_port counting_env (\<lambda>n. n) 1"
    by (auto simp: counts_reads_def counting_port_def counting_env_def)
  obtain now w1 where n: "crit_now counting_port 7 = (now, w1)" by (metis surj_pair)
  from sch_run_clock_readings [OF counting.task_contract_axioms cpu_sch_wf TrueI n reads, of all_on]
  show ?thesis using le_trans add_left_mono by fastforce
qed

section \<open>Instrumentation\<close>

text \<open>
  C16. What one periodic call records. On any platform, with any clock, in every build, and for any
  task that returns and leaves the statistics of its slot and the trace hook alone: with \<open>k\<close> readings
  made before the call and \<open>m\<close> by the task, the tick of the start is reading number \<open>k\<close>, the event of
  the start shows the next one, then the task runs, once; the tick of the end is the first reading
  after it, the event of the end shows the second, and the third decides whether the task has
  overrun, which is to be at or past the release that the slot then holds, and is shown by the event
  of an overrun. The statistics of the slot count the run and the overrun and hold start, end,
  duration and the running maximum and total; those of no other slot change except by the task. A
  build without statistics or traces makes none of their readings.
\<close>

theorem sch_exec_periodic_records:
  assumes "observed p env el readings seen" and "leaves_records env readings seen i m f c"
    and "i < length (stats s)" and "k = readings w"
    and "a = of_bool (sch_enable_stats cfg)" and "b = of_bool (sch_enable_trace cfg)"
  shows "\<exists>s1 w1 s2 w2 s' w' overrun. sch_exec_periodic cfg p env i (Some f) c period s w = Some (s', w') \<and>
    call_task env f c s1 w1 = Some (s2, w2) \<and> readings w1 = k + a + b \<and> tasks s1 = tasks s \<and> tasks s' = tasks s2 \<and>
    (\<forall>j. j \<noteq> i \<longrightarrow> stats s1 ! j = stats s ! j \<and> stats s' ! j = stats s2 ! j) \<and>
    overrun = (period \<noteq> 0 \<and> sch_time_reached (el (k + 2 * a + 2 * b + m)) (next_release (tasks s2 ! i))) \<and>
    stats s' ! i = (if sch_enable_stats cfg then stats_after (el k) (el (k + a + b + m)) overrun (stats s ! i) else stats s ! i) \<and>
    readings w' = k + 2 * a + 2 * b + m + 1 \<and>
    seen w' = seen w @ hook_events cfg s
      ([(SCH_TRACE_TASK_START, of_nat i, el (k + a)), (SCH_TRACE_TASK_END, of_nat i, el (k + 2 * a + b + m))] @
       (if overrun then [(SCH_TRACE_TASK_OVERRUN, of_nat i, el (k + 2 * a + 2 * b + m))] else []))"
  using assms by (rule exec_records)

text \<open>Every reading shows another tick, so a tick tells the reading it comes from.\<close>

theorem sch_exec_periodic_records_witness:
  "\<exists>s' w'. sch_exec_periodic all_on reading_port reading_env 1 (Some TASK_A) None 1000 stale_sch
      \<lparr>readings_made = 7, events_seen = []\<rparr> = Some (s', w') \<and>
    run_count (stats s' ! 1) = 2 \<and> overrun_count (stats s' ! 1) = 4 \<and> last_start_tick (stats s' ! 1) = 70 \<and>
    last_end_tick (stats s' ! 1) = 100 \<and> max_exec_ticks (stats s' ! 1) = 30 \<and> total_exec_ticks (stats s' ! 1) = 38 \<and>
    events_seen w' = [(SCH_TRACE_TASK_START, 1, 80), (SCH_TRACE_TASK_END, 1, 110), (SCH_TRACE_TASK_OVERRUN, 1, 120)]"
proof -
  have "sch_time_reached 120 5" by (simp add: time_reached_iff)
  then show ?thesis
    using sch_exec_periodic_records [where i = 1 and c = None and s = stale_sch and k = 7 and a = 1 and b = 1 and cfg = all_on
        and w = "\<lparr>readings_made = 7, events_seen = []\<rparr>" and period = 1000, OF reading_observed reading_leaves]
    by (auto simp: stale_sch_def all_on_def stats_after_def hook_events_def reading_call)
qed

end
