(* ===== verification/Isr_Buffer.thy ===== *)
theory Isr_Buffer
  imports Sched_Prelude Port
begin

text \<open>
  \<^verbatim>\<open>src/isr_buffer.c\<close> and \<^verbatim>\<open>include/scheduler/isr_buffer.h\<close>: the byte-addressed ring buffer
  between one interrupt producer and one task consumer, and the 16-bit event queue built
  on it. Every operation takes the port, may-be-null pointers as options, and the platform
  state; it returns the C return value, the objects it writes through its pointers and the
  platform state, or \<open>None\<close> for undefined behaviour.

  The caller's storage array is the value of the field \<open>storage\<close>: the model assumes that
  nobody writes it except through the ring. Object representations of 16-bit values are
  little-endian.
\<close>

section \<open>Data\<close>

text \<open>
  A C enumeration object can hold any integer; \<open>SCH_OVERFLOW_OTHER\<close> stands for the values
  that name no policy, which the code checks for.
\<close>

datatype sch_overflow_mode =
    SCH_OVERFLOW_DROP_NEWEST
  | SCH_OVERFLOW_DROP_OLDEST
  | SCH_OVERFLOW_OTHER int

datatype sch_ring_push_status =
    SCH_RING_PUSH_OK
  | SCH_RING_PUSH_DROPPED_NEWEST
  | SCH_RING_PUSH_DROPPED_OLDEST

record sch_spsc_ring =
  storage :: "u8 list option"
  element_size :: size_t
  capacity :: size_t
  head :: size_t
  tail :: size_t
  count :: size_t
  drops :: size_t
  overflow :: sch_overflow_mode

section \<open>Ring operations\<close>

definition sch_ring_valid :: "sch_spsc_ring option \<Rightarrow> bool" where
  "sch_ring_valid ring =
     (case ring of
        None \<Rightarrow> False
      | Some r \<Rightarrow> \<not> is_null (storage r) \<and> 0 < capacity r \<and> 0 < element_size r \<and>
          (overflow r = SCH_OVERFLOW_DROP_NEWEST \<or> overflow r = SCH_OVERFLOW_DROP_OLDEST))"

definition sch_spsc_ring_init ::
  "'w port \<Rightarrow> sch_spsc_ring option \<Rightarrow> u8 list option \<Rightarrow> size_t \<Rightarrow> size_t \<Rightarrow> sch_overflow_mode \<Rightarrow>
   'w \<Rightarrow> bool \<times> sch_spsc_ring option \<times> 'w" where
  "sch_spsc_ring_init p ring storage_arg capacity_arg element_size_arg overflow_arg w =
     (if is_null ring \<or> is_null storage_arg \<or> capacity_arg = 0 \<or> element_size_arg = 0
      then (False, ring, w)
      else if overflow_arg \<noteq> SCH_OVERFLOW_DROP_NEWEST \<and> overflow_arg \<noteq> SCH_OVERFLOW_DROP_OLDEST
      then (False, ring, w)
      else
        let (state, w) = sch_port_enter_critical p w;
            r = (the ring)
              \<lparr>storage := storage_arg, element_size := element_size_arg, capacity := capacity_arg,
               head := 0, tail := 0, count := 0, drops := 0, overflow := overflow_arg\<rparr>
        in (True, Some r, sch_port_exit_critical p state w))"

definition sch_spsc_ring_reset ::
  "'w port \<Rightarrow> sch_spsc_ring option \<Rightarrow> 'w \<Rightarrow> sch_spsc_ring option \<times> 'w" where
  "sch_spsc_ring_reset p ring w =
     (if \<not> sch_ring_valid ring then (ring, w)
      else
        let (state, w) = sch_port_enter_critical p w;
            r = (the ring)\<lparr>head := 0, tail := 0, count := 0, drops := 0\<rparr>
        in (Some r, sch_port_exit_critical p state w))"

text \<open>The store of one element at the head, shared by the two ways into it.\<close>

definition ring_store :: "sch_spsc_ring \<Rightarrow> u8 list \<Rightarrow> sch_spsc_ring option" where
  "ring_store r item = do {
     m \<leftarrow> storage r;
     m \<leftarrow> mem_copy m (unat (head r * element_size r)) item (unat (element_size r));
     Some (r\<lparr>storage := Some m, head := (head r + 1) mod capacity r, count := count r + 1\<rparr>)
   }"

definition sch_spsc_ring_push_isr ::
  "'w port \<Rightarrow> sch_spsc_ring option \<Rightarrow> u8 list option \<Rightarrow> 'w \<Rightarrow>
   (sch_ring_push_status \<times> sch_spsc_ring option \<times> 'w) option" where
  "sch_spsc_ring_push_isr p ring item w =
     (if \<not> sch_ring_valid ring \<or> is_null item
      then Some (SCH_RING_PUSH_DROPPED_NEWEST, ring, w)
      else
        let r = the ring;
            (state, w) = sch_port_enter_critical p w
        in
          if count r = capacity r then
            let r = r\<lparr>drops := drops r + 1\<rparr>
            in
              if overflow r = SCH_OVERFLOW_DROP_NEWEST
              then Some (SCH_RING_PUSH_DROPPED_NEWEST, Some r, sch_port_exit_critical p state w)
              else do {
                let r = r\<lparr>tail := (tail r + 1) mod capacity r, count := count r - 1\<rparr>;
                r \<leftarrow> ring_store r (the item);
                Some (SCH_RING_PUSH_DROPPED_OLDEST, Some r, sch_port_exit_critical p state w)
              }
          else do {
            r \<leftarrow> ring_store r (the item);
            Some (SCH_RING_PUSH_OK, Some r, sch_port_exit_critical p state w)
          })"

definition sch_spsc_ring_pop_task ::
  "'w port \<Rightarrow> sch_spsc_ring option \<Rightarrow> u8 list option \<Rightarrow> 'w \<Rightarrow>
   (bool \<times> u8 list option \<times> sch_spsc_ring option \<times> 'w) option" where
  "sch_spsc_ring_pop_task p ring out_item w =
     (if \<not> sch_ring_valid ring \<or> is_null out_item then Some (False, out_item, ring, w)
      else
        let r = the ring;
            (state, w) = sch_port_enter_critical p w
        in
          if count r = 0 then Some (False, out_item, Some r, sch_port_exit_critical p state w)
          else do {
            m \<leftarrow> storage r;
            out \<leftarrow> mem_copy (the out_item) 0 (drop (unat (tail r * element_size r)) m)
                     (unat (element_size r));
            let r = r\<lparr>tail := (tail r + 1) mod capacity r, count := count r - 1\<rparr>;
            Some (True, Some out, Some r, sch_port_exit_critical p state w)
          })"

definition sch_spsc_ring_size :: "'w port \<Rightarrow> sch_spsc_ring option \<Rightarrow> 'w \<Rightarrow> size_t \<times> 'w" where
  "sch_spsc_ring_size p ring w =
     (if \<not> sch_ring_valid ring then (0, w)
      else
        let (state, w) = sch_port_enter_critical p w;
            size = count (the ring)
        in (size, sch_port_exit_critical p state w))"

definition sch_spsc_ring_drop_count :: "'w port \<Rightarrow> sch_spsc_ring option \<Rightarrow> 'w \<Rightarrow> size_t \<times> 'w" where
  "sch_spsc_ring_drop_count p ring w =
     (if \<not> sch_ring_valid ring then (0, w)
      else
        let (state, w) = sch_port_enter_critical p w;
            dropped = drops (the ring)
        in (dropped, sch_port_exit_critical p state w))"

definition sch_spsc_ring_is_empty :: "'w port \<Rightarrow> sch_spsc_ring option \<Rightarrow> 'w \<Rightarrow> bool \<times> 'w" where
  "sch_spsc_ring_is_empty p ring w =
     (let (size, w) = sch_spsc_ring_size p ring w in (size = 0, w))"

definition sch_spsc_ring_is_full :: "'w port \<Rightarrow> sch_spsc_ring option \<Rightarrow> 'w \<Rightarrow> bool \<times> 'w" where
  "sch_spsc_ring_is_full p ring w =
     (if \<not> sch_ring_valid ring then (False, w)
      else
        let (state, w) = sch_port_enter_critical p w;
            full = (count (the ring) = capacity (the ring))
        in (full, sch_port_exit_critical p state w))"

section \<open>Event queue operations\<close>

definition u16_bytes :: "u16 \<Rightarrow> u8 list" where
  "u16_bytes x = [ucast x, ucast (drop_bit 8 x)]"

definition u16_of_bytes :: "u8 list \<Rightarrow> u16" where
  "u16_of_bytes bs = (case bs of [b0, b1] \<Rightarrow> ucast b0 + 256 * ucast b1 | _ \<Rightarrow> 0)"

definition sizeof_u16 :: size_t where
  "sizeof_u16 = 2"

record sch_event_queue =
  ring :: sch_spsc_ring

definition sch_event_queue_init ::
  "'w port \<Rightarrow> sch_event_queue option \<Rightarrow> u8 list option \<Rightarrow> size_t \<Rightarrow> sch_overflow_mode \<Rightarrow> 'w \<Rightarrow>
   bool \<times> sch_event_queue option \<times> 'w" where
  "sch_event_queue_init p queue storage_arg capacity_arg overflow_arg w =
     (if is_null queue then (False, queue, w)
      else
        let q = the queue;
            (ok, r, w) =
              sch_spsc_ring_init p (Some (ring q)) storage_arg capacity_arg sizeof_u16 overflow_arg w
        in (ok, Some (q\<lparr>ring := the r\<rparr>), w))"

definition sch_event_queue_push_isr ::
  "'w port \<Rightarrow> sch_event_queue option \<Rightarrow> u16 \<Rightarrow> 'w \<Rightarrow>
   (sch_ring_push_status \<times> sch_event_queue option \<times> 'w) option" where
  "sch_event_queue_push_isr p queue event_id w =
     (if is_null queue then Some (SCH_RING_PUSH_DROPPED_NEWEST, queue, w)
      else do {
        let q = the queue;
        (status, r, w) \<leftarrow> sch_spsc_ring_push_isr p (Some (ring q)) (Some (u16_bytes event_id)) w;
        Some (status, Some (q\<lparr>ring := the r\<rparr>), w)
      })"

definition sch_event_queue_pop_task ::
  "'w port \<Rightarrow> sch_event_queue option \<Rightarrow> u16 option \<Rightarrow> 'w \<Rightarrow>
   (bool \<times> u16 option \<times> sch_event_queue option \<times> 'w) option" where
  "sch_event_queue_pop_task p queue out_event_id w =
     (if is_null queue then Some (False, out_event_id, queue, w)
      else do {
        let q = the queue;
        (ok, out, r, w) \<leftarrow>
          sch_spsc_ring_pop_task p (Some (ring q)) (map_option u16_bytes out_event_id) w;
        Some (ok, map_option u16_of_bytes out, Some (q\<lparr>ring := the r\<rparr>), w)
      })"

definition sch_event_queue_size :: "'w port \<Rightarrow> sch_event_queue option \<Rightarrow> 'w \<Rightarrow> size_t \<times> 'w" where
  "sch_event_queue_size p queue w =
     (if is_null queue then (0, w) else sch_spsc_ring_size p (Some (ring (the queue))) w)"

definition sch_event_queue_drop_count ::
  "'w port \<Rightarrow> sch_event_queue option \<Rightarrow> 'w \<Rightarrow> size_t \<times> 'w" where
  "sch_event_queue_drop_count p queue w =
     (if is_null queue then (0, w) else sch_spsc_ring_drop_count p (Some (ring (the queue))) w)"

end
