(* ===== verification/Ring_Refinement.thy ===== *)
theory Ring_Refinement
  imports Isr_Buffer
begin

text \<open>
  What a ring holds, as a list of byte blocks, and the refinement of the ring operations
  to operations on that list. \<open>ring_inv\<close> is the invariant of an initialised ring whose
  storage array is as large as the caller promised; under it no operation is undefined.
\<close>

section \<open>Invariant and contents\<close>

text \<open>An object of C is never larger than \<open>size_t\<close> can count, hence the last bound on the storage.\<close>

definition ring_inv :: "sch_spsc_ring \<Rightarrow> bool" where
  "ring_inv r \<longleftrightarrow>
     (case storage r of
        None \<Rightarrow> False
      | Some m \<Rightarrow>
          0 < capacity r \<and> 0 < element_size r \<and>
          (overflow r = SCH_OVERFLOW_DROP_NEWEST \<or> overflow r = SCH_OVERFLOW_DROP_OLDEST) \<and>
          unat (capacity r) * unat (element_size r) \<le> length m \<and> length m < 2 ^ 32 \<and>
          head r < capacity r \<and> tail r < capacity r \<and> count r \<le> capacity r \<and>
          unat (head r) = (unat (tail r) + unat (count r)) mod unat (capacity r))"

definition ring_slot :: "sch_spsc_ring \<Rightarrow> nat \<Rightarrow> u8 list" where
  "ring_slot r k = mem_block (the (storage r)) (k * unat (element_size r)) (unat (element_size r))"

definition ring_items :: "sch_spsc_ring \<Rightarrow> u8 list list" where
  "ring_items r =
     map (\<lambda>i. ring_slot r ((unat (tail r) + i) mod unat (capacity r))) [0..<unat (count r)]"

lemma ring_inv_valid: "ring_inv r \<Longrightarrow> sch_ring_valid (Some r)"
  by (auto simp: ring_inv_def sch_ring_valid_def split: option.splits)

lemma ring_invE:
  assumes "ring_inv r"
  obtains m where "storage r = Some m" "0 < unat (capacity r)" "0 < unat (element_size r)"
    "unat (capacity r) * unat (element_size r) \<le> length m" "length m < 2 ^ 32"
    "unat (head r) < unat (capacity r)" "unat (tail r) < unat (capacity r)"
    "unat (count r) \<le> unat (capacity r)"
    "unat (head r) = (unat (tail r) + unat (count r)) mod unat (capacity r)"
    "overflow r = SCH_OVERFLOW_DROP_NEWEST \<or> overflow r = SCH_OVERFLOW_DROP_OLDEST"
  using assms that
  by (auto simp: ring_inv_def word_less_nat_alt word_le_nat_alt split: option.splits)

lemma ring_inv_iff:
  "ring_inv r \<longleftrightarrow>
     (\<exists>m. storage r = Some m \<and> 0 < unat (capacity r) \<and> 0 < unat (element_size r) \<and>
       unat (capacity r) * unat (element_size r) \<le> length m \<and> length m < 2 ^ 32 \<and>
       unat (head r) < unat (capacity r) \<and> unat (tail r) < unat (capacity r) \<and>
       unat (count r) \<le> unat (capacity r) \<and>
       unat (head r) = (unat (tail r) + unat (count r)) mod unat (capacity r) \<and>
       (overflow r = SCH_OVERFLOW_DROP_NEWEST \<or> overflow r = SCH_OVERFLOW_DROP_OLDEST))"
  by (auto simp: ring_inv_def word_less_nat_alt word_le_nat_alt split: option.splits)

lemma length_ring_items [simp]: "length (ring_items r) = unat (count r)"
  by (simp add: ring_items_def)

lemma ring_items_empty_iff: "ring_items r = [] \<longleftrightarrow> count r = 0"
  by (metis length_0_conv length_ring_items unat_eq_zero)

lemma nth_ring_items:
  "i < unat (count r) \<Longrightarrow>
   ring_items r ! i = ring_slot r ((unat (tail r) + i) mod unat (capacity r))"
  by (simp add: ring_items_def)

text \<open>The byte offset of a slot is computed without wrap-around and stays inside the storage.\<close>

lemma ring_offset:
  assumes "ring_inv r" and "unat k < unat (capacity r)"
  shows "unat (k * element_size r) = unat k * unat (element_size r)"
    and "unat k * unat (element_size r) + unat (element_size r) \<le> length (the (storage r))"
proof -
  from assms(1) obtain m where m: "storage r = Some m"
    "unat (capacity r) * unat (element_size r) \<le> length m" "length m < 2 ^ 32"
    by (elim ring_invE)
  have "(unat k + 1) * unat (element_size r) \<le> unat (capacity r) * unat (element_size r)"
    using assms(2) by (intro mult_le_mono1) simp
  then have le: "unat k * unat (element_size r) + unat (element_size r) \<le> length m"
    using m(2) by (simp add: algebra_simps)
  then show "unat k * unat (element_size r) + unat (element_size r) \<le> length (the (storage r))"
    using m(1) by simp
  from le m(3) have "unat k * unat (element_size r) < 2 ^ 32" by simp
  then show "unat (k * element_size r) = unat k * unat (element_size r)"
    by (simp add: unat_word_ariths)
qed

section \<open>Storing and removing an element\<close>

lemma ring_store_refines:
  assumes inv: "ring_inv r" and room: "unat (count r) < unat (capacity r)"
    and x: "length x = unat (element_size r)"
  obtains r' where "ring_store r x = Some r'" "ring_inv r'" "ring_items r' = ring_items r @ [x]"
    "drops r' = drops r" "capacity r' = capacity r" "element_size r' = element_size r"
    "overflow r' = overflow r" "tail r' = tail r"
proof -
  from inv obtain m where m: "storage r = Some m" and c0: "0 < unat (capacity r)"
    and h: "unat (head r) < unat (capacity r)" and t: "unat (tail r) < unat (capacity r)"
    and hd: "unat (head r) = (unat (tail r) + unat (count r)) mod unat (capacity r)"
    by (elim ring_invE)
  let ?es = "unat (element_size r)" and ?c = "unat (capacity r)"
  let ?off = "unat (head r) * ?es"
  have off: "unat (head r * element_size r) = ?off" "?off + ?es \<le> length m"
    using ring_offset [OF inv h] m by auto
  obtain m' where m': "mem_copy m ?off x ?es = Some m'"
    using off x by (simp add: mem_copy_Some)
  let ?r = "r\<lparr>storage := Some m', head := (head r + 1) mod capacity r, count := count r + 1\<rparr>"
  have st: "ring_store r x = Some ?r"
    using m m' off by (simp add: ring_store_def)
  have cnt: "unat (count r + 1) = unat (count r) + 1"
    using room by (rule unat_Suc_below)
  have hd': "unat ((head r + 1) mod capacity r) = (unat (head r) + 1) mod ?c"
    using h by (rule unat_succ_mod)
  have inv': "ring_inv ?r"
    using inv m room mem_copy_length [OF m'] c0 cnt hd'
    by (auto simp: ring_inv_iff hd mod_Suc_eq)
  have slot: "ring_slot ?r k = (if k = unat (head r) then x else ring_slot r k)" if "k < ?c" for k
  proof (cases k "unat (head r)" rule: linorder_cases)
    case less
    then have "k * ?es + ?es \<le> ?off"
      by (metis Suc_leI add.commute mult_Suc mult_le_mono1)
    with less show ?thesis
      using mem_block_copy_before [OF m'] m by (simp add: ring_slot_def)
  next
    case equal
    then show ?thesis using mem_block_copy_same [OF m'] x by (simp add: ring_slot_def)
  next
    case greater
    then have "?off + ?es \<le> k * ?es"
      by (metis Suc_leI add.commute mult_Suc mult_le_mono1)
    with greater show ?thesis
      using mem_block_copy_after [OF m'] m by (simp add: ring_slot_def)
  qed
  have old: "ring_slot ?r ((unat (tail r) + i) mod ?c) = ring_slot r ((unat (tail r) + i) mod ?c)"
    if "i < unat (count r)" for i
  proof -
    have "(unat (tail r) + i) mod ?c \<noteq> unat (head r)"
      using mod_add_eq_imp_eq [of "unat (tail r)" i ?c "unat (count r)"] that room hd by auto
    then show ?thesis using slot c0 by simp
  qed
  have "ring_items ?r = ring_items r @ [x]"
    using old slot [of "unat (head r)"] h cnt by (simp add: ring_items_def hd [symmetric])
  with st inv' that show ?thesis by simp
qed

definition ring_tail_step :: "sch_spsc_ring \<Rightarrow> sch_spsc_ring" where
  "ring_tail_step r = r\<lparr>tail := (tail r + 1) mod capacity r, count := count r - 1\<rparr>"

lemma ring_tail_step_refines:
  assumes inv: "ring_inv r" and ne: "count r \<noteq> 0"
  shows "ring_inv (ring_tail_step r)" and "ring_items (ring_tail_step r) = tl (ring_items r)"
proof -
  from inv obtain m where m: "storage r = Some m" and c0: "0 < unat (capacity r)"
    and t: "unat (tail r) < unat (capacity r)" and le: "unat (count r) \<le> unat (capacity r)"
    and hd: "unat (head r) = (unat (tail r) + unat (count r)) mod unat (capacity r)"
    by (elim ring_invE)
  have cnt: "unat (count r - 1) = unat (count r) - 1" and pos: "0 < unat (count r)"
    using ne by (simp_all add: unat_pred unat_gt_0)
  have tl': "unat ((tail r + 1) mod capacity r) = (unat (tail r) + 1) mod unat (capacity r)"
    using t by (rule unat_succ_mod)
  have shift: "((unat (tail r) + 1) mod unat (capacity r) + i) mod unat (capacity r)
    = (unat (tail r) + Suc i) mod unat (capacity r)" for i
    by (simp add: mod_add_left_eq)
  show "ring_inv (ring_tail_step r)"
    using inv le c0 pos shift [of "unat (count r) - 1"] hd
    by (auto simp: ring_inv_iff ring_tail_step_def cnt tl')
  have "ring_items (ring_tail_step r) =
    map (\<lambda>i. ring_slot r ((unat (tail r) + Suc i) mod unat (capacity r))) [0..<unat (count r) - 1]"
    using shift by (simp add: ring_items_def ring_tail_step_def cnt tl' ring_slot_def)
  also have "\<dots> = tl (ring_items r)"
    using pos by (intro nth_equalityI) (simp_all add: nth_tl nth_ring_items)
  finally show "ring_items (ring_tail_step r) = tl (ring_items r)" .
qed

section \<open>Enqueue and dequeue under the invariant\<close>

text \<open>
  \<open>ring_enq\<close> and \<open>ring_deq\<close> are the state changes of a push and of a successful pop, with
  the critical section and the guards on the arguments taken away.
\<close>

definition ring_full :: "sch_spsc_ring \<Rightarrow> bool" where
  "ring_full r \<longleftrightarrow> count r = capacity r"

definition ring_newest :: "sch_spsc_ring \<Rightarrow> bool" where
  "ring_newest r \<longleftrightarrow> overflow r = SCH_OVERFLOW_DROP_NEWEST"

definition ring_enq :: "sch_spsc_ring \<Rightarrow> u8 list \<Rightarrow> sch_spsc_ring" where
  "ring_enq r x =
     (if ring_full r
      then if ring_newest r then r\<lparr>drops := drops r + 1\<rparr>
           else the (ring_store (ring_tail_step (r\<lparr>drops := drops r + 1\<rparr>)) x)
      else the (ring_store r x))"

definition ring_deq :: "sch_spsc_ring \<Rightarrow> sch_spsc_ring" where
  "ring_deq r = (if count r = 0 then r else ring_tail_step r)"

definition push_status :: "bool \<Rightarrow> bool \<Rightarrow> sch_ring_push_status" where
  "push_status newest full =
     (if \<not> full then SCH_RING_PUSH_OK
      else if newest then SCH_RING_PUSH_DROPPED_NEWEST else SCH_RING_PUSH_DROPPED_OLDEST)"

text \<open>A bounded queue as a list: what one push leaves of it.\<close>

definition bounded_push :: "nat \<Rightarrow> bool \<Rightarrow> 'a list \<Rightarrow> 'a \<Rightarrow> 'a list" where
  "bounded_push bound newest xs x =
     (if length xs < bound then xs @ [x] else if newest then xs else tl xs @ [x])"

lemma ring_full_iff: "ring_full r \<longleftrightarrow> unat (count r) = unat (capacity r)"
  by (simp add: ring_full_def unat_arith_simps(3))

lemma ring_drops_update:
  "ring_inv (r\<lparr>drops := d\<rparr>) \<longleftrightarrow> ring_inv r"
  "ring_items (r\<lparr>drops := d\<rparr>) = ring_items r"
  by (simp_all add: ring_inv_iff ring_items_def ring_slot_def)

lemma ring_tail_step_fields [simp]:
  "drops (ring_tail_step r) = drops r" "capacity (ring_tail_step r) = capacity r"
  "element_size (ring_tail_step r) = element_size r" "overflow (ring_tail_step r) = overflow r"
  "count (ring_tail_step r) = count r - 1" "storage (ring_tail_step r) = storage r"
  by (simp_all add: ring_tail_step_def)

lemma ring_enq_refines:
  assumes inv: "ring_inv r" and x: "length x = unat (element_size r)"
  shows "ring_inv (ring_enq r x)"
    and "ring_items (ring_enq r x) =
      bounded_push (unat (capacity r)) (ring_newest r) (ring_items r) x"
    and "drops (ring_enq r x) = (if ring_full r then drops r + 1 else drops r)"
    and "capacity (ring_enq r x) = capacity r"
    and "element_size (ring_enq r x) = element_size r"
    and "overflow (ring_enq r x) = overflow r"
    and "sch_spsc_ring_push_isr p (Some r) (Some x) w =
      Some (push_status (ring_newest r) (ring_full r), Some (ring_enq r x), crit p w)"
proof -
  let ?P = "ring_inv (ring_enq r x) \<and>
    ring_items (ring_enq r x) = bounded_push (unat (capacity r)) (ring_newest r) (ring_items r) x \<and>
    drops (ring_enq r x) = (if ring_full r then drops r + 1 else drops r) \<and>
    capacity (ring_enq r x) = capacity r \<and> element_size (ring_enq r x) = element_size r \<and>
    overflow (ring_enq r x) = overflow r \<and>
    sch_spsc_ring_push_isr p (Some r) (Some x) w =
      Some (push_status (ring_newest r) (ring_full r), Some (ring_enq r x), crit p w)"
  note valid = ring_inv_valid [OF inv]
  consider (room) "\<not> ring_full r" | (newest) "ring_full r" "ring_newest r"
    | (oldest) "ring_full r" "\<not> ring_newest r" by blast
  then have ?P
  proof cases
    case room
    then have lt: "unat (count r) < unat (capacity r)"
      using inv by (auto simp: ring_full_iff elim!: ring_invE)
    obtain r' where "ring_store r x = Some r'" "ring_inv r'" "ring_items r' = ring_items r @ [x]"
      "drops r' = drops r" "capacity r' = capacity r" "element_size r' = element_size r"
      "overflow r' = overflow r" "tail r' = tail r"
      using ring_store_refines [OF inv lt x] by metis
    with room lt valid show ?thesis
      by (simp add: ring_enq_def bounded_push_def push_status_def sch_spsc_ring_push_isr_def
          crit_def split_beta ring_full_def)
  next
    case newest
    then have "count r = capacity r" by (simp add: ring_full_def)
    with newest inv valid show ?thesis
      by (simp add: ring_enq_def ring_drops_update bounded_push_def push_status_def
          sch_spsc_ring_push_isr_def crit_def split_beta ring_newest_def)
  next
    case oldest
    let ?t = "ring_tail_step (r\<lparr>drops := drops r + 1\<rparr>)"
    have ne: "count r \<noteq> 0" and c: "unat (count r) = unat (capacity r)"
      using oldest inv by (auto simp: ring_full_iff elim!: ring_invE)
    have t: "ring_inv ?t" "ring_items ?t = tl (ring_items r)"
      using ring_tail_step_refines [of "r\<lparr>drops := drops r + 1\<rparr>"] inv ne
      by (simp_all add: ring_drops_update)
    have lt: "unat (count ?t) < unat (capacity ?t)"
      using ne c unat_gt_0 [of "count r"] by (simp add: unat_pred)
    obtain r' where "ring_store ?t x = Some r'" "ring_inv r'" "ring_items r' = ring_items ?t @ [x]"
      "drops r' = drops ?t" "capacity r' = capacity r" "element_size r' = element_size r"
      "overflow r' = overflow r" "tail r' = tail ?t"
      using ring_store_refines [OF t(1) lt, of x] x by auto
    with oldest c t valid show ?thesis
      by (simp add: ring_enq_def bounded_push_def push_status_def sch_spsc_ring_push_isr_def
          crit_def split_beta ring_full_def ring_newest_def ring_tail_step_def)
  qed
  then show "ring_inv (ring_enq r x)"
    and "ring_items (ring_enq r x) =
      bounded_push (unat (capacity r)) (ring_newest r) (ring_items r) x"
    and "drops (ring_enq r x) = (if ring_full r then drops r + 1 else drops r)"
    and "capacity (ring_enq r x) = capacity r"
    and "element_size (ring_enq r x) = element_size r"
    and "overflow (ring_enq r x) = overflow r"
    and "sch_spsc_ring_push_isr p (Some r) (Some x) w =
      Some (push_status (ring_newest r) (ring_full r), Some (ring_enq r x), crit p w)"
    by blast+
qed

lemma ring_deq_refines:
  assumes "ring_inv r"
  shows "ring_inv (ring_deq r)" and "ring_items (ring_deq r) = tl (ring_items r)"
    and "drops (ring_deq r) = drops r" and "capacity (ring_deq r) = capacity r"
    and "element_size (ring_deq r) = element_size r" and "overflow (ring_deq r) = overflow r"
  using assms ring_tail_step_refines [OF assms]
  by (auto simp: ring_deq_def ring_items_empty_iff [THEN iffD2])

lemma ring_pop_refines:
  assumes inv: "ring_inv r" and out: "length out = unat (element_size r)"
  shows "sch_spsc_ring_pop_task p (Some r) (Some out) w =
    Some (if ring_items r = [] then (False, Some out, Some r, crit p w)
          else (True, Some (hd (ring_items r)), Some (ring_deq r), crit p w))"
proof (cases "count r = 0")
  case True
  with ring_inv_valid [OF inv] show ?thesis
    by (simp add: sch_spsc_ring_pop_task_def ring_items_empty_iff crit_def split_beta)
next
  case False
  from inv obtain m where m: "storage r = Some m" and t: "unat (tail r) < unat (capacity r)"
    by (elim ring_invE)
  have pos: "0 < unat (count r)" using False by (simp add: unat_gt_0)
  have off: "unat (tail r * element_size r) = unat (tail r) * unat (element_size r)"
    "unat (tail r) * unat (element_size r) + unat (element_size r) \<le> length m"
    using ring_offset [OF inv t] m by auto
  have "hd (ring_items r) = ring_slot r (unat (tail r))"
    using pos t nth_ring_items [of 0 r] by (simp add: hd_conv_nth ring_items_empty_iff False)
  then have "mem_copy out 0 (drop (unat (tail r * element_size r)) m) (unat (element_size r))
    = Some (hd (ring_items r))"
    using off out m by (simp add: mem_copy_def ring_slot_def mem_block_def)
  with False m ring_inv_valid [OF inv] show ?thesis
    by (simp add: sch_spsc_ring_pop_task_def ring_items_empty_iff crit_def split_beta
        ring_deq_def ring_tail_step_def)
qed

text \<open>A ring just initialised on a large enough array satisfies the invariant and is empty.\<close>

lemma ring_init_refines:
  assumes "capacity_arg \<noteq> 0" and "es \<noteq> 0"
    and "mode = SCH_OVERFLOW_DROP_NEWEST \<or> mode = SCH_OVERFLOW_DROP_OLDEST"
    and "unat capacity_arg * unat es \<le> length m" and "length m < 2 ^ 32"
  obtains r' where "sch_spsc_ring_init p (Some r) (Some m) capacity_arg es mode w = (True, Some r', crit p w)"
    and "ring_inv r'" "ring_items r' = []" "drops r' = 0" "capacity r' = capacity_arg"
    and "element_size r' = es" "overflow r' = mode"
  using assms that
  by (auto simp: sch_spsc_ring_init_def crit_def split_beta ring_inv_iff ring_items_def unat_gt_0)

end
