(* ===== verification/Isr_Queue.thy ===== *)
theory Isr_Queue
  imports Ring_Refinement "HOL-Library.Sublist"
begin

text \<open>
  The contract that the services rely on when they hand work from interrupts to tasks: a
  bounded first-in first-out queue with a fixed overflow policy and a drop counter, whose
  operations never run into undefined behaviour and whose only effect on the platform is
  one critical section. \<open>isr_queue\<close> states it over the list of held items; what follows
  from it (bursts, order, accounting, bounded draining) is proved once, inside.

  The provider is the ring of \<^verbatim>\<open>isr_buffer.c\<close>: any C object type with a byte representation
  (\<open>object_repr\<close>) gives a typed ring that satisfies the contract, and so does the event
  queue.
\<close>

section \<open>Bursts on a bounded list\<close>

lemma bounded_push_subset: "set (bounded_push bound newest xs x) \<subseteq> insert x (set xs)"
  by (cases xs) (auto simp: bounded_push_def)

lemma bounded_push_length:
  "length xs \<le> bound \<Longrightarrow> 0 < bound \<Longrightarrow> length (bounded_push bound newest xs x) \<le> bound"
  by (cases xs) (auto simp: bounded_push_def)

lemma bounded_burst_newest:
  "length xs \<le> bound \<Longrightarrow> foldl (bounded_push bound True) xs ys = take bound (xs @ ys)"
proof (induction ys arbitrary: xs)
  case Nil
  then show ?case by simp
next
  case (Cons y ys)
  show ?case
  proof (cases "length xs < bound")
    case True
    then have "bounded_push bound True xs y = xs @ [y]" by (simp add: bounded_push_def)
    with True Cons.IH [of "xs @ [y]"] show ?thesis by (simp add: take_Cons')
  next
    case False
    then have "bounded_push bound True xs y = xs" by (simp add: bounded_push_def)
    with False Cons show ?thesis by simp
  qed
qed

lemma bounded_burst_oldest:
  assumes "length xs \<le> bound" and "0 < bound"
  shows "foldl (bounded_push bound False) xs ys = drop (length xs + length ys - bound) (xs @ ys)"
  using assms(1)
proof (induction ys arbitrary: xs)
  case Nil
  then show ?case by simp
next
  case (Cons y ys)
  show ?case
  proof (cases "length xs < bound")
    case True
    then have "bounded_push bound False xs y = xs @ [y]" by (simp add: bounded_push_def)
    with True Cons.IH [of "xs @ [y]"] show ?thesis by simp
  next
    case False
    with Cons.prems assms(2) obtain x xs' where xs: "xs = x # xs'" and len: "bound = Suc (length xs')"
      by (cases xs) auto
    then have "bounded_push bound False xs y = xs' @ [y]" by (simp add: bounded_push_def)
    with xs len Cons.IH [of "xs' @ [y]"] show ?thesis by simp
  qed
qed

text \<open>What a bounded queue keeps of all it was given.\<close>

definition retained :: "nat \<Rightarrow> bool \<Rightarrow> 'a list \<Rightarrow> 'a list" where
  "retained bound newest xs = (if newest then take bound xs else drop (length xs - bound) xs)"

lemma bounded_burst:
  "length xs \<le> bound \<Longrightarrow> 0 < bound \<Longrightarrow>
     foldl (bounded_push bound newest) xs ys = retained bound newest (xs @ ys)"
  using bounded_burst_newest [of xs bound ys] bounded_burst_oldest [of xs bound ys]
  by (cases newest) (simp_all add: retained_def)

lemma retained_map: "retained bound newest (map f xs) = map f (retained bound newest xs)"
  by (simp add: retained_def take_map drop_map)

section \<open>The contract\<close>

text \<open>A burst of pushes, and a number of pops that stops at the first failure.\<close>

fun push_all ::
  "('q \<Rightarrow> 'a \<Rightarrow> 'w \<Rightarrow> (sch_ring_push_status \<times> 'q \<times> 'w) option) \<Rightarrow> 'a list \<Rightarrow> 'q \<Rightarrow> 'w \<Rightarrow>
   ('q \<times> 'w) option" where
  "push_all push [] q w = Some (q, w)"
| "push_all push (x # xs) q w = do { (status, q, w) \<leftarrow> push q x w; push_all push xs q w }"

fun pop_all ::
  "('q \<Rightarrow> 'a \<Rightarrow> 'w \<Rightarrow> (bool \<times> 'a \<times> 'q \<times> 'w) option) \<Rightarrow> nat \<Rightarrow> 'q \<Rightarrow> 'a \<Rightarrow> 'w \<Rightarrow>
   ('a list \<times> 'q \<times> 'w) option" where
  "pop_all pop 0 q x w = Some ([], q, w)"
| "pop_all pop (Suc n) q x w = do {
     (ok, y, q, w) \<leftarrow> pop q x w;
     if ok then do { (ys, q, w) \<leftarrow> pop_all pop n q y w; Some (y # ys, q, w) } else Some ([], q, w)
   }"

text \<open>
  Any interleaving of one producer and one consumer, as the order in which their critical
  sections happen: the values the consumer got, and the queue in the end.
\<close>

datatype 'a queue_op = Produce 'a | Consume

fun queue_ops ::
  "('q \<Rightarrow> 'a \<Rightarrow> 'w \<Rightarrow> (sch_ring_push_status \<times> 'q \<times> 'w) option) \<Rightarrow>
   ('q \<Rightarrow> 'a \<Rightarrow> 'w \<Rightarrow> (bool \<times> 'a \<times> 'q \<times> 'w) option) \<Rightarrow> 'a queue_op list \<Rightarrow> 'q \<Rightarrow> 'a \<Rightarrow> 'w \<Rightarrow>
   ('a list \<times> 'q \<times> 'w) option" where
  "queue_ops push pop [] q x w = Some ([], q, w)"
| "queue_ops push pop (Produce y # ops) q x w = do {
     (status, q, w) \<leftarrow> push q y w;
     queue_ops push pop ops q x w
   }"
| "queue_ops push pop (Consume # ops) q x w = do {
     (ok, y, q, w) \<leftarrow> pop q x w;
     (ys, q, w) \<leftarrow> queue_ops push pop ops q y w;
     Some (if ok then y # ys else ys, q, w)
   }"

fun produced :: "'a queue_op list \<Rightarrow> 'a list" where
  "produced [] = []"
| "produced (Produce x # ops) = x # produced ops"
| "produced (Consume # ops) = produced ops"

lemma bounded_push_subseq:
  assumes "subseq zs (bounded_push bound newest xs x @ ys)"
  shows "subseq zs (xs @ x # ys)"
proof -
  have "subseq (bounded_push bound newest xs x) (xs @ [x])"
    by (cases xs) (auto simp: bounded_push_def)
  then have "subseq (bounded_push bound newest xs x @ ys) ((xs @ [x]) @ ys)"
    by (rule list_emb_append_mono) simp
  with assms show ?thesis by (simp add: subseq_order.order_trans)
qed

locale isr_queue =
  fixes push :: "'q \<Rightarrow> 'a \<Rightarrow> 'w \<Rightarrow> (sch_ring_push_status \<times> 'q \<times> 'w) option"
    and pop :: "'q \<Rightarrow> 'a \<Rightarrow> 'w \<Rightarrow> (bool \<times> 'a \<times> 'q \<times> 'w) option"
    and bracket :: "'w \<Rightarrow> 'w"
    and invar :: "'q \<Rightarrow> bool"
    and items :: "'q \<Rightarrow> 'a list"
    and bound :: "'q \<Rightarrow> nat"
    and newest :: "'q \<Rightarrow> bool"
    and lost :: "'q \<Rightarrow> size_t"
    and enq :: "'q \<Rightarrow> 'a \<Rightarrow> 'q"
    and deq :: "'q \<Rightarrow> 'q"
  assumes push_eq: "invar q \<Longrightarrow> push q x w =
      Some (push_status (newest q) (length (items q) = bound q), enq q x, bracket w)"
    and pop_eq: "invar q \<Longrightarrow> pop q x w =
      Some (if items q = [] then (False, x, q, bracket w)
            else (True, hd (items q), deq q, bracket w))"
    and items_bound: "invar q \<Longrightarrow> length (items q) \<le> bound q"
    and bound_pos: "invar q \<Longrightarrow> 0 < bound q"
    and invar_enq: "invar q \<Longrightarrow> invar (enq q x)"
    and items_enq: "invar q \<Longrightarrow> items (enq q x) = bounded_push (bound q) (newest q) (items q) x"
    and bound_enq: "invar q \<Longrightarrow> bound (enq q x) = bound q"
    and newest_enq: "invar q \<Longrightarrow> newest (enq q x) = newest q"
    and lost_enq: "invar q \<Longrightarrow>
      lost (enq q x) = (if length (items q) = bound q then lost q + 1 else lost q)"
    and invar_deq: "invar q \<Longrightarrow> invar (deq q)"
    and items_deq: "invar q \<Longrightarrow> items (deq q) = tl (items q)"
    and bound_deq: "invar q \<Longrightarrow> bound (deq q) = bound q"
    and newest_deq: "invar q \<Longrightarrow> newest (deq q) = newest q"
    and lost_deq: "invar q \<Longrightarrow> lost (deq q) = lost q"
begin

lemmas enq_simps = invar_enq items_enq bound_enq newest_enq lost_enq
lemmas deq_simps = invar_deq items_deq bound_deq newest_deq lost_deq

lemma enqs_keep:
  "invar q \<Longrightarrow> invar (foldl enq q xs) \<and> bound (foldl enq q xs) = bound q \<and>
     newest (foldl enq q xs) = newest q"
  by (induction xs arbitrary: q) (simp_all add: enq_simps)

lemma items_enqs:
  "invar q \<Longrightarrow> items (foldl enq q xs) = foldl (bounded_push (bound q) (newest q)) (items q) xs"
  by (induction xs arbitrary: q) (simp_all add: enq_simps)

lemma items_burst_newest:
  "invar q \<Longrightarrow> newest q \<Longrightarrow> items (foldl enq q xs) = take (bound q) (items q @ xs)"
  by (simp add: items_enqs bounded_burst_newest items_bound)

lemma items_burst_oldest:
  "invar q \<Longrightarrow> \<not> newest q \<Longrightarrow>
     items (foldl enq q xs) = drop (length (items q) + length xs - bound q) (items q @ xs)"
  by (simp add: items_enqs bounded_burst_oldest items_bound bound_pos)

text \<open>The drop counter accounts for every item that the queue does not hold, modulo its width.\<close>

lemma lost_burst:
  "invar q \<Longrightarrow> lost (foldl enq q xs) = lost q + of_nat (length (items q) + length xs - bound q)"
proof (induction xs arbitrary: q)
  case Nil
  then show ?case using items_bound [of q] by simp
next
  case (Cons x xs)
  have IH: "lost (foldl enq (enq q x) xs) = lost (enq q x) +
      of_nat (length (items (enq q x)) + length xs - bound q)"
    using Cons.IH [of "enq q x"] Cons.prems by (simp add: enq_simps)
  have le: "length (items q) \<le> bound q" and pos: "0 < bound q"
    using Cons.prems items_bound bound_pos by auto
  show ?case
  proof (cases "length (items q) = bound q")
    case True
    then have "length (items (enq q x)) = bound q"
      using Cons.prems pos by (simp add: items_enq bounded_push_def)
    with IH True Cons.prems show ?thesis by (simp add: lost_enq)
  next
    case False
    then have "length (items (enq q x)) = Suc (length (items q))"
      using Cons.prems le by (simp add: items_enq bounded_push_def)
    with IH False Cons.prems show ?thesis by (simp add: lost_enq)
  qed
qed

lemma push_all_eq:
  "invar q \<Longrightarrow> push_all push xs q w = Some (foldl enq q xs, (bracket ^^ length xs) w)"
  by (induction xs arbitrary: q w) (simp_all add: push_eq enq_simps funpow_swap1)

lemma deqs_keep:
  "invar q \<Longrightarrow> invar ((deq ^^ n) q) \<and> items ((deq ^^ n) q) = drop n (items q) \<and>
     bound ((deq ^^ n) q) = bound q \<and> newest ((deq ^^ n) q) = newest q \<and> lost ((deq ^^ n) q) = lost q"
  by (induction n) (simp_all add: deq_simps drop_Suc tl_drop)

lemma pop_all_eq:
  "invar q \<Longrightarrow> pop_all pop n q x w =
     Some (take n (items q), (deq ^^ min n (length (items q))) q,
           (bracket ^^ min n (Suc (length (items q)))) w)"
proof (induction n arbitrary: q x w)
  case 0
  then show ?case by simp
next
  case (Suc n)
  show ?case
  proof (cases "items q")
    case Nil
    with Suc.prems show ?thesis by (simp add: pop_eq)
  next
    case (Cons y ys)
    with Suc.prems have "items (deq q) = ys" by (simp add: items_deq)
    with Suc Cons show ?thesis by (simp add: pop_eq invar_deq funpow_swap1)
  qed
qed

text \<open>
  Whatever the interleaving: what was consumed and what is still held are, in this order, a
  subsequence of what was held and produced, and the drop counter says how many are missing.
\<close>

lemma queue_ops_account:
  assumes "invar q"
  shows "\<exists>outs q' k. queue_ops push pop ops q x w = Some (outs, q', (bracket ^^ length ops) w) \<and> invar q' \<and>
    bound q' = bound q \<and> newest q' = newest q \<and>
    subseq (outs @ items q') (items q @ produced ops) \<and>
    length (outs @ items q') + k = length (items q @ produced ops) \<and> lost q' = lost q + of_nat k"
  using assms
proof (induction ops arbitrary: q x w)
  case Nil
  then show ?case by simp
next
  case (Cons opn ops)
  show ?case
  proof (cases opn)
    case (Produce y)
    let ?q = "enq q y"
    have inv: "invar ?q" using Cons.prems by (rule invar_enq)
    obtain outs q' k where r: "queue_ops push pop ops ?q x (bracket w) = Some (outs, q', (bracket ^^ length ops) (bracket w))"
      "invar q'" "bound q' = bound ?q" "newest q' = newest ?q" "subseq (outs @ items q') (items ?q @ produced ops)"
      "length (outs @ items q') + k = length (items ?q @ produced ops)" "lost q' = lost ?q + of_nat k"
      using Cons.IH [OF inv, of x "bracket w"] by blast
    have sub: "subseq (outs @ items q') (items q @ y # produced ops)"
      using r(5) Cons.prems by (simp add: items_enq bounded_push_subseq)
    let ?k = "if length (items q) = bound q then Suc k else k"
    have "length (items ?q) = (if length (items q) = bound q then length (items q) else Suc (length (items q)))"
      using items_bound [OF Cons.prems] bound_pos [OF Cons.prems] Cons.prems
      by (auto simp: items_enq bounded_push_def)
    then have "length (outs @ items q') + ?k = length (items q @ y # produced ops)" "lost q' = lost q + of_nat ?k"
      using r(6,7) Cons.prems by (simp_all add: lost_enq)
    then show ?thesis
      using r(1-4) sub Produce Cons.prems
      by (intro exI [of _ outs] exI [of _ q'] exI [of _ ?k])
        (simp add: push_eq bound_enq newest_enq funpow_swap1)
  next
    case Consume
    show ?thesis
    proof (cases "items q")
      case Nil
      with Cons.IH [OF Cons.prems, of x "bracket w"] Cons.prems Consume show ?thesis
        by (auto simp: pop_eq funpow_swap1)
    next
      case (Cons z zs)
      let ?q = "deq q"
      have inv: "invar ?q" and items: "items ?q = zs"
        using Cons.prems Cons by (simp_all add: deq_simps)
      obtain outs q' k where r: "queue_ops push pop ops ?q z (bracket w) = Some (outs, q', (bracket ^^ length ops) (bracket w))"
        "invar q'" "bound q' = bound ?q" "newest q' = newest ?q" "subseq (outs @ items q') (items ?q @ produced ops)"
        "length (outs @ items q') + k = length (items ?q @ produced ops)" "lost q' = lost ?q + of_nat k"
        using Cons.IH [OF inv, of z "bracket w"] by blast
      then show ?thesis
        using Cons Consume Cons.prems items
        by (intro exI [of _ "z # outs"] exI [of _ q'] exI [of _ k])
          (simp add: pop_eq deq_simps funpow_swap1)
    qed
  qed
qed

text \<open>Without overflow, what is pushed comes out in the same order, whatever was held before.\<close>

lemma fifo:
  assumes "invar q" and "length (items q) + length xs \<le> bound q"
  shows "items (foldl enq q xs) = items q @ xs" and "lost (foldl enq q xs) = lost q"
  using assms items_burst_newest [of q xs] items_burst_oldest [of q xs] lost_burst [of q xs]
  by (cases "newest q"; simp)+

end

section \<open>Clients that hold a queue in a field\<close>

definition field_push ::
  "('s \<Rightarrow> 'q) \<Rightarrow> ('q \<Rightarrow> 's \<Rightarrow> 's) \<Rightarrow> ('q \<Rightarrow> 'a \<Rightarrow> 'w \<Rightarrow> (sch_ring_push_status \<times> 'q \<times> 'w) option) \<Rightarrow>
   's \<Rightarrow> 'a \<Rightarrow> 'w \<Rightarrow> (sch_ring_push_status \<times> 's \<times> 'w) option" where
  "field_push get put push s x w = do { (status, q, w) \<leftarrow> push (get s) x w; Some (status, put q s, w) }"

definition field_pop ::
  "('s \<Rightarrow> 'q) \<Rightarrow> ('q \<Rightarrow> 's \<Rightarrow> 's) \<Rightarrow> ('q \<Rightarrow> 'a \<Rightarrow> 'w \<Rightarrow> (bool \<times> 'a \<times> 'q \<times> 'w) option) \<Rightarrow>
   's \<Rightarrow> 'a \<Rightarrow> 'w \<Rightarrow> (bool \<times> 'a \<times> 's \<times> 'w) option" where
  "field_pop get put pop s x w = do { (ok, x, q, w) \<leftarrow> pop (get s) x w; Some (ok, x, put q s, w) }"

text \<open>The platform after a drain of at most \<open>n\<close> items: one section and one dispatch each.\<close>

fun drain_world :: "('w \<Rightarrow> 'w) \<Rightarrow> ('a \<Rightarrow> 'w \<Rightarrow> 'w) \<Rightarrow> nat \<Rightarrow> 'a list \<Rightarrow> 'w \<Rightarrow> 'w" where
  "drain_world bracket eff 0 xs w = w"
| "drain_world bracket eff (Suc n) [] w = bracket w"
| "drain_world bracket eff (Suc n) (x # xs) w = drain_world bracket eff n xs (eff x (bracket w))"

text \<open>The same for a dispatch that changes the client as well.\<close>

fun drain_fold ::
  "('w \<Rightarrow> 'w) \<Rightarrow> ('a \<Rightarrow> 's \<Rightarrow> 'w \<Rightarrow> 's \<times> 'w) \<Rightarrow> nat \<Rightarrow> 'a list \<Rightarrow> 's \<Rightarrow> 'w \<Rightarrow> 's \<times> 'w" where
  "drain_fold bracket step 0 xs s w = (s, w)"
| "drain_fold bracket step (Suc n) [] s w = (s, bracket w)"
| "drain_fold bracket step (Suc n) (x # xs) s w =
     (let (s, w) = step x s (bracket w) in drain_fold bracket step n xs s w)"

lemma drain_fold_world:
  "drain_fold bracket (\<lambda>x s w. (s, eff x w)) n xs s w = (s, drain_world bracket eff n xs w)"
  by (induction bracket eff n xs w rule: drain_world.induct) simp_all

lemma drain_world_append:
  "length xs = n \<Longrightarrow> drain_world bracket eff n (xs @ ys) w = fold (\<lambda>x w. eff x (bracket w)) xs w"
  by (induction xs arbitrary: n w) auto

lemma drain_world_unseen:
  assumes "\<And>v. f (bracket v) = f v"
  shows "f (drain_world bracket (\<lambda>x w. w) n xs w) = f w"
proof (induction n arbitrary: xs w)
  case (Suc n)
  then show ?case by (cases xs) (simp_all add: assms)
qed simp

text \<open>
  A dispatch that may refuse and then stops the drain: the items accepted, the items left, and
  the platform. A refused item is neither.
\<close>

fun drain_stop ::
  "('w \<Rightarrow> 'w) \<Rightarrow> ('a \<Rightarrow> 'w \<Rightarrow> bool \<times> 'w) \<Rightarrow> nat \<Rightarrow> 'a list \<Rightarrow> 'w \<Rightarrow> 'a list \<times> 'a list \<times> 'w" where
  "drain_stop bracket handle 0 xs w = ([], xs, w)"
| "drain_stop bracket handle (Suc n) [] w = ([], [], bracket w)"
| "drain_stop bracket handle (Suc n) (x # xs) w =
     (case handle x (bracket w) of (ok, w') \<Rightarrow>
       if ok then (case drain_stop bracket handle n xs w' of (taken, left, w'') \<Rightarrow> (x # taken, left, w''))
       else ([], xs, w'))"

lemma drain_stop_shape:
  "drain_stop bracket handle n xs w = (taken, left, w') \<Longrightarrow>
     xs = taken @ left \<or> (\<exists>x. xs = taken @ x # left)"
proof (induction bracket handle n xs w arbitrary: taken left w' rule: drain_stop.induct)
  case (3 bracket handle n x xs w)
  obtain ok w1 where st: "handle x (bracket w) = (ok, w1)" by (metis surj_pair)
  show ?case
  proof (cases ok)
    case True
    obtain taken1 where s1: "drain_stop bracket handle n xs w1 = (taken1, left, w')" "taken = x # taken1"
      using 3(2) st True by (auto split: prod.splits)
    then show ?thesis using 3(1) [OF st [symmetric] True s1(1)] by simp
  next
    case False
    then show ?thesis using 3(2) st by auto
  qed
qed simp_all

lemma drain_stop_left: "length (fst (snd (drain_stop bracket handle n xs w))) \<le> length xs"
  using drain_stop_shape [of bracket handle n xs w] by (cases "drain_stop bracket handle n xs w") auto

text \<open>An observer that sees exactly the items accepted.\<close>

lemma drain_stop_log:
  assumes "\<And>v. log (bracket v) = log v"
    and "\<And>x v. log (snd (handle x v)) = log v @ (if fst (handle x v) then [x] else [])"
  shows "drain_stop bracket handle n xs w = (taken, left, w') \<Longrightarrow> log w' = log w @ taken \<and> length taken \<le> n"
proof (induction n arbitrary: xs w taken)
  case (Suc n)
  show ?case
  proof (cases xs)
    case Nil
    with Suc.prems assms(1) show ?thesis by auto
  next
    case (Cons x xs')
    obtain ok w1 where st: "handle x (bracket w) = (ok, w1)" by (metis surj_pair)
    have l: "log w1 = log w @ (if ok then [x] else [])"
      using assms(2) [of x "bracket w"] st by (simp add: assms(1))
    show ?thesis
    proof (cases ok)
      case True
      obtain taken1 where s1: "drain_stop bracket handle n xs' w1 = (taken1, left, w')" "taken = x # taken1"
        using Suc.prems Cons st True by (auto split: prod.splits)
      then show ?thesis using Suc.IH [OF s1(1)] l True by simp
    next
      case False
      then show ?thesis using Suc.prems Cons st l by auto
    qed
  qed
qed simp

locale queue_client = isr_queue push pop bracket invar items bound newest lost enq deq
  for push :: "'q \<Rightarrow> 'a \<Rightarrow> 'w \<Rightarrow> (sch_ring_push_status \<times> 'q \<times> 'w) option"
    and pop bracket invar items bound newest lost enq deq +
  fixes get :: "'s \<Rightarrow> 'q"
    and put :: "'q \<Rightarrow> 's \<Rightarrow> 's"
  assumes get_put: "get (put q s) = q"
    and put_put: "put q (put q' s) = put q s"
    and put_get: "put (get s) s = s"
begin

text \<open>
  A drain with budget \<open>n\<close> whose body never breaks and leaves the queue alone: it takes the
  first \<open>n\<close> held items in order, handles each once, and leaves the rest. \<open>P\<close> is what the body
  needs of the client.
\<close>

lemma drain_steps:
  assumes "invar (get s)" and "P s"
    and body: "\<And>x s w. P s \<Longrightarrow> body x s w = Some (True, step x s w)"
    and keep: "\<And>x s w. P s \<Longrightarrow> P (fst (step x s w))" "\<And>q s. P s \<Longrightarrow> P (put q s)"
    and comm: "\<And>x q s w. P s \<Longrightarrow> step x (put q s) w = apfst (put q) (step x s w)"
    and same: "\<And>x s w. P s \<Longrightarrow> get (fst (step x s w)) = get s"
  shows "drain_loop n (field_pop get put pop) body s x w =
    (case drain_fold bracket step n (items (get s)) s w of (s', w') \<Rightarrow>
       Some (put ((deq ^^ min n (length (items (get s)))) (get s)) s',
             last (x # take n (items (get s))), w'))"
  using assms(1,2)
proof (induction n arbitrary: s x w)
  case 0
  then show ?case by (simp add: put_get)
next
  case (Suc n)
  show ?case
  proof (cases "items (get s)")
    case Nil
    with Suc.prems(1) show ?thesis by (simp add: field_pop_def pop_eq put_get)
  next
    case (Cons y ys)
    let ?q = "deq (get s)"
    obtain s1 w1 where st: "step y s (bracket w) = (s1, w1)" by (metis surj_pair)
    have q: "invar ?q" "items ?q = ys" using Suc.prems(1) Cons by (simp_all add: invar_deq items_deq)
    have P: "P s1" "P (put ?q s1)" "P (put ?q s)"
      using keep(1) [OF Suc.prems(2), of y "bracket w"] keep(2) Suc.prems(2) st by simp_all
    have fold_put: "drain_fold bracket step k xs (put q' v) w' = apfst (put q') (drain_fold bracket step k xs v w')"
      if "P v" for k xs q' v w'
      using that
    proof (induction k arbitrary: xs v w')
      case (Suc k)
      then show ?case
        using comm [OF Suc.prems] keep(1) [OF Suc.prems] by (cases xs) (simp_all add: split_beta)
    qed simp
    have "drain_loop (Suc n) (field_pop get put pop) body s x w =
        drain_loop n (field_pop get put pop) body (put ?q s1) y w1"
      using Suc.prems Cons P(3) comm [OF Suc.prems(2)] st
      by (simp add: field_pop_def pop_eq body)
    also have "\<dots> = (case drain_fold bracket step n ys (put ?q s1) w1 of (s', w') \<Rightarrow>
       Some (put ((deq ^^ min n (length ys)) ?q) s', last (y # take n ys), w'))"
      using Suc.IH [of "put ?q s1" y w1] q P(2) by (simp add: get_put)
    also have "\<dots> = (case drain_fold bracket step n ys s1 w1 of (s', w') \<Rightarrow>
       Some (put ((deq ^^ min n (length ys)) ?q) s', last (y # take n ys), w'))"
      by (simp add: fold_put [OF P(1)] split_beta put_put)
    finally show ?thesis using Cons st by (simp add: funpow_swap1)
  qed
qed

lemma drain_dispatch:
  assumes "invar (get s)" and "P s"
    and body: "\<And>x s w. P s \<Longrightarrow> body x s w = Some (True, s, eff x w)"
    and keep: "\<And>q s. P s \<Longrightarrow> P (put q s)"
  shows "drain_loop n (field_pop get put pop) body s x w =
    Some (put ((deq ^^ min n (length (items (get s)))) (get s)) s,
          last (x # take n (items (get s))),
          drain_world bracket eff n (items (get s)) w)"
proof -
  have "drain_loop n (field_pop get put pop) body s x w =
    (case drain_fold bracket (\<lambda>x s w. (s, eff x w)) n (items (get s)) s w of (s', w') \<Rightarrow>
       Some (put ((deq ^^ min n (length (items (get s)))) (get s)) s',
             last (x # take n (items (get s))), w'))"
    by (rule drain_steps [where P = P]) (simp_all add: assms)
  then show ?thesis by (simp add: drain_fold_world)
qed

lemma drain_refuse:
  assumes "invar (get s)" and "P s"
    and body: "\<And>x s w. P s \<Longrightarrow> body x s w = Some (fst (handle x w), s, snd (handle x w))"
    and keep: "\<And>q s. P s \<Longrightarrow> P (put q s)"
    and r: "drain_stop bracket handle n (items (get s)) w = (taken, left, w')"
  shows "\<exists>y. drain_loop n (field_pop get put pop) body s x w =
    Some (put ((deq ^^ (length (items (get s)) - length left)) (get s)) s, y, w')"
  using assms(1,2) r
proof (induction n arbitrary: s x w taken)
  case 0
  then show ?case by (simp add: put_get)
next
  case (Suc n)
  show ?case
  proof (cases "items (get s)")
    case Nil
    with Suc.prems show ?thesis by (auto simp: field_pop_def pop_eq put_get)
  next
    case (Cons y ys)
    let ?q = "deq (get s)"
    obtain ok w1 where st: "handle y (bracket w) = (ok, w1)" by (metis surj_pair)
    have q: "invar ?q" "items ?q = ys" using Suc.prems(1) Cons by (simp_all add: invar_deq items_deq)
    have P: "P (put ?q s)" using keep Suc.prems(2) by simp
    have pop: "field_pop get put pop s x w = Some (True, y, put ?q s, bracket w)"
      using Suc.prems(1) Cons by (simp add: field_pop_def pop_eq)
    show ?thesis
    proof (cases ok)
      case True
      obtain taken1 where s1: "drain_stop bracket handle n ys w1 = (taken1, left, w')"
        using Suc.prems(3) Cons st True by (auto split: prod.splits)
      have le: "length left \<le> length ys" using drain_stop_left [of bracket handle n ys w1] s1 by simp
      obtain z where "drain_loop n (field_pop get put pop) body (put ?q s) y w1 =
          Some (put ((deq ^^ (length ys - length left)) ?q) s, z, w')"
        using Suc.IH [OF _ P, of w1 taken1 y] q s1 by (auto simp: get_put put_put)
      then show ?thesis
        using Cons st True body [OF P] le pop by (simp add: Suc_diff_le funpow_swap1)
    next
      case False
      then have "left = ys" "w' = w1" using Suc.prems(3) Cons st by simp_all
      then show ?thesis
        using Cons st False body [OF P] pop by (simp add: Suc_diff_le)
    qed
  qed
qed

end

end
