(* ===== verification/Typed_Ring.thy ===== *)
theory Typed_Ring
  imports Isr_Queue
begin

text \<open>
  Rings of C objects. A C type enters a ring as its object representation, a fixed number
  of bytes; \<open>object_repr\<close> states what is needed of it, that reading back a representation
  gives the value. Every such type has a typed ring satisfying the queue contract. The
  16-bit type is interpreted here, and with it the event queue; the record types of the
  services are interpreted in their theories.
\<close>

section \<open>Calls with the address of a field\<close>

text \<open>
  \<^verbatim>\<open>sch_spsc_ring_push_isr(&service->ring, &x)\<close> and the pop, for a ring that is a field and an
  object \<open>x\<close> in a local variable: both pointers are non-null.
\<close>

definition ring_push ::
  "('a \<Rightarrow> u8 list) \<Rightarrow> 'w port \<Rightarrow> sch_spsc_ring \<Rightarrow> 'a \<Rightarrow> 'w \<Rightarrow>
   (sch_ring_push_status \<times> sch_spsc_ring \<times> 'w) option" where
  "ring_push enc p r x w = do {
     (status, r, w) \<leftarrow> sch_spsc_ring_push_isr p (Some r) (Some (enc x)) w;
     Some (status, the r, w)
   }"

definition ring_pop ::
  "('a \<Rightarrow> u8 list) \<Rightarrow> (u8 list \<Rightarrow> 'a) \<Rightarrow> 'w port \<Rightarrow> sch_spsc_ring \<Rightarrow> 'a \<Rightarrow> 'w \<Rightarrow>
   (bool \<times> 'a \<times> sch_spsc_ring \<times> 'w) option" where
  "ring_pop enc dec p r x w = do {
     (ok, out, r, w) \<leftarrow> sch_spsc_ring_pop_task p (Some r) (Some (enc x)) w;
     Some (ok, dec (the out), the r, w)
   }"

definition event_push ::
  "'w port \<Rightarrow> sch_event_queue \<Rightarrow> u16 \<Rightarrow> 'w \<Rightarrow> (sch_ring_push_status \<times> sch_event_queue \<times> 'w) option" where
  "event_push p q event_id w = do {
     (status, q, w) \<leftarrow> sch_event_queue_push_isr p (Some q) event_id w;
     Some (status, the q, w)
   }"

definition event_pop ::
  "'w port \<Rightarrow> sch_event_queue \<Rightarrow> u16 \<Rightarrow> 'w \<Rightarrow> (bool \<times> u16 \<times> sch_event_queue \<times> 'w) option" where
  "event_pop p q event_id w = do {
     (ok, out, q, w) \<leftarrow> sch_event_queue_pop_task p (Some q) (Some event_id) w;
     Some (ok, the out, the q, w)
   }"

lemma ring_init_iff:
  "fst (sch_spsc_ring_init p (Some r) st cap es mode w) \<longleftrightarrow>
     \<not> is_null st \<and> cap \<noteq> 0 \<and> es \<noteq> 0 \<and>
     (mode = SCH_OVERFLOW_DROP_NEWEST \<or> mode = SCH_OVERFLOW_DROP_OLDEST)"
  by (auto simp: sch_spsc_ring_init_def Let_def split_beta)

section \<open>Object representations\<close>

definition typed_inv :: "size_t \<Rightarrow> sch_spsc_ring \<Rightarrow> bool" where
  "typed_inv es r \<longleftrightarrow> ring_inv r \<and> element_size r = es"

definition typed_items :: "(u8 list \<Rightarrow> 'a) \<Rightarrow> sch_spsc_ring \<Rightarrow> 'a list" where
  "typed_items dec r = map dec (ring_items r)"

definition ring_bound :: "sch_spsc_ring \<Rightarrow> nat" where
  "ring_bound r = unat (capacity r)"

lemma map_bounded_push:
  "map f (bounded_push bound newest xs x) = bounded_push bound newest (map f xs) (f x)"
  by (simp add: bounded_push_def map_tl)

lemma length_typed_items [simp]: "length (typed_items dec r) = unat (count r)"
  by (simp add: typed_items_def)

lemma typed_items_empty_iff [simp]: "typed_items dec r = [] \<longleftrightarrow> count r = 0"
  by (simp add: typed_items_def ring_items_empty_iff)

lemma drop_min_typed: "drop (min n (unat (count r))) (typed_items dec r) = drop n (typed_items dec r)"
  using drop_min [of n "typed_items dec r"] by simp

lemma typed_inv_bound: "typed_inv es r \<Longrightarrow> unat (count r) \<le> ring_bound r \<and> 0 < ring_bound r"
  by (auto simp: typed_inv_def ring_bound_def elim!: ring_invE)

locale object_repr =
  fixes enc :: "'a \<Rightarrow> u8 list"
    and dec :: "u8 list \<Rightarrow> 'a"
    and es :: size_t
  assumes dec_enc [simp]: "dec (enc x) = x"
    and length_enc [simp]: "length (enc x) = unat es"
    and es_pos: "es \<noteq> 0"
begin

lemma enq_refines:
  assumes "typed_inv es r"
  shows "typed_inv es (ring_enq r (enc x))"
    and "typed_items dec (ring_enq r (enc x)) =
      bounded_push (ring_bound r) (ring_newest r) (typed_items dec r) x"
    and "ring_bound (ring_enq r (enc x)) = ring_bound r"
    and "ring_newest (ring_enq r (enc x)) = ring_newest r"
    and "drops (ring_enq r (enc x)) =
      (if length (typed_items dec r) = ring_bound r then drops r + 1 else drops r)"
  using assms ring_enq_refines [of r "enc x"]
  by (simp_all add: typed_inv_def typed_items_def ring_bound_def ring_newest_def map_bounded_push
      ring_full_iff)

lemma deq_refines:
  assumes "typed_inv es r"
  shows "typed_inv es (ring_deq r)" and "typed_items dec (ring_deq r) = tl (typed_items dec r)"
    and "ring_bound (ring_deq r) = ring_bound r" and "ring_newest (ring_deq r) = ring_newest r"
    and "drops (ring_deq r) = drops r"
  using assms ring_deq_refines [of r]
  by (simp_all add: typed_inv_def typed_items_def ring_bound_def ring_newest_def map_tl)

lemma push_refines:
  assumes "typed_inv es r"
  shows "ring_push enc p r x w =
    Some (push_status (ring_newest r) (length (typed_items dec r) = ring_bound r),
          ring_enq r (enc x), crit p w)"
  using assms ring_enq_refines(7) [of r "enc x" p w]
  by (simp add: ring_push_def typed_inv_def ring_full_iff ring_bound_def)

lemma pop_refines:
  assumes "typed_inv es r"
  shows "ring_pop enc dec p r x w =
    Some (if typed_items dec r = [] then (False, x, r, crit p w)
          else (True, hd (typed_items dec r), ring_deq r, crit p w))"
  using assms ring_pop_refines [of r "enc x" p w]
  by (simp add: ring_pop_def typed_inv_def ring_items_empty_iff typed_items_def hd_map)

lemma init_refines:
  assumes "cap \<noteq> 0" and "mode = SCH_OVERFLOW_DROP_NEWEST \<or> mode = SCH_OVERFLOW_DROP_OLDEST"
    and "unat cap * unat es \<le> length m" and "length m < 2 ^ 32"
  obtains r' where "sch_spsc_ring_init p (Some r) (Some m) cap es mode w = (True, Some r', crit p w)"
    "typed_inv es r'" "typed_items dec r' = []" "drops r' = 0" "ring_bound r' = unat cap"
    "ring_newest r' \<longleftrightarrow> mode = SCH_OVERFLOW_DROP_NEWEST" "count r' = 0"
proof -
  obtain r' where r: "sch_spsc_ring_init p (Some r) (Some m) cap es mode w = (True, Some r', crit p w)"
    "ring_inv r'" "ring_items r' = []" "drops r' = 0" "capacity r' = cap"
    "element_size r' = es" "overflow r' = mode"
    by (rule ring_init_refines [OF assms(1) es_pos assms(2-4)])
  then have "count r' = 0" by (simp add: ring_items_empty_iff)
  with r that show ?thesis
    by (simp add: typed_inv_def typed_items_def ring_bound_def ring_newest_def)
qed

end

text \<open>The typed ring satisfies the queue contract, on every port.\<close>

locale object_ring = object_repr enc dec es
  for enc :: "'a \<Rightarrow> u8 list" and dec es +
  fixes p :: "'w port"

sublocale object_ring \<subseteq> queue: isr_queue
  "ring_push enc p" "ring_pop enc dec p" "crit p" "typed_inv es" "typed_items dec" ring_bound
  ring_newest drops "\<lambda>r x. ring_enq r (enc x)" ring_deq
proof unfold_locales
  fix q x w
  assume inv: "typed_inv es q"
  show "ring_push enc p q x w =
      Some (push_status (ring_newest q) (length (typed_items dec q) = ring_bound q),
            ring_enq q (enc x), crit p w)"
    using inv by (rule push_refines)
  show "ring_pop enc dec p q x w =
      Some (if typed_items dec q = [] then (False, x, q, crit p w)
            else (True, hd (typed_items dec q), ring_deq q, crit p w))"
    using inv by (rule pop_refines)
  show "length (typed_items dec q) \<le> ring_bound q" and "0 < ring_bound q"
    using typed_inv_bound [OF inv] by simp_all
qed (simp_all add: enq_refines deq_refines)

section \<open>16-bit values and the event queue\<close>

lemma u16_of_bytes_bytes: "u16_of_bytes (u16_bytes x) = x"
proof -
  have "unat x < 2 ^ LENGTH(16)" by (rule unsigned_less)
  then have "unat x div 256 < 256" by (simp add: less_mult_imp_div_less)
  then have "ucast (ucast x :: u8) + 256 * ucast (ucast (drop_bit 8 x) :: u8) = x"
    by (simp add: word_unat_eq_iff unat_word_ariths unsigned_ucast_eq unsigned_drop_bit_eq take_bit_eq_mod drop_bit_eq_div)
  then show ?thesis by (simp add: u16_of_bytes_def u16_bytes_def)
qed

lemma length_u16_bytes [simp]: "length (u16_bytes x) = 2"
  by (simp add: u16_bytes_def)

interpretation u16: object_ring u16_bytes u16_of_bytes sizeof_u16 p for p
  by unfold_locales (simp_all add: u16_of_bytes_bytes sizeof_u16_def)

definition event_items :: "sch_event_queue \<Rightarrow> u16 list" where
  "event_items q = typed_items u16_of_bytes (ring q)"

definition event_inv :: "sch_event_queue \<Rightarrow> bool" where
  "event_inv q \<longleftrightarrow> typed_inv sizeof_u16 (ring q)"

definition event_enq :: "sch_event_queue \<Rightarrow> u16 \<Rightarrow> sch_event_queue" where
  "event_enq q x = q\<lparr>ring := ring_enq (ring q) (u16_bytes x)\<rparr>"

definition event_deq :: "sch_event_queue \<Rightarrow> sch_event_queue" where
  "event_deq q = q\<lparr>ring := ring_deq (ring q)\<rparr>"

lemma event_push_ring:
  "event_push p q x w =
     map_option (\<lambda>(status, r, w). (status, q\<lparr>ring := r\<rparr>, w)) (ring_push u16_bytes p (ring q) x w)"
  by (cases "sch_spsc_ring_push_isr p (Some (ring q)) (Some (u16_bytes x)) w")
    (auto simp: event_push_def ring_push_def sch_event_queue_push_isr_def)

lemma pop_out_not_null:
  "sch_spsc_ring_pop_task p r (Some out) w = Some (ok, out', r', w') \<Longrightarrow> \<exists>y. out' = Some y"
  by (auto simp: sch_spsc_ring_pop_task_def Let_def Option.bind_eq_Some_conv
      split: if_splits prod.splits)

lemma event_pop_ring:
  "event_pop p q x w =
     map_option (\<lambda>(ok, y, r, w). (ok, y, q\<lparr>ring := r\<rparr>, w))
       (ring_pop u16_bytes u16_of_bytes p (ring q) x w)"
proof (cases "sch_spsc_ring_pop_task p (Some (ring q)) (Some (u16_bytes x)) w")
  case None
  then show ?thesis by (simp add: event_pop_def ring_pop_def sch_event_queue_pop_task_def)
next
  case (Some a)
  with pop_out_not_null [of p "Some (ring q)" "u16_bytes x" w] show ?thesis
    by (cases a) (auto simp: event_pop_def ring_pop_def sch_event_queue_pop_task_def)
qed

interpretation events: isr_queue
  "event_push p" "event_pop p" "crit p" event_inv event_items "\<lambda>q. ring_bound (ring q)"
  "\<lambda>q. ring_newest (ring q)" "\<lambda>q. drops (ring q)" event_enq event_deq
  for p
proof unfold_locales
  fix q x w
  assume inv: "event_inv q"
  then have r: "typed_inv sizeof_u16 (ring q)" by (simp add: event_inv_def)
  show "event_push p q x w =
      Some (push_status (ring_newest (ring q)) (length (event_items q) = ring_bound (ring q)),
            event_enq q x, crit p w)"
    by (simp add: event_push_ring u16.push_refines [OF r] event_items_def event_enq_def)
  show "event_pop p q x w =
      Some (if event_items q = [] then (False, x, q, crit p w)
            else (True, hd (event_items q), event_deq q, crit p w))"
    by (simp add: event_pop_ring u16.pop_refines [OF r] event_items_def event_deq_def)
  show "length (event_items q) \<le> ring_bound (ring q)" and "0 < ring_bound (ring q)"
    using typed_inv_bound [OF r] by (simp_all add: event_items_def)
qed (simp_all add: event_inv_def event_items_def event_enq_def event_deq_def
    u16.enq_refines u16.deq_refines)

section \<open>Initialisation and size of the event queue\<close>

lemma event_init_iff:
  "fst (sch_event_queue_init p (Some q) st cap mode w) \<longleftrightarrow>
     \<not> is_null st \<and> cap \<noteq> 0 \<and> (mode = SCH_OVERFLOW_DROP_NEWEST \<or> mode = SCH_OVERFLOW_DROP_OLDEST)"
  using ring_init_iff [of p "ring q" st cap sizeof_u16 mode w]
  by (simp add: sch_event_queue_init_def split_beta Let_def sizeof_u16_def)

lemma event_init_refines:
  assumes "cap \<noteq> 0" and "mode = SCH_OVERFLOW_DROP_NEWEST \<or> mode = SCH_OVERFLOW_DROP_OLDEST"
    and "unat cap * 2 \<le> length m" and "length m < 2 ^ 32"
  obtains q' where "sch_event_queue_init p (Some q) (Some m) cap mode w = (True, Some q', crit p w)"
    "event_inv q'" "event_items q' = []" "ring_bound (ring q') = unat cap" "drops (ring q') = 0"
    "ring_newest (ring q') \<longleftrightarrow> mode = SCH_OVERFLOW_DROP_NEWEST"
proof -
  have fit: "unat cap * unat sizeof_u16 \<le> length m" using assms(3) by (simp add: sizeof_u16_def)
  obtain r where r: "sch_spsc_ring_init p (Some (ring q)) (Some m) cap sizeof_u16 mode w = (True, Some r, crit p w)"
    "typed_inv sizeof_u16 r" "typed_items u16_of_bytes r = []" "drops r = 0" "ring_bound r = unat cap"
    "ring_newest r \<longleftrightarrow> mode = SCH_OVERFLOW_DROP_NEWEST"
    by (rule u16.init_refines [OF assms(1,2) fit assms(4)])
  show thesis
    by (rule that [of "q\<lparr>ring := r\<rparr>"])
      (use r in \<open>simp_all add: sch_event_queue_init_def event_inv_def event_items_def\<close>)
qed

lemma ring_size_refines:
  "ring_inv r \<Longrightarrow> sch_spsc_ring_size p (Some r) w = (count r, crit p w)"
  by (simp add: sch_spsc_ring_size_def ring_inv_valid crit_def split_beta Let_def)

lemma ring_drop_count_refines:
  "ring_inv r \<Longrightarrow> sch_spsc_ring_drop_count p (Some r) w = (drops r, crit p w)"
  by (simp add: sch_spsc_ring_drop_count_def ring_inv_valid crit_def split_beta Let_def)

lemma ring_is_empty_refines:
  "ring_inv r \<Longrightarrow> sch_spsc_ring_is_empty p (Some r) w = (count r = 0, crit p w)"
  by (simp add: sch_spsc_ring_is_empty_def ring_size_refines)

lemma event_size_refines:
  "event_inv q \<Longrightarrow> sch_event_queue_size p (Some q) w = (count (ring q), crit p w)"
  by (simp add: sch_event_queue_size_def event_inv_def typed_inv_def ring_size_refines)

lemma event_items_empty_iff: "event_items q = [] \<longleftrightarrow> count (ring q) = 0"
  by (simp add: event_items_def)

end
