(* ===== verification/Queue_Props.thy ===== *)
theory Queue_Props
  imports Typed_Ring
begin

text \<open>
  The properties of the ring buffer and of the event queue, each with its witness on a ring of
  three 16-bit values.
\<close>

definition sample_ring :: "sch_overflow_mode \<Rightarrow> sch_spsc_ring" where
  "sample_ring mode =
     \<lparr>storage = Some (replicate 6 0), element_size = 2, capacity = 3, head = 0, tail = 0, count = 0,
      drops = 0, overflow = mode\<rparr>"

lemma sample_ring_ok [simp]:
  "ring_inv (sample_ring SCH_OVERFLOW_DROP_NEWEST)" "ring_inv (sample_ring SCH_OVERFLOW_DROP_OLDEST)"
  "ring_items (sample_ring mode) = []"
  "event_inv \<lparr>ring = sample_ring SCH_OVERFLOW_DROP_NEWEST\<rparr>"
  "event_inv \<lparr>ring = sample_ring SCH_OVERFLOW_DROP_OLDEST\<rparr>" "event_items \<lparr>ring = sample_ring mode\<rparr> = []"
  by (simp_all add: sample_ring_def ring_inv_iff ring_items_def event_inv_def typed_inv_def event_items_def
      typed_items_def sizeof_u16_def)

lemma sample_ring_fields [simp]:
  "element_size (sample_ring mode) = 2" "capacity (sample_ring mode) = 3" "drops (sample_ring mode) = 0"
  "ring_bound (sample_ring mode) = 3" "overflow (sample_ring mode) = mode"
  "ring_newest (sample_ring mode) \<longleftrightarrow> mode = SCH_OVERFLOW_DROP_NEWEST"
  by (simp_all add: sample_ring_def ring_bound_def ring_newest_def)

section \<open>The ring\<close>

text \<open>
  C17. \<open>sch_spsc_ring_init\<close> on every branch. A null ring, a null storage, a zero capacity or
  element size, or a policy that is none of the two is refused without any effect; otherwise the
  call succeeds, and when the storage is as large as the caller promises the ring it leaves is
  empty and satisfies the invariant, whatever it held before.
\<close>

theorem ring_init_outcome:
  assumes "\<forall>m. storage_arg = Some m \<longrightarrow> unat cap * unat es \<le> length m \<and> length m < 2 ^ 32"
  shows "if is_null r \<or> is_null storage_arg \<or> cap = 0 \<or> es = 0 \<or>
       (mode \<noteq> SCH_OVERFLOW_DROP_NEWEST \<and> mode \<noteq> SCH_OVERFLOW_DROP_OLDEST)
     then sch_spsc_ring_init p r storage_arg cap es mode w = (False, r, w)
     else \<exists>r'. sch_spsc_ring_init p r storage_arg cap es mode w = (True, Some r', crit p w) \<and>
       ring_inv r' \<and> ring_items r' = [] \<and> drops r' = 0 \<and> capacity r' = cap \<and> element_size r' = es \<and>
       overflow r' = mode"
proof (cases "is_null r \<or> is_null storage_arg \<or> cap = 0 \<or> es = 0 \<or>
    (mode \<noteq> SCH_OVERFLOW_DROP_NEWEST \<and> mode \<noteq> SCH_OVERFLOW_DROP_OLDEST)")
  case True
  then show ?thesis by (auto simp: sch_spsc_ring_init_def)
next
  case False
  then obtain r0 m where "r = Some r0" "storage_arg = Some m" by (cases r; cases storage_arg) auto
  moreover from False this assms have ok: "cap \<noteq> 0" "es \<noteq> 0"
    "mode = SCH_OVERFLOW_DROP_NEWEST \<or> mode = SCH_OVERFLOW_DROP_OLDEST"
    "unat cap * unat es \<le> length m" "length m < 2 ^ 32" by auto
  ultimately show ?thesis
    using False by (metis ring_init_refines [OF ok, of p r0 w])
qed

theorem ring_init_outcome_witness:
  "\<exists>r'. sch_spsc_ring_init quiet_port (Some (sample_ring (SCH_OVERFLOW_OTHER 9))) (Some (replicate 8 7)) 4 2
      SCH_OVERFLOW_DROP_OLDEST () = (True, Some r', crit quiet_port ()) \<and> ring_inv r' \<and> ring_items r' = [] \<and>
    drops r' = 0 \<and> capacity r' = 4 \<and> element_size r' = 2 \<and> overflow r' = SCH_OVERFLOW_DROP_OLDEST"
  using ring_init_outcome [of "Some (replicate 8 7)" 4 2 "Some (sample_ring (SCH_OVERFLOW_OTHER 9))"
      SCH_OVERFLOW_DROP_OLDEST quiet_port "()"] by simp

text \<open>
  C18. A push refines the bounded queue. On every ring that satisfies the invariant it is never
  undefined (the byte offset does not wrap and the copy stays inside the storage), it costs one
  critical section, and the list held is extended, left alone or shifted as the overflow policy
  says; the status and the drop counter tell which.
\<close>

theorem ring_push_refines_queue:
  assumes "ring_inv r" and "length x = unat (element_size r)"
  shows "\<exists>r'. sch_spsc_ring_push_isr p (Some r) (Some x) w =
      Some (if length (ring_items r) < unat (capacity r) then SCH_RING_PUSH_OK
            else if overflow r = SCH_OVERFLOW_DROP_NEWEST then SCH_RING_PUSH_DROPPED_NEWEST
            else SCH_RING_PUSH_DROPPED_OLDEST, Some r', crit p w) \<and>
    ring_inv r' \<and> element_size r' = element_size r \<and> capacity r' = capacity r \<and> overflow r' = overflow r \<and>
    ring_items r' =
      (if length (ring_items r) < unat (capacity r) then ring_items r @ [x]
       else if overflow r = SCH_OVERFLOW_DROP_NEWEST then ring_items r else tl (ring_items r) @ [x]) \<and>
    drops r' = (if length (ring_items r) < unat (capacity r) then drops r else drops r + 1)"
proof -
  have "ring_full r \<longleftrightarrow> \<not> length (ring_items r) < unat (capacity r)"
    using assms(1) by (auto simp: ring_full_iff elim: ring_invE)
  then show ?thesis
    using ring_enq_refines(1-6) [OF assms] ring_enq_refines(7) [OF assms, of p w]
    by (intro exI [of _ "ring_enq r x"]) (simp add: push_status_def bounded_push_def ring_newest_def)
qed

theorem ring_push_refines_queue_witness:
  "\<exists>r'. sch_spsc_ring_push_isr quiet_port (Some (sample_ring SCH_OVERFLOW_DROP_OLDEST)) (Some [1, 2]) () =
      Some (SCH_RING_PUSH_OK, Some r', ()) \<and> ring_items r' = [[1, 2]]"
  using ring_push_refines_queue [of "sample_ring SCH_OVERFLOW_DROP_OLDEST" "[1, 2]" quiet_port "()"] by auto

text \<open>
  A pop takes the oldest element. On every ring that satisfies the invariant it copies the
  head of the list to the caller and removes it, or says that the ring is empty and writes
  nothing; it never loses an element and never touches the drop counter.
\<close>

lemma ring_pop_refines_queue:
  assumes "ring_inv r" and "length out = unat (element_size r)"
  shows "\<exists>r'. sch_spsc_ring_pop_task p (Some r) (Some out) w =
      Some (case ring_items r of
          [] \<Rightarrow> (False, Some out, Some r', crit p w)
        | x # xs \<Rightarrow> (True, Some x, Some r', crit p w)) \<and>
    ring_inv r' \<and> ring_items r' = tl (ring_items r) \<and> drops r' = drops r \<and>
    element_size r' = element_size r \<and> capacity r' = capacity r \<and> overflow r' = overflow r"
proof (cases "ring_items r")
  case Nil
  then show ?thesis using assms by (simp add: ring_pop_refines)
next
  case (Cons x xs)
  then show ?thesis using ring_pop_refines [OF assms] ring_deq_refines [OF assms(1)]
    by (intro exI [of _ "ring_deq r"]) simp
qed

text \<open>
  The observers tell the truth about a ring that satisfies the invariant: size, emptiness,
  fullness and drop count are those of the list held and of the counter, and none of them
  changes anything.
\<close>

lemma ring_observers:
  assumes "ring_inv r"
  shows "sch_spsc_ring_size p (Some r) w = (of_nat (length (ring_items r)), crit p w) \<and>
    sch_spsc_ring_is_empty p (Some r) w = (ring_items r = [], crit p w) \<and>
    sch_spsc_ring_is_full p (Some r) w = (length (ring_items r) = unat (capacity r), crit p w) \<and>
    sch_spsc_ring_drop_count p (Some r) w = (drops r, crit p w) \<and>
    length (ring_items r) \<le> unat (capacity r)"
  using ring_inv_valid [OF assms] assms
  by (auto simp: ring_size_refines ring_is_empty_refines ring_items_empty_iff sch_spsc_ring_is_full_def
      sch_spsc_ring_drop_count_def crit_def split_beta Let_def elim: ring_invE dest: word_unat_eq_iff [THEN iffD2])

text \<open>
  A ring pointer that is null or leads to a ring that was never set up (no storage, a zero
  size, an unknown policy) is harmless: every operation reports failure, emptiness or zero, and
  changes neither the ring nor the platform.
\<close>

lemma ring_invalid_rejected:
  assumes "\<not> sch_ring_valid r"
  shows "sch_spsc_ring_push_isr p r item w = Some (SCH_RING_PUSH_DROPPED_NEWEST, r, w) \<and>
    sch_spsc_ring_pop_task p r out w = Some (False, out, r, w) \<and>
    sch_spsc_ring_reset p r w = (r, w) \<and> sch_spsc_ring_size p r w = (0, w) \<and>
    sch_spsc_ring_drop_count p r w = (0, w) \<and> sch_spsc_ring_is_empty p r w = (True, w) \<and>
    sch_spsc_ring_is_full p r w = (False, w)"
  using assms
  by (simp add: sch_spsc_ring_push_isr_def sch_spsc_ring_pop_task_def sch_spsc_ring_reset_def
      sch_spsc_ring_size_def sch_spsc_ring_drop_count_def sch_spsc_ring_is_empty_def sch_spsc_ring_is_full_def)

text \<open>
  C22. A reset empties the ring and forgets its drops, and what is then pushed within the
  capacity comes back value for value in the same order, through the byte representation and
  around the end of the storage.
\<close>

theorem ring_reset_roundtrip:
  assumes "ring_inv r" and "element_size r = sizeof_u16" and "length xs \<le> unat (capacity r)" and "length xs \<le> n"
  shows "\<exists>r1 r2 r3 w2 w3. sch_spsc_ring_reset p (Some r) w = (Some r1, crit p w) \<and>
    push_all (ring_push u16_bytes p) xs r1 (crit p w) = Some (r2, w2) \<and>
    pop_all (ring_pop u16_bytes u16_of_bytes p) n r2 0 w2 = Some (xs, r3, w3) \<and>
    ring_items r3 = [] \<and> drops r3 = 0"
proof -
  let ?r1 = "r\<lparr>head := 0, tail := 0, count := 0, drops := 0\<rparr>"
  let ?r2 = "foldl (\<lambda>r x. ring_enq r (u16_bytes x)) ?r1 xs"
  have r1: "typed_inv sizeof_u16 ?r1" "typed_items u16_of_bytes ?r1 = []"
    using assms(1,2) by (auto simp: typed_inv_def ring_inv_iff)
  have reset: "sch_spsc_ring_reset p (Some r) w = (Some ?r1, crit p w)"
    using ring_inv_valid [OF assms(1)] by (simp add: sch_spsc_ring_reset_def crit_def split_beta Let_def)
  have bound: "length (typed_items u16_of_bytes ?r1) + length xs \<le> ring_bound ?r1"
    using assms(3) by (simp add: ring_bound_def)
  have r2: "typed_inv sizeof_u16 ?r2" "typed_items u16_of_bytes ?r2 = xs" "drops ?r2 = 0"
    using u16.queue.enqs_keep [OF r1(1), of xs] u16.queue.fifo [OF r1(1) bound] r1(2) by simp_all
  have len: "unat (count ?r2) = length xs"
    using length_typed_items [of u16_of_bytes ?r2] r2(2) by simp
  let ?r3 = "(ring_deq ^^ min n (length xs)) ?r2"
  have r3: "typed_items u16_of_bytes ?r3 = []" "drops ?r3 = 0"
    using u16.queue.deqs_keep [OF r2(1), of "min n (length xs)"] r2(2,3) assms(4) by simp_all
  have "pop_all (ring_pop u16_bytes u16_of_bytes p) n ?r2 0 v =
      Some (xs, ?r3, (crit p ^^ min n (Suc (length xs))) v)" for v
    using u16.queue.pop_all_eq [OF r2(1), of p n 0 v] r2(2) len assms(4) by simp
  then show ?thesis
    using reset u16.queue.push_all_eq [OF r1(1), of p xs "crit p w"] r3
    by (auto simp: typed_items_def)
qed

theorem ring_reset_roundtrip_witness:
  "\<exists>r1 r2 r3 w2 w3. sch_spsc_ring_reset quiet_port (Some (sample_ring SCH_OVERFLOW_DROP_OLDEST)) () = (Some r1, crit quiet_port ()) \<and>
    push_all (ring_push u16_bytes quiet_port) [500, 6, 7] r1 (crit quiet_port ()) = Some (r2, w2) \<and>
    pop_all (ring_pop u16_bytes u16_of_bytes quiet_port) 5 r2 0 w2 = Some ([500, 6, 7], r3, w3) \<and>
    ring_items r3 = [] \<and> drops r3 = 0"
  by (rule ring_reset_roundtrip) (simp_all add: sizeof_u16_def)

section \<open>The event queue\<close>

text \<open>
  A burst of events. From an event queue that satisfies the invariant, any number of pushes
  keeps the first that fit (drop newest) or the last that fit (drop oldest), in order, and the
  drop counter grows by the number that did not fit, modulo its width.
\<close>

lemma event_burst:
  assumes "event_inv q"
  shows "\<exists>q' w'. push_all (event_push p) xs q w = Some (q', w') \<and> event_inv q' \<and>
    event_items q' =
      (let all = event_items q @ xs; bound = unat (capacity (ring q))
       in if overflow (ring q) = SCH_OVERFLOW_DROP_NEWEST then take bound all else drop (length all - bound) all) \<and>
    drops (ring q') = drops (ring q) + of_nat (length (event_items q @ xs) - unat (capacity (ring q)))"
  using events.push_all_eq [OF assms, of p xs w] events.enqs_keep [OF assms, of xs] events.lost_burst [OF assms, of xs]
    events.items_burst_newest [OF assms, of xs] events.items_burst_oldest [OF assms, of xs]
  by (simp add: ring_bound_def ring_newest_def Let_def)

text \<open>
  C24. Producer and consumer in any interleaving. Whatever the order of the pushes of one
  producer and the pops of one consumer, no call is undefined; the values consumed followed by
  the values still held are a subsequence of the values held before followed by those produced,
  so nothing is duplicated, invented or reordered; and the drop counter has grown by exactly the
  number of values that are missing.
\<close>

theorem event_interleaving:
  assumes "event_inv q"
  shows "\<exists>outs q' w' k. queue_ops (event_push p) (event_pop p) ops q x w = Some (outs, q', w') \<and> event_inv q' \<and>
    subseq (outs @ event_items q') (event_items q @ produced ops) \<and>
    length (outs @ event_items q') + k = length (event_items q @ produced ops) \<and>
    drops (ring q') = drops (ring q) + of_nat k"
  using events.queue_ops_account [OF assms, of p ops x w] by blast

theorem event_interleaving_witness:
  "\<exists>outs q' w' k. queue_ops (event_push quiet_port) (event_pop quiet_port)
      [Produce 7, Consume, Consume, Produce 1, Produce 2, Produce 3, Produce 4, Consume]
      \<lparr>ring = sample_ring SCH_OVERFLOW_DROP_OLDEST\<rparr> 0 () = Some (outs, q', w') \<and> event_inv q' \<and>
    subseq (outs @ event_items q') [7, 1, 2, 3, 4] \<and>
    length (outs @ event_items q') + k = 5 \<and> drops (ring q') = of_nat k"
  using event_interleaving [of "\<lparr>ring = sample_ring SCH_OVERFLOW_DROP_OLDEST\<rparr>" quiet_port
      "[Produce 7, Consume, Consume, Produce 1, Produce 2, Produce 3, Produce 4, Consume]" 0 "()"]
  by (simp add: eval_nat_numeral)

end
