(* ===== verification/Scheduler_Polls.thy ===== *)
theory Scheduler_Polls
  imports Scheduler_Cadence Scheduler_Log
begin

text \<open>
  Which functions consecutive polls call. The order of the calls of a run and the release grid of
  a task come together: a function that is registered as a task is called at least as often as the
  polls meet points of the grid of its slot.
\<close>

section \<open>Grids\<close>

text \<open>The number of polls in which a point of the release grid asks for a dispatch.\<close>

definition releases_met :: "nat \<Rightarrow> nat \<Rightarrow> nat \<Rightarrow> nat list \<Rightarrow> nat" where
  "releases_met R period lo Ts = length (filter (\<lambda>released. released) (expected_releases R period lo Ts))"

text \<open>The polls that dispatch the slot \<open>j\<close>.\<close>

definition dispatches :: "nat \<Rightarrow> (u32 \<times> nat list) list \<Rightarrow> nat" where
  "dispatches j polls = length (filter (\<lambda>(now, ready). j \<in> set ready) polls)"

lemma dispatches_simps [simp]:
  "dispatches j [] = 0"
  "dispatches j ((now, ready) # polls) = (if j \<in> set ready then 1 else 0) + dispatches j polls"
  by (simp_all add: dispatches_def)

lemma dispatches_met:
  assumes "map (\<lambda>(now, ready). j \<in> set ready) polls = expected_releases R period lo Ts"
  shows "dispatches j polls = releases_met R period lo Ts"
  by (simp add: dispatches_def releases_met_def filter_map comp_def case_prod_unfold flip: assms)

text \<open>The same for a second stretch of polls, after \<open>k\<close> of the first.\<close>

definition releases_after :: "nat \<Rightarrow> nat \<Rightarrow> nat \<Rightarrow> nat \<Rightarrow> nat list \<Rightarrow> nat" where
  "releases_after k R period lo Ts = length (filter (\<lambda>released. released) (drop k (expected_releases R period lo Ts)))"

lemma dispatches_after:
  assumes "map (\<lambda>(now, ready). j \<in> set ready) (polls @ polls') = expected_releases R period lo Ts"
  shows "dispatches j polls' = releases_after (length polls) R period lo Ts"
  by (simp add: dispatches_def releases_after_def filter_map comp_def case_prod_unfold flip: assms)

lemma run_seq_length: "run_seq cfg p env gs s w = Some (polls, s', w') \<Longrightarrow> length polls = length gs"
  by (induction gs arbitrary: s w polls) (auto simp: Let_def bind_eq_Some_conv)

lemma run_seq_append:
  assumes "run_seq cfg p env gs s w = Some (polls, s1, w1)" and "run_seq cfg p env hs s1 w1 = Some (polls', s2, w2)"
  shows "run_seq cfg p env (gs @ hs) s w = Some (polls @ polls', s2, w2)"
  using assms by (induction gs arbitrary: s w polls) (fastforce simp: Let_def bind_eq_Some_conv)+

section \<open>The calls of a sequence of runs\<close>

context called_run
begin

text \<open>Every poll that dispatches a slot calls its function; other slots may call it, too.\<close>

lemma run_seq_calls:
  assumes "sch_wf s" and "sch_quiet s" and "ok w" and "\<forall>g\<in>set gs. \<forall>w. ok w \<longrightarrow> ok (g w) \<and> R [] w (g w)"
    and "j < SCH_MAX_TASKS" and "in_use (tasks s ! j)" and "fn (tasks s ! j) = Some f"
  shows "\<exists>polls s' w' fs. run_seq cfg p env gs (Some s) w = Some (polls, Some s', w') \<and> R fs w w' \<and>
    dispatches j polls \<le> count_list fs f \<and>
    sch_wf s' \<and> sch_quiet s' \<and> ok w' \<and> in_use (tasks s' ! j) \<and> fn (tasks s' ! j) = Some f"
  using assms(1-4,6,7)
proof (induction gs arbitrary: s w)
  case Nil
  then show ?case by (auto intro!: exI [of _ "[]"] none)
next
  case (Cons g gs)
  let ?now = "fst (crit_now p (g w))"
  let ?order = "dispatch_order (marked ?now s)"
  have g: "ok (g w)" "R [] w (g w)" using Cons.prems(3,4) by simp_all
  have c: "crit_now p (g w) = (?now, snd (crit_now p (g w)))" by simp
  obtain s2 :: "('f, 'c, 'h) sch" and s3 w3 where r: "sch_run cfg p env (Some s) (g w) = Some (Some s3, w3)"
    and calls: "R (map (slot_fn s) ?order @ map (slot_fn s2) (take 1 (background_ring s2))) (g w) w3"
    using run_calls [OF Cons.prems(1,2) g(1) c, of cfg] by blast
  obtain s1 w1 where "sch_run cfg p env (Some s) (g w) = Some (Some s1, w1)"
    and s1: "sch_wf s1" "sch_quiet s1" "ok w1"
      "\<forall>j<SCH_MAX_TASKS. in_use (tasks s ! j) \<longrightarrow> tasks s1 ! j = run_task ?now (tasks s ! j)"
    using run_step [OF Cons.prems(1,2) g(1), of cfg] by blast
  with r have s3: "sch_wf s3" "sch_quiet s3" "ok w3" "tasks s3 ! j = run_task ?now (tasks s ! j)"
    using Cons.prems(5) assms(5) by simp_all
  have slot: "in_use (tasks s3 ! j)" "fn (tasks s3 ! j) = Some f"
    using Cons.prems(5,6) s3(4) by (simp_all add: run_task_def)
  have "\<forall>g\<in>set gs. \<forall>w. ok w \<longrightarrow> ok (g w) \<and> R [] w (g w)" using Cons.prems(4) by simp
  from Cons.IH [OF s3(1-3) this slot] obtain polls s' w' fs where
    rest: "run_seq cfg p env gs (Some s3) w3 = Some (polls, Some s', w')" "R fs w3 w'"
      "dispatches j polls \<le> count_list fs f"
    and "end": "sch_wf s'" "sch_quiet s'" "ok w'" "in_use (tasks s' ! j)" "fn (tasks s' ! j) = Some f" by blast
  let ?fs = "map (slot_fn s) ?order @ map (slot_fn s2) (take 1 (background_ring s2))"
  have "1 \<le> count_list ?fs f" if "j \<in> set ?order"
  proof -
    have "slot_fn s j = f" using Cons.prems(6) by (simp add: slot_fn_def)
    with that have "f \<in> set (map (slot_fn s) ?order)" by (force simp: image_iff)
    then have "count_list (map (slot_fn s) ?order) f \<noteq> 0" by (simp add: count_list_0_iff)
    then show ?thesis by (simp add: count_list_append)
  qed
  then have "dispatches j ((?now, ?order) # polls) \<le> count_list (?fs @ fs) f"
    using rest(3) by (auto simp: count_list_append)
  moreover have "R (?fs @ fs) w w'" by (rule join_before [OF g(2) join [OF calls rest(2)]])
  moreover have "run_seq cfg p env (g # gs) (Some s) w = Some ((?now, ?order) # polls, Some s', w')"
    using r rest(1) by (simp add: Let_def)
  ultimately show ?case using "end" by blast
qed

text \<open>With the slot on its grid, the grid says how often.\<close>

lemma run_seq_met:
  assumes "sch_wf s" and "sch_quiet s" and "ok w" and "\<forall>g\<in>set gs. \<forall>w. ok w \<longrightarrow> ok (g w) \<and> R [] w (g w)"
    and "j < SCH_MAX_TASKS" and "fn (tasks s ! j) = Some f"
    and "tracks r period T0 lo (tasks s ! j)" and "0 < period" and "period \<le> 2 ^ 31"
  shows "\<exists>polls s' w' fs. run_seq cfg p env gs (Some s) w = Some (polls, Some s', w') \<and> R fs w w' \<and> ok w' \<and>
    sch_wf s' \<and> sch_quiet s' \<and>
    (\<forall>Ts. map fst polls = map of_nat Ts \<longrightarrow> polls_close T0 Ts \<longrightarrow> releases_met r period lo Ts \<le> count_list fs f)"
proof -
  have used: "in_use (tasks s ! j)" using assms(7) by (simp add: tracks_def)
  from run_seq_calls [OF assms(1-5) used assms(6), of cfg] obtain polls s' w' fs where
    r: "run_seq cfg p env gs (Some s) w = Some (polls, Some s', w')" "R fs w w'" "dispatches j polls \<le> count_list fs f"
      "ok w'" "sch_wf s'" "sch_quiet s'" by blast
  have "releases_met r period lo Ts \<le> count_list fs f" if "map fst polls = map of_nat Ts" "polls_close T0 Ts" for Ts
  proof -
    have "\<forall>g\<in>set gs. \<forall>w. ok w \<longrightarrow> ok (g w)" using assms(4) by simp
    from dispatches_met [OF run_seq_cadence [OF assms(1-3) this r(1) that assms(5,7-9)]] r(3) show ?thesis by simp
  qed
  then show ?thesis using r by blast
qed

text \<open>
  Two stretches of polls: in the second, too, the function is called as often as the grid says.
\<close>

lemma run_seq_met_after:
  assumes "sch_wf s" and "sch_quiet s" and "ok w" and "\<forall>g\<in>set (gs @ hs). \<forall>w. ok w \<longrightarrow> ok (g w) \<and> R [] w (g w)"
    and "j < SCH_MAX_TASKS" and "fn (tasks s ! j) = Some f"
    and "tracks r period T0 lo (tasks s ! j)" and "0 < period" and "period \<le> 2 ^ 31"
  shows "\<exists>polls1 s1 w1 fs1 polls2 s2 w2 fs2.
    run_seq cfg p env gs (Some s) w = Some (polls1, Some s1, w1) \<and> R fs1 w w1 \<and> ok w1 \<and>
    run_seq cfg p env hs (Some s1) w1 = Some (polls2, Some s2, w2) \<and> R fs2 w1 w2 \<and> ok w2 \<and>
    (\<forall>Ts. map fst (polls1 @ polls2) = map of_nat Ts \<longrightarrow> polls_close T0 Ts \<longrightarrow>
      releases_after (length gs) r period lo Ts \<le> count_list fs2 f)"
proof -
  have used: "in_use (tasks s ! j)" using assms(7) by (simp add: tracks_def)
  have gs: "\<forall>g\<in>set gs. \<forall>w. ok w \<longrightarrow> ok (g w) \<and> R [] w (g w)" "\<forall>g\<in>set hs. \<forall>w. ok w \<longrightarrow> ok (g w) \<and> R [] w (g w)"
    using assms(4) by simp_all
  from run_seq_calls [OF assms(1-3) gs(1) assms(5) used assms(6), of cfg] obtain polls1 s1 w1 fs1 where
    1: "run_seq cfg p env gs (Some s) w = Some (polls1, Some s1, w1)" "R fs1 w w1"
      "sch_wf s1" "sch_quiet s1" "ok w1" "in_use (tasks s1 ! j)" "fn (tasks s1 ! j) = Some f" by blast
  from run_seq_calls [OF 1(3-5) gs(2) assms(5) 1(6,7), of cfg] obtain polls2 s2 w2 fs2 where
    2: "run_seq cfg p env hs (Some s1) w1 = Some (polls2, Some s2, w2)" "R fs2 w1 w2" "ok w2"
      "dispatches j polls2 \<le> count_list fs2 f" by blast
  have "releases_after (length gs) r period lo Ts \<le> count_list fs2 f"
    if "map fst (polls1 @ polls2) = map of_nat Ts" "polls_close T0 Ts" for Ts
  proof -
    have "\<forall>g\<in>set (gs @ hs). \<forall>w. ok w \<longrightarrow> ok (g w)" using assms(4) by simp
    note grid = run_seq_cadence [OF assms(1-3) this run_seq_append [OF 1(1) 2(1)] that(1,2) assms(5,7-9)]
    from dispatches_after [OF grid] run_seq_length [OF 1(1)] show ?thesis using 2(4) by simp
  qed
  then show ?thesis using 1(1,2,5) 2(1-3) by blast
qed

end

end
