(* ===== verification/Irq_Service.thy ===== *)
theory Irq_Service
  imports Typed_Ring
begin

text \<open>
  The contract shared by the services that turn interrupts into records and dispatch the
  records from task context (Ethernet, FSI, IPC): the interrupt entry acknowledges, queues one
  record and leaves a hint; the run function consumes the hint and dispatches at most a budget
  of records in order. What a client may conclude is proved once: what a burst of interrupts
  leaves, that consecutive runs dispatch every retained record exactly once and in order, and
  that a hint is never needed for it.
\<close>

section \<open>Pieces\<close>

text \<open>Interrupts in sequence, and a number of consecutive runs.\<close>

fun isr_all :: "('e \<Rightarrow> 's \<Rightarrow> 'w \<Rightarrow> ('s \<times> 'w) option) \<Rightarrow> 'e list \<Rightarrow> 's \<Rightarrow> 'w \<Rightarrow> ('s \<times> 'w) option" where
  "isr_all isr [] s w = Some (s, w)"
| "isr_all isr (e # es) s w = do { (s, w) \<leftarrow> isr e s w; isr_all isr es s w }"

fun run_times :: "('s \<Rightarrow> 'w \<Rightarrow> ('s \<times> 'w) option) \<Rightarrow> nat \<Rightarrow> 's \<Rightarrow> 'w \<Rightarrow> ('s \<times> 'w) option" where
  "run_times run 0 s w = Some (s, w)"
| "run_times run (Suc n) s w = do { (s, w) \<leftarrow> run s w; run_times run n s w }"

text \<open>
  The platform after one run: the section that consumes the hint, the emptiness check when
  there was no hint, and the drain unless there was nothing to do.
\<close>

definition service_world ::
  "('w \<Rightarrow> 'w) \<Rightarrow> ('a \<Rightarrow> 'w \<Rightarrow> 'w) \<Rightarrow> nat \<Rightarrow> bool \<Rightarrow> 'a list \<Rightarrow> 'w \<Rightarrow> 'w" where
  "service_world bracket eff budget hinted xs w =
     (let w = bracket w; w = (if hinted then w else bracket w)
      in if \<not> hinted \<and> xs = [] then w else drain_world bracket eff budget xs w)"

text \<open>
  An observer of the platform: a log that grows by \<open>seen e\<close> with the handling of \<open>e\<close> (nothing,
  for an event that no handler takes) and that critical sections do not touch.
\<close>

definition observes ::
  "('w \<Rightarrow> 'b list) \<Rightarrow> ('e \<Rightarrow> 'b list) \<Rightarrow> ('w \<Rightarrow> 'w) \<Rightarrow> ('e \<Rightarrow> 'w \<Rightarrow> 'w) \<Rightarrow> bool" where
  "observes log seen bracket handle \<longleftrightarrow>
     (\<forall>w. log (bracket w) = log w) \<and> (\<forall>e w. log (handle e w) = log w @ seen e)"

lemma observes_drain:
  assumes "observes log seen bracket handle" and "\<forall>e. eff (r e) = handle e"
  shows "log (drain_world bracket eff n (map r es) w) = log w @ concat (map seen (take n es))"
proof (induction n arbitrary: es w)
  case (Suc n)
  with assms show ?case by (cases es) (simp_all add: observes_def)
qed simp

lemma observes_service:
  assumes "observes log seen bracket handle" and "\<forall>e. eff (r e) = handle e"
  shows "log (service_world bracket eff budget hinted (map r es) w) = log w @ concat (map seen (take budget es))"
  using assms observes_drain [where eff = eff and r = r, OF assms]
  by (simp add: service_world_def Let_def observes_def)

section \<open>The contract\<close>

locale irq_service =
  fixes isr :: "'e \<Rightarrow> 's \<Rightarrow> 'w \<Rightarrow> ('s \<times> 'w) option"
    and run :: "'s \<Rightarrow> 'w \<Rightarrow> ('s \<times> 'w) option"
    and bracket :: "'w \<Rightarrow> 'w"
    and invar :: "'s \<Rightarrow> bool"
    and items :: "'s \<Rightarrow> 'a list"
    and bound :: "'s \<Rightarrow> nat"
    and newest :: "'s \<Rightarrow> bool"
    and lost :: "'s \<Rightarrow> size_t"
    and hinted :: "'s \<Rightarrow> bool"
    and budget :: "'s \<Rightarrow> nat"
    and record_of :: "'e \<Rightarrow> 'a"
    and ack :: "'s \<Rightarrow> 'e \<Rightarrow> 'w \<Rightarrow> 'w"
    and eff :: "'s \<Rightarrow> 'a \<Rightarrow> 'w \<Rightarrow> 'w"
  assumes isr_eq: "invar s \<Longrightarrow> \<exists>s'. isr e s w = Some (s', bracket (bracket (ack s e w))) \<and> invar s' \<and>
      items s' = bounded_push (bound s) (newest s) (items s) (record_of e) \<and> hinted s' \<and>
      lost s' = (if length (items s) = bound s then lost s + 1 else lost s) \<and>
      bound s' = bound s \<and> newest s' = newest s \<and> budget s' = budget s \<and> ack s' = ack s \<and> eff s' = eff s"
    and run_eq: "invar s \<Longrightarrow> \<exists>s'. run s w =
        Some (s', service_world bracket (eff s) (budget s) (hinted s) (items s) w) \<and> invar s' \<and>
      items s' = drop (budget s) (items s) \<and> \<not> hinted s' \<and> lost s' = lost s \<and>
      bound s' = bound s \<and> newest s' = newest s \<and> budget s' = budget s \<and> ack s' = ack s \<and> eff s' = eff s"
    and items_bound: "invar s \<Longrightarrow> length (items s) \<le> bound s"
    and bound_pos: "invar s \<Longrightarrow> 0 < bound s"
    and budget_pos: "invar s \<Longrightarrow> 0 < budget s"
begin

text \<open>A burst is retained as far as the capacity goes; what is lost is counted.\<close>

lemma isr_burst:
  assumes "invar s"
  shows "\<exists>s' w'. isr_all isr es s w = Some (s', w') \<and> invar s' \<and>
    items s' = foldl (bounded_push (bound s) (newest s)) (items s) (map record_of es) \<and>
    (es \<noteq> [] \<longrightarrow> hinted s') \<and>
    lost s' = lost s + of_nat (length (items s) + length es - bound s) \<and>
    bound s' = bound s \<and> newest s' = newest s \<and> budget s' = budget s \<and> eff s' = eff s"
  using assms
proof (induction es arbitrary: s w)
  case Nil
  then show ?case using items_bound [OF Nil] by simp
next
  case (Cons e es)
  obtain s1 where s1: "isr e s w = Some (s1, bracket (bracket (ack s e w)))" "invar s1"
    "items s1 = bounded_push (bound s) (newest s) (items s) (record_of e)" "hinted s1"
    "lost s1 = (if length (items s) = bound s then lost s + 1 else lost s)"
    "bound s1 = bound s" "newest s1 = newest s" "budget s1 = budget s" "eff s1 = eff s"
    using isr_eq [OF Cons.prems, of e w] by blast
  obtain s2 w2 where s2: "isr_all isr es s1 (bracket (bracket (ack s e w))) = Some (s2, w2)" "invar s2"
    "items s2 = foldl (bounded_push (bound s1) (newest s1)) (items s1) (map record_of es)"
    "es \<noteq> [] \<longrightarrow> hinted s2" "lost s2 = lost s1 + of_nat (length (items s1) + length es - bound s1)"
    "bound s2 = bound s1" "newest s2 = newest s1" "budget s2 = budget s1" "eff s2 = eff s1"
    using Cons.IH [OF s1(2), of "bracket (bracket (ack s e w))"] by blast
  have le: "length (items s) \<le> bound s" "0 < bound s"
    using items_bound bound_pos Cons.prems by simp_all
  have "length (items s1) = (if length (items s) = bound s then bound s else Suc (length (items s)))"
    using le by (auto simp: s1(3) bounded_push_def)
  then have lost: "lost s2 = lost s + of_nat (length (items s) + length (e # es) - bound s)"
    using le by (simp add: s2(5) s1(5,6))
  have hint: "hinted s2"
    using s2(1,4) s1(4) by (cases es) simp_all
  have "isr_all isr (e # es) s w = Some (s2, w2)" using s1(1) s2(1) by simp
  moreover have "items s2 = foldl (bounded_push (bound s) (newest s)) (items s) (map record_of (e # es))"
    by (simp add: s2(3) s1(3,6,7))
  ultimately show ?case
    using s2(2) lost hint s2(6-9) s1(6-9) by metis
qed

text \<open>Consecutive runs handle the held events in order, a budget per run.\<close>

lemma runs_dispatch:
  assumes "invar s" and "items s = map record_of es"
    and "observes log seen bracket handle" and "\<forall>e. eff s (record_of e) = handle e"
  shows "\<exists>s' w'. run_times run n s w = Some (s', w') \<and> invar s' \<and>
    log w' = log w @ concat (map seen (take (n * budget s) es)) \<and>
    items s' = map record_of (drop (n * budget s) es) \<and> lost s' = lost s \<and> (0 < n \<longrightarrow> \<not> hinted s') \<and>
    bound s' = bound s \<and> newest s' = newest s \<and> budget s' = budget s \<and> eff s' = eff s"
  using assms
proof (induction n arbitrary: s w es)
  case 0
  then show ?case by simp
next
  case (Suc n)
  let ?w = "service_world bracket (eff s) (budget s) (hinted s) (items s) w"
  obtain s1 where s1: "run s w = Some (s1, ?w)" "invar s1" "items s1 = map record_of (drop (budget s) es)"
    "\<not> hinted s1" "lost s1 = lost s" "bound s1 = bound s" "newest s1 = newest s"
    "budget s1 = budget s" "eff s1 = eff s"
    using run_eq [OF Suc.prems(1), of w] Suc.prems(2) by (auto simp: drop_map)
  obtain s2 w2 where s2: "run_times run n s1 ?w = Some (s2, w2)" "invar s2"
    "log w2 = log ?w @ concat (map seen (take (n * budget s) (drop (budget s) es)))"
    "items s2 = map record_of (drop (n * budget s) (drop (budget s) es))"
    "lost s2 = lost s1" "0 < n \<longrightarrow> \<not> hinted s2" "bound s2 = bound s1" "newest s2 = newest s1"
    "budget s2 = budget s1" "eff s2 = eff s1"
    using Suc.IH [OF s1(2,3) Suc.prems(3), of ?w] Suc.prems(4) s1(8,9) by auto
  have "take (budget s) es @ take (n * budget s) (drop (budget s) es) = take (Suc n * budget s) es"
    by (simp add: take_add)
  moreover have "0 < Suc n \<longrightarrow> \<not> hinted s2"
    using s2(1,6) s1(4) by (cases n) auto
  ultimately show ?case
    using s1 s2 Suc.prems(2) observes_service [where eff = "eff s" and r = record_of, OF Suc.prems(3,4)]
    by (simp add: drop_drop add.commute flip: concat_append map_append)
qed

text \<open>
  Burst, then enough runs: every interrupt whose record was retained has been handled, once, in
  the order of the interrupts, after those that were pending before.
\<close>

lemma interrupts_served:
  assumes "invar s" and "items s = map record_of es0" and "bound s \<le> n * budget s"
    and "observes log seen bracket handle" and "\<forall>e. eff s (record_of e) = handle e"
  shows "\<exists>s1 w1 s' w'. isr_all isr es s w = Some (s1, w1) \<and> run_times run n s1 w1 = Some (s', w') \<and>
    invar s' \<and> items s' = [] \<and>
    log w' = log w1 @ concat (map seen (retained (bound s) (newest s) (es0 @ es))) \<and>
    lost s' = lost s + of_nat (length (es0 @ es) - bound s)"
proof -
  obtain s1 w1 where s1: "isr_all isr es s w = Some (s1, w1)" "invar s1"
    "items s1 = foldl (bounded_push (bound s) (newest s)) (items s) (map record_of es)"
    "lost s1 = lost s + of_nat (length (items s) + length es - bound s)"
    "bound s1 = bound s" "budget s1 = budget s" "eff s1 = eff s"
    using isr_burst [OF assms(1), of es w] by blast
  have items: "items s1 = map record_of (retained (bound s) (newest s) (es0 @ es))"
    using s1(3) items_bound [OF assms(1)] bound_pos [OF assms(1)]
    by (simp add: bounded_burst assms(2) flip: map_append retained_map)
  have "length (retained (bound s) (newest s) (es0 @ es)) \<le> n * budget s1"
    using items_bound [OF s1(2)] s1(5,6) assms(3) unfolding items by simp
  moreover have "length (items s) = length es0" by (simp add: assms(2))
  ultimately show ?thesis
    using runs_dispatch [OF s1(2) items assms(4), of n w1] assms(5) s1 by auto
qed

end

end
