(* ===== verification/Served_Tasks.thy ===== *)
theory Served_Tasks
  imports Scheduler_Polls Irq_Service
begin

text \<open>
  A service under the scheduler: the documents of the services ask to register the run function
  of the service as a scheduler task. An application is modelled in which that task exists beside
  others that leave the service alone. Interrupts that arrived are then served by the polls of
  the scheduler, in a time that the release grid of the service's task determines.
\<close>

section \<open>The application\<close>

text \<open>
  The state of the whole system is the service object and the platform; the hooks of the port
  act on the platform. The other functions of the application may do to the scheduler and to the
  platform what their contract below allows.
\<close>

definition beside :: "'v port \<Rightarrow> ('s \<times> 'v) port" where
  "beside p =
     \<lparr>sch_port_now_ticks = (\<lambda>(s, v). let (t, v) = sch_port_now_ticks p v in (t, s, v)),
      sch_port_enter_critical = (\<lambda>(s, v). let (state, v) = sch_port_enter_critical p v in (state, s, v)),
      sch_port_exit_critical = (\<lambda>state (s, v). (s, sch_port_exit_critical p state v)),
      sch_port_idle = (\<lambda>(s, v). (s, sch_port_idle p v))\<rparr>"

datatype 'g app_fn = Service_Task | Other_Task 'g

definition service_app ::
  "('s \<Rightarrow> 'v \<Rightarrow> ('s \<times> 'v) option) \<Rightarrow> ('g app_fn, 'c, 'h, 'v) sch_env \<Rightarrow> ('g app_fn, 'c, 'h, 's \<times> 'v) sch_env" where
  "service_app run env =
     \<lparr>call_task = (\<lambda>f c sc (s, v). case f of
         Service_Task \<Rightarrow> do { (s, v) \<leftarrow> run s v; Some (sc, s, v) }
       | Other_Task g \<Rightarrow> do { (sc, v) \<leftarrow> call_task env f c sc v; Some (sc, s, v) }),
      call_hook = (\<lambda>h e i t c (s, v). (s, call_hook env h e i t c v))\<rparr>"

lemma beside_simps [simp]:
  "snd (sch_port_now_ticks (beside p) (s, v)) = (s, snd (sch_port_now_ticks p v))"
  "snd (sch_port_enter_critical (beside p) (s, v)) = (s, snd (sch_port_enter_critical p v))"
  "sch_port_exit_critical (beside p) state (s, v) = (s, sch_port_exit_critical p state v)"
  "sch_port_idle (beside p) (s, v) = (s, sch_port_idle p v)"
  by (simp_all add: beside_def split_beta)

lemma service_app_hook [simp]: "call_hook (service_app run env) h e i t c (s, v) = (s, call_hook env h e i t c v)"
  by (simp add: service_app_def)

lemma service_app_call [simp]:
  "call_task (service_app run env) Service_Task c sc (s, v) = map_option (Pair sc) (run s v)"
  "call_task (service_app run env) (Other_Task g) c sc (s, v) =
     map_option (\<lambda>(sc, v). (sc, s, v)) (call_task env (Other_Task g) c sc v)"
  by (cases "run s v"; simp add: service_app_def split_beta)
    (cases "call_task env (Other_Task g) c sc v"; simp add: service_app_def split_beta)

text \<open>
  A log that the hooks of the port, the trace hook and the tasks of the application leave alone,
  other than those of the services; these tasks return and respect the frame of the scheduler.
\<close>

definition leaves_but :: "'f set \<Rightarrow> 'v port \<Rightarrow> ('f, 'c, 'h, 'v) sch_env \<Rightarrow> ('v \<Rightarrow> 'l) \<Rightarrow> bool" where
  "leaves_but services p env log \<longleftrightarrow>
     (\<forall>v. log (snd (sch_port_now_ticks p v)) = log v) \<and>
     (\<forall>v. log (snd (sch_port_enter_critical p v)) = log v) \<and>
     (\<forall>state v. log (sch_port_exit_critical p state v) = log v) \<and>
     (\<forall>v. log (sch_port_idle p v) = log v) \<and>
     (\<forall>h e i t c v. log (call_hook env h e i t c v) = log v) \<and>
     (\<forall>sc f c v. sch_wf sc \<longrightarrow> f \<notin> services \<longrightarrow> (\<exists>sc' v'. call_task env f c sc v = Some (sc', v') \<and>
        task_frame sc sc' \<and> log v' = log v))"

definition leaves_log :: "'v port \<Rightarrow> ('g app_fn, 'c, 'h, 'v) sch_env \<Rightarrow> ('v \<Rightarrow> 'l) \<Rightarrow> bool" where
  "leaves_log = leaves_but {Service_Task}"

lemma other_task: "f \<noteq> Service_Task \<longleftrightarrow> (\<exists>g. f = Other_Task g)"
  by (cases f) simp_all

section \<open>The contract\<close>

text \<open>
  An interrupt service, and a platform on which a log shows the events that were handled: the
  hooks of the port, the trace hook and the other tasks of the application do not write to it.
\<close>

locale served_app = irq_service isr run bracket invar items bound newest lost hinted budget record_of ack eff
  for isr :: "'e \<Rightarrow> 's \<Rightarrow> 'v \<Rightarrow> ('s \<times> 'v) option"
    and run :: "'s \<Rightarrow> 'v \<Rightarrow> ('s \<times> 'v) option"
    and bracket :: "'v \<Rightarrow> 'v"
    and invar :: "'s \<Rightarrow> bool"
    and items :: "'s \<Rightarrow> 'a list"
    and bound :: "'s \<Rightarrow> nat"
    and newest :: "'s \<Rightarrow> bool"
    and lost :: "'s \<Rightarrow> size_t"
    and hinted :: "'s \<Rightarrow> bool"
    and budget :: "'s \<Rightarrow> nat"
    and record_of :: "'e \<Rightarrow> 'a"
    and ack :: "'s \<Rightarrow> 'e \<Rightarrow> 'v \<Rightarrow> 'v"
    and eff :: "'s \<Rightarrow> 'a \<Rightarrow> 'v \<Rightarrow> 'v" +
  fixes p :: "'v port"
    and env :: "('g app_fn, 'c, 'h, 'v) sch_env"
    and log :: "'v \<Rightarrow> 'b list"
    and seen :: "'e \<Rightarrow> 'b list"
    and handle :: "'e \<Rightarrow> 'v \<Rightarrow> 'v"
  assumes shown: "observes log seen bracket handle"
    and now_log: "log (snd (sch_port_now_ticks p v)) = log v"
    and enter_log: "log (snd (sch_port_enter_critical p v)) = log v"
    and exit_log: "log (sch_port_exit_critical p state v) = log v"
    and idle_log: "log (sch_port_idle p v) = log v"
    and hook_log: "log (call_hook env h e i t c v) = log v"
    and other_calls: "sch_wf sc \<Longrightarrow> \<exists>sc' v'. call_task env (Other_Task g) c sc v = Some (sc', v') \<and>
      task_frame sc sc' \<and> log v' = log v"
begin

text \<open>What \<open>n\<close> runs of the service do, whatever else happens on the platform meanwhile.\<close>

definition serves :: "nat \<Rightarrow> 's \<times> 'v \<Rightarrow> 's \<times> 'v \<Rightarrow> bool" where
  "serves n w w' \<longleftrightarrow> (\<forall>es. invar (fst w) \<and> items (fst w) = map record_of es \<and>
       (\<forall>e. eff (fst w) (record_of e) = handle e) \<longrightarrow>
     invar (fst w') \<and> items (fst w') = map record_of (drop (n * budget (fst w)) es) \<and>
     eff (fst w') = eff (fst w) \<and> budget (fst w') = budget (fst w) \<and> lost (fst w') = lost (fst w) \<and>
     log (snd w') = log (snd w) @ concat (map seen (take (n * budget (fst w)) es)))"

lemma serves_none: "log v' = log v \<Longrightarrow> serves 0 (s, v) (s, v')"
  by (simp add: serves_def)

lemma serves_join:
  assumes "serves m u v" and "serves n v w"
  shows "serves (m + n) u w"
  unfolding serves_def
proof (intro allI impI)
  fix es
  let ?b = "budget (fst u)"
  assume u: "invar (fst u) \<and> items (fst u) = map record_of es \<and> (\<forall>e. eff (fst u) (record_of e) = handle e)"
  then have v: "invar (fst v)" "items (fst v) = map record_of (drop (m * ?b) es)" "eff (fst v) = eff (fst u)"
    "budget (fst v) = ?b" "lost (fst v) = lost (fst u)" "log (snd v) = log (snd u) @ concat (map seen (take (m * ?b) es))"
    using assms(1) by (simp_all add: serves_def)
  then have w: "invar (fst w)" "items (fst w) = map record_of (drop (n * ?b) (drop (m * ?b) es))" "eff (fst w) = eff (fst u)"
    "budget (fst w) = ?b" "lost (fst w) = lost (fst u)"
    "log (snd w) = log (snd v) @ concat (map seen (take (n * ?b) (drop (m * ?b) es)))"
    using assms(2) u by (simp_all add: serves_def)
  have "take (m * ?b) es @ take (n * ?b) (drop (m * ?b) es) = take ((m + n) * ?b) es"
    by (simp add: take_add add_mult_distrib)
  then show "invar (fst w) \<and> items (fst w) = map record_of (drop ((m + n) * ?b) es) \<and>
      eff (fst w) = eff (fst u) \<and> budget (fst w) = ?b \<and> lost (fst w) = lost (fst u) \<and>
      log (snd w) = log (snd u) @ concat (map seen (take ((m + n) * ?b) es))"
    using v(6) w by (simp add: drop_drop add_mult_distrib add.commute flip: concat_append map_append)
qed

lemma serves_run:
  assumes "run s v = Some (s', v')"
  shows "serves 1 (s, v) (s', v')"
proof -
  have "run_times run 1 s v = Some (s', v')" using assms by simp
  then show ?thesis
    using runs_dispatch [where n = 1 and s = s and w = v, OF _ _ shown] by (fastforce simp: serves_def)
qed

lemma serves_call:
  assumes "sch_wf sc" and "call_task (service_app run env) f c sc w = Some (sc', w')"
  shows "serves (count_list [f] Service_Task) w w'"
proof (cases f)
  case Service_Task
  then show ?thesis using assms(2) serves_run by (cases w; cases w') auto
next
  case (Other_Task g)
  then show ?thesis using assms other_calls [of sc g c "snd w"] serves_none by (cases w; cases w') auto
qed

lemma run_defined: "invar s \<Longrightarrow> \<exists>s' v'. run s v = Some (s', v') \<and> invar s'"
  using run_eq [of s v] by blast

end

sublocale served_app \<subseteq> app: called_run "beside p" "service_app run env" "\<lambda>w. invar (fst w)"
  "\<lambda>fs. serves (count_list fs Service_Task)"
proof unfold_locales
  fix f c and w :: "'s \<times> 'v" and sc :: "('g app_fn, 'c, 'h) sch"
  assume "sch_wf sc" and "invar (fst w)"
  then show "\<exists>sc' w'. call_task (service_app run env) f c sc w = Some (sc', w') \<and> task_frame sc sc' \<and> invar (fst w')"
    using run_defined [of "fst w" "snd w"] other_calls [of sc _ c "snd w"] frame_refl [of sc]
    by (cases w; cases f) fastforce+
next
  fix fs gs :: "'g app_fn list" and u v w :: "'s \<times> 'v"
  assume "serves (count_list fs Service_Task) u v" "serves (count_list gs Service_Task) v w"
  then show "serves (count_list (fs @ gs) Service_Task) u w" using serves_join by (simp add: count_list_append)
next
  fix f c sc' and w w' :: "'s \<times> 'v" and sc :: "('g app_fn, 'c, 'h) sch"
  assume "sch_wf sc" and "call_task (service_app run env) f c sc w = Some (sc', w')"
  then show "serves (count_list [f] Service_Task) w w'" by (rule serves_call)
qed (auto simp: split_paired_all serves_none now_log enter_log exit_log idle_log hook_log)

section \<open>Response time\<close>

context served_app
begin

text \<open>
  A burst of interrupts on top of what was pending is served completely as soon as the polls have
  met enough points of the release grid of the task of the service.
\<close>

lemma served_in_time:
  assumes "invar s" and "items s = map record_of es0" and "\<forall>e. eff s (record_of e) = handle e"
    and "sch_wf sc" and "sch_quiet sc" and "j < SCH_MAX_TASKS" and "fn (tasks sc ! j) = Some Service_Task"
    and "tracks R period T0 lo (tasks sc ! j)" and "0 < period" and "period \<le> 2 ^ 31"
    and "\<forall>g\<in>set gs. \<forall>w. fst (g w) = fst w \<and> log (snd (g w)) = log (snd w)"
  shows "\<exists>s1 v1 polls sc' w'. isr_all isr es s v = Some (s1, v1) \<and>
    run_seq cfg (beside p) (service_app run env) gs (Some sc) (s1, v1) = Some (polls, Some sc', w') \<and>
    (\<forall>Ts. map fst polls = map of_nat Ts \<and> polls_close T0 Ts \<and> bound s \<le> releases_met R period lo Ts * budget s \<longrightarrow>
      invar (fst w') \<and> items (fst w') = [] \<and>
      log (snd w') = log v1 @ concat (map seen (retained (bound s) (newest s) (es0 @ es))) \<and>
      lost (fst w') = lost s + of_nat (length (es0 @ es) - bound s))"
proof -
  obtain s1 v1 where s1: "isr_all isr es s v = Some (s1, v1)" "invar s1"
    "items s1 = foldl (bounded_push (bound s) (newest s)) (items s) (map record_of es)"
    "lost s1 = lost s + of_nat (length (items s) + length es - bound s)"
    "bound s1 = bound s" "budget s1 = budget s" "eff s1 = eff s"
    using isr_burst [OF assms(1), of es v] by blast
  then have items: "items s1 = map record_of (retained (bound s) (newest s) (es0 @ es))"
    using assms(2) items_bound [OF assms(1)] bound_pos [OF assms(1)]
    by (simp add: bounded_burst flip: map_append retained_map)
  have "serves 0 w (g w)" if "g \<in> set gs" for g w
  proof -
    have "fst (g w) = fst w" "log (snd (g w)) = log (snd w)" using assms(11) that by blast+
    then show ?thesis using serves_none [of "snd (g w)" "snd w" "fst w"] by (metis prod.collapse)
  qed
  then have gs: "\<forall>g\<in>set gs. \<forall>w. invar (fst w) \<longrightarrow> invar (fst (g w)) \<and> serves (count_list [] Service_Task) w (g w)"
    using assms(11) by simp
  have "invar (fst (s1, v1))" using s1(2) by simp
  from app.run_seq_met [OF assms(4,5) this gs assms(6-10), of cfg] obtain polls sc' w' and fs :: "'g app_fn list" where
    polls: "run_seq cfg (beside p) (service_app run env) gs (Some sc) (s1, v1) = Some (polls, Some sc', w')"
    and fs: "serves (count_list fs Service_Task) (s1, v1) w'"
    and met: "\<forall>Ts. map fst polls = map of_nat Ts \<longrightarrow> polls_close T0 Ts \<longrightarrow>
      releases_met R period lo Ts \<le> count_list fs Service_Task" by blast
  let ?kept = "retained (bound s) (newest s) (es0 @ es)"
  have "invar (fst w') \<and> items (fst w') = [] \<and> log (snd w') = log v1 @ concat (map seen ?kept) \<and> lost (fst w') = lost s1"
    if "map fst polls = map of_nat Ts" "polls_close T0 Ts" "bound s \<le> releases_met R period lo Ts * budget s" for Ts
  proof -
    have "bound s \<le> count_list fs Service_Task * budget s" using met that by (meson le_trans mult_le_mono1)
    then have "length ?kept \<le> count_list fs Service_Task * budget s1"
      using items_bound [OF s1(2)] s1(5,6) unfolding items by simp
    moreover have "\<forall>e. eff s1 (record_of e) = handle e" using assms(3) s1(7) by simp
    ultimately show ?thesis using fs s1(2) items unfolding serves_def by simp
  qed
  then show ?thesis using s1(1,4) polls assms(2) by (intro exI conjI) auto
qed

end

end
