(* ===== verification/Resumption.thy ===== *)
theory Resumption
  imports Irq_Service
begin

text \<open>
  Programs of atomic steps. A run function that interrupts may preempt is a tree of its critical
  sections and callbacks; each step says what is left to do. Running the tree to its end without
  interrupts gives the C function; an execution interleaves its steps with interrupt entries. What
  holds in every execution is proved with \<open>withstands\<close>, a weakest precondition that lets any
  interrupts arrive before each step, and a rule for the drain loops of the services.
\<close>

section \<open>Programs\<close>

datatype ('s, 'w) prog = Stop | Step "'s \<Rightarrow> 'w \<Rightarrow> (('s, 'w) prog \<times> 's \<times> 'w) option"

text \<open>The rest of a program, undisturbed. A tree has no infinite branch, so this always ends.\<close>

primrec finish :: "('s, 'w) prog \<Rightarrow> 's \<Rightarrow> 'w \<Rightarrow> ('s \<times> 'w) option" where
  "finish Stop = (\<lambda>s w. Some (s, w))"
| "finish (Step f) = (\<lambda>s w. case map_option (map_prod finish id) (f s w) of
     None \<Rightarrow> None | Some (rest, s, w) \<Rightarrow> rest s w)"

lemma finish_Step: "finish (Step f) s w = do { (c, s, w) \<leftarrow> f s w; finish c s w }"
  by (cases "f s w") (simp_all add: split_beta)

declare finish.simps(2) [simp del] finish_Step [simp]

lemma map_bind: "map_option g (Option.bind x h) = Option.bind x (\<lambda>y. map_option g (h y))"
  by (cases x) simp_all

text \<open>The drain loop of the services, cut into its pops and the handling of what was popped.\<close>

fun drain_prog ::
  "nat \<Rightarrow> ('s \<Rightarrow> 'a \<Rightarrow> 'w \<Rightarrow> (bool \<times> 'a \<times> 's \<times> 'w) option) \<Rightarrow>
   ('a \<Rightarrow> 's \<Rightarrow> 'w \<Rightarrow> (bool \<times> 's \<times> 'w) option) \<Rightarrow> ('s, 'w) prog \<Rightarrow> 'a \<Rightarrow> ('s, 'w) prog" where
  "drain_prog 0 pop body k x = k"
| "drain_prog (Suc n) pop body k x = Step (\<lambda>s w. do {
     (ok, x, s, w) \<leftarrow> pop s x w;
     Some (if ok
           then Step (\<lambda>s w. do {
             (continue, s, w) \<leftarrow> body x s w;
             Some (if continue then drain_prog n pop body k x else k, s, w)
           })
           else k, s, w)
   })"

lemma finish_drain:
  "finish (drain_prog n pop body k x) s w = do { (s, x, w) \<leftarrow> drain_loop n pop body s x w; finish k s w }"
proof (induction n arbitrary: s x w)
  case (Suc n)
  show ?case
  proof (cases "pop s x w")
    case (Some a)
    obtain ok y s1 w1 where a: "a = (ok, y, s1, w1)" by (metis surj_pair)
    then show ?thesis using Some Suc.IH by (cases ok; cases "body y s1 w1") (auto split: if_splits)
  qed simp
qed simp

section \<open>Executions\<close>

text \<open>
  The program \<open>main\<close> is called again and again; the list holds the interrupts that arrived so far.
\<close>

inductive interleaved ::
  "('e \<Rightarrow> 's \<Rightarrow> 'w \<Rightarrow> ('s \<times> 'w) option) \<Rightarrow> ('s, 'w) prog \<Rightarrow> 's \<times> 'w \<Rightarrow> 'e list \<Rightarrow> ('s, 'w) prog \<times> 's \<times> 'w \<Rightarrow> bool"
  for isr main start where
  idle: "interleaved isr main start [] (Stop, start)"
| call: "interleaved isr main start es (Stop, s, w) \<Longrightarrow> interleaved isr main start es (main, s, w)"
| task: "interleaved isr main start es (Step f, s, w) \<Longrightarrow> f s w = Some c \<Longrightarrow> interleaved isr main start es c"
| interrupt: "interleaved isr main start es (c, s, w) \<Longrightarrow> isr e s w = Some (s', w') \<Longrightarrow>
    interleaved isr main start (es @ [e]) (c, s', w')"

text \<open>
  What may come between two steps: an interrupt, or something else on the platform that the log of
  the service does not show.
\<close>

datatype ('e, 'w) disturbance = Interrupt 'e | Elsewhere "'w \<Rightarrow> 'w"

fun disturb ::
  "('e \<Rightarrow> 's \<Rightarrow> 'w \<Rightarrow> ('s \<times> 'w) option) \<Rightarrow> ('w \<Rightarrow> 'l) \<Rightarrow> ('e, 'w) disturbance list \<Rightarrow> 's \<Rightarrow> 'w \<Rightarrow> ('s \<times> 'w) option" where
  "disturb isr log [] s w = Some (s, w)"
| "disturb isr log (Interrupt e # ds) s w = do { (s, w) \<leftarrow> isr e s w; disturb isr log ds s w }"
| "disturb isr log (Elsewhere h # ds) s w = disturb isr log ds s (if log (h w) = log w then h w else w)"

fun interrupts :: "('e, 'w) disturbance list \<Rightarrow> 'e list" where
  "interrupts [] = []"
| "interrupts (Interrupt e # ds) = e # interrupts ds"
| "interrupts (Elsewhere h # ds) = interrupts ds"

lemma disturb_interrupts [simp]:
  "disturb isr log (map Interrupt es) s w = isr_all isr es s w" "interrupts (map Interrupt es) = es"
  by (induction es arbitrary: s w) (simp_all split: bind_split)

text \<open>
  From here neither the program nor an interrupt entry gets stuck and the program ends in \<open>Q\<close>,
  whatever comes in between. \<open>Q\<close> may speak of all the interrupts that arrived.
\<close>

inductive withstands ::
  "('e \<Rightarrow> 's \<Rightarrow> 'w \<Rightarrow> ('s \<times> 'w) option) \<Rightarrow> ('w \<Rightarrow> 'l) \<Rightarrow> ('s \<Rightarrow> 'w \<Rightarrow> 'e list \<Rightarrow> bool) \<Rightarrow>
   ('s, 'w) prog \<Rightarrow> 's \<Rightarrow> 'w \<Rightarrow> 'e list \<Rightarrow> bool"
  for isr log Q where
  stop: "Q s w es \<Longrightarrow> withstands isr log Q Stop s w es"
| step: "(\<And>ds. \<exists>s' w' c s'' w''. disturb isr log ds s w = Some (s', w') \<and> f s' w' = Some (c, s'', w'') \<and>
      withstands isr log Q c s'' w'' (es @ interrupts ds)) \<Longrightarrow> withstands isr log Q (Step f) s w es"

inductive_cases withstands_Stop [elim!]: "withstands isr log Q Stop s w es"
inductive_cases withstands_StepE: "withstands isr log Q (Step f) s w es"

lemma withstands_interrupts:
  assumes "withstands isr log Q (Step f) s w es"
  shows "\<exists>s' w' c s'' w''. isr_all isr es' s w = Some (s', w') \<and> f s' w' = Some (c, s'', w'') \<and>
    withstands isr log Q c s'' w'' (es @ es')"
  using assms by (rule withstands_StepE) (metis disturb_interrupts)

text \<open>Assertions under which interrupt entries are defined, and which nothing in between destroys.\<close>

definition stable ::
  "('e \<Rightarrow> 's \<Rightarrow> 'w \<Rightarrow> ('s \<times> 'w) option) \<Rightarrow> ('w \<Rightarrow> 'l) \<Rightarrow> ('s \<Rightarrow> 'w \<Rightarrow> 'e list \<Rightarrow> bool) \<Rightarrow> bool" where
  "stable isr log P \<longleftrightarrow>
     (\<forall>s w es e. P s w es \<longrightarrow> (\<exists>s' w'. isr e s w = Some (s', w') \<and> P s' w' (es @ [e]))) \<and>
     (\<forall>s w es w'. P s w es \<longrightarrow> log w' = log w \<longrightarrow> P s w' es)"

lemma stableI:
  "(\<And>s w es e. P s w es \<Longrightarrow> \<exists>s' w'. isr e s w = Some (s', w') \<and> P s' w' (es @ [e])) \<Longrightarrow>
     (\<And>s w es w'. P s w es \<Longrightarrow> log w' = log w \<Longrightarrow> P s w' es) \<Longrightarrow> stable isr log P"
  unfolding stable_def by blast

lemma stable_isr: "stable isr log P \<Longrightarrow> P s w es \<Longrightarrow> \<exists>s' w'. isr e s w = Some (s', w') \<and> P s' w' (es @ [e])"
  by (simp add: stable_def)

lemma stable_log: "stable isr log P \<Longrightarrow> P s w es \<Longrightarrow> log w' = log w \<Longrightarrow> P s w' es"
  unfolding stable_def by blast

lemma stable_disturb:
  assumes "stable isr log P"
  shows "P s w es \<Longrightarrow> \<exists>s' w'. disturb isr log ds s w = Some (s', w') \<and> P s' w' (es @ interrupts ds)"
proof (induction ds arbitrary: s w es)
  case (Cons d ds)
  show ?case
  proof (cases d)
    case (Interrupt e)
    obtain s1 w1 where 1: "isr e s w = Some (s1, w1)" "P s1 w1 (es @ [e])"
      using stable_isr [OF assms Cons.prems] by blast
    from Cons.IH [OF 1(2)] 1(1) show ?thesis by (simp add: Interrupt)
  next
    case (Elsewhere h)
    have "P s (if log (h w) = log w then h w else w) es" using stable_log [OF assms Cons.prems] Cons.prems by simp
    from Cons.IH [OF this] show ?thesis by (simp add: Elsewhere)
  qed
qed simp

lemma stable_all:
  assumes "stable isr log P" and "P s w es"
  shows "\<exists>s' w'. isr_all isr es' s w = Some (s', w') \<and> P s' w' (es @ es')"
  using stable_disturb [OF assms, of "map Interrupt es'"] by simp

lemma withstands_step:
  assumes "stable isr log P" and "P s w es"
    and "\<And>s w es. P s w es \<Longrightarrow> \<exists>c s' w'. f s w = Some (c, s', w') \<and> withstands isr log Q c s' w' es"
  shows "withstands isr log Q (Step f) s w es"
proof (rule withstands.step)
  fix ds
  obtain s' w' where "disturb isr log ds s w = Some (s', w')" "P s' w' (es @ interrupts ds)"
    using stable_disturb [OF assms(1,2)] by blast
  with assms(3) [OF this(2)]
  show "\<exists>s' w' c s'' w''. disturb isr log ds s w = Some (s', w') \<and> f s' w' = Some (c, s'', w'') \<and>
      withstands isr log Q c s'' w'' (es @ interrupts ds)" by blast
qed

text \<open>A step that asks for something and only decides what to do next.\<close>

lemma withstands_ask_result:
  assumes "stable isr log P" and "P s w es"
    and "\<And>s w es. P s w es \<Longrightarrow> P' (fst (ask s w)) s (snd (ask s w)) es"
    and "\<And>x s w es. P' x s w es \<Longrightarrow> withstands isr log Q (k x) s w es"
  shows "withstands isr log Q (Step (\<lambda>s w. let (x, w) = ask s w in Some (k x, s, w))) s w es"
  by (rule withstands_step [OF assms(1,2)]) (simp add: split_beta assms(4) [OF assms(3)])

lemma withstands_ask:
  assumes "stable isr log P" and "P s w es"
    and "\<And>s w es. P s w es \<Longrightarrow> P s (snd (ask s w)) es"
    and "\<And>x s w es. P s w es \<Longrightarrow> withstands isr log Q (k x) s w es"
  shows "withstands isr log Q (Step (\<lambda>s w. let (x, w) = ask s w in Some (k x, s, w))) s w es"
  by (rule withstands_ask_result [where P' = "\<lambda>x. P", OF assms])

lemma withstands_if:
  "(b \<Longrightarrow> withstands isr log Q c s w es) \<Longrightarrow> (\<not> b \<Longrightarrow> withstands isr log Q d s w es) \<Longrightarrow>
     withstands isr log Q (if b then c else d) s w es"
  by simp

text \<open>
  The rule of the drain loop: \<open>I n\<close> holds whenever a pop is next and \<open>n\<close> pops are left, \<open>H n x\<close>
  while \<open>x\<close> has been popped and not handled, \<open>K\<close> when the loop is left.
\<close>

lemma withstands_drain_counted:
  assumes "\<And>n. stable isr log (I n)" and "\<And>n x. stable isr log (H n x)"
    and "\<And>n s w es x. I (Suc n) s w es \<Longrightarrow>
      \<exists>ok y s' w'. pop s x w = Some (ok, y, s', w') \<and> (if ok then H n y s' w' es else K s' w' es)"
    and "\<And>n s w es x. H n x s w es \<Longrightarrow>
      \<exists>continue s' w'. body x s w = Some (continue, s', w') \<and> (if continue then I n s' w' es else K s' w' es)"
    and "\<And>s w es. I 0 s w es \<Longrightarrow> K s w es"
    and "\<And>s w es. K s w es \<Longrightarrow> withstands isr log Q k s w es"
  shows "I n s w es \<Longrightarrow> withstands isr log Q (drain_prog n pop body k x) s w es"
proof (induction n arbitrary: s w es x)
  case 0
  then show ?case using assms(5,6) by simp
next
  case (Suc n)
  have handle: "withstands isr log Q (Step (\<lambda>s w. do {
      (continue, s, w) \<leftarrow> body y s w;
      Some (if continue then drain_prog n pop body k y else k, s, w)
    })) s w es" if "H n y s w es" for y s w es
    using assms(2) that
  proof (rule withstands_step)
    fix s w es
    assume "H n y s w es"
    from assms(4) [OF this] obtain continue s' w' where
      "body y s w = Some (continue, s', w')" "if continue then I n s' w' es else K s' w' es" by blast
    then show "\<exists>c s' w'. do { (continue, s, w) \<leftarrow> body y s w;
        Some (if continue then drain_prog n pop body k y else k, s, w) } = Some (c, s', w') \<and> withstands isr log Q c s' w' es"
      using Suc.IH assms(6) by (cases continue) auto
  qed
  show ?case
    unfolding drain_prog.simps(2) using assms(1) Suc.prems
  proof (rule withstands_step)
    fix s w es
    assume "I (Suc n) s w es"
    from assms(3) [OF this, of x] obtain ok y s' w' where
      "pop s x w = Some (ok, y, s', w')" "if ok then H n y s' w' es else K s' w' es" by blast
    then show "\<exists>c s' w'. do { (ok, x, s, w) \<leftarrow> pop s x w;
        Some (if ok then Step (\<lambda>s w. do { (continue, s, w) \<leftarrow> body x s w;
          Some (if continue then drain_prog n pop body k x else k, s, w) }) else k, s, w) } = Some (c, s', w') \<and>
        withstands isr log Q c s' w' es"
      using handle assms(6) by (cases ok) auto
  qed
qed

lemma withstands_drain:
  assumes "stable isr log I" and "\<And>x. stable isr log (H x)"
    and "\<And>s w es x. I s w es \<Longrightarrow> \<exists>ok y s' w'. pop s x w = Some (ok, y, s', w') \<and> (if ok then H y s' w' es else I s' w' es)"
    and "\<And>s w es x. H x s w es \<Longrightarrow> \<exists>continue s' w'. body x s w = Some (continue, s', w') \<and> I s' w' es"
    and "\<And>s w es. I s w es \<Longrightarrow> withstands isr log Q k s w es"
    and "I s w es"
  shows "withstands isr log Q (drain_prog n pop body k x) s w es"
  by (rule withstands_drain_counted [where I = "\<lambda>n. I" and H = "\<lambda>n. H" and K = I, OF assms(1-3) _ _ assms(5,6)])
    (simp_all add: assms(4))

section \<open>What holds in every execution\<close>

lemma interleaved_withstands:
  assumes "interleaved isr main (s0, w0) es (c, s, w)" and "Q s0 w0 []" and "stable isr log Q"
    and "\<And>s w es. Q s w es \<Longrightarrow> withstands isr log Q main s w es"
  shows "withstands isr log Q c s w es"
  using assms(1)
proof (induction es "(c, s, w)" arbitrary: c s w rule: interleaved.induct)
  case idle
  then show ?case using assms(2) by (auto intro: withstands.stop)
next
  case (call es s w)
  then show ?case using assms(4) by auto
next
  case (task es f s w c s' w')
  from withstands_interrupts [OF task.hyps(2), of "[]"] task.hyps(3) show ?case by auto
next
  case (interrupt es c s w e s' w')
  show ?case
  proof (cases c)
    case Stop
    then have "Q s w es" using interrupt.hyps(2) by blast
    from stable_isr [OF assms(3) this, of e] show ?thesis using interrupt.hyps(3) Stop by (auto intro: withstands.stop)
  next
    case (Step f)
    have "withstands isr log Q (Step f) s w es" using interrupt.hyps(2) Step by simp
    then have "\<exists>s1 w1 c s2 w2. disturb isr log (Interrupt e # ds) s w = Some (s1, w1) \<and> f s1 w1 = Some (c, s2, w2) \<and>
        withstands isr log Q c s2 w2 (es @ interrupts (Interrupt e # ds))" for ds by (rule withstands_StepE) blast
    then show ?thesis unfolding Step using interrupt.hyps(3) by (intro withstands.step) simp
  qed
qed

text \<open>When the interrupts stop, the rest of the program reaches the postcondition.\<close>

lemma withstands_finish:
  "withstands isr log Q c s w es \<Longrightarrow> \<exists>s' w'. finish c s w = Some (s', w') \<and> Q s' w' es"
proof (induction rule: withstands.induct)
  case (step s w f es)
  from step.IH [of "[]"] show ?case by auto
qed auto

lemma withstands_defined: "withstands isr log Q (Step f) s w es \<Longrightarrow> f s w \<noteq> None"
  using withstands_interrupts [where es' = "[]"] by fastforce

lemma withstands_isr:
  assumes "stable isr log Q" and "withstands isr log Q c s w es"
  shows "isr e s w \<noteq> None"
proof (cases c)
  case Stop
  then show ?thesis using assms(2) stable_isr [OF assms(1)] by blast
next
  case (Step f)
  from withstands_interrupts [OF assms(2) [unfolded Step], of "[e]"] show ?thesis by (auto split: bind_splits)
qed

end
