(* ===== verification/Preempted_Tasks.thy ===== *)
theory Preempted_Tasks
  imports Served_Tasks Resumption "HOL-Library.Sublist"
begin

text \<open>
  A service under the scheduler while interrupts arrive. The whole system is the service object,
  the platform and the interrupts still to come: an arbitrary supply of batches, one of which
  arrives wherever interrupts are enabled, between two critical sections of the scheduler, before
  every step of the run of the service, and between two polls. What every execution of the run
  withstands (\<open>Resumption\<close>) then holds after any number of polls, and a progress measure that a
  run of the service advances by one advances with the release grid of its task.
\<close>

section \<open>The system\<close>

record ('e, 's, 'v) system =
  service :: 's
  platform :: 'v
  coming :: "'e list list"
  arrived :: "'e list"
  broken :: bool

text \<open>Before the first poll, with all interrupts to come.\<close>

definition system_start :: "'s \<Rightarrow> 'v \<Rightarrow> 'e list list \<Rightarrow> ('e, 's, 'v) system" where
  "system_start s v batches = \<lparr>service = s, platform = v, coming = batches, arrived = [], broken = False\<rparr>"

text \<open>The next batch of interrupts. A system whose interrupt entry is undefined is broken.\<close>

definition deliver :: "('e \<Rightarrow> 's \<Rightarrow> 'v \<Rightarrow> ('s \<times> 'v) option) \<Rightarrow> ('e, 's, 'v) system \<Rightarrow> ('e, 's, 'v) system" where
  "deliver isr w = (case coming w of [] \<Rightarrow> w | es # rest \<Rightarrow>
     (case isr_all isr es (service w) (platform w) of
        None \<Rightarrow> w\<lparr>broken := True\<rparr>
      | Some (s, v) \<Rightarrow> w\<lparr>service := s, platform := v, coming := rest, arrived := arrived w @ es\<rparr>))"

text \<open>Something happens to the platform, and interrupts arrive.\<close>

definition elapse ::
  "('e \<Rightarrow> 's \<Rightarrow> 'v \<Rightarrow> ('s \<times> 'v) option) \<Rightarrow> ('v \<Rightarrow> 'v) \<Rightarrow> ('e, 's, 'v) system \<Rightarrow> ('e, 's, 'v) system" where
  "elapse isr h w = deliver isr (w\<lparr>platform := h (platform w)\<rparr>)"

text \<open>A program of the service, interrupts before each of its steps.\<close>

primrec preempted ::
  "('e \<Rightarrow> 's \<Rightarrow> 'v \<Rightarrow> ('s \<times> 'v) option) \<Rightarrow> ('s, 'v) prog \<Rightarrow> ('e, 's, 'v) system \<Rightarrow> ('e, 's, 'v) system option" where
  "preempted isr Stop = Some"
| "preempted isr (Step f) = (\<lambda>w. let w = deliver isr w in
     case map_option (map_prod (preempted isr) id) (f (service w) (platform w)) of
       None \<Rightarrow> None
     | Some (rest, s, v) \<Rightarrow> rest (w\<lparr>service := s, platform := v\<rparr>))"

lemma preempted_Step:
  "preempted isr (Step f) w = do {
     let w = deliver isr w;
     (c, s, v) \<leftarrow> f (service w) (platform w);
     preempted isr c (w\<lparr>service := s, platform := v\<rparr>)
   }"
  by (cases "f (service (deliver isr w)) (platform (deliver isr w))") (simp_all add: Let_def split_beta)

declare preempted.simps(2) [simp del] preempted_Step [simp]

text \<open>
  The hooks of the port and the application, on the platform of the system. Some of the functions
  of the application are services, given by their programs.
\<close>

definition interrupted :: "('e \<Rightarrow> 's \<Rightarrow> 'v \<Rightarrow> ('s \<times> 'v) option) \<Rightarrow> 'v port \<Rightarrow> ('e, 's, 'v) system port" where
  "interrupted isr p =
     \<lparr>sch_port_now_ticks = (\<lambda>w. let (t, v) = sch_port_now_ticks p (platform w) in (t, w\<lparr>platform := v\<rparr>)),
      sch_port_enter_critical = (\<lambda>w. let (state, v) = sch_port_enter_critical p (platform w) in (state, w\<lparr>platform := v\<rparr>)),
      sch_port_exit_critical = (\<lambda>state. elapse isr (sch_port_exit_critical p state)),
      sch_port_idle = elapse isr (sch_port_idle p)\<rparr>"

definition interrupted_apps ::
  "('e \<Rightarrow> 's \<Rightarrow> 'v \<Rightarrow> ('s \<times> 'v) option) \<Rightarrow> ('f \<rightharpoonup> ('s, 'v) prog) \<Rightarrow> ('f, 'c, 'h, 'v) sch_env \<Rightarrow>
   ('f, 'c, 'h, ('e, 's, 'v) system) sch_env" where
  "interrupted_apps isr services env =
     \<lparr>call_task = (\<lambda>f c sc w. case services f of
         Some main \<Rightarrow> do { w \<leftarrow> preempted isr main w; Some (sc, w) }
       | None \<Rightarrow> do { (sc, v) \<leftarrow> call_task env f c sc (platform w); Some (sc, elapse isr (\<lambda>_. v) w) }),
      call_hook = (\<lambda>h e i t c w. w\<lparr>platform := call_hook env h e i t c (platform w)\<rparr>)\<rparr>"

text \<open>The application with one service.\<close>

abbreviation interrupted_app ::
  "('e \<Rightarrow> 's \<Rightarrow> 'v \<Rightarrow> ('s \<times> 'v) option) \<Rightarrow> ('s, 'v) prog \<Rightarrow> ('g app_fn, 'c, 'h, 'v) sch_env \<Rightarrow>
   ('g app_fn, 'c, 'h, ('e, 's, 'v) system) sch_env" where
  "interrupted_app isr main \<equiv> interrupted_apps isr [Service_Task \<mapsto> main]"

text \<open>Without interrupts the program is its undisturbed self.\<close>

lemma preempted_quiet:
  "coming w = [] \<Longrightarrow> preempted isr c w =
     map_option (\<lambda>(s, v). w\<lparr>service := s, platform := v\<rparr>) (finish c (service w) (platform w))"
proof (induction c arbitrary: w)
  case (Step f)
  have "deliver isr w = w" using Step.prems by (simp add: deliver_def)
  moreover have "preempted isr c (w\<lparr>service := s, platform := v\<rparr>) =
      map_option (\<lambda>(s, v). w\<lparr>service := s, platform := v\<rparr>) (finish c s v)"
    if "f (service w) (platform w) = Some (c, s, v)" for c s v
    using Step.IH [of "f (service w)" "f (service w) (platform w)" "(c, s, v)" c "w\<lparr>service := s, platform := v\<rparr>"]
      that Step.prems rangeI [of "f (service w)" "platform w"] by simp
  ultimately show ?case by (cases "f (service w) (platform w)") auto
qed simp

section \<open>Assertions\<close>

definition holds :: "('s \<Rightarrow> 'v \<Rightarrow> 'e list \<Rightarrow> bool) \<Rightarrow> ('e, 's, 'v) system \<Rightarrow> bool" where
  "holds P w \<longleftrightarrow> \<not> broken w \<and> P (service w) (platform w) (arrived w)"

lemma holds_start [simp]: "holds P (system_start s v batches) \<longleftrightarrow> P s v []"
  by (simp add: holds_def system_start_def)

text \<open>Interrupts arrive as supplied.\<close>

definition supplied :: "('e, 's, 'v) system \<Rightarrow> ('e, 's, 'v) system \<Rightarrow> bool" where
  "supplied w w' \<longleftrightarrow> prefix (arrived w) (arrived w') \<and> arrived w' @ concat (coming w') = arrived w @ concat (coming w)"

lemma supplied_refl [simp]: "supplied w w"
  by (simp add: supplied_def)

lemma supplied_trans: "supplied u v \<Longrightarrow> supplied v w \<Longrightarrow> supplied u w"
  by (auto simp: supplied_def intro: prefix_order.trans)

lemma supplied_same [simp]:
  "supplied w (w'\<lparr>service := s\<rparr>) \<longleftrightarrow> supplied w w'" "supplied w (w'\<lparr>platform := v\<rparr>) \<longleftrightarrow> supplied w w'"
  "supplied (w\<lparr>service := s\<rparr>) w' \<longleftrightarrow> supplied w w'" "supplied (w\<lparr>platform := v\<rparr>) w' \<longleftrightarrow> supplied w w'"
  by (simp_all add: supplied_def)

lemma deliver_cases:
  assumes "\<And>es. \<exists>s v. isr_all isr es (service w) (platform w) = Some (s, v) \<and> P s v (arrived w @ es)" and "\<not> broken w"
  shows "holds P (deliver isr w) \<and> supplied w (deliver isr w)"
proof (cases "coming w")
  case Nil
  from assms(1) [of "[]"] have "P (service w) (platform w) (arrived w)" by auto
  then show ?thesis using Nil assms(2) by (simp add: deliver_def holds_def)
next
  case (Cons es rest)
  from assms(1) [of es] obtain s v where "isr_all isr es (service w) (platform w) = Some (s, v)" "P s v (arrived w @ es)"
    by blast
  then show ?thesis using Cons assms(2) by (simp add: deliver_def holds_def supplied_def)
qed

lemma deliver_holds:
  assumes "stable isr log P" and "holds P w"
  shows "holds P (deliver isr w) \<and> supplied w (deliver isr w)"
proof (rule deliver_cases)
  show "\<exists>s v. isr_all isr es (service w) (platform w) = Some (s, v) \<and> P s v (arrived w @ es)" for es
    using stable_all [OF assms(1)] assms(2) unfolding holds_def by blast
qed (use assms(2) in \<open>simp add: holds_def\<close>)

lemma elapse_supplied:
  assumes "stable isr log P" and "holds P (w\<lparr>platform := h (platform w)\<rparr>)"
  shows "holds P (elapse isr h w) \<and> supplied w (elapse isr h w)"
  using deliver_holds [OF assms] by (simp add: elapse_def)

lemma elapse_arrived:
  assumes "stable isr log P" and "holds P (w\<lparr>platform := h (platform w)\<rparr>)"
  shows "arrived (elapse isr h w) = arrived w @ concat (take 1 (coming w))"
proof (cases "coming w")
  case (Cons es rest)
  obtain s v where "isr_all isr es (service w) (h (platform w)) = Some (s, v)"
    using stable_all [OF assms(1), of "service w" "h (platform w)" "arrived w" es] assms(2) by (auto simp: holds_def)
  then show ?thesis using Cons by (simp add: elapse_def deliver_def)
qed (simp add: elapse_def deliver_def)

text \<open>What a program withstands comes true, however the interrupts arrive.\<close>

lemma preempted_withstands:
  "withstands isr log Q c s v es \<Longrightarrow> service w = s \<Longrightarrow> platform w = v \<Longrightarrow> arrived w = es \<Longrightarrow> \<not> broken w \<Longrightarrow>
   \<exists>w'. preempted isr c w = Some w' \<and> holds Q w' \<and> supplied w w'"
proof (induction arbitrary: w rule: withstands.induct)
  case (stop s v es)
  then show ?case by (simp add: holds_def)
next
  case (step s v f es)
  let ?P = "\<lambda>s v es. \<exists>c s' v'. f s v = Some (c, s', v') \<and>
    (\<forall>w. service w = s' \<longrightarrow> platform w = v' \<longrightarrow> arrived w = es \<longrightarrow> \<not> broken w \<longrightarrow>
      (\<exists>w'. preempted isr c w = Some w' \<and> holds Q w' \<and> supplied w w'))"
  have "holds ?P (deliver isr w) \<and> supplied w (deliver isr w)"
  proof (rule deliver_cases)
    fix es'
    show "\<exists>s v. isr_all isr es' (service w) (platform w) = Some (s, v) \<and> ?P s v (arrived w @ es')"
      using step.IH [of "map Interrupt es'"] step.prems unfolding disturb_interrupts by blast
  qed (rule step.prems(4))
  then obtain c s' v' where f: "f (service (deliver isr w)) (platform (deliver isr w)) = Some (c, s', v')"
    and rest: "\<And>u. service u = s' \<Longrightarrow> platform u = v' \<Longrightarrow> arrived u = arrived (deliver isr w) \<Longrightarrow> \<not> broken u \<Longrightarrow>
      \<exists>w'. preempted isr c u = Some w' \<and> holds Q w' \<and> supplied u w'"
    and ok: "\<not> broken (deliver isr w)" "supplied w (deliver isr w)" unfolding holds_def by blast
  obtain w' where "preempted isr c ((deliver isr w)\<lparr>service := s', platform := v'\<rparr>) = Some w'" "holds Q w'"
    "supplied (deliver isr w) w'" using rest [of "(deliver isr w)\<lparr>service := s', platform := v'\<rparr>"] ok(1) by auto
  then show ?case using f supplied_trans [OF ok(2)] by (simp add: Let_def)
qed

section \<open>The contract\<close>

text \<open>
  \<open>J\<close> is what every run of a service keeps, \<open>Prog f k n\<close> a measure of progress of the service \<open>f\<close>
  towards the goal \<open>k\<close>, which a run of \<open>f\<close> advances and the runs of other services keep. Both
  survive interrupts, and what else the platform does if the log does not show it.
\<close>

locale preempted_services =
  fixes isr :: "'e \<Rightarrow> 's \<Rightarrow> 'v \<Rightarrow> ('s \<times> 'v) option"
    and services :: "'f \<rightharpoonup> ('s, 'v) prog"
    and log :: "'v \<Rightarrow> 'l"
    and J :: "'s \<Rightarrow> 'v \<Rightarrow> 'e list \<Rightarrow> bool"
    and Prog :: "'f \<Rightarrow> 'k \<Rightarrow> nat \<Rightarrow> 's \<Rightarrow> 'v \<Rightarrow> 'e list \<Rightarrow> bool"
  assumes J_stable: "stable isr log J"
    and J_runs: "services f = Some main \<Longrightarrow> J s v es \<Longrightarrow> withstands isr log J main s v es"
    and Prog_stable: "stable isr log (Prog f k n)"
    and Prog_runs: "services g = Some main \<Longrightarrow> Prog f k n s v es \<Longrightarrow>
      withstands isr log (Prog f k (if g = f then Suc n else n)) main s v es"

text \<open>On a platform and in an application that leave the log alone.\<close>

locale preempted_apps = preempted_services isr services log J Prog
  for isr :: "'e \<Rightarrow> 's \<Rightarrow> 'v \<Rightarrow> ('s \<times> 'v) option"
    and services :: "'f \<rightharpoonup> ('s, 'v) prog"
    and p :: "'v port"
    and env :: "('f, 'c, 'h, 'v) sch_env"
    and log :: "'v \<Rightarrow> 'l"
    and J :: "'s \<Rightarrow> 'v \<Rightarrow> 'e list \<Rightarrow> bool"
    and Prog :: "'f \<Rightarrow> 'k \<Rightarrow> nat \<Rightarrow> 's \<Rightarrow> 'v \<Rightarrow> 'e list \<Rightarrow> bool" +
  assumes leaves: "leaves_but (dom services) p env log"
begin

definition advances :: "'f list \<Rightarrow> ('e, 's, 'v) system \<Rightarrow> ('e, 's, 'v) system \<Rightarrow> bool" where
  "advances fs w w' \<longleftrightarrow> (holds J w \<longrightarrow> holds J w' \<and> supplied w w' \<and>
     (\<forall>f\<in>dom services. \<forall>k m. holds (Prog f k m) w \<longrightarrow> holds (Prog f k (m + count_list fs f)) w'))"

lemma advances_none: "advances [] w w"
  by (simp add: advances_def)

lemma advances_join: "advances fs u v \<Longrightarrow> advances gs v w \<Longrightarrow> advances (fs @ gs) u w"
  by (auto simp: advances_def count_list_append simp flip: add.assoc intro: supplied_trans)

lemma platform_holds:
  assumes "log v = log (platform w)"
  shows "holds J w \<Longrightarrow> holds J (w\<lparr>platform := v\<rparr>)"
    and "holds (Prog f k n) w \<Longrightarrow> holds (Prog f k n) (w\<lparr>platform := v\<rparr>)"
  using stable_log [OF J_stable _ assms] stable_log [OF Prog_stable _ assms] by (simp_all add: holds_def)

lemma platform_advances: "log v = log (platform w) \<Longrightarrow> advances [] w (w\<lparr>platform := v\<rparr>)"
  by (simp add: advances_def platform_holds)

lemma elapse_advances:
  assumes "log (h (platform w)) = log (platform w)"
  shows "advances [] w (elapse isr h w)"
  unfolding advances_def
proof (intro impI conjI ballI allI)
  assume "holds J w"
  from elapse_supplied [where h = h, OF J_stable platform_holds(1) [OF assms this]]
  show "holds J (elapse isr h w)" and "supplied w (elapse isr h w)" by simp_all
next
  fix f k m
  assume "holds (Prog f k m) w"
  from elapse_supplied [where h = h, OF Prog_stable platform_holds(2) [OF assms this]]
  show "holds (Prog f k (m + count_list [] f)) (elapse isr h w)" by simp
qed

lemma preempted_advances:
  assumes "services g = Some main" and "holds J w"
  shows "\<exists>w'. preempted isr main w = Some w' \<and> advances [g] w w'"
proof -
  from assms(2) obtain w' where w': "preempted isr main w = Some w'" "holds J w'" "supplied w w'"
    using preempted_withstands [OF J_runs [OF assms(1)] refl refl refl] unfolding holds_def by blast
  have "holds (Prog f k (m + count_list [g] f)) w'" if "holds (Prog f k m) w" for f k m
    using preempted_withstands [OF Prog_runs [OF assms(1), of f k m "service w" "platform w" "arrived w"] refl refl refl] that w'(1)
    unfolding holds_def by (auto split: if_splits)
  then show ?thesis using w' by (auto simp: advances_def)
qed

lemma hooks:
  "log (snd (sch_port_now_ticks p v)) = log v" "log (snd (sch_port_enter_critical p v)) = log v"
  "log (sch_port_exit_critical p state v) = log v" "log (sch_port_idle p v) = log v"
  "log (call_hook env h e i t c v) = log v"
  using leaves by (simp_all add: leaves_but_def)

lemma other_calls:
  "sch_wf sc \<Longrightarrow> services f = None \<Longrightarrow>
     \<exists>sc' v'. call_task env f c sc v = Some (sc', v') \<and> task_frame sc sc' \<and> log v' = log v"
  using leaves by (simp add: leaves_but_def domIff)

text \<open>One call of a task of the application.\<close>

lemma call_advances:
  assumes "sch_wf sc" and "holds J w"
  shows "\<exists>sc' w'. call_task (interrupted_apps isr services env) f c sc w = Some (sc', w') \<and> task_frame sc sc' \<and>
    advances [f] w w'"
proof (cases "services f")
  case (Some main)
  then show ?thesis
    using preempted_advances [OF Some assms(2)] frame_refl [OF assms(1)] by (auto simp: interrupted_apps_def)
next
  case None
  then obtain sc' v' where call: "call_task env f c sc (platform w) = Some (sc', v')" "task_frame sc sc'"
    "log v' = log (platform w)" using other_calls [OF assms(1)] by blast
  have "advances [f] w (elapse isr (\<lambda>_. v') w)"
    using elapse_advances [of "\<lambda>_. v'" w] call(3) None by (auto simp: advances_def domIff)
  then show ?thesis using call None by (simp add: interrupted_apps_def)
qed

lemma advances_holds: "holds J w \<Longrightarrow> advances fs w w' \<Longrightarrow> holds J w'"
  by (simp add: advances_def)

lemma hook_advances:
  "advances [] w (snd (sch_port_now_ticks (interrupted isr p) w))"
  "advances [] w (snd (sch_port_enter_critical (interrupted isr p) w))"
  "advances [] w (sch_port_exit_critical (interrupted isr p) state w)"
  "advances [] w (sch_port_idle (interrupted isr p) w)"
  "advances [] w (call_hook (interrupted_apps isr services env) h e i t c w)"
  by (simp_all add: interrupted_def interrupted_apps_def split_beta platform_advances elapse_advances hooks)

end

sublocale preempted_apps \<subseteq> app: called_run "interrupted isr p" "interrupted_apps isr services env" "holds J" advances
proof unfold_locales
  fix f c w and sc :: "('f, 'c, 'h) sch"
  assume "sch_wf sc" and "holds J w"
  then show "\<exists>sc' w'. call_task (interrupted_apps isr services env) f c sc w = Some (sc', w') \<and> task_frame sc sc' \<and> holds J w'"
    using call_advances [of sc w f c] advances_holds by blast
next
  fix f c sc' w w' and sc :: "('f, 'c, 'h) sch"
  assume "sch_wf sc" "holds J w" "call_task (interrupted_apps isr services env) f c sc w = Some (sc', w')"
  then show "advances [f] w w'" using call_advances [of sc w f c] by fastforce
qed (simp_all add: hook_advances advances_none advances_join advances_holds [OF _ hook_advances(1)]
  advances_holds [OF _ hook_advances(2)] advances_holds [OF _ hook_advances(3)] advances_holds [OF _ hook_advances(4)]
  advances_holds [OF _ hook_advances(5)])

section \<open>Polls\<close>

context preempted_apps
begin

text \<open>
  Whatever arrives between and during the polls, none of them is undefined, and the progress of a
  service is at least the number of points of its release grid that the polls met.
\<close>

lemma elapse_ok:
  assumes "\<forall>h\<in>set hs. \<forall>v. log (h v) = log v"
  shows "\<forall>g\<in>set (map (elapse isr) hs). \<forall>w. holds J w \<longrightarrow> holds J (g w) \<and> advances [] w (g w)"
  using assms elapse_advances by (fastforce intro: advances_holds)

lemma polls_advance:
  assumes "sch_wf sc" and "sch_quiet sc" and "holds J w" and "\<forall>h\<in>set hs. \<forall>v. log (h v) = log v"
    and "j < SCH_MAX_TASKS" and "fn (tasks sc ! j) = Some f" and "f \<in> dom services"
    and "tracks R period T0 lo (tasks sc ! j)" and "0 < period" and "period \<le> 2 ^ 31"
  shows "\<exists>polls sc' w' n.
    run_seq cfg (interrupted isr p) (interrupted_apps isr services env) (map (elapse isr) hs) (Some sc) w =
      Some (polls, Some sc', w') \<and>
    holds J w' \<and> supplied w w' \<and> (\<forall>k m. holds (Prog f k m) w \<longrightarrow> holds (Prog f k (m + n)) w') \<and>
    (\<forall>Ts. map fst polls = map of_nat Ts \<longrightarrow> polls_close T0 Ts \<longrightarrow> releases_met R period lo Ts \<le> n)"
proof -
  from app.run_seq_met [OF assms(1-3) elapse_ok [OF assms(4)] assms(5,6,8-10), of cfg] obtain polls sc' w' fs where
    r: "run_seq cfg (interrupted isr p) (interrupted_apps isr services env) (map (elapse isr) hs) (Some sc) w =
      Some (polls, Some sc', w')" "advances fs w w'"
      "\<forall>Ts. map fst polls = map of_nat Ts \<longrightarrow> polls_close T0 Ts \<longrightarrow> releases_met R period lo Ts \<le> count_list fs f"
    by blast
  then show ?thesis using assms(3,7) unfolding advances_def by blast
qed

text \<open>Two stretches of polls; the second makes the progress that the grid asks for there.\<close>

lemma polls_advance_after:
  assumes "sch_wf sc" and "sch_quiet sc" and "holds J w" and "\<forall>h\<in>set (hs1 @ hs2). \<forall>v. log (h v) = log v"
    and "j < SCH_MAX_TASKS" and "fn (tasks sc ! j) = Some f" and "f \<in> dom services"
    and "tracks R period T0 lo (tasks sc ! j)" and "0 < period" and "period \<le> 2 ^ 31"
  shows "\<exists>polls1 sc1 w1 polls2 sc2 w2 n.
    run_seq cfg (interrupted isr p) (interrupted_apps isr services env) (map (elapse isr) hs1) (Some sc) w =
      Some (polls1, Some sc1, w1) \<and> holds J w1 \<and> supplied w w1 \<and>
    run_seq cfg (interrupted isr p) (interrupted_apps isr services env) (map (elapse isr) hs2) (Some sc1) w1 =
      Some (polls2, Some sc2, w2) \<and> holds J w2 \<and> supplied w1 w2 \<and>
    (\<forall>k m. holds (Prog f k m) w1 \<longrightarrow> holds (Prog f k (m + n)) w2) \<and>
    (\<forall>Ts. map fst (polls1 @ polls2) = map of_nat Ts \<longrightarrow> polls_close T0 Ts \<longrightarrow>
      releases_after (length hs1) R period lo Ts \<le> n)"
proof -
  have "\<forall>g\<in>set (map (elapse isr) hs1 @ map (elapse isr) hs2). \<forall>w. holds J w \<longrightarrow> holds J (g w) \<and> advances [] w (g w)"
    using elapse_ok [OF assms(4)] by (simp only: map_append)
  from app.run_seq_met_after [OF assms(1-3) this assms(5,6,8-10), of cfg] obtain polls1 sc1 w1 polls2 sc2 w2 fs1 fs2 where
    r: "run_seq cfg (interrupted isr p) (interrupted_apps isr services env) (map (elapse isr) hs1) (Some sc) w =
      Some (polls1, Some sc1, w1)" "advances fs1 w w1"
      "run_seq cfg (interrupted isr p) (interrupted_apps isr services env) (map (elapse isr) hs2) (Some sc1) w1 =
      Some (polls2, Some sc2, w2)" "advances fs2 w1 w2"
      "\<forall>Ts. map fst (polls1 @ polls2) = map of_nat Ts \<longrightarrow> polls_close T0 Ts \<longrightarrow>
        releases_after (length (map (elapse isr) hs1)) R period lo Ts \<le> count_list fs2 f"
    by blast
  then show ?thesis using assms(3,7) unfolding advances_def length_map by blast
qed

text \<open>The same of two services at once.\<close>

lemma polls_advance_both:
  assumes "sch_wf sc" and "sch_quiet sc" and "holds J w" and "\<forall>h\<in>set (hs1 @ hs2). \<forall>v. log (h v) = log v"
    and "i < SCH_MAX_TASKS" and "fn (tasks sc ! i) = Some f" and "f \<in> dom services"
    and "tracks R period T0 lo (tasks sc ! i)" and "0 < period" and "period \<le> 2 ^ 31"
    and "j < SCH_MAX_TASKS" and "fn (tasks sc ! j) = Some g" and "g \<in> dom services"
    and "tracks R' period' T0 lo' (tasks sc ! j)" and "0 < period'" and "period' \<le> 2 ^ 31"
  shows "\<exists>polls1 sc1 w1 polls2 sc2 w2 n n'.
    run_seq cfg (interrupted isr p) (interrupted_apps isr services env) (map (elapse isr) hs1) (Some sc) w =
      Some (polls1, Some sc1, w1) \<and> holds J w1 \<and> supplied w w1 \<and>
    run_seq cfg (interrupted isr p) (interrupted_apps isr services env) (map (elapse isr) hs2) (Some sc1) w1 =
      Some (polls2, Some sc2, w2) \<and> holds J w2 \<and> supplied w1 w2 \<and>
    (\<forall>k m. holds (Prog f k m) w1 \<longrightarrow> holds (Prog f k (m + n)) w2) \<and>
    (\<forall>k m. holds (Prog g k m) w1 \<longrightarrow> holds (Prog g k (m + n')) w2) \<and>
    (\<forall>Ts. map fst (polls1 @ polls2) = map of_nat Ts \<longrightarrow> polls_close T0 Ts \<longrightarrow>
      releases_after (length hs1) R period lo Ts \<le> n \<and> releases_after (length hs1) R' period' lo' Ts \<le> n')"
proof -
  from polls_advance_after [OF assms(1-10), of cfg] obtain polls1 sc1 w1 polls2 sc2 w2 n where
    r: "run_seq cfg (interrupted isr p) (interrupted_apps isr services env) (map (elapse isr) hs1) (Some sc) w =
      Some (polls1, Some sc1, w1)" "holds J w1" "supplied w w1"
      "run_seq cfg (interrupted isr p) (interrupted_apps isr services env) (map (elapse isr) hs2) (Some sc1) w1 =
      Some (polls2, Some sc2, w2)" "holds J w2" "supplied w1 w2"
      "\<forall>k m. holds (Prog f k m) w1 \<longrightarrow> holds (Prog f k (m + n)) w2"
      "\<forall>Ts. map fst (polls1 @ polls2) = map of_nat Ts \<longrightarrow> polls_close T0 Ts \<longrightarrow>
        releases_after (length hs1) R period lo Ts \<le> n" by blast
  from polls_advance_after [OF assms(1-4,11-16), of cfg] obtain n' where
    "\<forall>k m. holds (Prog g k m) w1 \<longrightarrow> holds (Prog g k (m + n')) w2"
    "\<forall>Ts. map fst (polls1 @ polls2) = map of_nat Ts \<longrightarrow> polls_close T0 Ts \<longrightarrow>
      releases_after (length hs1) R' period' lo' Ts \<le> n'"
    by (auto simp: r(1,4))
  with r show ?thesis by blast
qed

text \<open>What arrives before the first poll has arrived in the end.\<close>

lemma first_batch:
  assumes "sch_wf sc" and "sch_quiet sc" and "holds J w" and "\<forall>h\<in>set (h # hs). \<forall>v. log (h v) = log v"
    and "j < SCH_MAX_TASKS" and "in_use (tasks sc ! j)" and "fn (tasks sc ! j) = Some f"
    and "run_seq cfg (interrupted isr p) (interrupted_apps isr services env) (map (elapse isr) (h # hs)) (Some sc) w =
      Some (polls, Some sc', w')"
  shows "holds J w' \<and> prefix (arrived w @ concat (take 1 (coming w))) (arrived w')"
proof -
  have J: "holds J (elapse isr h w)"
    by (rule advances_holds [OF assms(3) elapse_advances]) (use assms(4) in simp)
  have "\<forall>g\<in>set ((\<lambda>w. w) # map (elapse isr) hs). \<forall>w. holds J w \<longrightarrow> holds J (g w) \<and> advances [] w (g w)"
    using elapse_ok [of hs] assms(4) advances_none by simp
  from app.run_seq_calls [OF assms(1,2) J this assms(5-7), of cfg] obtain polls1 sc1 w1 fs where
    r: "run_seq cfg (interrupted isr p) (interrupted_apps isr services env) ((\<lambda>w. w) # map (elapse isr) hs) (Some sc)
      (elapse isr h w) = Some (polls1, Some sc1, w1)" "advances fs (elapse isr h w) w1"
    by blast
  then have "w1 = w'" using assms(8) by simp
  then have "holds J w'" "prefix (arrived (elapse isr h w)) (arrived w')"
    using r(2) J by (simp_all add: advances_def supplied_def)
  moreover have "holds J (w\<lparr>platform := h (platform w)\<rparr>)" using assms(3,4) by (intro platform_holds) simp_all
  from elapse_arrived [where h = h, OF J_stable this]
  have "arrived (elapse isr h w) = arrived w @ concat (take 1 (coming w))" .
  ultimately show ?thesis by simp
qed

end

section \<open>One service\<close>

locale preempted_service =
  fixes isr :: "'e \<Rightarrow> 's \<Rightarrow> 'v \<Rightarrow> ('s \<times> 'v) option"
    and main :: "('s, 'v) prog"
    and log :: "'v \<Rightarrow> 'l"
    and J :: "'s \<Rightarrow> 'v \<Rightarrow> 'e list \<Rightarrow> bool"
    and Prog :: "'k \<Rightarrow> nat \<Rightarrow> 's \<Rightarrow> 'v \<Rightarrow> 'e list \<Rightarrow> bool"
  assumes stable: "stable isr log J"
    and runs: "J s v es \<Longrightarrow> withstands isr log J main s v es"
    and stage_stable: "stable isr log (Prog k n)"
    and stage_runs: "Prog k n s v es \<Longrightarrow> withstands isr log (Prog k (Suc n)) main s v es"
begin

lemma single: "preempted_services isr [f \<mapsto> main] log J (\<lambda>g k n. if g = f then Prog k n else J)"
  by unfold_locales (auto simp: stable stage_stable runs stage_runs split: if_splits)

end

locale preempted_app = preempted_service isr main log J Prog
  for isr :: "'e \<Rightarrow> 's \<Rightarrow> 'v \<Rightarrow> ('s \<times> 'v) option"
    and main :: "('s, 'v) prog"
    and p :: "'v port"
    and env :: "('g app_fn, 'c, 'h, 'v) sch_env"
    and log :: "'v \<Rightarrow> 'l"
    and J :: "'s \<Rightarrow> 'v \<Rightarrow> 'e list \<Rightarrow> bool"
    and Prog :: "'k \<Rightarrow> nat \<Rightarrow> 's \<Rightarrow> 'v \<Rightarrow> 'e list \<Rightarrow> bool" +
  assumes leaves: "leaves_log p env log"

sublocale preempted_app \<subseteq> apps: preempted_apps isr "[Service_Task \<mapsto> main]" p env log J
  "\<lambda>f k n. if f = Service_Task then Prog k n else J"
proof (intro preempted_apps.intro single preempted_apps_axioms.intro)
  show "leaves_but (dom [Service_Task \<mapsto> main]) p env log" using leaves by (simp add: leaves_log_def)
qed

context preempted_app
begin

lemma service_in: "Service_Task \<in> dom [Service_Task \<mapsto> main]"
  by simp

lemmas polls_advance = apps.polls_advance [where f = Service_Task, OF _ _ _ _ _ _ service_in, unfolded if_P [OF refl]]

lemmas polls_advance_after = apps.polls_advance_after [where f = Service_Task, OF _ _ _ _ _ _ service_in, unfolded if_P [OF refl]]

lemmas first_batch = apps.first_batch

end

end
