(* ===== verification/Board.thy ===== *)
theory Board
  imports Preempted_Tasks Scheduler_Register
begin

text \<open>
  A board on which the services run under the scheduler with concrete inputs: a clock, which other
  hardware moves, and a log that the callbacks of the service write. There are no other tasks than
  that of the service.
\<close>

record 'b board =
  board_ticks :: u32
  board_log :: "'b list"

definition board_port :: "'b board port" where
  "board_port = \<lparr>sch_port_now_ticks = (\<lambda>b. (board_ticks b, b)), sch_port_enter_critical = (\<lambda>b. (0, b)),
     sch_port_exit_critical = (\<lambda>state b. b), sch_port_idle = (\<lambda>b. b)\<rparr>"

definition board_env :: "(unit app_fn, unit, unit, 'b board) sch_env" where
  "board_env = \<lparr>call_task = (\<lambda>f c sc b. Some (sc, b)), call_hook = (\<lambda>h e i t c b. b)\<rparr>"

definition board_start :: "'b board" where
  "board_start = \<lparr>board_ticks = 0, board_log = []\<rparr>"

lemma board_leaves: "leaves_log board_port board_env board_log"
  by (simp add: leaves_log_def leaves_but_def board_port_def board_env_def frame_refl)

lemma board_sections [simp]:
  "sch_port_enter_critical board_port b = (0, b)" "sch_port_exit_critical board_port state b = b" "crit board_port b = b"
  by (simp_all add: crit_def board_port_def)

text \<open>The scheduler of the board after its set-up: one task, every 1000 ticks, first due at once.\<close>

definition board_raw :: "(unit app_fn, unit, unit) sch" where
  "board_raw = \<lparr>tasks = replicate SCH_MAX_TASKS empty_task, task_count = 77, next_background_idx = 99,
     stats = replicate SCH_MAX_TASKS empty_stats, trace_hook = Some (), trace_user_ctx = None\<rparr>"

definition board_sch :: "(unit app_fn, unit, unit) sch" where
  "board_sch = add_at all_on 0 (new_task (Some Service_Task) None 1000 0 5) (empty_sch all_on board_raw)"

lemma board_shape: "sch_shape board_raw"
  by (simp add: sch_shape_def board_raw_def)

lemma board_set_up:
  "sch_add_task all_on (beside board_port) (fst (sch_init all_on (beside board_port) (Some board_raw) (s, board_start)))
     (Some Service_Task) None 1000 0 5 (s, board_start) = (0, Some board_sch, s, board_start)"
  by (simp add: init_eq [OF board_shape] packed_add [OF packed_init [OF board_shape]] board_sch_def crit_now_def
      beside_def board_port_def board_start_def SCH_MAX_TASKS_def)

lemma board_packed: "packed 1 board_sch"
  unfolding board_sch_def using packed_add_at [OF packed_init [OF board_shape], of all_on] by (simp add: SCH_MAX_TASKS_def)

lemma board_task: "tasks board_sch ! 0 = new_task (Some Service_Task) None 1000 0 5"
  by (simp add: board_sch_def add_at_def empty_sch_def SCH_MAX_TASKS_def)

lemma board_ok:
  "sch_wf board_sch" "sch_quiet board_sch" "0 < SCH_MAX_TASKS" "fn (tasks board_sch ! 0) = Some Service_Task"
  "tracks 0 1000 0 0 (tasks board_sch ! 0)"
proof -
  show "sch_wf board_sch" "sch_quiet board_sch" using board_packed by (simp_all add: packed_def)
  show "0 < SCH_MAX_TASKS" by (simp add: SCH_MAX_TASKS_def)
  show "fn (tasks board_sch ! 0) = Some Service_Task" by (simp add: board_task new_task_def)
  have "tracks (0 + 0) 1000 0 0 (tasks board_sch ! 0)"
    unfolding board_task by (intro tracks_start) (simp_all add: new_task_def)
  then show "tracks 0 1000 0 0 (tasks board_sch ! 0)" by simp
qed

text \<open>With interrupts: the clock shows a poll what was set before it, if the interrupts leave it alone.\<close>

abbreviation board_at :: "u32 \<Rightarrow> 'b board \<Rightarrow> 'b board" where
  "board_at t \<equiv> \<lambda>b. b\<lparr>board_ticks := t\<rparr>"

lemma board_poll_tick:
  assumes "stable isr (\<lambda>v. v) (\<lambda>s v es. J s v es \<and> board_ticks v = t)" and "holds J w"
    and "\<And>s v v' es. board_log v' = board_log v \<Longrightarrow> J s v es \<Longrightarrow> J s v' es"
  shows "fst (crit_now (interrupted isr board_port) (elapse isr (board_at t) w)) = t"
proof -
  have "holds (\<lambda>s v es. J s v es \<and> board_ticks v = t) (w\<lparr>platform := board_at t (platform w)\<rparr>)"
    using assms(2) assms(3) [of "board_at t (platform w)" "platform w"] by (simp add: holds_def)
  from elapse_supplied [where h = "board_at t", OF assms(1) this]
  have "board_ticks (platform (elapse isr (board_at t) w)) = t" by (simp add: holds_def)
  then show ?thesis by (simp add: crit_now_def interrupted_def board_port_def split_beta)
qed

lemma run_seq_first_tick:
  "run_seq cfg p env [g] s w = Some (polls, s', w') \<Longrightarrow> map fst polls = [fst (crit_now p (g w))]"
  by (auto simp: Let_def bind_eq_Some_conv)

text \<open>Two polls, at 500 and at 1500 ticks; the first batch of interrupts comes before the first.\<close>

lemma board_grid: "releases_met 0 1000 0 [500] = 1" "releases_after (Suc 0) 0 1000 0 [500, 1500] = 1"
proof -
  have "released_within 0 1000 0 500" "released_within 0 1000 501 1500"
    by (auto simp: released_within_def intro: exI [of _ 0] exI [of _ 1])
  then show "releases_met 0 1000 0 [500] = 1" "releases_after (Suc 0) 0 1000 0 [500, 1500] = 1"
    by (simp_all add: releases_met_def releases_after_def)
qed

lemma board_polls:
  assumes "preempted_apps isr services board_port env log J Prog"
    and "\<And>v v'. board_log v' = board_log v \<Longrightarrow> log v' = log v"
    and "\<And>t. stable isr (\<lambda>v. v) (\<lambda>s v es. J s v es \<and> board_ticks v = t)" and "J s0 board_start []"
    and "sch_wf sc" and "sch_quiet sc" and "j < SCH_MAX_TASKS" and "in_use (tasks sc ! j)" and "fn (tasks sc ! j) = Some f"
    and "run_seq cfg (interrupted isr board_port) (interrupted_apps isr services env)
      [elapse isr (board_at 500)] (Some sc) (system_start s0 board_start (es # batches)) = Some (polls1, Some sc1, w1)"
    and "run_seq cfg (interrupted isr board_port) (interrupted_apps isr services env)
      [elapse isr (board_at 1500)] (Some sc1) w1 = Some (polls2, s2, w2)"
  shows "map fst (polls1 @ polls2) = map of_nat [500, 1500] \<and> polls_close 0 [500, 1500]" and "prefix es (arrived w1)"
proof -
  let ?w = "system_start s0 board_start (es # batches)"
  have J: "holds J ?w" using assms(4) by simp
  have "\<forall>h\<in>set (board_at 500 # []). \<forall>v. log (h v) = log v" by (auto intro!: assms(2))
  from preempted_apps.first_batch [OF assms(1) assms(5,6) J this assms(7-9), where cfg = cfg, unfolded list.map, OF assms(10)]
  have J1: "holds J w1" and "prefix es (arrived w1)" by (simp_all add: system_start_def)
  then show "prefix es (arrived w1)" by simp
  note stable = preempted_services.J_stable [OF preempted_apps.axioms(1) [OF assms(1)]]
  have log: "J s v' es" if "board_log v' = board_log v" "J s v es" for s v v' es
    by (rule stable_log [OF stable that(2) assms(2) [OF that(1)]])
  show "map fst (polls1 @ polls2) = map of_nat [500, 1500] \<and> polls_close 0 [500, 1500]"
    using run_seq_first_tick [OF assms(10)] run_seq_first_tick [OF assms(11)]
      board_poll_tick [OF assms(3) J log] board_poll_tick [OF assms(3) J1 log] by simp
qed

text \<open>With one service.\<close>

lemma board_two_polls:
  assumes "preempted_app isr main board_port board_env board_log J Prog"
    and "\<And>t. stable isr (\<lambda>v. v) (\<lambda>s v es. J s v es \<and> board_ticks v = t)" and "J s0 board_start []"
    and "run_seq all_on (interrupted isr board_port) (interrupted_app isr main board_env)
      [elapse isr (board_at 500)] (Some board_sch) (system_start s0 board_start (es # batches)) = Some (polls1, Some sc1, w1)"
    and "run_seq all_on (interrupted isr board_port) (interrupted_app isr main board_env)
      [elapse isr (board_at 1500)] (Some sc1) w1 = Some (polls2, s2, w2)"
  shows "map fst (polls1 @ polls2) = map of_nat [500, 1500] \<and> polls_close 0 [500, 1500]" and "prefix es (arrived w1)"
proof -
  note app = preempted_app.axioms [OF assms(1)]
  have "preempted_apps isr [Service_Task \<mapsto> main] board_port board_env board_log J (\<lambda>f k n. if f = Service_Task then Prog k n else J)"
    using preempted_service.single [OF app(1)] app(2)
    by (intro preempted_apps.intro preempted_apps_axioms.intro) (simp_all add: preempted_app_axioms_def leaves_log_def)
  from board_polls [OF this _ assms(2,3) board_ok(1-3) _ board_ok(4) assms(4,5)]
  show "map fst (polls1 @ polls2) = map of_nat [500, 1500] \<and> polls_close 0 [500, 1500]" and "prefix es (arrived w1)"
    by (simp_all add: board_task new_task_def)
qed

section \<open>Two tasks\<close>

definition board_pair :: "(unit app_fn, unit, unit) sch" where
  "board_pair = add_at all_on 1 (new_task (Some (Other_Task ())) None 1000 0 6) board_sch"

lemma board_pair_set_up:
  "sch_add_task all_on (beside board_port) (Some board_sch) (Some (Other_Task ())) None 1000 0 6 (s, board_start) =
     (1, Some board_pair, s, board_start)"
  by (simp add: packed_add [OF board_packed] board_pair_def crit_now_def
      beside_def board_port_def board_start_def SCH_MAX_TASKS_def)

lemma board_pair_tasks:
  "tasks board_pair ! 0 = new_task (Some Service_Task) None 1000 0 5"
  "tasks board_pair ! 1 = new_task (Some (Other_Task ())) None 1000 0 6"
proof -
  have "length (tasks board_sch) = SCH_MAX_TASKS" using board_ok(1) by (simp add: sch_wf_def sch_shape_def)
  then show "tasks board_pair ! 0 = new_task (Some Service_Task) None 1000 0 5"
    "tasks board_pair ! 1 = new_task (Some (Other_Task ())) None 1000 0 6"
    by (simp_all add: board_pair_def add_at_def SCH_MAX_TASKS_def board_task)
qed

lemma board_pair_ok:
  "sch_wf board_pair" "sch_quiet board_pair"
  "fn (tasks board_pair ! 0) = Some Service_Task" "fn (tasks board_pair ! 1) = Some (Other_Task ())"
  "tracks 0 1000 0 0 (tasks board_pair ! 0)" "tracks 0 1000 0 0 (tasks board_pair ! 1)"
proof -
  have "packed 2 board_pair"
    unfolding board_pair_def using packed_add_at [OF board_packed, of all_on] by (simp add: SCH_MAX_TASKS_def numeral_2_eq_2)
  then show "sch_wf board_pair" "sch_quiet board_pair" by (simp_all add: packed_def)
  show "fn (tasks board_pair ! 0) = Some Service_Task" "fn (tasks board_pair ! 1) = Some (Other_Task ())"
    by (simp_all only: board_pair_tasks) (simp_all add: new_task_def)
  have "tracks (0 + 0) 1000 0 0 (tasks board_pair ! 0)" "tracks (0 + 0) 1000 0 0 (tasks board_pair ! 1)"
    unfolding board_pair_tasks by (intro tracks_start; simp add: new_task_def)+
  then show "tracks 0 1000 0 0 (tasks board_pair ! 0)" "tracks 0 1000 0 0 (tasks board_pair ! 1)" by simp_all
qed

end
