(* ===== verification/Preemption.thy ===== *)
theory Preemption
  imports Resumption "HOL-Library.Sublist"
begin

text \<open>
  Preemption of the interrupt services. A run of a service is not atomic: interrupts may arrive
  between any two of its critical sections and callbacks. Here the run is a program of these steps,
  and the interrupts are accounted for in every execution. On the single core the library is written
  for, an interrupt entry runs to completion before the task goes on, and the bodies of critical
  sections cannot be interrupted; what a run reads outside its sections (budgets, callbacks, the
  geometry of the ring) is never written by an interrupt entry.
\<close>

section \<open>The run as a program\<close>

text \<open>
  The section that takes the hint, the emptiness check when there was none, pops while the budget
  lasts, the callback for what was popped.
\<close>

definition service_loop ::
  "('s \<Rightarrow> 'a \<Rightarrow> 'w \<Rightarrow> (bool \<times> 'a \<times> 's \<times> 'w) option) \<Rightarrow> ('s \<Rightarrow> 'a \<Rightarrow> 'w \<Rightarrow> 'w) \<Rightarrow> ('s \<Rightarrow> nat) \<Rightarrow> 'a \<Rightarrow> ('s, 'w) prog" where
  "service_loop pop handle budget x0 = Step (\<lambda>s w. Some (
     drain_prog (budget s) pop (\<lambda>x s w. Some (True, s, handle s x w)) Stop x0, s, w))"

definition service_prog ::
  "('s \<Rightarrow> 'w \<Rightarrow> bool \<times> 's \<times> 'w) \<Rightarrow> ('s \<Rightarrow> 'w \<Rightarrow> bool \<times> 'w) \<Rightarrow>
   ('s \<Rightarrow> 'a \<Rightarrow> 'w \<Rightarrow> (bool \<times> 'a \<times> 's \<times> 'w) option) \<Rightarrow> ('s \<Rightarrow> 'a \<Rightarrow> 'w \<Rightarrow> 'w) \<Rightarrow> ('s \<Rightarrow> nat) \<Rightarrow> 'a \<Rightarrow> ('s, 'w) prog" where
  "service_prog take_hint poll pop handle budget x0 = Step (\<lambda>s w.
     let (hint, s, w) = take_hint s w
     in Some (if hint then service_loop pop handle budget x0
       else Step (\<lambda>s w.
         let (empty, w) = poll s w
         in Some (if empty then Stop else service_loop pop handle budget x0, s, w)), s, w))"

text \<open>Undisturbed, the program computes what the run functions of the services are made of.\<close>

lemma service_prog_finish:
  "finish (service_prog take_hint poll pop handle budget x0) s w =
    (case take_hint s w of (hint, s, w) \<Rightarrow>
     case if hint then (False, w) else poll s w of (nothing, w) \<Rightarrow>
      if nothing then Some (s, w)
      else do { (s, y, w) \<leftarrow> drain_loop (budget s) pop (\<lambda>x s w. Some (True, s, handle s x w)) s x0 w; Some (s, w) })"
  by (cases "take_hint s w"; cases "poll (fst (snd (take_hint s w))) (snd (snd (take_hint s w)))")
    (simp add: service_prog_def service_loop_def finish_drain Let_def case_prod_unfold)

section \<open>The contract of a preemptible service\<close>

text \<open>
  A service whose run function is such a program: what its atomic actions do. The contract of the
  interrupt services (what an interrupt entry and a whole run do) is part of it.
\<close>

locale preemptible = irq_service isr run bracket invar items bound newest lost hinted budget record_of ack eff
  for isr :: "'e \<Rightarrow> 's \<Rightarrow> 'w \<Rightarrow> ('s \<times> 'w) option"
    and run :: "'s \<Rightarrow> 'w \<Rightarrow> ('s \<times> 'w) option"
    and bracket :: "'w \<Rightarrow> 'w"
    and invar :: "'s \<Rightarrow> bool"
    and items :: "'s \<Rightarrow> 'a list"
    and bound :: "'s \<Rightarrow> nat"
    and newest :: "'s \<Rightarrow> bool"
    and lost :: "'s \<Rightarrow> size_t"
    and hinted :: "'s \<Rightarrow> bool"
    and budget :: "'s \<Rightarrow> nat"
    and record_of :: "'e \<Rightarrow> 'a"
    and ack :: "'s \<Rightarrow> 'e \<Rightarrow> 'w \<Rightarrow> 'w"
    and eff :: "'s \<Rightarrow> 'a \<Rightarrow> 'w \<Rightarrow> 'w" +
  fixes take_hint :: "'s \<Rightarrow> 'w \<Rightarrow> bool \<times> 's \<times> 'w"
    and poll :: "'s \<Rightarrow> 'w \<Rightarrow> bool \<times> 'w"
    and pop :: "'s \<Rightarrow> 'a \<Rightarrow> 'w \<Rightarrow> (bool \<times> 'a \<times> 's \<times> 'w) option"
  assumes take_hint_eq: "invar s \<Longrightarrow> \<exists>s'. take_hint s w = (hinted s, s', bracket w) \<and> invar s' \<and>
      items s' = items s \<and> lost s' = lost s \<and> bound s' = bound s \<and> newest s' = newest s \<and>
      budget s' = budget s \<and> ack s' = ack s \<and> eff s' = eff s"
    and poll_eq: "invar s \<Longrightarrow> poll s w = (items s = [], bracket w)"
    and pop_empty: "invar s \<Longrightarrow> items s = [] \<Longrightarrow> pop s x w = Some (False, x, s, bracket w)"
    and pop_item: "invar s \<Longrightarrow> items s = y # ys \<Longrightarrow> \<exists>s'. pop s x w = Some (True, y, s', bracket w) \<and> invar s' \<and>
      items s' = ys \<and> lost s' = lost s \<and> bound s' = bound s \<and> newest s' = newest s \<and>
      budget s' = budget s \<and> ack s' = ack s \<and> eff s' = eff s"

section \<open>The account of the interrupts\<close>

text \<open>
  \<open>all\<close> are the interrupts that ever arrived, and \<open>kept\<close> those of them that were not given up, in
  their order. A ring that drops the oldest keeps as many of the last as it holds.
\<close>

definition kept_account :: "nat \<Rightarrow> bool \<Rightarrow> 'e list \<Rightarrow> 'e list \<Rightarrow> bool" where
  "kept_account b newest all kept \<longleftrightarrow>
     subseq kept all \<and> (newest \<or> suffix (drop (length all - b) all) kept)"

text \<open>Of the interrupts held, at most \<open>m\<close> are among the first \<open>t\<close> that arrived.\<close>

definition waiting :: "nat \<Rightarrow> nat \<Rightarrow> 'e list \<Rightarrow> 'e list \<Rightarrow> bool" where
  "waiting t m all held \<longleftrightarrow> t \<le> length all \<and>
     (\<exists>old fresh. held = old @ fresh \<and> length old \<le> m \<and> subseq fresh (drop t all))"

lemma kept_all: "kept_account b newest all all"
  by (simp add: kept_account_def suffix_drop)

lemma kept_length: "kept_account b newest all kept \<Longrightarrow> length kept \<le> length all"
  by (auto simp: kept_account_def dest: list_emb_length)

lemma waitingI:
  "t \<le> length all \<Longrightarrow> held = old @ fresh \<Longrightarrow> length old \<le> m \<Longrightarrow> subseq fresh (drop t all) \<Longrightarrow> waiting t m all held"
  by (auto simp: waiting_def)

lemma waiting_mono: "waiting t m all held \<Longrightarrow> m \<le> n \<Longrightarrow> waiting t n all held"
  by (fastforce simp: waiting_def)

lemma waiting_all: "t \<le> length all \<Longrightarrow> length held \<le> m \<Longrightarrow> waiting t m all held"
  by (rule waitingI [where old = held and fresh = "[]"]) simp_all

lemma waiting_any: "subseq held all \<Longrightarrow> waiting 0 m all held"
  by (rule waitingI [where old = "[]" and fresh = held]) simp_all

lemma waiting_pop:
  assumes "waiting t (Suc m) all (e # held)"
  shows "waiting t m all held"
proof -
  obtain old fresh where w: "t \<le> length all" "e # held = old @ fresh" "length old \<le> Suc m" "subseq fresh (drop t all)"
    using assms by (auto simp: waiting_def)
  show ?thesis
  proof (cases old)
    case Nil
    then have "subseq held (drop t all)" using w(2,4) subseq_Cons' [of e held] by simp
    then show ?thesis using w(1) by (intro waitingI [where old = "[]" and fresh = held]) simp_all
  next
    case (Cons x xs)
    then show ?thesis using w by (intro waitingI [where old = xs and fresh = fresh]) simp_all
  qed
qed

text \<open>A further interrupt arrives at a ring that holds \<open>held\<close>.\<close>

lemma waiting_push:
  assumes "waiting t m all held"
  shows "waiting t m (all @ [e]) (bounded_push b newest held e)"
proof -
  obtain old fresh where w: "t \<le> length all" "held = old @ fresh" "length old \<le> m" "subseq fresh (drop t all)"
    using assms by (auto simp: waiting_def)
  have le: "t \<le> length (all @ [e])" and new: "drop t (all @ [e]) = drop t all @ [e]" using w(1) by simp_all
  have sub: "subseq xs (drop t all @ [e])" "subseq (xs @ [e]) (drop t all @ [e])" if "subseq xs (drop t all)" for xs
    using list_emb_append_mono [OF that, of "[]" "[e]"] list_emb_append_mono [OF that, of "[e]" "[e]"] by simp_all
  consider (room) "length held < b" | (reject) "\<not> length held < b" newest | (evict) "\<not> length held < b" "\<not> newest"
    by blast
  then show ?thesis
  proof cases
    case room
    then show ?thesis
      using w sub by (intro waitingI [where old = old and fresh = "fresh @ [e]"]) (simp_all add: bounded_push_def)
  next
    case reject
    then show ?thesis
      using w sub by (intro waitingI [where old = old and fresh = fresh]) (simp_all add: bounded_push_def)
  next
    case evict
    show ?thesis
    proof (cases old)
      case Nil
      have "subseq (tl fresh) (drop t all)" using w(4) by (cases fresh) (auto dest: subseq_Cons')
      then show ?thesis
        using w evict Nil sub by (intro waitingI [where old = "[]" and fresh = "tl fresh @ [e]"]) (simp_all add: bounded_push_def)
    next
      case (Cons x xs)
      then show ?thesis
        using w evict sub by (intro waitingI [where old = xs and fresh = "fresh @ [e]"]) (simp_all add: bounded_push_def)
    qed
  qed
qed

lemma kept_push:
  assumes "kept_account b newest all (kept @ held)" and "length held \<le> b"
  shows "kept_account b newest (all @ [e]) (kept @ bounded_push b newest held e)"
proof -
  let ?n = "length all"
  have sub: "subseq (kept @ held) all" using assms(1) by (simp add: kept_account_def)
  have "subseq (bounded_push b newest held e) (held @ [e])"
    using bounded_push_subseq [of "bounded_push b newest held e" b newest held e "[]"] by simp
  then have "subseq (kept @ bounded_push b newest held e) (kept @ held @ [e])"
    by (intro list_emb_append_mono) simp_all
  moreover have "subseq ((kept @ held) @ [e]) (all @ [e])" using sub by (intro list_emb_append_mono) simp_all
  ultimately have "subseq (kept @ bounded_push b newest held e) (all @ [e])"
    using subseq_order.order_trans by simp
  moreover have "suffix (drop (length (all @ [e]) - b) (all @ [e])) (kept @ bounded_push b newest held e)" if "\<not> newest"
  proof -
    have last: "suffix (drop (?n - b) all) (kept @ held)" using assms(1) that by (simp add: kept_account_def)
    show ?thesis
    proof (cases "length held < b")
      case True
      then have "suffix (drop (Suc ?n - b) all) (drop (?n - b) all)"
        by (metis Suc_diff_le diff_is_0_eq drop0 drop_Suc drop_drop le_SucI linorder_linear plus_1_eq_Suc suffix_drop suffix_order.refl)
      with last obtain xs where "kept @ held = xs @ drop (Suc ?n - b) all"
        using suffix_order.trans unfolding suffix_def by blast
      then have "kept @ held @ [e] = xs @ drop (Suc ?n - b) all @ [e]" by (metis append.assoc)
      then show ?thesis using True kept_length [OF assms(1)] by (auto simp: bounded_push_def suffix_def)
    next
      case False
      then have full: "length held = b" using assms(2) by simp
      have le: "b \<le> ?n" using kept_length [OF assms(1)] full by simp
      obtain xs where "kept @ held = xs @ drop (?n - b) all" using last by (auto simp: suffix_def)
      moreover have "length held = length (drop (?n - b) all)" using full le by simp
      ultimately have "held = drop (?n - b) all" using append_eq_append_conv by blast
      then have "tl held = drop (Suc ?n - b) all" using le by (simp add: Suc_diff_le drop_Suc tl_drop)
      then show ?thesis using full le that by (cases "b = 0") (auto simp: bounded_push_def suffix_def)
    qed
  qed
  ultimately show ?thesis unfolding kept_account_def by blast
qed

section \<open>What every execution keeps\<close>

context preemptible
begin

definition same_setup :: "'s \<Rightarrow> 's \<Rightarrow> bool" where
  "same_setup s s0 \<longleftrightarrow> bound s = bound s0 \<and> newest s = newest s0 \<and> budget s = budget s0 \<and> ack s = ack s0 \<and> eff s = eff s0"

text \<open>
  The account after the interrupts \<open>es\<close>, started in \<open>s0\<close>, \<open>w0\<close> with \<open>es0\<close> held: the interrupts
  served, which the log shows, those in \<open>flight\<close>, whose callback comes next, and those still held.
\<close>

definition irq_account ::
  "('w \<Rightarrow> 'b list) \<Rightarrow> ('e \<Rightarrow> 'b list) \<Rightarrow> 's \<Rightarrow> 'w \<Rightarrow> 'e list \<Rightarrow> nat \<Rightarrow> nat \<Rightarrow> 'e list \<Rightarrow> 's \<Rightarrow> 'w \<Rightarrow> 'e list \<Rightarrow> bool" where
  "irq_account log seen s0 w0 es0 t m flight s w es \<longleftrightarrow> invar s \<and> same_setup s s0 \<and>
     (\<exists>served held. kept_account (bound s0) (newest s0) (es0 @ es) (served @ flight @ held) \<and>
        waiting t m (es0 @ es) held \<and> items s = map record_of held \<and>
        log w = log w0 @ concat (map seen served) \<and>
        lost s = lost s0 + of_nat (length (es0 @ es) - length (served @ flight @ held)))"

lemma irq_accountI:
  "invar s \<Longrightarrow> same_setup s s0 \<Longrightarrow> kept_account (bound s0) (newest s0) (es0 @ es) (served @ flight @ held) \<Longrightarrow>
     waiting t m (es0 @ es) held \<Longrightarrow> items s = map record_of held \<Longrightarrow> log w = log w0 @ concat (map seen served) \<Longrightarrow>
     lost s = lost s0 + of_nat (length (es0 @ es) - length (served @ flight @ held)) \<Longrightarrow>
     irq_account log seen s0 w0 es0 t m flight s w es"
  unfolding irq_account_def by blast

lemma irq_accountE:
  assumes "irq_account log seen s0 w0 es0 t m flight s w es"
  obtains served held where "invar s" "same_setup s s0"
    "kept_account (bound s0) (newest s0) (es0 @ es) (served @ flight @ held)" "waiting t m (es0 @ es) held"
    "items s = map record_of held" "log w = log w0 @ concat (map seen served)"
    "lost s = lost s0 + of_nat (length (es0 @ es) - length (served @ flight @ held))"
  using assms unfolding irq_account_def by blast

lemma irq_account_mono:
  "irq_account log seen s0 w0 es0 t m flight s w es \<Longrightarrow> m \<le> n \<Longrightarrow> irq_account log seen s0 w0 es0 t n flight s w es"
  by (erule irq_accountE) (rule irq_accountI; fast elim: waiting_mono)

lemma irq_account_start:
  "invar s0 \<Longrightarrow> items s0 = map record_of es0 \<Longrightarrow> irq_account log seen s0 w0 es0 0 m [] s0 w0 []"
  by (rule irq_accountI [where served = "[]" and held = es0]) (simp_all add: same_setup_def kept_all waiting_any)

text \<open>Whatever has arrived by now is what there is to wait for.\<close>

lemma irq_account_now:
  assumes "irq_account log seen s0 w0 es0 t m [] s w es"
  shows "irq_account log seen s0 w0 es0 (length (es0 @ es)) (bound s0) [] s w es"
proof -
  obtain served held where a: "invar s" "same_setup s s0"
    "kept_account (bound s0) (newest s0) (es0 @ es) (served @ [] @ held)" "waiting t m (es0 @ es) held"
    "items s = map record_of held" "log w = log w0 @ concat (map seen served)"
    "lost s = lost s0 + of_nat (length (es0 @ es) - length (served @ [] @ held))" using assms by (rule irq_accountE)
  have "length held \<le> bound s0" using items_bound [OF a(1)] a(2,5) by (simp add: same_setup_def)
  then show ?thesis using a by (intro irq_accountI [where served = served and held = held] waiting_all) simp_all
qed

text \<open>An interrupt: its record is retained or one is given up, as the policy of the ring says.\<close>

lemma irq_account_isr:
  assumes "irq_account log seen s0 w0 es0 t m flight s w es"
    and "observes log seen bracket handle" and "\<forall>e v. log (ack s0 e v) = log v"
  shows "\<exists>s' w'. isr e s w = Some (s', w') \<and> irq_account log seen s0 w0 es0 t m flight s' w' (es @ [e])"
proof -
  obtain served held where a: "invar s" "same_setup s s0"
    "kept_account (bound s0) (newest s0) (es0 @ es) (served @ flight @ held)" "waiting t m (es0 @ es) held"
    "items s = map record_of held" "log w = log w0 @ concat (map seen served)"
    "lost s = lost s0 + of_nat (length (es0 @ es) - length (served @ flight @ held))" using assms(1) by (rule irq_accountE)
  have same: "bound s = bound s0" "newest s = newest s0" "ack s = ack s0" using a(2) by (simp_all add: same_setup_def)
  have log: "log (bracket v) = log v" "log (ack s e v) = log v" for v
    using assms(2,3) same by (simp_all add: observes_def)
  obtain s' where s': "isr e s w = Some (s', bracket (bracket (ack s e w)))" "invar s'"
    "items s' = bounded_push (bound s) (newest s) (items s) (record_of e)"
    "lost s' = (if length (items s) = bound s then lost s + 1 else lost s)" "same_setup s' s0"
    using isr_eq [OF a(1), of e w] a(2) by (auto simp: same_setup_def)
  let ?held = "bounded_push (bound s0) (newest s0) held e"
  have le: "length held \<le> bound s0" "0 < bound s0" using items_bound [OF a(1)] bound_pos [OF a(1)] a(5) same by simp_all
  have len: "length ?held = (if length held = bound s0 then length held else Suc (length held))"
    using le by (auto simp: bounded_push_def)
  have kept: "kept_account (bound s0) (newest s0) (es0 @ es @ [e]) (served @ flight @ ?held)"
    using kept_push [of "bound s0" "newest s0" "es0 @ es" "served @ flight" held e] a(3) le by simp
  have "length (served @ flight @ held) \<le> length (es0 @ es)" using kept_length [OF a(3)] .
  then have "lost s' = lost s0 + of_nat (length (es0 @ es @ [e]) - length (served @ flight @ ?held))"
    using s'(4) a(5,7) len same by (auto simp: Suc_diff_le)
  moreover have "waiting t m (es0 @ es @ [e]) ?held" using waiting_push [OF a(4)] by simp
  moreover have "items s' = map record_of ?held" using s'(3) a(5) same by (simp add: map_bounded_push)
  ultimately have "irq_account log seen s0 w0 es0 t m flight s' (bracket (bracket (ack s e w))) (es @ [e])"
    using s'(2,5) a(6) kept log by (intro irq_accountI [where served = served and held = ?held]) simp_all
  then show ?thesis using s'(1) by blast
qed

lemma irq_account_stable:
  assumes "observes log seen bracket handle" and "\<forall>e v. log (ack s0 e v) = log v"
  shows "stable isr log (irq_account log seen s0 w0 es0 t m flight)"
    and "stable isr log (\<lambda>s w es. \<exists>e. x = record_of e \<and> irq_account log seen s0 w0 es0 t m [e] s w es)"
  by (rule stableI, rule irq_account_isr [OF _ assms], assumption, simp add: irq_account_def)
    (rule stableI, use irq_account_isr [OF _ assms] in blast, auto simp: irq_account_def)

text \<open>
  A run, interrupted anywhere, gets through, keeps the account, and of the interrupts that had
  arrived by position \<open>t\<close> leaves fewer by its budget.
\<close>

lemma service_withstands:
  assumes "observes log seen bracket handle" and "\<forall>e v. log (ack s0 e v) = log v"
    and "\<forall>e. eff s0 (record_of e) = handle e" and "irq_account log seen s0 w0 es0 t m [] s w es"
  shows "withstands isr log (irq_account log seen s0 w0 es0 t (m - budget s0) [])
    (service_prog take_hint poll pop eff budget x0) s w es"
proof -
  let ?A = "\<lambda>m. irq_account log seen s0 w0 es0 t m []" and ?m = "m - budget s0"
  let ?H = "\<lambda>n x s w es. \<exists>e. x = record_of e \<and> irq_account log seen s0 w0 es0 t (?m + n) [e] s w es"
  note stab = irq_account_stable [OF assms(1,2)]
  have log: "log (bracket v) = log v" "log (eff s0 (record_of e) v) = log v @ seen e" for v e
    using assms(1,3) by (simp_all add: observes_def)
  have pops: "\<exists>ok y s' w'. pop s x w = Some (ok, y, s', w') \<and> (if ok then ?H n y s' w' es else ?A ?m s' w' es)"
    if A: "?A (?m + Suc n) s w es" for n s w es x
  proof -
    obtain served held where a: "invar s" "same_setup s s0"
      "kept_account (bound s0) (newest s0) (es0 @ es) (served @ [] @ held)" "waiting t (?m + Suc n) (es0 @ es) held"
      "items s = map record_of held" "log w = log w0 @ concat (map seen served)"
      "lost s = lost s0 + of_nat (length (es0 @ es) - length (served @ [] @ held))" using A by (rule irq_accountE)
    show ?thesis
    proof (cases held)
      case Nil
      have "t \<le> length (es0 @ es)" using a(4) by (simp add: waiting_def)
      then have "?A ?m s (bracket w) es"
        using a Nil log by (intro irq_accountI [where served = served and held = held] waiting_all) simp_all
      then show ?thesis using pop_empty [OF a(1), of x w] a(5) Nil by auto
    next
      case (Cons e held')
      then have "items s = record_of e # map record_of held'" using a(5) by simp
      then obtain s' where s': "pop s x w = Some (True, record_of e, s', bracket w)" "invar s'"
        "items s' = map record_of held'" "lost s' = lost s" "same_setup s' s0"
        using pop_item [OF a(1), of "record_of e" "map record_of held'" x w] a(2) by (auto simp: same_setup_def)
      have "waiting t (?m + n) (es0 @ es) held'" using a(4) Cons waiting_pop by simp
      then have "irq_account log seen s0 w0 es0 t (?m + n) [e] s' (bracket w) es"
        using s' a Cons log by (intro irq_accountI [where served = served and held = held']) simp_all
      then show ?thesis using s'(1) by auto
    qed
  qed
  have handles: "?A (?m + n) s (eff s (record_of e) w) es"
    if A: "irq_account log seen s0 w0 es0 t (?m + n) [e] s w es" for n s w es e
  proof -
    obtain served held where a: "invar s" "same_setup s s0"
      "kept_account (bound s0) (newest s0) (es0 @ es) (served @ [e] @ held)" "waiting t (?m + n) (es0 @ es) held"
      "items s = map record_of held" "log w = log w0 @ concat (map seen served)"
      "lost s = lost s0 + of_nat (length (es0 @ es) - length (served @ [e] @ held))" using A by (rule irq_accountE)
    then have "eff s = eff s0" by (simp add: same_setup_def)
    then show ?thesis using a log by (intro irq_accountI [where served = "served @ [e]" and held = held]) simp_all
  qed
  have polls: "?A (if fst (poll s w) then 0 else m) s (snd (poll s w)) es" if A: "?A m s w es" for s w es
  proof -
    obtain served held where a: "invar s" "same_setup s s0"
      "kept_account (bound s0) (newest s0) (es0 @ es) (served @ [] @ held)" "waiting t m (es0 @ es) held"
      "items s = map record_of held" "log w = log w0 @ concat (map seen served)"
      "lost s = lost s0 + of_nat (length (es0 @ es) - length (served @ [] @ held))" using A by (rule irq_accountE)
    then have "waiting t (if items s = [] then 0 else m) (es0 @ es) held" by (simp add: waiting_def)
    then show ?thesis
      using a log poll_eq [OF a(1), of w] by (intro irq_accountI [where served = served and held = held]) simp_all
  qed
  have loop: "withstands isr log (?A ?m) (service_loop pop eff budget x0) s w es" if "?A m s w es" for s w es
    unfolding service_loop_def using stab(1) that
  proof (rule withstands_step)
    fix s w es
    assume A: "?A m s w es"
    then have "budget s = budget s0" by (rule irq_accountE) (simp add: same_setup_def)
    moreover have "?A (?m + budget s0) s w es" using A by (rule irq_account_mono) simp
    then have "withstands isr log (?A ?m) (drain_prog (budget s0) pop (\<lambda>x s w. Some (True, s, eff s x w)) Stop x0) s w es"
    proof (rule withstands_drain_counted [where I = "\<lambda>n. ?A (?m + n)" and H = ?H and K = "?A ?m", rotated 6])
      show "stable isr log (?A (?m + n))" and "stable isr log (?H n x)" for n x by (rule stab)+
      show "\<exists>ok y s' w'. pop s x w = Some (ok, y, s', w') \<and> (if ok then ?H n y s' w' es else ?A ?m s' w' es)"
        if "?A (?m + Suc n) s w es" for n s w es x by (rule pops [OF that])
      show "\<exists>continue s' w'. Some (True, s, eff s x w) = Some (continue, s', w') \<and>
          (if continue then ?A (?m + n) s' w' es else ?A ?m s' w' es)" if "?H n x s w es" for n s w es x
        using handles that by auto
    qed (auto intro: withstands.stop)
    ultimately show "\<exists>c s' w'. Some (drain_prog (budget s) pop (\<lambda>x s w. Some (True, s, eff s x w)) Stop x0, s, w) =
        Some (c, s', w') \<and> withstands isr log (?A ?m) c s' w' es" by simp
  qed
  show ?thesis
    unfolding service_prog_def using stab(1) assms(4)
  proof (rule withstands_step)
    fix s w es
    assume "?A m s w es"
    then obtain served held where a: "invar s" "same_setup s s0"
      "kept_account (bound s0) (newest s0) (es0 @ es) (served @ [] @ held)" "waiting t m (es0 @ es) held"
      "items s = map record_of held" "log w = log w0 @ concat (map seen served)"
      "lost s = lost s0 + of_nat (length (es0 @ es) - length (served @ [] @ held))" by (rule irq_accountE)
    obtain s' where s': "take_hint s w = (hinted s, s', bracket w)" "invar s'" "items s' = items s" "lost s' = lost s"
      "same_setup s' s0" using take_hint_eq [OF a(1), of w] a(2) by (auto simp: same_setup_def)
    have A: "?A m s' (bracket w) es"
      by (rule irq_accountI [where served = served and held = held]) (use s' a log in simp_all)
    have "withstands isr log (?A ?m) (if hinted s then service_loop pop eff budget x0
        else Step (\<lambda>s w. let (empty, w) = poll s w in Some (if empty then Stop else service_loop pop eff budget x0, s, w)))
        s' (bracket w) es"
    proof (intro withstands_if)
      show "withstands isr log (?A ?m) (service_loop pop eff budget x0) s' (bracket w) es" by (rule loop [OF A])
      show "withstands isr log (?A ?m) (Step (\<lambda>s w. let (empty, w) = poll s w
          in Some (if empty then Stop else service_loop pop eff budget x0, s, w))) s' (bracket w) es"
        by (rule withstands_ask_result [where P' = "\<lambda>empty. ?A (if empty then 0 else m)", OF stab(1) A polls])
          (auto intro!: withstands.stop loop intro: irq_account_mono split: if_splits)
    qed
    then show "\<exists>c s' w'. (let (hint, s, w) = take_hint s w
        in Some (if hint then service_loop pop eff budget x0
          else Step (\<lambda>s w. let (empty, w) = poll s w in Some (if empty then Stop else service_loop pop eff budget x0, s, w)),
          s, w)) = Some (c, s', w') \<and> withstands isr log (?A ?m) c s' w' es" by (simp add: s'(1))
  qed
qed

end

end
