(* ===== verification/Together.thy ===== *)
theory Together
  imports Preempted_Tasks
begin

text \<open>
  Services side by side. Two families of services share a scheduler and a platform: each has its own
  objects, its own interrupts and its own log, which the other family does not touch. What either
  keeps and the progress that either makes, wherever the interrupts of both hit, carries over to
  the application that has them both.
\<close>

section \<open>Programs on a part of the state\<close>

primrec embed :: "('s \<Rightarrow> 'a) \<Rightarrow> ('a \<Rightarrow> 's \<Rightarrow> 's) \<Rightarrow> ('a, 'w) prog \<Rightarrow> ('s, 'w) prog" where
  "embed get put Stop = Stop"
| "embed get put (Step f) = Step (\<lambda>s w. case map_option (map_prod (embed get put) id) (f (get s) w) of
     None \<Rightarrow> None | Some (c, a, w) \<Rightarrow> Some (c, put a s, w))"

abbreviation on_first :: "('a, 'w) prog \<Rightarrow> ('a \<times> 'b, 'w) prog" where
  "on_first \<equiv> embed fst (\<lambda>a (_, b). (a, b))"

abbreviation on_second :: "('b, 'w) prog \<Rightarrow> ('a \<times> 'b, 'w) prog" where
  "on_second \<equiv> embed snd (\<lambda>b (a, _). (a, b))"

text \<open>Programs that touch neither what \<open>K\<close> says of the state nor the log \<open>L\<close>.\<close>

inductive keeps :: "('s \<Rightarrow> bool) \<Rightarrow> ('w \<Rightarrow> 'l) \<Rightarrow> ('s, 'w) prog \<Rightarrow> bool" for K L where
  stop: "keeps K L Stop"
| step: "(\<And>s w c s' w'. K s \<Longrightarrow> f s w = Some (c, s', w') \<Longrightarrow> K s' \<and> L w' = L w \<and> keeps K L c) \<Longrightarrow> keeps K L (Step f)"

inductive_cases keeps_StepE: "keeps K L (Step f)"

definition isr_keeps :: "('s \<Rightarrow> bool) \<Rightarrow> ('w \<Rightarrow> 'l) \<Rightarrow> ('e \<Rightarrow> 's \<Rightarrow> 'w \<Rightarrow> ('s \<times> 'w) option) \<Rightarrow> bool" where
  "isr_keeps K L isr \<longleftrightarrow> (\<forall>e s w s' w'. K s \<longrightarrow> isr e s w = Some (s', w') \<longrightarrow> K s' \<and> L w' = L w)"

text \<open>What both keep holds wherever interrupts find a run.\<close>

lemma interleaved_keeps:
  assumes "interleaved isr main (s0, w0) es (c, s, w)" and "isr_keeps K L isr" and "keeps K L main" and "K s0"
  shows "K s \<and> keeps K L c"
  using assms(1)
proof (induction es "(c, s, w)" arbitrary: c s w rule: interleaved.induct)
  case (task es f s w)
  then show ?case by (auto elim: keeps_StepE)
qed (use assms(2-4) in \<open>auto simp: isr_keeps_def intro: keeps.stop\<close>)

text \<open>A clock that the interrupt entries leave alone.\<close>

lemma stable_clock:
  assumes "stable isr log P" and "isr_keeps K clock isr" and "\<And>s w es. P s w es \<Longrightarrow> K s"
  shows "stable isr (\<lambda>w. w) (\<lambda>s w es. P s w es \<and> clock w = t)"
proof (rule stableI)
  fix s w es e
  assume P: "P s w es \<and> clock w = t"
  then obtain s' w' where s': "isr e s w = Some (s', w')" "P s' w' (es @ [e])" using stable_isr [OF assms(1)] by blast
  moreover have "K s" using P by (rule assms(3) [OF conjunct1])
  ultimately have "clock w' = t" using assms(2) P by (auto simp: isr_keeps_def)
  with s' show "\<exists>s' w'. isr e s w = Some (s', w') \<and> P s' w' (es @ [e]) \<and> clock w' = t" by blast
qed simp

text \<open>Steps that only decide what to do next, and the drain loop of the services.\<close>

lemma keeps_goto: "(\<And>s. K s \<Longrightarrow> keeps K L (c s)) \<Longrightarrow> keeps K L (Step (\<lambda>s w. Some (c s, s, w)))"
  by (rule keeps.step) auto

lemma keeps_take:
  assumes "\<And>s w. K s \<Longrightarrow> K (fst (snd (fetch s w))) \<and> L (snd (snd (fetch s w))) = L w" and "\<And>x. keeps K L (c x)"
  shows "keeps K L (Step (\<lambda>s w. let (x, s, w) = fetch s w in Some (c x, s, w)))"
proof (rule keeps.step)
  fix s w d s' w'
  assume "K s" and "(let (x, s, w) = fetch s w in Some (c x, s, w)) = Some (d, s', w')"
  then show "K s' \<and> L w' = L w \<and> keeps K L d" using assms(1) [of s w] assms(2) by (auto simp: split_beta)
qed

lemma keeps_ask:
  assumes "\<And>s w. K s \<Longrightarrow> L (snd (ask s w)) = L w" and "\<And>x. keeps K L (c x)"
  shows "keeps K L (Step (\<lambda>s w. let (x, w) = ask s w in Some (c x, s, w)))"
  by (rule keeps.step) (use assms in \<open>auto simp: split_beta\<close>)

lemma keeps_if: "keeps K L c \<Longrightarrow> keeps K L d \<Longrightarrow> keeps K L (if b then c else d)"
  by simp

lemma keeps_drain:
  assumes "\<And>s x w ok y s' w'. K s \<Longrightarrow> pop s x w = Some (ok, y, s', w') \<Longrightarrow> K s' \<and> L w' = L w"
    and "\<And>x s w continue s' w'. K s \<Longrightarrow> body x s w = Some (continue, s', w') \<Longrightarrow> K s' \<and> L w' = L w"
    and "keeps K L k"
  shows "keeps K L (drain_prog n pop body k x)"
proof (induction n arbitrary: x)
  case (Suc n)
  show ?case
    unfolding drain_prog.simps(2)
    by (rule keeps.step) (auto simp: bind_eq_Some_conv Suc.IH assms(3) dest: assms(1,2) intro!: keeps.step split: if_splits)
qed (simp add: assms(3))

section \<open>A part of a system\<close>

lemma map_filter_append: "List.map_filter own (xs @ ys) = List.map_filter own xs @ List.map_filter own ys"
  by (simp add: List.map_filter_def)

text \<open>
  The interrupts of the part among those of the whole: \<open>own\<close> picks them out. The entry of an own
  interrupt acts on the part and touches neither \<open>K\<close> nor the log \<open>L\<close> of the rest, on which the
  assertion \<open>P\<close> about the rest depends; the entry of another one acts neither on the part nor on
  its log, and keeps \<open>P\<close>.
\<close>

locale part =
  fixes isr :: "'e \<Rightarrow> 'a \<Rightarrow> 'w \<Rightarrow> ('a \<times> 'w) option"
    and log :: "'w \<Rightarrow> 'l"
    and "get" :: "'s \<Rightarrow> 'a"
    and put :: "'a \<Rightarrow> 's \<Rightarrow> 's"
    and own :: "'i \<Rightarrow> 'e option"
    and whole :: "'i \<Rightarrow> 's \<Rightarrow> 'w \<Rightarrow> ('s \<times> 'w) option"
    and logs :: "'w \<Rightarrow> 'm"
    and K :: "'a \<Rightarrow> bool"
    and L :: "'w \<Rightarrow> 'k"
    and P :: "'s \<Rightarrow> 'w \<Rightarrow> 'i list \<Rightarrow> bool"
  assumes get_put: "get (put a s) = a"
    and isr_part: "isr_keeps K L isr"
    and P_put: "P s w es \<Longrightarrow> L w' = L w \<Longrightarrow> P (put a s) w' es"
    and P_log: "P s w es \<Longrightarrow> L w' = L w \<Longrightarrow> P s w' es"
    and own_isr: "own i = Some e \<Longrightarrow> whole i s w = map_option (\<lambda>(a, w). (put a s, w)) (isr e (get s) w)"
    and P_own: "own i = Some e \<Longrightarrow> P s w es \<Longrightarrow> P s w (es @ [i])"
    and other_isr: "own i = None \<Longrightarrow> P s w es \<Longrightarrow>
      \<exists>s' w'. whole i s w = Some (s', w') \<and> get s' = get s \<and> log w' = log w \<and> P s' w' (es @ [i])"
    and logs_part: "logs w' = logs w \<Longrightarrow> log w' = log w \<and> L w' = L w"
begin

text \<open>What disturbs the whole disturbs the part: by its own interrupts, and elsewhere.\<close>

lemma disturb_part:
  assumes "\<And>ds. disturb isr log ds (get s) w \<noteq> None" and "K (get s)" and "P s w es"
  shows "\<exists>ds' s' w'. disturb whole logs ds s w = Some (s', w') \<and> disturb isr log ds' (get s) w = Some (get s', w') \<and>
    interrupts ds' = List.map_filter own (interrupts ds) \<and> K (get s') \<and> P s' w' (es @ interrupts ds)"
  using assms
proof (induction ds arbitrary: s w es)
  case Nil
  then show ?case by (intro exI [of _ "[]"]) (simp add: List.map_filter_simps)
next
  case (Cons d ds)
  show ?case
  proof (cases d)
    case (Interrupt i)
    show ?thesis
    proof (cases "own i")
      case None
      obtain s1 w1 where 1: "whole i s w = Some (s1, w1)" "get s1 = get s" "log w1 = log w" "P s1 w1 (es @ [i])"
        using other_isr [OF None Cons.prems(3)] by blast
      have "disturb isr log ds (get s1) w1 \<noteq> None" for ds
        using Cons.prems(1) [of "Elsewhere (\<lambda>_. w1) # ds"] 1(2,3) by simp
      from Cons.IH [OF this _ 1(4)] obtain ds' s' w' where
        "disturb whole logs ds s1 w1 = Some (s', w')" "disturb isr log ds' (get s1) w1 = Some (get s', w')"
        "interrupts ds' = List.map_filter own (interrupts ds)" "K (get s')" "P s' w' ((es @ [i]) @ interrupts ds)"
        using Cons.prems(2) 1(2) by auto
      then show ?thesis
        using 1 None Interrupt by (intro exI [of _ "Elsewhere (\<lambda>_. w1) # ds'"]) (simp add: List.map_filter_simps)
    next
      case (Some e)
      obtain a1 w1 where a1: "isr e (get s) w = Some (a1, w1)"
        using Cons.prems(1) [of "[Interrupt e]"] by (auto split: bind_splits)
      have keep: "K a1" "L w1 = L w" using isr_part Cons.prems(2) a1 by (auto simp: isr_keeps_def)
      have P1: "P (put a1 s) w1 (es @ [i])" by (rule P_own [OF Some P_put [OF Cons.prems(3) keep(2)]])
      have I: "whole i s w = Some (put a1 s, w1)" using own_isr [OF Some, of s w] a1 by simp
      have "disturb isr log ds a1 w1 \<noteq> None" for ds using Cons.prems(1) [of "Interrupt e # ds"] a1 by simp
      from Cons.IH [of "put a1 s" w1 "es @ [i]", unfolded get_put, OF this keep(1) P1] obtain ds' s' w' where
        "disturb whole logs ds (put a1 s) w1 = Some (s', w')" "disturb isr log ds' a1 w1 = Some (get s', w')"
        "interrupts ds' = List.map_filter own (interrupts ds)" "K (get s')" "P s' w' ((es @ [i]) @ interrupts ds)" by blast
      then show ?thesis
        using a1 I Some Interrupt
        by (intro exI [of _ "Interrupt e # ds'"] exI [of _ s'] exI [of _ w'] conjI) (simp_all add: List.map_filter_simps)
    qed
  next
    case (Elsewhere h)
    let ?w = "if logs (h w) = logs w then h w else w"
    have same: "log ?w = log w" "L ?w = L w" using logs_part [of "h w" w] by simp_all
    have "disturb isr log ds (get s) ?w \<noteq> None" for ds
      using Cons.prems(1) [of "Elsewhere (\<lambda>_. ?w) # ds"] same(1) by simp
    from Cons.IH [OF this Cons.prems(2) P_log [OF Cons.prems(3) same(2)]] obtain ds' s' w' where
      "disturb whole logs ds s ?w = Some (s', w')" "disturb isr log ds' (get s) ?w = Some (get s', w')"
      "interrupts ds' = List.map_filter own (interrupts ds)" "K (get s')" "P s' w' (es @ interrupts ds)" by blast
    then show ?thesis
      using Elsewhere same by (intro exI [of _ "Elsewhere (\<lambda>_. ?w) # ds'"]) simp
  qed
qed

text \<open>A program of the part withstands in the whole what it withstands alone, and the rest is kept.\<close>

lemma withstands_part:
  assumes "withstands isr log Q c a w fs"
  shows "a = get s \<Longrightarrow> fs = List.map_filter own es \<Longrightarrow> K (get s) \<Longrightarrow> P s w es \<Longrightarrow> keeps K L c \<Longrightarrow>
    withstands whole logs (\<lambda>s w es. Q (get s) w (List.map_filter own es) \<and> P s w es) (embed get put c) s w es"
  using assms
proof (induction arbitrary: s es rule: withstands.induct)
  case (stop a w fs)
  then show ?case by (simp add: withstands.stop)
next
  case (step a w f fs)
  show ?case
    unfolding embed.simps(2)
  proof (rule withstands.step)
    fix ds
    have "disturb isr log ds (get s) w \<noteq> None" for ds using step.IH [of ds] step.prems(1) by auto
    from disturb_part [OF this step.prems(3,4)] obtain ds' s1 w1 where
      1: "disturb whole logs ds s w = Some (s1, w1)" "disturb isr log ds' a w = Some (get s1, w1)"
      "interrupts ds' = List.map_filter own (interrupts ds)" "K (get s1)" "P s1 w1 (es @ interrupts ds)"
      using step.prems(1) by blast
    obtain c a2 w2 where 2: "f (get s1) w1 = Some (c, a2, w2)" and
      IH: "\<And>s es. a2 = get s \<Longrightarrow> fs @ interrupts ds' = List.map_filter own es \<Longrightarrow> K (get s) \<Longrightarrow> P s w2 es \<Longrightarrow>
        keeps K L c \<Longrightarrow> withstands whole logs (\<lambda>s w es. Q (get s) w (List.map_filter own es) \<and> P s w es) (embed get put c) s w2 es"
      using step.IH [of ds'] 1(2) by auto
    from step.prems(5) 1(4) 2 have keep: "K a2" "L w2 = L w1" "keeps K L c" by (auto elim: keeps_StepE)
    have "fs @ interrupts ds' = List.map_filter own (es @ interrupts ds)"
      using step.prems(2) 1(3) by (simp add: map_filter_append)
    from IH [of "put a2 s1", unfolded get_put, OF refl this keep(1) P_put [OF 1(5) keep(2)] keep(3)]
    show "\<exists>s' w' c' s'' w''. disturb whole logs ds s w = Some (s', w') \<and>
        (case map_option (map_prod (embed get put) id) (f (get s') w') of
           None \<Rightarrow> None | Some (c, a, w) \<Rightarrow> Some (c, put a s', w)) = Some (c', s'', w'') \<and>
        withstands whole logs (\<lambda>s w es. Q (get s) w (List.map_filter own es) \<and> P s w es) c' s'' w'' (es @ interrupts ds)"
      using 1(1) 2 by (intro exI [of _ s1] exI [of _ w1] exI [of _ "embed get put c"] exI [of _ "put a2 s1"] exI [of _ w2]) simp
  qed
qed

end

section \<open>Two families of services\<close>

text \<open>The interrupt entries of both; the interrupts of either.\<close>

fun both ::
  "('e \<Rightarrow> 'a \<Rightarrow> 'w \<Rightarrow> ('a \<times> 'w) option) \<Rightarrow> ('f \<Rightarrow> 'b \<Rightarrow> 'w \<Rightarrow> ('b \<times> 'w) option) \<Rightarrow>
   'e + 'f \<Rightarrow> 'a \<times> 'b \<Rightarrow> 'w \<Rightarrow> (('a \<times> 'b) \<times> 'w) option" where
  "both isr isr' (Inl e) (a, b) w = do { (a, w) \<leftarrow> isr e a w; Some ((a, b), w) }"
| "both isr isr' (Inr e) (a, b) w = do { (b, w) \<leftarrow> isr' e b w; Some ((a, b), w) }"

fun of_first :: "'e + 'f \<Rightarrow> 'e option" where
  "of_first (Inl e) = Some e"
| "of_first (Inr e) = None"

fun of_second :: "'e + 'f \<Rightarrow> 'f option" where
  "of_second (Inl e) = None"
| "of_second (Inr e) = Some e"

abbreviation firsts :: "('e + 'f) list \<Rightarrow> 'e list" where
  "firsts \<equiv> List.map_filter of_first"

abbreviation seconds :: "('e + 'f) list \<Rightarrow> 'f list" where
  "seconds \<equiv> List.map_filter of_second"

lemma both_keeps:
  assumes "isr_keeps K L isr" and "isr_keeps K' L isr'"
  shows "isr_keeps (\<lambda>s. K (fst s) \<and> K' (snd s)) L (both isr isr')"
  unfolding isr_keeps_def
proof (intro allI impI)
  fix i s w s' w'
  assume "K (fst s) \<and> K' (snd s)" and "both isr isr' i s w = Some (s', w')"
  then show "(K (fst s') \<and> K' (snd s')) \<and> L w' = L w"
    using assms unfolding isr_keeps_def by (cases i; cases s) (auto simp: bind_eq_Some_conv)
qed

lemma map_filter_prefix: "prefix xs ys \<Longrightarrow> prefix (List.map_filter own xs) (List.map_filter own ys)"
  by (auto simp: prefix_def map_filter_append)

definition jointly ::
  "('a \<Rightarrow> 'w \<Rightarrow> 'e list \<Rightarrow> bool) \<Rightarrow> ('b \<Rightarrow> 'w \<Rightarrow> 'f list \<Rightarrow> bool) \<Rightarrow> 'a \<times> 'b \<Rightarrow> 'w \<Rightarrow> ('e + 'f) list \<Rightarrow> bool" where
  "jointly P Q s w es \<longleftrightarrow> P (fst s) w (firsts es) \<and> Q (snd s) w (seconds es)"

lemma of_first_second: "of_first i = None \<longleftrightarrow> (\<exists>e. i = Inr e)" "of_first i = Some e \<longleftrightarrow> i = Inl e"
  "of_second i = None \<longleftrightarrow> (\<exists>e. i = Inl e)" "of_second i = Some e' \<longleftrightarrow> i = Inr e'"
  by (cases i; simp)+

text \<open>Families whose interrupt entries leave the log of the other alone.\<close>

definition apart ::
  "('a \<Rightarrow> bool) \<Rightarrow> ('w \<Rightarrow> 'k) \<Rightarrow> ('e \<Rightarrow> 'a \<Rightarrow> 'w \<Rightarrow> ('a \<times> 'w) option) \<Rightarrow> ('f \<rightharpoonup> ('a, 'w) prog) \<Rightarrow> bool" where
  "apart K L isr services \<longleftrightarrow> isr_keeps K L isr \<and> (\<forall>f main. services f = Some main \<longrightarrow> keeps K L main)"

lemma apart_isr: "apart K L isr services \<Longrightarrow> isr_keeps K L isr"
  and apart_main: "apart K L isr [f \<mapsto> main] \<Longrightarrow> keeps K L main"
  by (simp_all add: apart_def)

lemma first_part:
  fixes isrA :: "'e \<Rightarrow> 'a \<Rightarrow> 'w \<Rightarrow> ('a \<times> 'w) option" and isrB :: "'f \<Rightarrow> 'b \<Rightarrow> 'w \<Rightarrow> ('b \<times> 'w) option"
  assumes "isr_keeps KA LB isrA" and "isr_keeps KB LA isrB"
    and "stable isrB LB PB" and "\<And>b w es. PB b w es \<Longrightarrow> KB b"
  shows "part isrA LA fst (\<lambda>a (_, b). (a, b)) of_first (both isrA isrB) (\<lambda>w. (LA w, LB w)) KA LB
    (\<lambda>s w es. PB (snd s) w (seconds es))"
proof
  fix s :: "'a \<times> 'b" and w w' a i and es :: "('e + 'f) list"
  assume P: "PB (snd s) w (seconds es)"
  show "PB (snd ((\<lambda>(_, b). (a, b)) s)) w' (seconds es)" and "PB (snd s) w' (seconds es)" if "LB w' = LB w"
    using stable_log [OF assms(3) P that] by (simp_all add: split_beta)
  show "PB (snd s) w (seconds (es @ [i]))" if "of_first i = Some e" for e
    using P that by (simp add: map_filter_append of_first_second List.map_filter_simps)
  show "\<exists>s' w'. both isrA isrB i s w = Some (s', w') \<and> fst s' = fst s \<and> LA w' = LA w \<and> PB (snd s') w' (seconds (es @ [i]))"
    if other: "of_first i = None"
  proof -
    obtain e where i: "i = Inr e" using other by (auto simp: of_first_second)
    obtain b' w' where b': "isrB e (snd s) w = Some (b', w')" "PB b' w' (seconds es @ [e])"
      using stable_isr [OF assms(3) P] by blast
    have "LA w' = LA w" using assms(2) assms(4) [OF P] b'(1) by (auto simp: isr_keeps_def)
    then show ?thesis using b' i by (cases s) (simp add: map_filter_append List.map_filter_simps)
  qed
qed (auto simp: assms(1) of_first_second split: bind_split)

lemma second_part:
  fixes isrA :: "'e \<Rightarrow> 'a \<Rightarrow> 'w \<Rightarrow> ('a \<times> 'w) option" and isrB :: "'f \<Rightarrow> 'b \<Rightarrow> 'w \<Rightarrow> ('b \<times> 'w) option"
  assumes "isr_keeps KB LA isrB" and "isr_keeps KA LB isrA"
    and "stable isrA LA PA" and "\<And>a w es. PA a w es \<Longrightarrow> KA a"
  shows "part isrB LB snd (\<lambda>b (a, _). (a, b)) of_second (both isrA isrB) (\<lambda>w. (LA w, LB w)) KB LA
    (\<lambda>s w es. PA (fst s) w (firsts es))"
proof
  fix s :: "'a \<times> 'b" and w w' b i and es :: "('e + 'f) list"
  assume P: "PA (fst s) w (firsts es)"
  show "PA (fst ((\<lambda>(a, _). (a, b)) s)) w' (firsts es)" and "PA (fst s) w' (firsts es)" if "LA w' = LA w"
    using stable_log [OF assms(3) P that] by (simp_all add: split_beta)
  show "PA (fst s) w (firsts (es @ [i]))" if "of_second i = Some e" for e
    using P that by (simp add: map_filter_append of_first_second List.map_filter_simps)
  show "\<exists>s' w'. both isrA isrB i s w = Some (s', w') \<and> snd s' = snd s \<and> LB w' = LB w \<and> PA (fst s') w' (firsts (es @ [i]))"
    if other: "of_second i = None"
  proof -
    obtain e where i: "i = Inl e" using other by (auto simp: of_first_second)
    obtain a' w' where a': "isrA e (fst s) w = Some (a', w')" "PA a' w' (firsts es @ [e])"
      using stable_isr [OF assms(3) P] by blast
    have "LB w' = LB w" using assms(2) assms(4) [OF P] a'(1) by (auto simp: isr_keeps_def)
    then show ?thesis using a' i by (cases s) (simp add: map_filter_append List.map_filter_simps)
  qed
qed (auto simp: assms(1) of_first_second split: bind_split)

lemma stable_jointly:
  fixes isrA :: "'e \<Rightarrow> 'a \<Rightarrow> 'w \<Rightarrow> ('a \<times> 'w) option" and isrB :: "'f \<Rightarrow> 'b \<Rightarrow> 'w \<Rightarrow> ('b \<times> 'w) option"
  assumes "stable isrA LA PA" and "stable isrB LB PB" and "isr_keeps KA LB isrA" and "isr_keeps KB LA isrB"
    and "\<And>a w es. PA a w es \<Longrightarrow> KA a" and "\<And>b w es. PB b w es \<Longrightarrow> KB b"
  shows "stable (both isrA isrB) (\<lambda>w. (LA w, LB w)) (jointly PA PB)"
proof (rule stableI)
  fix s :: "'a \<times> 'b" and w es and i :: "'e + 'f"
  assume P: "jointly PA PB s w es"
  then have parts: "PA (fst s) w (firsts es)" "PB (snd s) w (seconds es)" by (simp_all add: jointly_def)
  show "\<exists>s' w'. both isrA isrB i s w = Some (s', w') \<and> jointly PA PB s' w' (es @ [i])"
  proof (cases i)
    case (Inl e)
    obtain a' w' where a': "isrA e (fst s) w = Some (a', w')" "PA a' w' (firsts es @ [e])"
      using stable_isr [OF assms(1) parts(1)] by blast
    then have "LB w' = LB w" using assms(3) assms(5) [OF parts(1)] by (auto simp: isr_keeps_def)
    with stable_log [OF assms(2) parts(2) this] a' show ?thesis
      by (cases s) (simp add: Inl jointly_def map_filter_append List.map_filter_simps)
  next
    case (Inr e)
    obtain b' w' where b': "isrB e (snd s) w = Some (b', w')" "PB b' w' (seconds es @ [e])"
      using stable_isr [OF assms(2) parts(2)] by blast
    then have "LA w' = LA w" using assms(4) assms(6) [OF parts(2)] by (auto simp: isr_keeps_def)
    with stable_log [OF assms(1) parts(1) this] b' show ?thesis
      by (cases s) (simp add: Inr jointly_def map_filter_append List.map_filter_simps)
  qed
next
  fix s w es w'
  assume "jointly PA PB s w es" and "(LA w', LB w') = (LA w, LB w)"
  then show "jointly PA PB s w' es"
    using stable_log [OF assms(1), of "fst s" w "firsts es" w'] stable_log [OF assms(2), of "snd s" w "seconds es" w']
    by (simp add: jointly_def)
qed

lemma first_withstands:
  assumes "isr_keeps KA LB isrA" and "isr_keeps KB LA isrB" and "stable isrB LB PB" and "\<And>b w es. PB b w es \<Longrightarrow> KB b"
    and "keeps KA LB main" and "\<And>a w es. PA a w es \<Longrightarrow> KA a"
    and "\<And>a w es. PA a w es \<Longrightarrow> withstands isrA LA QA main a w es" and "jointly PA PB s w es"
  shows "withstands (both isrA isrB) (\<lambda>w. (LA w, LB w)) (jointly QA PB) (on_first main) s w es"
proof -
  have P: "PA (fst s) w (firsts es)" "PB (snd s) w (seconds es)" using assms(8) by (simp_all add: jointly_def)
  show ?thesis
    using part.withstands_part [OF first_part [OF assms(1-4)] assms(7) [OF P(1)] refl refl assms(6) [OF P(1)] P(2) assms(5)]
    by (simp add: jointly_def [abs_def])
qed

lemma second_withstands:
  assumes "isr_keeps KB LA isrB" and "isr_keeps KA LB isrA" and "stable isrA LA PA" and "\<And>a w es. PA a w es \<Longrightarrow> KA a"
    and "keeps KB LA main" and "\<And>b w es. PB b w es \<Longrightarrow> KB b"
    and "\<And>b w es. PB b w es \<Longrightarrow> withstands isrB LB QB main b w es" and "jointly PA PB s w es"
  shows "withstands (both isrA isrB) (\<lambda>w. (LA w, LB w)) (jointly PA QB) (on_second main) s w es"
proof -
  have P: "PA (fst s) w (firsts es)" "PB (snd s) w (seconds es)" using assms(8) by (simp_all add: jointly_def)
  show ?thesis
    using part.withstands_part [OF second_part [OF assms(1-4)] assms(7) [OF P(2)] refl refl assms(6) [OF P(2)] P(1) assms(5)]
    by (simp add: jointly_def [abs_def] conj_commute)
qed

text \<open>The services of both, what they keep and their progress.\<close>

definition side_by_side :: "('f \<rightharpoonup> ('a, 'w) prog) \<Rightarrow> ('f \<rightharpoonup> ('b, 'w) prog) \<Rightarrow> 'f \<rightharpoonup> ('a \<times> 'b, 'w) prog" where
  "side_by_side services services' f = (case services f of
     Some main \<Rightarrow> Some (on_first main) | None \<Rightarrow> map_option on_second (services' f))"

lemma dom_side_by_side: "dom (side_by_side services services') = dom services \<union> dom services'"
  by (auto simp: side_by_side_def dom_def split: option.splits)

fun joint_stage where
  "joint_stage F J Prog G J' Prog' f (Inl k) n = jointly (if f \<in> F then Prog f k n else J) J'"
| "joint_stage F J Prog G J' Prog' f (Inr k) n = jointly J (if f \<in> G then Prog' f k n else J')"

lemma services_together:
  fixes ProgA :: "'f \<Rightarrow> 'k \<Rightarrow> nat \<Rightarrow> 'a \<Rightarrow> 'w \<Rightarrow> 'e list \<Rightarrow> bool" and ProgB :: "'f \<Rightarrow> 'l \<Rightarrow> nat \<Rightarrow> 'b \<Rightarrow> 'w \<Rightarrow> 'd list \<Rightarrow> bool"
  assumes "preempted_services isrA S LA JA ProgA" and "preempted_services isrB T LB JB ProgB"
    and "dom S \<inter> dom T = {}" and "apart KA LB isrA S" and "apart KB LA isrB T"
    and "\<And>a w es. JA a w es \<Longrightarrow> KA a" and "\<And>f k n a w es. ProgA f k n a w es \<Longrightarrow> KA a"
    and "\<And>b w es. JB b w es \<Longrightarrow> KB b" and "\<And>f k n b w es. ProgB f k n b w es \<Longrightarrow> KB b"
  shows "preempted_services (both isrA isrB) (side_by_side S T) (\<lambda>w. (LA w, LB w)) (jointly JA JB)
    (joint_stage (dom S) JA ProgA (dom T) JB ProgB)"
proof
  note A = preempted_services.J_stable [OF assms(1)] preempted_services.Prog_stable [OF assms(1)]
  note B = preempted_services.J_stable [OF assms(2)] preempted_services.Prog_stable [OF assms(2)]
  let ?PA = "\<lambda>f k n. if f \<in> dom S then ProgA f k n else JA" and ?PB = "\<lambda>f k n. if f \<in> dom T then ProgB f k n else JB"
  have keep: "isr_keeps KA LB isrA" "isr_keeps KB LA isrB" using assms(4,5) by (simp_all add: apart_def)
  have first: "stable isrA LA (?PA f k n)" "?PA f k n a w es \<Longrightarrow> KA a" for f k n a w es
    using A assms(6,7) by (simp_all split: if_splits) 
  have second: "stable isrB LB (?PB f k n)" "?PB f k n b w es \<Longrightarrow> KB b" for f k n b w es
    using B assms(8,9) by (simp_all split: if_splits)
  show "stable (both isrA isrB) (\<lambda>w. (LA w, LB w)) (jointly JA JB)"
    by (rule stable_jointly [OF A(1) B(1) keep assms(6,8)])
  show "stable (both isrA isrB) (\<lambda>w. (LA w, LB w)) (joint_stage (dom S) JA ProgA (dom T) JB ProgB f k n)" for f k n
    by (cases k) (simp_all only: joint_stage.simps stable_jointly [OF first(1) B(1) keep first(2) assms(8)]
      stable_jointly [OF A(1) second(1) keep assms(6) second(2)])
  have cases: "(\<exists>c. S g = Some c \<and> T g = None \<and> main = on_first c \<and> keeps KA LB c) \<or>
      (\<exists>c. S g = None \<and> T g = Some c \<and> main = on_second c \<and> keeps KB LA c)"
    if "side_by_side S T g = Some main" for g main
    using that assms(3-5) by (auto simp: side_by_side_def apart_def split: option.splits)
  have run_first: "withstands (both isrA isrB) (\<lambda>w. (LA w, LB w)) (jointly QA PB) (on_first c) s w es"
    if "keeps KA LB c" "stable isrB LB PB" "\<And>b w es. PB b w es \<Longrightarrow> KB b" "\<And>a w es. PA a w es \<Longrightarrow> KA a"
      "\<And>a w es. PA a w es \<Longrightarrow> withstands isrA LA QA c a w es" "jointly PA PB s w es" for c PA QA PB s w es
    by (rule first_withstands [OF keep that(2) _ that(1) _ _ that(6)]) (erule that(3-5))+
  have run_second: "withstands (both isrA isrB) (\<lambda>w. (LA w, LB w)) (jointly PA QB) (on_second c) s w es"
    if "keeps KB LA c" "stable isrA LA PA" "\<And>a w es. PA a w es \<Longrightarrow> KA a" "\<And>b w es. PB b w es \<Longrightarrow> KB b"
      "\<And>b w es. PB b w es \<Longrightarrow> withstands isrB LB QB c b w es" "jointly PA PB s w es" for c PA PB QB s w es
    by (rule second_withstands [OF keep(2,1) that(2) _ that(1) _ _ that(6)]) (erule that(3-5))+
  note runs = preempted_services.J_runs [OF assms(1)] preempted_services.J_runs [OF assms(2)]
    preempted_services.Prog_runs [OF assms(1)] preempted_services.Prog_runs [OF assms(2)]
  show "withstands (both isrA isrB) (\<lambda>w. (LA w, LB w)) (jointly JA JB) main s w es"
    if "side_by_side S T f = Some main" "jointly JA JB s w es" for f main s w es
    using cases [OF that(1)]
    by (elim disjE exE conjE; simp) (rule run_first [OF _ B(1) assms(8,6) runs(1) that(2)]
        run_second [OF _ A(1) assms(6,8) runs(2) that(2)]; assumption)+
  have stage_runs: "withstands isrA LA (?PA f i (if g = f then Suc n else n)) c a w es" if "S g = Some c" "?PA f i n a w es" for f i g n c a w es
    using that runs(1) [OF that(1)] runs(3) [OF that(1)] by (cases "f \<in> dom S") simp_all
  have stage_runs': "withstands isrB LB (?PB f i (if g = f then Suc n else n)) c b w es" if "T g = Some c" "?PB f i n b w es" for f i g n c b w es
    using that runs(2) [OF that(1)] runs(4) [OF that(1)] by (cases "f \<in> dom T") simp_all
  have idle: "S g = None \<Longrightarrow> ?PA f i (if g = f then Suc n else n) = ?PA f i n" "T g = None \<Longrightarrow> ?PB f j (if g = f then Suc n else n) = ?PB f j n"
    for f i j g n by (auto simp: dom_def)
  show "withstands (both isrA isrB) (\<lambda>w. (LA w, LB w)) (joint_stage (dom S) JA ProgA (dom T) JB ProgB f k (if g = f then Suc n else n)) main s w es"
    if main: "side_by_side S T g = Some main" and pre: "joint_stage (dom S) JA ProgA (dom T) JB ProgB f k n s w es" for f g k n main s w es
  proof (cases k)
    case (Inl i)
    with pre have pre: "jointly (?PA f i n) JB s w es" by simp
    from cases [OF main] show ?thesis
    proof (elim disjE exE conjE)
      fix c
      assume c: "S g = Some c" "main = on_first c" "keeps KA LB c"
      show ?thesis
        unfolding c(2) Inl joint_stage.simps
        by (rule run_first [OF c(3) B(1) assms(8) first(2) stage_runs [OF c(1)] pre])
    next
      fix c
      assume c: "S g = None" "T g = Some c" "main = on_second c" "keeps KB LA c"
      show ?thesis
        unfolding c(3) Inl joint_stage.simps idle(1) [OF c(1)]
        by (rule run_second [OF c(4) first(1) first(2) assms(8) runs(2) [OF c(2)] pre])
    qed
  next
    case (Inr i)
    with pre have pre: "jointly JA (?PB f i n) s w es" by simp
    from cases [OF main] show ?thesis
    proof (elim disjE exE conjE)
      fix c
      assume c: "S g = Some c" "T g = None" "main = on_first c" "keeps KA LB c"
      show ?thesis
        unfolding c(3) Inr joint_stage.simps idle(2) [OF c(2)]
        by (rule run_first [OF c(4) second(1) second(2) assms(6) runs(1) [OF c(1)] pre])
    next
      fix c
      assume c: "T g = Some c" "main = on_second c" "keeps KB LA c"
      show ?thesis
        unfolding c(2) Inr joint_stage.simps
        by (rule run_second [OF c(3) A(1) assms(6) second(2) stage_runs' [OF c(1)] pre])
    qed
  qed
qed

end
