(* ===== verification/Irq_Scheduled.thy ===== *)
theory Irq_Scheduled
  imports Preemption Together
begin

text \<open>
  The interrupt services under the scheduler, with interrupts anywhere: what arrives is served, or
  counted as given up, in a time that the release grid of the service's task determines.
\<close>

context preemptible
begin

definition irq_stage ::
  "('w \<Rightarrow> 'b list) \<Rightarrow> ('e \<Rightarrow> 'b list) \<Rightarrow> 's \<Rightarrow> 'w \<Rightarrow> 'e list \<Rightarrow> nat \<Rightarrow> nat \<Rightarrow> 's \<Rightarrow> 'w \<Rightarrow> 'e list \<Rightarrow> bool" where
  "irq_stage log seen s0 w0 es0 t n = irq_account log seen s0 w0 es0 t (bound s0 - n * budget s0) []"

lemma irq_preempted_service:
  assumes "observes log seen bracket handle" and "\<forall>e v. log (ack s0 e v) = log v" and "\<forall>e. eff s0 (record_of e) = handle e"
  shows "preempted_service isr (service_prog take_hint poll pop eff budget x0) log
    (irq_account log seen s0 w0 es0 0 0 []) (irq_stage log seen s0 w0 es0)"
proof
  fix s v es
  note runs = service_withstands [OF assms]
  show "stable isr log (irq_account log seen s0 w0 es0 0 0 [])" and "stable isr log (irq_stage log seen s0 w0 es0 t n)" for t n
    unfolding irq_stage_def by (rule irq_account_stable(1) [OF assms(1,2)])+
  show "withstands isr log (irq_account log seen s0 w0 es0 0 0 []) (service_prog take_hint poll pop eff budget x0) s v es"
    if "irq_account log seen s0 w0 es0 0 0 [] s v es" using runs [OF that] by simp
  show "withstands isr log (irq_stage log seen s0 w0 es0 t (Suc n)) (service_prog take_hint poll pop eff budget x0) s v es"
    if "irq_stage log seen s0 w0 es0 t n s v es" for t n
  proof -
    have "bound s0 - n * budget s0 - budget s0 = bound s0 - Suc n * budget s0" by simp
    then show ?thesis using runs that unfolding irq_stage_def by metis
  qed
qed

lemma irq_preempted_app:
  assumes "leaves_log p env log" and "observes log seen bracket handle" and "\<forall>e v. log (ack s0 e v) = log v"
    and "\<forall>e. eff s0 (record_of e) = handle e"
  shows "preempted_app isr (service_prog take_hint poll pop eff budget x0) p env log
    (irq_account log seen s0 w0 es0 0 0 []) (irq_stage log seen s0 w0 es0)"
  by (intro preempted_app.intro preempted_app_axioms.intro irq_preempted_service [OF assms(2-4)] assms(1))

text \<open>Enough runs after \<open>es1\<close> have left nothing of it in the queue.\<close>

lemma irq_stage_end:
  assumes "irq_stage log seen s0 w0 es0 (length (es0 @ es1)) n s v es"
  obtains served held where "subseq (served @ held) (es0 @ es)"
    and "newest s0 \<or> suffix (drop (length (es0 @ es) - bound s0) (es0 @ es)) (served @ held)"
    and "items s = map record_of held" and "log v = log w0 @ concat (map seen served)"
    and "lost s = lost s0 + of_nat (length (es0 @ es) - length (served @ held))"
    and "bound s0 \<le> n * budget s0 \<longrightarrow> subseq held (drop (length es1) es)"
proof -
  from assms obtain served held where a: "kept_account (bound s0) (newest s0) (es0 @ es) (served @ [] @ held)"
    "waiting (length (es0 @ es1)) (bound s0 - n * budget s0) (es0 @ es) held" "items s = map record_of held"
    "log v = log w0 @ concat (map seen served)" "lost s = lost s0 + of_nat (length (es0 @ es) - length (served @ [] @ held))"
    unfolding irq_stage_def by (rule irq_accountE)
  show ?thesis
    by (rule that [of served held]) (use a in \<open>auto simp: kept_account_def waiting_def\<close>)
qed

text \<open>
  Two stretches of polls, interrupts anywhere in both. Nothing is ever undefined and the account
  holds; when the second has enough points of the grid for what the ring can hold, all that arrived
  in the first has been served or given up.
\<close>

lemma served_anywhere:
  assumes "leaves_log p env log" and "observes log seen bracket handle" and "\<forall>e v. log (ack s0 e v) = log v"
    and "\<forall>e. eff s0 (record_of e) = handle e"
    and "invar s0" and "items s0 = map record_of es0"
    and "sch_wf sc" and "sch_quiet sc" and "j < SCH_MAX_TASKS" and "fn (tasks sc ! j) = Some Service_Task"
    and "tracks R period T0 lo (tasks sc ! j)" and "0 < period" and "period \<le> 2 ^ 31"
    and "\<forall>h\<in>set (hs1 @ hs2). \<forall>v. log (h v) = log v"
  shows "\<exists>polls1 sc1 w1 polls2 sc2 w2 served held.
    run_seq cfg (interrupted isr p) (interrupted_app isr (service_prog take_hint poll pop eff budget x0) env)
      (map (elapse isr) hs1) (Some sc) (system_start s0 v0 batches) = Some (polls1, Some sc1, w1) \<and>
    run_seq cfg (interrupted isr p) (interrupted_app isr (service_prog take_hint poll pop eff budget x0) env)
      (map (elapse isr) hs2) (Some sc1) w1 = Some (polls2, Some sc2, w2) \<and>
    \<not> broken w2 \<and> prefix (arrived w1) (arrived w2) \<and> arrived w2 @ concat (coming w2) = concat batches \<and>
    subseq (served @ held) (es0 @ arrived w2) \<and>
    (newest s0 \<or> suffix (drop (length (es0 @ arrived w2) - bound s0) (es0 @ arrived w2)) (served @ held)) \<and>
    items (service w2) = map record_of held \<and>
    log (platform w2) = log v0 @ concat (map seen served) \<and>
    lost (service w2) = lost s0 + of_nat (length (es0 @ arrived w2) - length (served @ held)) \<and>
    (\<forall>Ts. map fst (polls1 @ polls2) = map of_nat Ts \<and> polls_close T0 Ts \<and>
        bound s0 \<le> releases_after (length hs1) R period lo Ts * budget s0 \<longrightarrow>
      subseq held (drop (length (arrived w1)) (arrived w2)))"
proof -
  let ?w = "system_start s0 v0 batches" and ?J = "irq_account log seen s0 v0 es0 0 0 []"
  let ?Prog = "irq_stage log seen s0 v0 es0"
  have J: "holds ?J ?w" using irq_account_start [OF assms(5,6)] by simp
  from preempted_app.polls_advance_after [OF irq_preempted_app [OF assms(1-4)] assms(7,8) J assms(14,9-13)]
  obtain polls1 sc1 w1 polls2 sc2 w2 n where
    r: "run_seq cfg (interrupted isr p) (interrupted_app isr (service_prog take_hint poll pop eff budget x0) env)
        (map (elapse isr) hs1) (Some sc) ?w = Some (polls1, Some sc1, w1)"
      "run_seq cfg (interrupted isr p) (interrupted_app isr (service_prog take_hint poll pop eff budget x0) env)
        (map (elapse isr) hs2) (Some sc1) w1 = Some (polls2, Some sc2, w2)"
    and J': "holds ?J w1" "holds ?J w2" "supplied ?w w1" "supplied w1 w2"
    and prog: "\<forall>t m. holds (?Prog t m) w1 \<longrightarrow> holds (?Prog t (m + n)) w2"
    and met: "\<forall>Ts. map fst (polls1 @ polls2) = map of_nat Ts \<longrightarrow> polls_close T0 Ts \<longrightarrow>
      releases_after (length hs1) R period lo Ts \<le> n" by blast
  let ?t = "length (es0 @ arrived w1)"
  have "holds (?Prog ?t 0) w1" using J'(1) irq_account_now by (fastforce simp: holds_def irq_stage_def)
  with prog have "holds (?Prog ?t n) w2" by (metis add_0)
  then have "irq_stage log seen s0 v0 es0 ?t n (service w2) (platform w2) (arrived w2)" by (simp add: holds_def)
  then obtain served held where a: "subseq (served @ held) (es0 @ arrived w2)"
    "newest s0 \<or> suffix (drop (length (es0 @ arrived w2) - bound s0) (es0 @ arrived w2)) (served @ held)"
    "items (service w2) = map record_of held" "log (platform w2) = log v0 @ concat (map seen served)"
    "lost (service w2) = lost s0 + of_nat (length (es0 @ arrived w2) - length (served @ held))"
    "bound s0 \<le> n * budget s0 \<longrightarrow> subseq held (drop (length (arrived w1)) (arrived w2))"
    by (rule irq_stage_end)
  have "subseq held (drop (length (arrived w1)) (arrived w2))"
    if "map fst (polls1 @ polls2) = map of_nat Ts" "polls_close T0 Ts"
      "bound s0 \<le> releases_after (length hs1) R period lo Ts * budget s0" for Ts
    using met that a(6) by (meson le_trans mult_le_mono1)
  moreover have "\<not> broken w2" using J'(2) by (simp add: holds_def)
  moreover have "prefix (arrived w1) (arrived w2)" "arrived w2 @ concat (coming w2) = concat batches"
    using J'(3,4) by (simp_all add: supplied_def system_start_def)
  ultimately show ?thesis
    using r a(1-5)
    by (intro exI [of _ polls1] exI [of _ sc1] exI [of _ w1] exI [of _ polls2] exI [of _ sc2] exI [of _ w2]
        exI [of _ served] exI [of _ held]) simp
qed

text \<open>Interrupts leave a clock alone that neither critical sections nor acknowledgements touch.\<close>

lemma irq_account_clock:
  assumes "observes log seen bracket handle" and "\<forall>e v. log (ack s0 e v) = log v"
    and "\<And>v. clock (bracket v) = clock v" and "\<And>e v. clock (ack s0 e v) = clock v"
  shows "stable isr (\<lambda>v. v) (\<lambda>s v es. irq_account log seen s0 w0 es0 t m flight s v es \<and> clock v = c)"
proof (rule stableI)
  fix s v es e
  assume A: "irq_account log seen s0 w0 es0 t m flight s v es \<and> clock v = c"
  then obtain s' v' where s': "isr e s v = Some (s', v')" "irq_account log seen s0 w0 es0 t m flight s' v' (es @ [e])"
    using irq_account_isr [OF _ assms(1,2)] by blast
  have "invar s" "ack s = ack s0" using A by (simp_all add: irq_account_def same_setup_def)
  then have "clock v' = c" using isr_eq [of s e v] s'(1) A assms(3,4) by auto
  then show "\<exists>s' v'. isr e s v = Some (s', v') \<and>
      irq_account log seen s0 w0 es0 t m flight s' v' (es @ [e]) \<and> clock v' = c" using s' by blast
qed simp

text \<open>What neither the port nor the callbacks write, the service leaves alone.\<close>

lemma irq_apart_typed:
  assumes "\<And>v. L (bracket v) = L v" and "\<And>e v. L (ack s0 e v) = L v" and "\<And>x v. L (eff s0 x v) = L v"
    and "range record_of \<subseteq> A"
  shows "apart (\<lambda>s. invar s \<and> same_setup s s0 \<and> set (items s) \<subseteq> A) L isr
    [f \<mapsto> service_prog take_hint poll pop eff budget x0]"
proof -
  let ?K = "\<lambda>s. invar s \<and> same_setup s s0 \<and> set (items s) \<subseteq> A"
  have hint: "?K (fst (snd (take_hint s v))) \<and> L (snd (snd (take_hint s v))) = L v" if "?K s" for s v
    using take_hint_eq [of s v] that assms(1) by (auto simp: same_setup_def)
  have ask: "L (snd (poll s v)) = L v" if "?K s" for s v using poll_eq [of s v] that assms(1) by simp
  have pops: "?K s' \<and> L v' = L v" if "?K s" "pop s x v = Some (ok, y, s', v')" for s x v ok y s' v'
  proof (cases "items s")
    case Nil
    then show ?thesis using pop_empty [of s x v] that assms(1) by simp
  next
    case (Cons z zs)
    then show ?thesis using pop_item [of s z zs x v] that assms(1) by (auto simp: same_setup_def)
  qed
  have handles: "?K s' \<and> L v' = L v" if "?K s" "Some (True, s, eff s x v) = Some (c, s', v')" for s x v c s' v'
    using that assms(3) by (auto simp: same_setup_def)
  have loop: "keeps ?K L (service_loop pop eff budget x0)"
    unfolding service_loop_def by (rule keeps_goto [OF keeps_drain [OF pops handles keeps.stop]])
  have run: "keeps ?K L (service_prog take_hint poll pop eff budget x0)"
    unfolding service_prog_def
    by (intro keeps_take keeps_if keeps_ask loop keeps.stop hint ask)
  have entry: "isr_keeps ?K L isr"
    unfolding isr_keeps_def
  proof (intro allI impI)
    fix e s w s' w'
    assume K: "?K s" and isr: "isr e s w = Some (s', w')"
    obtain a where a: "isr e s w = Some (a, bracket (bracket (ack s e w)))" "invar a" "same_setup a s"
      "items a = bounded_push (bound s) (newest s) (items s) (record_of e)"
      using isr_eq [of s e w] K by (auto simp: same_setup_def)
    have "insert (record_of e) (set (items s)) \<subseteq> A" using K assms(4) by auto
    then have "set (items a) \<subseteq> A" unfolding a(4) by (rule subset_trans [OF bounded_push_subset])
    moreover have "s' = a" "L w' = L w" using a(1) isr K assms(1,2) by (simp_all add: same_setup_def)
    ultimately show "?K s' \<and> L w' = L w" using a(2,3) K by (simp add: same_setup_def)
  qed
  from run entry show ?thesis by (simp add: apart_def)
qed

lemma irq_apart:
  assumes "\<And>v. L (bracket v) = L v" and "\<And>e v. L (ack s0 e v) = L v" and "\<And>x v. L (eff s0 x v) = L v"
  shows "apart (\<lambda>s. invar s \<and> same_setup s s0) L isr [f \<mapsto> service_prog take_hint poll pop eff budget x0]"
  using irq_apart_typed [OF assms, where A = UNIV] by simp

text \<open>
  From an empty ring on nothing is undefined, wherever interrupts hit, and whatever the ring holds or
  gives is a record that an interrupt entry made.
\<close>

lemma typed_anywhere:
  assumes "invar s0" and "items s0 = []"
    and "interleaved isr (service_prog take_hint poll pop eff budget x0) (s0, w0) es (c, s, w)"
  shows "isr e s w \<noteq> None" and "c = Step f \<Longrightarrow> f s w \<noteq> None" and "set (items s) \<subseteq> range record_of"
    and "pop s x w = Some (True, r, s', w') \<Longrightarrow> r \<in> range record_of"
proof -
  let ?log = "\<lambda>_. [] :: unit list" and ?J = "irq_account (\<lambda>_. [] :: unit list) (\<lambda>_. []) s0 w0 [] 0 0 []"
  have obs: "observes ?log (\<lambda>_. []) bracket (\<lambda>e. eff s0 (record_of e))" by (simp add: observes_def)
  have start: "?J s0 w0 []" by (rule irq_account_start) (simp_all add: assms(1,2))
  have st: "stable isr ?log ?J" by (rule irq_account_stable(1) [OF obs]) simp
  have "withstands isr ?log ?J (service_prog take_hint poll pop eff budget x0) s w es" if "?J s w es" for s w es
    using service_withstands [OF obs _ _ that] by simp
  note ws = interleaved_withstands [OF assms(3) start st this]
  show "isr e s w \<noteq> None" by (rule withstands_isr [OF st ws])
  show "f s w \<noteq> None" if "c = Step f" by (rule withstands_defined [OF ws [unfolded that]])
  let ?K = "\<lambda>s. invar s \<and> same_setup s s0 \<and> set (items s) \<subseteq> range record_of"
  have "apart ?K (\<lambda>_. ()) isr [() \<mapsto> service_prog take_hint poll pop eff budget x0]"
    by (rule irq_apart_typed) simp_all
  from interleaved_keeps [OF assms(3) apart_isr [OF this] apart_main [OF this]]
  have K: "?K s" using assms(1,2) by (simp add: same_setup_def)
  then show "set (items s) \<subseteq> range record_of" by simp
  show "r \<in> range record_of" if "pop s x w = Some (True, r, s', w')"
  proof (cases "items s")
    case Nil
    then show ?thesis using pop_empty [of s x w] K that by simp
  next
    case (Cons y ys)
    then show ?thesis using pop_item [of s y ys x w] K that by auto
  qed
qed

end

text \<open>What has room and came before what is held has been served.\<close>

lemma first_served:
  assumes "subseq (served @ held) all" and "suffix all (served @ held)" and "subseq held (drop n all)" and "0 < n" and "all \<noteq> []"
  shows "served \<noteq> [] \<and> hd served = hd all"
proof -
  have "served @ held = all"
    using assms(1,2) by (metis list_emb_length suffix_length_le suffix_order.order_iff_strict suffix_length_less not_less)
  moreover have "length held < length all" using list_emb_length [OF assms(3)] assms(4,5) by (cases all) auto
  ultimately show ?thesis by (cases served) auto
qed

end
