(* ===== verification/Fsi_Service.thy ===== *)
theory Fsi_Service
  imports Irq_Service
begin

text \<open>
  \<^verbatim>\<open>src/services/fsi_service.c\<close> and its header: the FSI interrupt service.
  Interrupt entries append one record to a ring and set a bit in \<open>event_bits\<close>; the run
  function clears the bits and dispatches at most a budget of records by tag. HAL callbacks are
  target code, reached through pointers that may be null: optional functions on the platform
  state. \<open>'x\<close> is the type of the opaque HAL context.
\<close>

unbundle bit_operations_syntax

section \<open>Data\<close>

definition SCH_FSI_EVENT_BIT_RX :: u32 where
  "SCH_FSI_EVENT_BIT_RX = 1"

definition SCH_FSI_EVENT_BIT_TX :: u32 where
  "SCH_FSI_EVENT_BIT_TX = 2"

definition SCH_FSI_EVENT_BIT_ERROR :: u32 where
  "SCH_FSI_EVENT_BIT_ERROR = 4"

declare SCH_FSI_EVENT_BIT_RX_def [c_consts] SCH_FSI_EVENT_BIT_TX_def [c_consts] SCH_FSI_EVENT_BIT_ERROR_def [c_consts]

record sch_fsi_irq_record =
  channel :: u16
  frame_index :: u16
  irq_tag :: u16
  status :: u16

datatype sch_fsi_irq_tag =
    SCH_FSI_IRQ_TAG_RX
  | SCH_FSI_IRQ_TAG_TX
  | SCH_FSI_IRQ_TAG_ERROR

fun fsi_tag_value :: "sch_fsi_irq_tag \<Rightarrow> u16" where
  "fsi_tag_value SCH_FSI_IRQ_TAG_RX = 1"
| "fsi_tag_value SCH_FSI_IRQ_TAG_TX = 2"
| "fsi_tag_value SCH_FSI_IRQ_TAG_ERROR = 3"

record ('x, 'w) sch_fsi_hal =
  ack_irq :: "('x option \<Rightarrow> sch_fsi_irq_tag \<Rightarrow> u16 \<Rightarrow> 'w \<Rightarrow> 'w) option"
  service_rx_frame :: "('x option \<Rightarrow> sch_fsi_irq_record \<Rightarrow> 'w \<Rightarrow> bool \<times> 'w) option"
  service_tx_complete :: "('x option \<Rightarrow> sch_fsi_irq_record \<Rightarrow> 'w \<Rightarrow> bool \<times> 'w) option"
  service_error :: "('x option \<Rightarrow> sch_fsi_irq_record \<Rightarrow> 'w \<Rightarrow> bool \<times> 'w) option"
  hal_ctx :: "'x option"

record ('x, 'w) sch_fsi_service =
  hal :: "('x, 'w) sch_fsi_hal"
  irq_records :: sch_spsc_ring
  event_bits :: u32
  max_records_per_run :: size_t

text \<open>The object representation of a record: four 16-bit members without padding.\<close>

definition sizeof_fsi_record :: size_t where
  "sizeof_fsi_record = 8"

definition fsi_record_bytes :: "sch_fsi_irq_record \<Rightarrow> u8 list" where
  "fsi_record_bytes r =
     u16_bytes (channel r) @ u16_bytes (frame_index r) @ u16_bytes (irq_tag r) @ u16_bytes (status r)"

definition fsi_record_of_bytes :: "u8 list \<Rightarrow> sch_fsi_irq_record" where
  "fsi_record_of_bytes bs =
     \<lparr>channel = u16_of_bytes (take 2 bs), frame_index = u16_of_bytes (take 2 (drop 2 bs)),
      irq_tag = u16_of_bytes (take 2 (drop 4 bs)), status = u16_of_bytes (take 2 (drop 6 bs))\<rparr>"

section \<open>Operations\<close>

definition sch_fsi_service_init ::
  "'w port \<Rightarrow> ('x, 'w) sch_fsi_service option \<Rightarrow> ('x, 'w) sch_fsi_hal option \<Rightarrow> u8 list option \<Rightarrow>
   size_t \<Rightarrow> size_t \<Rightarrow> sch_overflow_mode \<Rightarrow> 'w \<Rightarrow> bool \<times> ('x, 'w) sch_fsi_service option \<times> 'w" where
  "sch_fsi_service_init p service hal_arg record_storage record_capacity max_records overflow_mode w =
     (if is_null service \<or> is_null hal_arg \<or> max_records = 0 then (False, service, w)
      else
        let s = (the service)\<lparr>hal := the hal_arg, event_bits := 0, max_records_per_run := max_records\<rparr>;
            (ok, r, w) = sch_spsc_ring_init p (Some (irq_records s)) record_storage record_capacity
              sizeof_fsi_record overflow_mode w
        in (ok, Some (s\<lparr>irq_records := the r\<rparr>), w))"

definition fsi_ack ::
  "('x, 'w) sch_fsi_service \<Rightarrow> sch_fsi_irq_tag \<Rightarrow> u16 \<Rightarrow> 'w \<Rightarrow> 'w" where
  "fsi_ack s tag channel_arg w =
     (case ack_irq (hal s) of None \<Rightarrow> w | Some f \<Rightarrow> f (hal_ctx (hal s)) tag channel_arg w)"

definition sch_fsi_isr_push ::
  "'w port \<Rightarrow> ('x, 'w) sch_fsi_service option \<Rightarrow> sch_fsi_irq_tag \<Rightarrow> u16 \<Rightarrow> u16 \<Rightarrow> u16 \<Rightarrow> u32 \<Rightarrow>
   'w \<Rightarrow> (('x, 'w) sch_fsi_service option \<times> 'w) option" where
  "sch_fsi_isr_push p service tag channel_arg frame_index_arg status_arg event_bit w =
     (if is_null service then Some (service, w)
      else do {
        let s = the service;
        let w = fsi_ack s tag channel_arg w;
        let record = \<lparr>channel = channel_arg, frame_index = frame_index_arg, irq_tag = fsi_tag_value tag, status = status_arg\<rparr>;
        (push_result, r, w) \<leftarrow> ring_push fsi_record_bytes p (irq_records s) record w;
        let s = s\<lparr>irq_records := r\<rparr>;
        let (state, w) = sch_port_enter_critical p w;
        let s = s\<lparr>event_bits := event_bits s OR event_bit\<rparr>;
        Some (Some s, sch_port_exit_critical p state w)
      })"

definition sch_fsi_isr_rx ::
  "'w port \<Rightarrow> ('x, 'w) sch_fsi_service option \<Rightarrow> u16 \<Rightarrow> u16 \<Rightarrow> u16 \<Rightarrow> 'w \<Rightarrow>
   (('x, 'w) sch_fsi_service option \<times> 'w) option" where
  "sch_fsi_isr_rx p service ch fi st w =
     sch_fsi_isr_push p service SCH_FSI_IRQ_TAG_RX ch fi st SCH_FSI_EVENT_BIT_RX w"

definition sch_fsi_isr_tx ::
  "'w port \<Rightarrow> ('x, 'w) sch_fsi_service option \<Rightarrow> u16 \<Rightarrow> u16 \<Rightarrow> u16 \<Rightarrow> 'w \<Rightarrow>
   (('x, 'w) sch_fsi_service option \<times> 'w) option" where
  "sch_fsi_isr_tx p service ch fi st w =
     sch_fsi_isr_push p service SCH_FSI_IRQ_TAG_TX ch fi st SCH_FSI_EVENT_BIT_TX w"

definition sch_fsi_isr_error ::
  "'w port \<Rightarrow> ('x, 'w) sch_fsi_service option \<Rightarrow> u16 \<Rightarrow> u16 \<Rightarrow> 'w \<Rightarrow>
   (('x, 'w) sch_fsi_service option \<times> 'w) option" where
  "sch_fsi_isr_error p service ch st w =
     sch_fsi_isr_push p service SCH_FSI_IRQ_TAG_ERROR ch 0 st SCH_FSI_EVENT_BIT_ERROR w"

text \<open>The dispatch of one record: the switch of the run function.\<close>

definition fsi_dispatch ::
  "('x, 'w) sch_fsi_hal \<Rightarrow> sch_fsi_irq_record \<Rightarrow> 'w \<Rightarrow> 'w" where
  "fsi_dispatch h record w =
     (let call = (\<lambda>handler. case handler of None \<Rightarrow> w | Some f \<Rightarrow> snd (f (hal_ctx h) record w))
      in
        if irq_tag record = fsi_tag_value SCH_FSI_IRQ_TAG_RX then call (service_rx_frame h)
        else if irq_tag record = fsi_tag_value SCH_FSI_IRQ_TAG_TX then call (service_tx_complete h)
        else if irq_tag record = fsi_tag_value SCH_FSI_IRQ_TAG_ERROR then call (service_error h)
        else w)"

definition sch_fsi_service_run ::
  "'w port \<Rightarrow> ('x, 'w) sch_fsi_service option \<Rightarrow> 'w \<Rightarrow>
   (('x, 'w) sch_fsi_service option \<times> 'w) option" where
  "sch_fsi_service_run p service w =
     (if is_null service then Some (service, w)
      else do {
        let s = the service;
        let (state, w) = sch_port_enter_critical p w;
        let pending_event_bits = event_bits s;
        let s = s\<lparr>event_bits := 0\<rparr>;
        let w = sch_port_exit_critical p state w;
        let (empty, w) =
          (if pending_event_bits = 0 then sch_spsc_ring_is_empty p (Some (irq_records s)) w
           else (False, w));
        if empty then Some (Some s, w)
        else do {
          (s, record, w) \<leftarrow> drain_loop (unat (max_records_per_run s))
            (field_pop irq_records (\<lambda>r s. s\<lparr>irq_records := r\<rparr>)
              (ring_pop fsi_record_bytes fsi_record_of_bytes p))
            (\<lambda>record s w. Some (True, s, fsi_dispatch (hal s) record w))
            s \<lparr>channel = 0, frame_index = 0, irq_tag = 0, status = 0\<rparr> w;
          Some (Some s, w)
        }
      })"

definition sch_fsi_service_drop_count ::
  "'w port \<Rightarrow> ('x, 'w) sch_fsi_service option \<Rightarrow> 'w \<Rightarrow> size_t \<times> 'w" where
  "sch_fsi_service_drop_count p service w =
     (if is_null service then (0, w)
      else sch_spsc_ring_drop_count p (Some (irq_records (the service))) w)"

section \<open>Records in the ring\<close>

lemma fsi_record_bytes_inverse: "fsi_record_of_bytes (fsi_record_bytes r) = r"
  by (cases r) (simp add: fsi_record_of_bytes_def fsi_record_bytes_def u16_of_bytes_bytes)

lemma length_fsi_record_bytes: "length (fsi_record_bytes r) = 8"
  by (simp add: fsi_record_bytes_def)

interpretation fsi_ring: object_ring fsi_record_bytes fsi_record_of_bytes sizeof_fsi_record p for p
  by unfold_locales
    (simp_all add: fsi_record_bytes_inverse length_fsi_record_bytes sizeof_fsi_record_def)

interpretation fsi_client: queue_client
  "ring_push fsi_record_bytes p" "ring_pop fsi_record_bytes fsi_record_of_bytes p" "crit p"
  "typed_inv sizeof_fsi_record" "typed_items fsi_record_of_bytes" ring_bound ring_newest drops
  "\<lambda>r x. ring_enq r (fsi_record_bytes x)" ring_deq irq_records "\<lambda>r s. s\<lparr>irq_records := r\<rparr>"
  for p
  by unfold_locales simp_all

section \<open>The service contract\<close>

definition fsi_inv :: "('x, 'w) sch_fsi_service \<Rightarrow> bool" where
  "fsi_inv s \<longleftrightarrow> typed_inv sizeof_fsi_record (irq_records s) \<and> max_records_per_run s \<noteq> 0"

definition fsi_items :: "('x, 'w) sch_fsi_service \<Rightarrow> sch_fsi_irq_record list" where
  "fsi_items s = typed_items fsi_record_of_bytes (irq_records s)"

lemma fsi_init_iff:
  "fst (sch_fsi_service_init p service hal_arg st cap max_records mode w) \<longleftrightarrow>
     \<not> is_null service \<and> \<not> is_null hal_arg \<and> \<not> is_null st \<and> max_records \<noteq> 0 \<and> cap \<noteq> 0 \<and>
     (mode = SCH_OVERFLOW_DROP_NEWEST \<or> mode = SCH_OVERFLOW_DROP_OLDEST)"
  using ring_init_iff [of p _ st cap sizeof_fsi_record mode w]
  by (auto simp: sch_fsi_service_init_def Let_def split_beta sizeof_fsi_record_def)

lemma fsi_init_ok:
  assumes "max_records \<noteq> 0" and "cap \<noteq> 0"
    and "mode = SCH_OVERFLOW_DROP_NEWEST \<or> mode = SCH_OVERFLOW_DROP_OLDEST"
    and "unat cap * 8 \<le> length m" and "length m < 2 ^ 32"
  obtains s' where "sch_fsi_service_init p (Some s) (Some h) (Some m) cap max_records mode w =
      (True, Some s', crit p w)" "fsi_inv s'" "fsi_items s' = []" "event_bits s' = 0" "hal s' = h"
    "ring_bound (irq_records s') = unat cap" "drops (irq_records s') = 0"
    "ring_newest (irq_records s') \<longleftrightarrow> mode = SCH_OVERFLOW_DROP_NEWEST" "max_records_per_run s' = max_records"
proof -
  have fit: "unat cap * unat sizeof_fsi_record \<le> length m" using assms(4) by (simp add: sizeof_fsi_record_def)
  obtain r where r: "sch_spsc_ring_init p (Some (irq_records s)) (Some m) cap sizeof_fsi_record mode w =
      (True, Some r, crit p w)" "typed_inv sizeof_fsi_record r" "typed_items fsi_record_of_bytes r = []"
    "drops r = 0" "ring_bound r = unat cap" "ring_newest r \<longleftrightarrow> mode = SCH_OVERFLOW_DROP_NEWEST"
    by (rule fsi_ring.init_refines [OF assms(2,3) fit assms(5)])
  show thesis
    by (rule that [of "s\<lparr>hal := h, event_bits := 0, max_records_per_run := max_records, irq_records := r\<rparr>"])
      (use r assms(1) in \<open>simp_all add: sch_fsi_service_init_def fsi_inv_def fsi_items_def\<close>)
qed

text \<open>The three interrupt entries, as events.\<close>

datatype fsi_interrupt =
    FSI_RX u16 u16 u16
  | FSI_TX u16 u16 u16
  | FSI_ERROR u16 u16

fun fsi_isr ::
  "'w port \<Rightarrow> fsi_interrupt \<Rightarrow> ('x, 'w) sch_fsi_service option \<Rightarrow> 'w \<Rightarrow>
   (('x, 'w) sch_fsi_service option \<times> 'w) option" where
  "fsi_isr p (FSI_RX ch fi st) service w = sch_fsi_isr_rx p service ch fi st w"
| "fsi_isr p (FSI_TX ch fi st) service w = sch_fsi_isr_tx p service ch fi st w"
| "fsi_isr p (FSI_ERROR ch st) service w = sch_fsi_isr_error p service ch st w"

fun fsi_interrupt_tag :: "fsi_interrupt \<Rightarrow> sch_fsi_irq_tag" where
  "fsi_interrupt_tag (FSI_RX ch fi st) = SCH_FSI_IRQ_TAG_RX"
| "fsi_interrupt_tag (FSI_TX ch fi st) = SCH_FSI_IRQ_TAG_TX"
| "fsi_interrupt_tag (FSI_ERROR ch st) = SCH_FSI_IRQ_TAG_ERROR"

fun fsi_record :: "fsi_interrupt \<Rightarrow> sch_fsi_irq_record" where
  "fsi_record (FSI_RX ch fi st) =
     \<lparr>channel = ch, frame_index = fi, irq_tag = 1, status = st\<rparr>"
| "fsi_record (FSI_TX ch fi st) =
     \<lparr>channel = ch, frame_index = fi, irq_tag = 2, status = st\<rparr>"
| "fsi_record (FSI_ERROR ch st) =
     \<lparr>channel = ch, frame_index = 0, irq_tag = 3, status = st\<rparr>"

fun fsi_interrupt_bit :: "fsi_interrupt \<Rightarrow> u32" where
  "fsi_interrupt_bit (FSI_RX ch fi st) = SCH_FSI_EVENT_BIT_RX"
| "fsi_interrupt_bit (FSI_TX ch fi st) = SCH_FSI_EVENT_BIT_TX"
| "fsi_interrupt_bit (FSI_ERROR ch st) = SCH_FSI_EVENT_BIT_ERROR"

lemma fsi_interrupt_bit_nonzero: "fsi_interrupt_bit e \<noteq> 0"
  by (cases e) (simp_all add: c_consts)

text \<open>Calls with the address of the service.\<close>

definition fsi_isr_at ::
  "'w port \<Rightarrow> fsi_interrupt \<Rightarrow> ('x, 'w) sch_fsi_service \<Rightarrow> 'w \<Rightarrow>
   (('x, 'w) sch_fsi_service \<times> 'w) option" where
  "fsi_isr_at p e s w = do { (s, w) \<leftarrow> fsi_isr p e (Some s) w; Some (the s, w) }"

definition fsi_run_at ::
  "'w port \<Rightarrow> ('x, 'w) sch_fsi_service \<Rightarrow> 'w \<Rightarrow> (('x, 'w) sch_fsi_service \<times> 'w) option" where
  "fsi_run_at p s w = do { (s, w) \<leftarrow> sch_fsi_service_run p (Some s) w; Some (the s, w) }"

lemma fsi_ack_update [simp]:
  "fsi_ack (irq_records_update f s) = fsi_ack s" "fsi_ack (event_bits_update g s) = fsi_ack s"
  by (simp_all add: fsi_ack_def fun_eq_iff split: option.split)

lemma fsi_push_eq:
  assumes "fsi_inv s"
  shows "sch_fsi_isr_push p (Some s) tag a b d eb w =
    Some (Some (s\<lparr>irq_records := ring_enq (irq_records s)
              (fsi_record_bytes \<lparr>channel = a, frame_index = b, irq_tag = fsi_tag_value tag, status = d\<rparr>),
            event_bits := event_bits s OR eb\<rparr>),
          crit p (crit p (fsi_ack s tag a w)))"
  using assms
  by (simp add: sch_fsi_isr_push_def fsi_inv_def fsi_ring.push_refines crit_def split_beta Let_def)

lemma fsi_isr_eq:
  assumes "fsi_inv s"
  shows "fsi_isr_at p e s w =
    Some (s\<lparr>irq_records := ring_enq (irq_records s) (fsi_record_bytes (fsi_record e)),
            event_bits := event_bits s OR fsi_interrupt_bit e\<rparr>,
          crit p (crit p (fsi_ack s (fsi_interrupt_tag e) (channel (fsi_record e)) w)))"
  by (cases e) (simp_all add: fsi_isr_at_def sch_fsi_isr_rx_def sch_fsi_isr_tx_def sch_fsi_isr_error_def fsi_push_eq [OF assms])

lemma fsi_run_eq:
  assumes "fsi_inv s"
  shows "fsi_run_at p s w =
    Some (s\<lparr>irq_records := (ring_deq ^^ min (unat (max_records_per_run s)) (length (fsi_items s))) (irq_records s),
            event_bits := 0\<rparr>,
          service_world (crit p) (fsi_dispatch (hal s)) (unat (max_records_per_run s))
            (event_bits s \<noteq> 0) (fsi_items s) w)"
proof -
  have inv: "typed_inv sizeof_fsi_record (irq_records s)" using assms by (simp add: fsi_inv_def)
  have empty: "sch_spsc_ring_is_empty p (Some (irq_records s)) v = (fsi_items s = [], crit p v)" for v
    using inv ring_inv_valid [of "irq_records s"]
    by (simp add: sch_spsc_ring_is_empty_def sch_spsc_ring_size_def typed_inv_def crit_def split_beta
        Let_def fsi_items_def)
  have drain: "drain_loop n (field_pop irq_records (\<lambda>r s. s\<lparr>irq_records := r\<rparr>)
        (ring_pop fsi_record_bytes fsi_record_of_bytes p))
      (\<lambda>record s w. Some (True, s, fsi_dispatch (hal s) record w)) (s\<lparr>event_bits := 0\<rparr>) x v =
    Some (s\<lparr>event_bits := 0, irq_records := (ring_deq ^^ min n (length (fsi_items s))) (irq_records s)\<rparr>,
      last (x # take n (fsi_items s)), drain_world (crit p) (fsi_dispatch (hal s)) n (fsi_items s) v)" for n x v
    using fsi_client.drain_dispatch [where s = "s\<lparr>event_bits := 0\<rparr>" and P = "\<lambda>t. hal t = hal s" and
        body = "\<lambda>record s w. Some (True, s, fsi_dispatch (hal s) record w)" and eff = "fsi_dispatch (hal s)"
        and n = n and x = x and w = v and p = p] inv
    by (simp add: fsi_items_def)
  show ?thesis
    by (cases "event_bits s = 0"; cases "fsi_items s = []")
      (simp_all add: fsi_run_at_def sch_fsi_service_run_def empty drain service_world_def crit_def split_beta
        Let_def)
qed

interpretation fsi: irq_service
  "fsi_isr_at p :: _ \<Rightarrow> ('x, 'w) sch_fsi_service \<Rightarrow> _" "fsi_run_at p" "crit p" fsi_inv fsi_items "\<lambda>s. ring_bound (irq_records s)"
  "\<lambda>s. ring_newest (irq_records s)" "\<lambda>s. drops (irq_records s)" "\<lambda>s. event_bits s \<noteq> 0"
  "\<lambda>s. unat (max_records_per_run s)" fsi_record
  "\<lambda>s e. fsi_ack s (fsi_interrupt_tag e) (channel (fsi_record e))" "\<lambda>s. fsi_dispatch (hal s)"
  for p
proof unfold_locales
  fix s :: "('x, 'w) sch_fsi_service" and e w
  assume inv: "fsi_inv s"
  then have r: "typed_inv sizeof_fsi_record (irq_records s)" by (simp add: fsi_inv_def)
  have "event_bits s OR fsi_interrupt_bit e \<noteq> 0"
    by (simp add: or_eq_0_iff fsi_interrupt_bit_nonzero)
  then show "\<exists>s'. fsi_isr_at p e s w = Some (s', crit p (crit p (fsi_ack s (fsi_interrupt_tag e) (channel (fsi_record e)) w))) \<and>
      fsi_inv s' \<and>
      fsi_items s' = bounded_push (ring_bound (irq_records s)) (ring_newest (irq_records s)) (fsi_items s) (fsi_record e) \<and>
      event_bits s' \<noteq> 0 \<and>
      drops (irq_records s') =
        (if length (fsi_items s) = ring_bound (irq_records s) then drops (irq_records s) + 1 else drops (irq_records s)) \<and>
      ring_bound (irq_records s') = ring_bound (irq_records s) \<and>
      ring_newest (irq_records s') = ring_newest (irq_records s) \<and>
      unat (max_records_per_run s') = unat (max_records_per_run s) \<and>
      (\<lambda>e. fsi_ack s' (fsi_interrupt_tag e) (channel (fsi_record e))) =
        (\<lambda>e. fsi_ack s (fsi_interrupt_tag e) (channel (fsi_record e))) \<and>
      fsi_dispatch (hal s') = fsi_dispatch (hal s)"
    using inv fsi_ring.enq_refines [OF r, of "fsi_record e"]
    by (simp add: fsi_isr_eq [OF inv] fsi_inv_def fsi_items_def)
  show "\<exists>s'. fsi_run_at p s w = Some (s', service_world (crit p) (fsi_dispatch (hal s))
        (unat (max_records_per_run s)) (event_bits s \<noteq> 0) (fsi_items s) w) \<and>
      fsi_inv s' \<and> fsi_items s' = drop (unat (max_records_per_run s)) (fsi_items s) \<and>
      \<not> event_bits s' \<noteq> 0 \<and> drops (irq_records s') = drops (irq_records s) \<and>
      ring_bound (irq_records s') = ring_bound (irq_records s) \<and>
      ring_newest (irq_records s') = ring_newest (irq_records s) \<and>
      unat (max_records_per_run s') = unat (max_records_per_run s) \<and>
      (\<lambda>e. fsi_ack s' (fsi_interrupt_tag e) (channel (fsi_record e))) =
        (\<lambda>e. fsi_ack s (fsi_interrupt_tag e) (channel (fsi_record e))) \<and>
      fsi_dispatch (hal s') = fsi_dispatch (hal s)"
    using inv fsi_ring.queue.deqs_keep [OF r] fsi_run_eq [OF inv, of p w]
    by (simp add: fsi_inv_def fsi_items_def drop_min_typed)
  show "length (fsi_items s) \<le> ring_bound (irq_records s)" and "0 < ring_bound (irq_records s)"
    using typed_inv_bound [OF r] by (simp_all add: fsi_items_def)
  show "0 < unat (max_records_per_run s)" using inv by (simp add: fsi_inv_def unat_gt_0)
qed

section \<open>Served interrupts\<close>

text \<open>What handling an interrupt means: its callback, if there is one, gets its record.\<close>

fun fsi_handle :: "('x, 'w) sch_fsi_hal \<Rightarrow> fsi_interrupt \<Rightarrow> 'w \<Rightarrow> 'w" where
  "fsi_handle h (FSI_RX a b c) w = (case service_rx_frame h of None \<Rightarrow> w
     | Some f \<Rightarrow> snd (f (hal_ctx h) (fsi_record (FSI_RX a b c)) w))"
| "fsi_handle h (FSI_TX a b c) w = (case service_tx_complete h of None \<Rightarrow> w
     | Some f \<Rightarrow> snd (f (hal_ctx h) (fsi_record (FSI_TX a b c)) w))"
| "fsi_handle h (FSI_ERROR a c) w = (case service_error h of None \<Rightarrow> w
     | Some f \<Rightarrow> snd (f (hal_ctx h) (fsi_record (FSI_ERROR a c)) w))"

lemma fsi_dispatch_record: "\<forall>e. fsi_dispatch h (fsi_record e) = fsi_handle h e"
proof
  fix e
  show "fsi_dispatch h (fsi_record e) = fsi_handle h e"
    by (cases e) (simp_all add: fsi_dispatch_def fun_eq_iff Let_def split: option.split)
qed

lemma fsi_drop_count_eq:
  "fsi_inv s \<Longrightarrow> sch_fsi_service_drop_count p (Some s) w = (drops (irq_records s), crit p w)"
  by (simp add: sch_fsi_service_drop_count_def fsi_inv_def typed_inv_def ring_inv_valid
      sch_spsc_ring_drop_count_def crit_def split_beta Let_def)

text \<open>
  The FSI service serves its interrupts. Whatever is pending when a burst of interrupts
  arrives, neither the interrupt entries nor the runs are ever undefined, and once enough runs
  have followed, the callback of every interrupt retained by the ring's policy has been called
  with that interrupt's record, exactly once and in the order of the interrupts; nothing is left
  in the ring, and the service's drop count has grown by the number not retained.
\<close>

lemma fsi_interrupts_served:
  assumes "fsi_inv s" and "fsi_items s = map fsi_record es0"
    and "unat (capacity (irq_records s)) \<le> n * unat (max_records_per_run s)"
    and "observes log seen (crit p) (fsi_handle (hal s))"
  shows "\<exists>s1 w1 s' w'. isr_all (fsi_isr_at p) es s w = Some (s1, w1) \<and>
    run_times (fsi_run_at p) n s1 w1 = Some (s', w') \<and> fsi_inv s' \<and> fsi_items s' = [] \<and>
    log w' = log w1 @ concat (map seen (retained (unat (capacity (irq_records s)))
      (overflow (irq_records s) = SCH_OVERFLOW_DROP_NEWEST) (es0 @ es))) \<and>
    fst (sch_fsi_service_drop_count p (Some s') w') =
      drops (irq_records s) + of_nat (length (es0 @ es) - unat (capacity (irq_records s)))"
  using fsi.interrupts_served [OF assms(1,2) _ assms(4) fsi_dispatch_record, where n = n and es = es and w = w] assms(3) fsi_drop_count_eq
  by (fastforce simp: ring_bound_def ring_newest_def)

end
