(* ===== verification/Fsi_Preempted.thy ===== *)
theory Fsi_Preempted
  imports Irq_Scheduled Fsi_Service
begin

text \<open>
  The FSI service under preemption: \<open>sch_fsi_service_run\<close> as a program whose steps are the
  critical sections and callbacks of the C function. Without interrupts the program computes what
  the run function computes, also where that is undefined; it meets the contract under which no
  record is lost, repeated or reordered beyond what the drop counter tells, wherever interrupts hit.
\<close>

section \<open>The program\<close>

text \<open>The section that takes and clears the event bits.\<close>

definition fsi_take_hint ::
  "'w port \<Rightarrow> ('x, 'w) sch_fsi_service \<Rightarrow> 'w \<Rightarrow> bool \<times> ('x, 'w) sch_fsi_service \<times> 'w" where
  "fsi_take_hint p s w =
     (let (state, w) = sch_port_enter_critical p w;
          pending_event_bits = event_bits s;
          s = s\<lparr>event_bits := 0\<rparr>;
          w = sch_port_exit_critical p state w
      in (pending_event_bits \<noteq> 0, s, w))"

definition fsi_prog :: "'w port \<Rightarrow> (('x, 'w) sch_fsi_service, 'w) prog" where
  "fsi_prog p = service_prog (fsi_take_hint p)
     (\<lambda>s. sch_spsc_ring_is_empty p (Some (irq_records s)))
     (field_pop irq_records (\<lambda>r s. s\<lparr>irq_records := r\<rparr>) (ring_pop fsi_record_bytes fsi_record_of_bytes p))
     (\<lambda>s record. fsi_dispatch (hal s) record)
     (\<lambda>s. unat (max_records_per_run s))
     \<lparr>channel = 0, frame_index = 0, irq_tag = 0, status = 0\<rparr>"

lemma fsi_prog_finish: "finish (fsi_prog p) s w = fsi_run_at p s w"
  unfolding fsi_prog_def service_prog_finish
  by (simp add: fsi_take_hint_def fsi_run_at_def sch_fsi_service_run_def split_beta Let_def split: bind_splits)

section \<open>The contract of a preemptible service\<close>

interpretation fsi_steps: preemptible
  "fsi_isr_at p :: _ \<Rightarrow> ('x, 'w) sch_fsi_service \<Rightarrow> _" "fsi_run_at p" "crit p" fsi_inv fsi_items
  "\<lambda>s. ring_bound (irq_records s)" "\<lambda>s. ring_newest (irq_records s)" "\<lambda>s. drops (irq_records s)"
  "\<lambda>s. event_bits s \<noteq> 0" "\<lambda>s. unat (max_records_per_run s)" fsi_record
  "\<lambda>s e. fsi_ack s (fsi_interrupt_tag e) (channel (fsi_record e))" "\<lambda>s. fsi_dispatch (hal s)"
  "fsi_take_hint p" "\<lambda>s. sch_spsc_ring_is_empty p (Some (irq_records s))"
  "field_pop irq_records (\<lambda>r s. s\<lparr>irq_records := r\<rparr>) (ring_pop fsi_record_bytes fsi_record_of_bytes p)"
  for p
proof unfold_locales
  fix s :: "('x, 'w) sch_fsi_service" and w x
  assume inv: "fsi_inv s"
  then have r: "typed_inv sizeof_fsi_record (irq_records s)" by (simp add: fsi_inv_def)
  show "\<exists>s'. fsi_take_hint p s w = (event_bits s \<noteq> 0, s', crit p w) \<and> fsi_inv s' \<and> fsi_items s' = fsi_items s \<and>
      drops (irq_records s') = drops (irq_records s) \<and>
      ring_bound (irq_records s') = ring_bound (irq_records s) \<and>
      ring_newest (irq_records s') = ring_newest (irq_records s) \<and>
      unat (max_records_per_run s') = unat (max_records_per_run s) \<and>
      (\<lambda>e. fsi_ack s' (fsi_interrupt_tag e) (channel (fsi_record e))) =
        (\<lambda>e. fsi_ack s (fsi_interrupt_tag e) (channel (fsi_record e))) \<and>
      fsi_dispatch (hal s') = fsi_dispatch (hal s)"
    using inv by (simp add: fsi_take_hint_def crit_def split_beta Let_def fsi_inv_def fsi_items_def)
  show "sch_spsc_ring_is_empty p (Some (irq_records s)) w = (fsi_items s = [], crit p w)"
    using ring_is_empty_refines [of "irq_records s" p w] r
    by (simp add: fsi_items_def typed_items_empty_iff typed_inv_def)
  show "field_pop irq_records (\<lambda>r s. s\<lparr>irq_records := r\<rparr>) (ring_pop fsi_record_bytes fsi_record_of_bytes p) s x w =
      Some (False, x, s, crit p w)" if "fsi_items s = []"
    using that fsi_ring.queue.pop_eq [OF r, of p x w] by (simp add: field_pop_def fsi_items_def)
  fix y ys
  show "\<exists>s'. field_pop irq_records (\<lambda>r s. s\<lparr>irq_records := r\<rparr>) (ring_pop fsi_record_bytes fsi_record_of_bytes p) s x w =
        Some (True, y, s', crit p w) \<and> fsi_inv s' \<and> fsi_items s' = ys \<and>
      drops (irq_records s') = drops (irq_records s) \<and>
      ring_bound (irq_records s') = ring_bound (irq_records s) \<and>
      ring_newest (irq_records s') = ring_newest (irq_records s) \<and>
      unat (max_records_per_run s') = unat (max_records_per_run s) \<and>
      (\<lambda>e. fsi_ack s' (fsi_interrupt_tag e) (channel (fsi_record e))) =
        (\<lambda>e. fsi_ack s (fsi_interrupt_tag e) (channel (fsi_record e))) \<and>
      fsi_dispatch (hal s') = fsi_dispatch (hal s)" if "fsi_items s = y # ys"
    using that inv fsi_ring.queue.pop_eq [OF r, of p x w] fsi_ring.queue.deq_simps [OF r]
    by (simp add: field_pop_def fsi_items_def fsi_inv_def)
qed

end
