(* ===== verification/Fsi_Scheduled.thy ===== *)
theory Fsi_Scheduled
  imports Board Fsi_Preempted
begin

text \<open>
  The FSI service as a task of the scheduler: from the interrupt entry over the ring and the
  dispatch of \<open>sch_run\<close> to the callback of the target.
\<close>

section \<open>The types of the records\<close>

text \<open>
  From the initialisation on nothing is undefined, wherever interrupts hit the runs, and every record
  that the ring holds or gives carries a tag of the enumeration: the switch of the run function
  never takes its default branch.
\<close>

lemma fsi_records_typed:
  assumes "sch_fsi_service_init p (Some raw) (Some h) (Some m) cap max_records mode w = (True, Some s0, w0)"
    and "unat cap * 8 \<le> length m" and "length m < 2 ^ 32"
    and "interleaved (fsi_isr_at p) (fsi_prog p) (s0, w0) es (c, s, v)"
  shows "fsi_isr_at p e s v \<noteq> None" and "c = Step f \<Longrightarrow> f s v \<noteq> None"
    and "r \<in> set (fsi_items s) \<Longrightarrow> \<exists>tag. irq_tag r = fsi_tag_value tag"
    and "field_pop irq_records (\<lambda>r s. s\<lparr>irq_records := r\<rparr>) (ring_pop fsi_record_bytes fsi_record_of_bytes p) s x v =
      Some (True, r, s', v') \<Longrightarrow> \<exists>tag. irq_tag r = fsi_tag_value tag"
proof -
  have "max_records \<noteq> 0" "cap \<noteq> 0" "mode = SCH_OVERFLOW_DROP_NEWEST \<or> mode = SCH_OVERFLOW_DROP_OLDEST"
    using fsi_init_iff [of p "Some raw" "Some h" "Some m" cap max_records mode w] assms(1) by simp_all
  from fsi_init_ok [OF this assms(2,3), of p raw h w] have s0: "fsi_inv s0" "fsi_items s0 = []" using assms(1) by auto
  note typed = fsi_steps.typed_anywhere [OF s0 assms(4) [unfolded fsi_prog_def]]
  have tag: "\<exists>tag. irq_tag r = fsi_tag_value tag" if "r \<in> range fsi_record" for r
  proof -
    from that obtain e where "r = fsi_record e" by blast
    then show ?thesis by (cases e) (auto intro: exI [of _ SCH_FSI_IRQ_TAG_RX] exI [of _ SCH_FSI_IRQ_TAG_TX] exI [of _ SCH_FSI_IRQ_TAG_ERROR])
  qed
  show "fsi_isr_at p e s v \<noteq> None" and "c = Step f \<Longrightarrow> f s v \<noteq> None" by (rule typed(1), rule typed(2))
  show "\<exists>tag. irq_tag r = fsi_tag_value tag" if "r \<in> set (fsi_items s)" by (rule tag [OF subsetD [OF typed(3) that]])
  show "\<exists>tag. irq_tag r = fsi_tag_value tag"
    if "field_pop irq_records (\<lambda>r s. s\<lparr>irq_records := r\<rparr>) (ring_pop fsi_record_bytes fsi_record_of_bytes p) s x v =
      Some (True, r, s', v')" by (rule tag [OF typed(4) [OF that]])
qed

section \<open>The platform\<close>

lemma fsi_served_app:
  assumes "leaves_log p env log" and "observes log seen (crit p) (fsi_handle h)"
  shows "served_app (fsi_isr_at p) (fsi_run_at p) (crit p) fsi_inv fsi_items (\<lambda>s. ring_bound (irq_records s))
    (\<lambda>s. ring_newest (irq_records s)) (\<lambda>s. drops (irq_records s)) (\<lambda>s. event_bits s \<noteq> 0)
    (\<lambda>s. unat (max_records_per_run s)) fsi_record
    (\<lambda>s e. fsi_ack s (fsi_interrupt_tag e) (channel (fsi_record e))) (\<lambda>s. fsi_dispatch (hal s))
    p env log seen (fsi_handle h)"
  using assms by unfold_locales (simp_all add: leaves_log_def leaves_but_def other_task)

text \<open>The service on the board: its callbacks write down the records they get.\<close>

definition board_hal :: "(unit, sch_fsi_irq_record board) sch_fsi_hal" where
  "board_hal = \<lparr>ack_irq = None, service_rx_frame = Some (\<lambda>c r b. (True, b\<lparr>board_log := board_log b @ [r]\<rparr>)),
     service_tx_complete = None, service_error = Some (\<lambda>c r b. (False, b\<lparr>board_log := board_log b @ [r]\<rparr>)), hal_ctx = None\<rparr>"

fun board_seen :: "fsi_interrupt \<Rightarrow> sch_fsi_irq_record list" where
  "board_seen (FSI_RX a b c) = [fsi_record (FSI_RX a b c)]"
| "board_seen (FSI_TX a b c) = []"
| "board_seen (FSI_ERROR a c) = [fsi_record (FSI_ERROR a c)]"

lemma board_observes: "observes board_log board_seen (crit board_port) (fsi_handle board_hal)"
  unfolding observes_def
proof (intro conjI allI)
  show "board_log (fsi_handle board_hal e b) = board_log b @ board_seen e" for e b
    by (cases e) (simp_all add: board_hal_def)
qed (simp add: crit_def board_port_def)

interpretation board_app: served_app "fsi_isr_at board_port" "fsi_run_at board_port" "crit board_port" fsi_inv fsi_items
  "\<lambda>s. ring_bound (irq_records s)" "\<lambda>s. ring_newest (irq_records s)" "\<lambda>s. drops (irq_records s)"
  "\<lambda>s. event_bits s \<noteq> 0" "\<lambda>s. unat (max_records_per_run s)" fsi_record
  "\<lambda>s e. fsi_ack s (fsi_interrupt_tag e) (channel (fsi_record e))" "\<lambda>s. fsi_dispatch (hal s)"
  board_port board_env board_log board_seen "fsi_handle board_hal"
  by (rule fsi_served_app [OF board_leaves board_observes])

section \<open>Interrupts anywhere\<close>

text \<open>
  However the interrupts hit the scheduler and the runs of the service: the callbacks are called
  for what arrived, once each and in its order, less what is still in the ring and what was given
  up and counted.
\<close>

lemma fsi_served_anywhere:
  assumes "fsi_inv s0" and "fsi_items s0 = map fsi_record es0"
    and "leaves_log p env log" and "observes log seen (crit p) (fsi_handle (hal s0))"
    and "\<forall>tag ch v. log (fsi_ack s0 tag ch v) = log v"
    and "sch_wf sc" and "sch_quiet sc" and "j < SCH_MAX_TASKS" and "fn (tasks sc ! j) = Some Service_Task"
    and "tracks R period T0 lo (tasks sc ! j)" and "0 < period" and "period \<le> 2 ^ 31"
    and "\<forall>h\<in>set (hs1 @ hs2). \<forall>v. log (h v) = log v"
  shows "\<exists>polls1 sc1 w1 polls2 sc2 w2 served held.
    run_seq cfg (interrupted (fsi_isr_at p) p) (interrupted_app (fsi_isr_at p) (fsi_prog p) env)
      (map (elapse (fsi_isr_at p)) hs1) (Some sc) (system_start s0 v0 batches) = Some (polls1, Some sc1, w1) \<and>
    run_seq cfg (interrupted (fsi_isr_at p) p) (interrupted_app (fsi_isr_at p) (fsi_prog p) env)
      (map (elapse (fsi_isr_at p)) hs2) (Some sc1) w1 = Some (polls2, Some sc2, w2) \<and>
    \<not> broken w2 \<and> prefix (arrived w1) (arrived w2) \<and> arrived w2 @ concat (coming w2) = concat batches \<and>
    subseq (served @ held) (es0 @ arrived w2) \<and>
    (overflow (irq_records s0) = SCH_OVERFLOW_DROP_NEWEST \<or>
      suffix (drop (length (es0 @ arrived w2) - unat (capacity (irq_records s0))) (es0 @ arrived w2)) (served @ held)) \<and>
    fsi_items (service w2) = map fsi_record held \<and>
    log (platform w2) = log v0 @ concat (map seen served) \<and>
    drops (irq_records (service w2)) =
      drops (irq_records s0) + of_nat (length (es0 @ arrived w2) - length (served @ held)) \<and>
    (\<forall>Ts. map fst (polls1 @ polls2) = map of_nat Ts \<and> polls_close T0 Ts \<and>
        unat (capacity (irq_records s0)) \<le> releases_after (length hs1) R period lo Ts * unat (max_records_per_run s0) \<longrightarrow>
      subseq held (drop (length (arrived w1)) (arrived w2)))"
  unfolding fsi_prog_def ring_bound_def [symmetric] ring_newest_def [symmetric]
  by (rule fsi_steps.served_anywhere [OF assms(3,4) _ fsi_dispatch_record assms(1,2,6-13)]) (use assms(5) in simp)

section \<open>Properties\<close>

text \<open>
  C25. From the interrupt to the callback, in time. The run function of the FSI service is
  registered as a task, beside any tasks that leave the service alone. Whatever is pending when a
  burst of interrupts arrives, neither the interrupt entries nor the polls of the scheduler are
  ever undefined; and once the polls have met so many points of the release grid of the service's
  task that its budget covers the capacity of the ring, the callback of every interrupt retained
  by the ring's policy has been called with that interrupt's record, exactly once and in the
  order of the interrupts, nothing is left in the ring, and the drop counter has grown by the
  number not retained. Polls may be late and the tick counter may wrap around in between.
\<close>

theorem fsi_served_in_time:
  assumes "leaves_log p env log" and "observes log seen (crit p) (fsi_handle (hal s))"
    and "fsi_inv s" and "fsi_items s = map fsi_record es0"
    and "sch_wf sc" and "sch_quiet sc" and "j < SCH_MAX_TASKS" and "fn (tasks sc ! j) = Some Service_Task"
    and "tracks R period T0 lo (tasks sc ! j)" and "0 < period" and "period \<le> 2 ^ 31"
    and "\<forall>g\<in>set gs. \<forall>w. fst (g w) = fst w \<and> log (snd (g w)) = log (snd w)"
  shows "\<exists>s1 v1 polls sc' s' v'. isr_all (fsi_isr_at p) es s v = Some (s1, v1) \<and>
    run_seq cfg (beside p) (service_app (fsi_run_at p) env) gs (Some sc) (s1, v1) = Some (polls, Some sc', s', v') \<and>
    (\<forall>Ts. map fst polls = map of_nat Ts \<and> polls_close T0 Ts \<and>
        unat (capacity (irq_records s)) \<le> releases_met R period lo Ts * unat (max_records_per_run s) \<longrightarrow>
      fsi_items s' = [] \<and>
      log v' = log v1 @ concat (map seen (retained (unat (capacity (irq_records s)))
        (overflow (irq_records s) = SCH_OVERFLOW_DROP_NEWEST) (es0 @ es))) \<and>
      fst (sch_fsi_service_drop_count p (Some s') v') =
        drops (irq_records s) + of_nat (length (es0 @ es) - unat (capacity (irq_records s))))"
  using served_app.served_in_time [OF fsi_served_app [OF assms(1,2)] assms(3,4) fsi_dispatch_record assms(5-12), of es v cfg]
    fsi_drop_count_eq
  by (fastforce simp: ring_bound_def ring_newest_def)

definition board_service :: "(unit, sch_fsi_irq_record board) sch_fsi_service" where
  "board_service = \<lparr>hal = board_hal,
     irq_records = \<lparr>storage = None, element_size = 0, capacity = 0, head = 9, tail = 9, count = 9, drops = 9,
       overflow = SCH_OVERFLOW_OTHER 9\<rparr>, event_bits = 7, max_records_per_run = 0\<rparr>"

theorem fsi_served_in_time_witness:
  "\<exists>s0 s1 v1 polls sc' s' v'.
    sch_fsi_service_init board_port (Some board_service) (Some board_hal) (Some (replicate 32 0)) 3 2
      SCH_OVERFLOW_DROP_OLDEST board_start = (True, Some s0, board_start) \<and>
    isr_all (fsi_isr_at board_port) [FSI_RX 1 1 1, FSI_RX 2 2 2, FSI_TX 3 3 3, FSI_ERROR 4 6] s0 board_start = Some (s1, v1) \<and>
    run_seq all_on (beside board_port) (service_app (fsi_run_at board_port) board_env)
      [\<lambda>(s, b). (s, b\<lparr>board_ticks := 500\<rparr>), \<lambda>(s, b). (s, b\<lparr>board_ticks := 1500\<rparr>)] (Some board_sch) (s1, v1) =
      Some (polls, Some sc', s', v') \<and>
    board_log v' = board_log v1 @ [fsi_record (FSI_RX 2 2 2), fsi_record (FSI_ERROR 4 6)] \<and>
    fst (sch_fsi_service_drop_count board_port (Some s') v') = 1"
proof -
  let ?gs = "[\<lambda>(s, b). (s, b\<lparr>board_ticks := 500\<rparr>), \<lambda>(s, b). (s, b\<lparr>board_ticks := 1500\<rparr>)]
    :: ((unit, sch_fsi_irq_record board) sch_fsi_service \<times> sch_fsi_irq_record board \<Rightarrow> _) list"
  have crit: "crit board_port b = b" for b by (simp add: crit_def board_port_def)
  obtain s0 where s0: "sch_fsi_service_init board_port (Some board_service) (Some board_hal) (Some (replicate 32 0)) 3 2
      SCH_OVERFLOW_DROP_OLDEST board_start = (True, Some s0, crit board_port board_start)" "fsi_inv s0" "fsi_items s0 = []"
    "hal s0 = board_hal" "ring_bound (irq_records s0) = unat (3 :: size_t)" "drops (irq_records s0) = 0"
    "ring_newest (irq_records s0) \<longleftrightarrow> SCH_OVERFLOW_DROP_OLDEST = SCH_OVERFLOW_DROP_NEWEST"
    "max_records_per_run s0 = 2"
    by (rule fsi_init_ok [of 2 3 SCH_OVERFLOW_DROP_OLDEST "replicate 32 0" board_port board_service board_hal board_start]) simp_all
  have obs: "observes board_log board_seen (crit board_port) (fsi_handle (hal s0))" using board_observes s0(4) by simp
  have gs: "\<forall>g\<in>set ?gs. \<forall>w. fst (g w) = fst w \<and> board_log (snd (g w)) = board_log (snd w)" by auto
  have items: "fsi_items s0 = map fsi_record []" using s0(3) by simp
  let ?es = "[FSI_RX 1 1 1, FSI_RX 2 2 2, FSI_TX 3 3 3, FSI_ERROR 4 6]"
  from fsi_served_in_time [OF board_leaves obs s0(2) items board_ok _ _ gs, of ?es board_start all_on]
  obtain s1 v1 polls sc' s' v' where
    r: "isr_all (fsi_isr_at board_port) ?es s0 board_start = Some (s1, v1)"
      "run_seq all_on (beside board_port) (service_app (fsi_run_at board_port) board_env) ?gs (Some board_sch) (s1, v1) =
        Some (polls, Some sc', s', v')"
    and served: "\<forall>Ts. map fst polls = map of_nat Ts \<and> polls_close 0 Ts \<and>
        unat (capacity (irq_records s0)) \<le> releases_met 0 1000 0 Ts * unat (max_records_per_run s0) \<longrightarrow>
      fsi_items s' = [] \<and>
      board_log v' = board_log v1 @ concat (map board_seen (retained (unat (capacity (irq_records s0)))
        (overflow (irq_records s0) = SCH_OVERFLOW_DROP_NEWEST) ([] @ ?es))) \<and>
      fst (sch_fsi_service_drop_count board_port (Some s') v') = drops (irq_records s0) +
        of_nat (length ([] @ ?es) - unat (capacity (irq_records s0)))"
    by (simp del: isr_all.simps run_seq.simps) blast
  have "map fst polls = map of_nat [500, 1500]"
    using r(2) by (auto simp: Let_def bind_eq_Some_conv crit_now_def beside_def board_port_def split_beta)
  moreover have "released_within 0 1000 0 500" "released_within 0 1000 501 1500"
    by (auto simp: released_within_def intro: exI [of _ 0] exI [of _ 1])
  ultimately show ?thesis
    using s0 r served [THEN spec, of "[500, 1500]"]
    by (auto simp: releases_met_def ring_bound_def ring_newest_def retained_def crit)
qed

end
