(* ===== verification/Ethernet_Service.thy ===== *)
theory Ethernet_Service
  imports Irq_Service
begin

text \<open>
  \<^verbatim>\<open>src/services/ethernet_service.c\<close> and its header: interrupt entries queue an event number
  and set a wake hint; the run function consumes the hint and dispatches at most a budget of
  events to the HAL. The acknowledge callback is mandatory and checked by the initialiser;
  calling it when it is null is undefined.
\<close>

section \<open>Data\<close>

datatype sch_eth_event_id =
    SCH_ETH_EVENT_RX_READY
  | SCH_ETH_EVENT_TX_DONE
  | SCH_ETH_EVENT_LINK_CHANGE

fun eth_event_value :: "sch_eth_event_id \<Rightarrow> u16" where
  "eth_event_value SCH_ETH_EVENT_RX_READY = 1"
| "eth_event_value SCH_ETH_EVENT_TX_DONE = 2"
| "eth_event_value SCH_ETH_EVENT_LINK_CHANGE = 3"

record ('x, 'w) sch_eth_hal =
  ack_irq :: "('x option \<Rightarrow> 'w \<Rightarrow> 'w) option"
  fetch_rx_descriptor :: "('x option \<Rightarrow> u16 \<Rightarrow> 'w \<Rightarrow> bool \<times> u16 \<times> 'w) option"
  complete_tx_descriptor :: "('x option \<Rightarrow> u16 \<Rightarrow> 'w \<Rightarrow> bool \<times> u16 \<times> 'w) option"
  service_link_state :: "('x option \<Rightarrow> 'w \<Rightarrow> bool \<times> 'w) option"
  hal_ctx :: "'x option"

record ('x, 'w) sch_eth_service =
  hal :: "('x, 'w) sch_eth_hal"
  event_queue :: sch_event_queue
  irq_hint :: bool
  max_events_per_run :: size_t

section \<open>Operations\<close>

definition sch_eth_service_init ::
  "'w port \<Rightarrow> ('x, 'w) sch_eth_service option \<Rightarrow> ('x, 'w) sch_eth_hal option \<Rightarrow> u8 list option \<Rightarrow>
   size_t \<Rightarrow> size_t \<Rightarrow> 'w \<Rightarrow> bool \<times> ('x, 'w) sch_eth_service option \<times> 'w" where
  "sch_eth_service_init p service hal_arg event_storage event_capacity max_events w =
     (if is_null service \<or> is_null hal_arg \<or> is_null (ack_irq (the hal_arg)) \<or> max_events = 0
      then (False, service, w)
      else
        let s = (the service)\<lparr>hal := the hal_arg, irq_hint := False, max_events_per_run := max_events\<rparr>;
            (ok, q, w) = sch_event_queue_init p (Some (event_queue s)) event_storage event_capacity
              SCH_OVERFLOW_DROP_OLDEST w
        in (ok, Some (s\<lparr>event_queue := the q\<rparr>), w))"

definition sch_eth_push_event_isr ::
  "'w port \<Rightarrow> ('x, 'w) sch_eth_service option \<Rightarrow> sch_eth_event_id \<Rightarrow> 'w \<Rightarrow>
   (('x, 'w) sch_eth_service option \<times> 'w) option" where
  "sch_eth_push_event_isr p service event_id w =
     (if is_null service then Some (service, w)
      else do {
        let s = the service;
        ack \<leftarrow> ack_irq (hal s);
        let w = ack (hal_ctx (hal s)) w;
        (push_result, q, w) \<leftarrow> event_push p (event_queue s) (eth_event_value event_id) w;
        let s = s\<lparr>event_queue := q\<rparr>;
        let (state, w) = sch_port_enter_critical p w;
        let s = s\<lparr>irq_hint := True\<rparr>;
        Some (Some s, sch_port_exit_critical p state w)
      })"

definition sch_eth_isr_rx ::
  "'w port \<Rightarrow> ('x, 'w) sch_eth_service option \<Rightarrow> 'w \<Rightarrow> (('x, 'w) sch_eth_service option \<times> 'w) option" where
  "sch_eth_isr_rx p service w = sch_eth_push_event_isr p service SCH_ETH_EVENT_RX_READY w"

definition sch_eth_isr_tx ::
  "'w port \<Rightarrow> ('x, 'w) sch_eth_service option \<Rightarrow> 'w \<Rightarrow> (('x, 'w) sch_eth_service option \<times> 'w) option" where
  "sch_eth_isr_tx p service w = sch_eth_push_event_isr p service SCH_ETH_EVENT_TX_DONE w"

definition sch_eth_isr_link ::
  "'w port \<Rightarrow> ('x, 'w) sch_eth_service option \<Rightarrow> 'w \<Rightarrow> (('x, 'w) sch_eth_service option \<times> 'w) option" where
  "sch_eth_isr_link p service w = sch_eth_push_event_isr p service SCH_ETH_EVENT_LINK_CHANGE w"

text \<open>The switch of the run function. The descriptors are locals whose values are not used.\<close>

definition eth_dispatch :: "('x, 'w) sch_eth_hal \<Rightarrow> u16 \<Rightarrow> 'w \<Rightarrow> 'w" where
  "eth_dispatch h event_id w =
     (if event_id = eth_event_value SCH_ETH_EVENT_RX_READY then
        (case fetch_rx_descriptor h of None \<Rightarrow> w
         | Some f \<Rightarrow> let (ok, rx_desc, w) = f (hal_ctx h) 0 w in w)
      else if event_id = eth_event_value SCH_ETH_EVENT_TX_DONE then
        (case complete_tx_descriptor h of None \<Rightarrow> w
         | Some f \<Rightarrow> let (ok, tx_desc, w) = f (hal_ctx h) 0 w in w)
      else if event_id = eth_event_value SCH_ETH_EVENT_LINK_CHANGE then
        (case service_link_state h of None \<Rightarrow> w
         | Some f \<Rightarrow> let (ok, w) = f (hal_ctx h) w in w)
      else w)"

definition sch_eth_service_run ::
  "'w port \<Rightarrow> ('x, 'w) sch_eth_service option \<Rightarrow> 'w \<Rightarrow> (('x, 'w) sch_eth_service option \<times> 'w) option" where
  "sch_eth_service_run p service w =
     (if is_null service then Some (service, w)
      else do {
        let s = the service;
        let (state, w) = sch_port_enter_critical p w;
        let had_irq_hint = irq_hint s;
        let s = s\<lparr>irq_hint := False\<rparr>;
        let w = sch_port_exit_critical p state w;
        let (nothing, w) =
          (if \<not> had_irq_hint
           then let (size, w) = sch_event_queue_size p (Some (event_queue s)) w in (size = 0, w)
           else (False, w));
        if nothing then Some (Some s, w)
        else do {
          (s, event_id, w) \<leftarrow> drain_loop (unat (max_events_per_run s))
            (field_pop event_queue (\<lambda>q s. s\<lparr>event_queue := q\<rparr>) (event_pop p))
            (\<lambda>event_id s w. Some (True, s, eth_dispatch (hal s) event_id w))
            s 0 w;
          Some (Some s, w)
        }
      })"

section \<open>Initialisation\<close>

definition eth_inv :: "('x, 'w) sch_eth_service \<Rightarrow> bool" where
  "eth_inv s \<longleftrightarrow> event_inv (event_queue s) \<and> \<not> is_null (ack_irq (hal s)) \<and> max_events_per_run s \<noteq> 0 \<and>
     \<not> ring_newest (ring (event_queue s))"

definition eth_items :: "('x, 'w) sch_eth_service \<Rightarrow> u16 list" where
  "eth_items s = event_items (event_queue s)"

lemma eth_init_iff:
  "fst (sch_eth_service_init p service hal_arg st cap max_events w) \<longleftrightarrow>
     \<not> is_null service \<and> \<not> is_null hal_arg \<and> \<not> is_null (ack_irq (the hal_arg)) \<and> \<not> is_null st \<and>
     max_events \<noteq> 0 \<and> cap \<noteq> 0"
  by (auto simp: sch_eth_service_init_def Let_def split_beta event_init_iff)

lemma eth_init_ok:
  assumes "ack_irq h = Some ack" and "max_events \<noteq> 0" and "cap \<noteq> 0"
    and "unat cap * 2 \<le> length m" and "length m < 2 ^ 32"
  obtains s' where "sch_eth_service_init p (Some s) (Some h) (Some m) cap max_events w = (True, Some s', crit p w)"
    "eth_inv s'" "eth_items s' = []" "\<not> irq_hint s'" "hal s' = h"
    "ring_bound (ring (event_queue s')) = unat cap" "drops (ring (event_queue s')) = 0"
    "max_events_per_run s' = max_events"
proof -
  obtain q where q: "sch_event_queue_init p (Some (event_queue s)) (Some m) cap SCH_OVERFLOW_DROP_OLDEST w =
      (True, Some q, crit p w)" "event_inv q" "event_items q = []" "ring_bound (ring q) = unat cap"
    "drops (ring q) = 0" "ring_newest (ring q) \<longleftrightarrow> SCH_OVERFLOW_DROP_OLDEST = SCH_OVERFLOW_DROP_NEWEST"
    by (rule event_init_refines [OF assms(3) disjI2 [OF refl] assms(4,5)])
  show thesis
    by (rule that [of "s\<lparr>hal := h, irq_hint := False, max_events_per_run := max_events, event_queue := q\<rparr>"])
      (use q assms(1,2) in \<open>simp_all add: sch_eth_service_init_def eth_inv_def eth_items_def\<close>)
qed

section \<open>The service contract\<close>

datatype eth_interrupt = ETH_RX | ETH_TX | ETH_LINK

fun eth_isr ::
  "'w port \<Rightarrow> eth_interrupt \<Rightarrow> ('x, 'w) sch_eth_service option \<Rightarrow> 'w \<Rightarrow>
   (('x, 'w) sch_eth_service option \<times> 'w) option" where
  "eth_isr p ETH_RX = sch_eth_isr_rx p"
| "eth_isr p ETH_TX = sch_eth_isr_tx p"
| "eth_isr p ETH_LINK = sch_eth_isr_link p"

fun eth_event :: "eth_interrupt \<Rightarrow> u16" where
  "eth_event ETH_RX = 1"
| "eth_event ETH_TX = 2"
| "eth_event ETH_LINK = 3"

definition eth_isr_at ::
  "'w port \<Rightarrow> eth_interrupt \<Rightarrow> ('x, 'w) sch_eth_service \<Rightarrow> 'w \<Rightarrow> (('x, 'w) sch_eth_service \<times> 'w) option" where
  "eth_isr_at p e s w = do { (s, w) \<leftarrow> eth_isr p e (Some s) w; Some (the s, w) }"

definition eth_run_at ::
  "'w port \<Rightarrow> ('x, 'w) sch_eth_service \<Rightarrow> 'w \<Rightarrow> (('x, 'w) sch_eth_service \<times> 'w) option" where
  "eth_run_at p s w = do { (s, w) \<leftarrow> sch_eth_service_run p (Some s) w; Some (the s, w) }"

definition eth_ack :: "('x, 'w) sch_eth_service \<Rightarrow> 'w \<Rightarrow> 'w" where
  "eth_ack s w = the (ack_irq (hal s)) (hal_ctx (hal s)) w"

lemma eth_ack_update [simp]:
  "eth_ack (event_queue_update f s) = eth_ack s" "eth_ack (irq_hint_update g s) = eth_ack s"
  by (simp_all add: eth_ack_def fun_eq_iff)

lemma eth_isr_eq:
  assumes "eth_inv s"
  shows "eth_isr_at p e s w =
    Some (s\<lparr>event_queue := event_enq (event_queue s) (eth_event e), irq_hint := True\<rparr>,
          crit p (crit p (eth_ack s w)))"
proof -
  have "sch_eth_push_event_isr p (Some s) ev w =
    Some (Some (s\<lparr>event_queue := event_enq (event_queue s) (eth_event_value ev), irq_hint := True\<rparr>),
          crit p (crit p (eth_ack s w)))" for ev
    using assms
    by (cases "ack_irq (hal s)")
      (simp_all add: sch_eth_push_event_isr_def eth_inv_def events.push_eq crit_def split_beta Let_def eth_ack_def)
  then show ?thesis
    by (cases e) (simp_all add: eth_isr_at_def sch_eth_isr_rx_def sch_eth_isr_tx_def sch_eth_isr_link_def)
qed

interpretation eth_client: queue_client
  "event_push p" "event_pop p" "crit p" event_inv event_items "\<lambda>q. ring_bound (ring q)"
  "\<lambda>q. ring_newest (ring q)" "\<lambda>q. drops (ring q)" event_enq event_deq
  event_queue "\<lambda>q s. s\<lparr>event_queue := q\<rparr>"
  for p
  by unfold_locales simp_all

lemma eth_run_eq:
  assumes "eth_inv s"
  shows "eth_run_at p s w =
    Some (s\<lparr>event_queue := (event_deq ^^ min (unat (max_events_per_run s)) (length (eth_items s))) (event_queue s),
            irq_hint := False\<rparr>,
          service_world (crit p) (eth_dispatch (hal s)) (unat (max_events_per_run s)) (irq_hint s)
            (eth_items s) w)"
proof -
  have inv: "event_inv (event_queue s)" using assms by (simp add: eth_inv_def)
  have size: "sch_event_queue_size p (Some (event_queue s)) v = (count (ring (event_queue s)), crit p v)" for v
    using inv by (rule event_size_refines)
  have empty: "eth_items s = [] \<longleftrightarrow> count (ring (event_queue s)) = 0"
    by (simp add: eth_items_def event_items_empty_iff)
  have drain: "drain_loop n (field_pop event_queue (\<lambda>q s. s\<lparr>event_queue := q\<rparr>) (event_pop p))
      (\<lambda>event_id s w. Some (True, s, eth_dispatch (hal s) event_id w)) (s\<lparr>irq_hint := False\<rparr>) x v =
    Some (s\<lparr>irq_hint := False, event_queue := (event_deq ^^ min n (length (eth_items s))) (event_queue s)\<rparr>,
      last (x # take n (eth_items s)), drain_world (crit p) (eth_dispatch (hal s)) n (eth_items s) v)" for n x v
    using eth_client.drain_dispatch [where s = "s\<lparr>irq_hint := False\<rparr>" and P = "\<lambda>t. hal t = hal s" and
        body = "\<lambda>event_id s w. Some (True, s, eth_dispatch (hal s) event_id w)" and eff = "eth_dispatch (hal s)"
        and n = n and x = x and w = v and p = p] inv
    by (simp add: eth_items_def)
  show ?thesis
    by (cases "irq_hint s"; cases "eth_items s = []")
      (simp_all add: eth_run_at_def sch_eth_service_run_def size empty [symmetric] drain service_world_def crit_def split_beta
        Let_def)
qed

interpretation eth: irq_service
  "eth_isr_at p :: _ \<Rightarrow> ('x, 'w) sch_eth_service \<Rightarrow> _" "eth_run_at p" "crit p" eth_inv eth_items
  "\<lambda>s. ring_bound (ring (event_queue s))" "\<lambda>s. ring_newest (ring (event_queue s))"
  "\<lambda>s. drops (ring (event_queue s))" irq_hint "\<lambda>s. unat (max_events_per_run s)" eth_event
  "\<lambda>s e. eth_ack s" "\<lambda>s. eth_dispatch (hal s)"
  for p
proof unfold_locales
  fix s :: "('x, 'w) sch_eth_service" and e w
  assume inv: "eth_inv s"
  then have q: "event_inv (event_queue s)" by (simp add: eth_inv_def)
  show "\<exists>s'. eth_isr_at p e s w = Some (s', crit p (crit p (eth_ack s w))) \<and> eth_inv s' \<and>
      eth_items s' = bounded_push (ring_bound (ring (event_queue s))) (ring_newest (ring (event_queue s)))
        (eth_items s) (eth_event e) \<and>
      irq_hint s' \<and>
      drops (ring (event_queue s')) =
        (if length (eth_items s) = ring_bound (ring (event_queue s))
         then drops (ring (event_queue s)) + 1 else drops (ring (event_queue s))) \<and>
      ring_bound (ring (event_queue s')) = ring_bound (ring (event_queue s)) \<and>
      ring_newest (ring (event_queue s')) = ring_newest (ring (event_queue s)) \<and>
      unat (max_events_per_run s') = unat (max_events_per_run s) \<and>
      (\<lambda>e. eth_ack s') = (\<lambda>e. eth_ack s) \<and> eth_dispatch (hal s') = eth_dispatch (hal s)"
    using inv events.enq_simps [OF q]
    by (simp add: eth_isr_eq [OF inv] eth_inv_def eth_items_def)
  show "\<exists>s'. eth_run_at p s w = Some (s', service_world (crit p) (eth_dispatch (hal s))
        (unat (max_events_per_run s)) (irq_hint s) (eth_items s) w) \<and>
      eth_inv s' \<and> eth_items s' = drop (unat (max_events_per_run s)) (eth_items s) \<and>
      \<not> irq_hint s' \<and> drops (ring (event_queue s')) = drops (ring (event_queue s)) \<and>
      ring_bound (ring (event_queue s')) = ring_bound (ring (event_queue s)) \<and>
      ring_newest (ring (event_queue s')) = ring_newest (ring (event_queue s)) \<and>
      unat (max_events_per_run s') = unat (max_events_per_run s) \<and>
      (\<lambda>e. eth_ack s') = (\<lambda>e. eth_ack s) \<and> eth_dispatch (hal s') = eth_dispatch (hal s)"
    using inv events.deqs_keep [OF q]
    by (simp add: eth_run_eq [OF inv] eth_inv_def eth_items_def drop_min)
  show "length (eth_items s) \<le> ring_bound (ring (event_queue s))" and "0 < ring_bound (ring (event_queue s))"
    using events.items_bound [OF q] events.bound_pos [OF q] by (simp_all add: eth_items_def)
  show "0 < unat (max_events_per_run s)" using inv by (simp add: eth_inv_def unat_gt_0)
qed

section \<open>Bursts\<close>

text \<open>What handling an interrupt means: its callback, if there is one, is called.\<close>

fun eth_handle :: "('x, 'w) sch_eth_hal \<Rightarrow> eth_interrupt \<Rightarrow> 'w \<Rightarrow> 'w" where
  "eth_handle h ETH_RX w = (case fetch_rx_descriptor h of None \<Rightarrow> w | Some f \<Rightarrow> snd (snd (f (hal_ctx h) 0 w)))"
| "eth_handle h ETH_TX w = (case complete_tx_descriptor h of None \<Rightarrow> w | Some f \<Rightarrow> snd (snd (f (hal_ctx h) 0 w)))"
| "eth_handle h ETH_LINK w = (case service_link_state h of None \<Rightarrow> w | Some f \<Rightarrow> snd (f (hal_ctx h) w))"

lemma eth_dispatch_event: "\<forall>e. eth_dispatch h (eth_event e) = eth_handle h e"
proof
  fix e
  show "eth_dispatch h (eth_event e) = eth_handle h e"
    by (cases e) (simp_all add: eth_dispatch_def fun_eq_iff Let_def split_beta split: option.split)
qed

text \<open>
  A burst of interrupts and enough runs after it: of those pending and those that came, the most
  recent ones that fit the queue have been handled, once each and in their order, and the drop
  counter has grown by the number of the others.
\<close>

lemma eth_interrupts_served:
  assumes "eth_inv s" and "eth_items s = map eth_event es0"
    and "unat (capacity (ring (event_queue s))) \<le> n * unat (max_events_per_run s)"
    and "observes log seen (crit p) (eth_handle (hal s))"
  shows "\<exists>s1 w1 s' w'. isr_all (eth_isr_at p) es s w = Some (s1, w1) \<and>
    run_times (eth_run_at p) n s1 w1 = Some (s', w') \<and> eth_inv s' \<and> eth_items s' = [] \<and>
    log w' = log w1 @ concat (map seen
      (drop (length (es0 @ es) - unat (capacity (ring (event_queue s)))) (es0 @ es))) \<and>
    drops (ring (event_queue s')) =
      drops (ring (event_queue s)) + of_nat (length (es0 @ es) - unat (capacity (ring (event_queue s))))"
proof -
  have "\<not> ring_newest (ring (event_queue s))" using assms(1) by (simp add: eth_inv_def)
  then show ?thesis
    using eth.interrupts_served [OF assms(1,2) _ assms(4) eth_dispatch_event, where n = n and es = es and w = w] assms(3)
    by (simp add: ring_bound_def retained_def)
qed

end
