(* ===== verification/Eth_Preempted.thy ===== *)
theory Eth_Preempted
  imports Irq_Scheduled Ethernet_Service
begin

text \<open>
  The Ethernet service under preemption: \<open>sch_eth_service_run\<close> as a program whose steps are the
  critical sections and callbacks of the C function. Without interrupts the program computes what
  the run function computes, also where that is undefined; it meets the contract under which no
  record is lost, repeated or reordered beyond what the drop counter tells, wherever interrupts hit.
\<close>

section \<open>The program\<close>

text \<open>The section that takes and clears the hint.\<close>

definition eth_take_hint ::
  "'w port \<Rightarrow> ('x, 'w) sch_eth_service \<Rightarrow> 'w \<Rightarrow> bool \<times> ('x, 'w) sch_eth_service \<times> 'w" where
  "eth_take_hint p s w =
     (let (state, w) = sch_port_enter_critical p w;
          had_irq_hint = irq_hint s;
          s = s\<lparr>irq_hint := False\<rparr>;
          w = sch_port_exit_critical p state w
      in (had_irq_hint, s, w))"

definition eth_prog :: "'w port \<Rightarrow> (('x, 'w) sch_eth_service, 'w) prog" where
  "eth_prog p = service_prog (eth_take_hint p)
     (\<lambda>s w. let (size, w) = sch_event_queue_size p (Some (event_queue s)) w in (size = 0, w))
     (field_pop event_queue (\<lambda>q s. s\<lparr>event_queue := q\<rparr>) (event_pop p))
     (\<lambda>s event_id. eth_dispatch (hal s) event_id)
     (\<lambda>s. unat (max_events_per_run s))
     0"

lemma eth_prog_finish: "finish (eth_prog p) s w = eth_run_at p s w"
  unfolding eth_prog_def service_prog_finish
  by (simp add: eth_take_hint_def eth_run_at_def sch_eth_service_run_def split_beta Let_def split: bind_splits)

section \<open>The contract of a preemptible service\<close>

interpretation eth_steps: preemptible
  "eth_isr_at p :: _ \<Rightarrow> ('x, 'w) sch_eth_service \<Rightarrow> _" "eth_run_at p" "crit p" eth_inv eth_items
  "\<lambda>s. ring_bound (ring (event_queue s))" "\<lambda>s. ring_newest (ring (event_queue s))" "\<lambda>s. drops (ring (event_queue s))"
  irq_hint "\<lambda>s. unat (max_events_per_run s)" eth_event
  "\<lambda>s e. eth_ack s" "\<lambda>s. eth_dispatch (hal s)"
  "eth_take_hint p"
  "\<lambda>s w. let (size, w) = sch_event_queue_size p (Some (event_queue s)) w in (size = 0, w)"
  "field_pop event_queue (\<lambda>q s. s\<lparr>event_queue := q\<rparr>) (event_pop p)"
  for p
proof unfold_locales
  fix s :: "('x, 'w) sch_eth_service" and w x
  assume inv: "eth_inv s"
  then have q: "event_inv (event_queue s)" by (simp add: eth_inv_def)
  show "\<exists>s'. eth_take_hint p s w = (irq_hint s, s', crit p w) \<and> eth_inv s' \<and> eth_items s' = eth_items s \<and>
      drops (ring (event_queue s')) = drops (ring (event_queue s)) \<and>
      ring_bound (ring (event_queue s')) = ring_bound (ring (event_queue s)) \<and>
      ring_newest (ring (event_queue s')) = ring_newest (ring (event_queue s)) \<and>
      unat (max_events_per_run s') = unat (max_events_per_run s) \<and>
      (\<lambda>e. eth_ack s') = (\<lambda>e. eth_ack s) \<and>
      eth_dispatch (hal s') = eth_dispatch (hal s)"
    using inv by (simp add: eth_take_hint_def crit_def split_beta Let_def eth_inv_def eth_items_def)
  show "(let (size, w) = sch_event_queue_size p (Some (event_queue s)) w in (size = 0, w)) = (eth_items s = [], crit p w)"
    using event_size_refines [OF q, of p w] by (simp add: eth_items_def event_items_empty_iff)
  show "field_pop event_queue (\<lambda>q s. s\<lparr>event_queue := q\<rparr>) (event_pop p) s x w =
      Some (False, x, s, crit p w)" if "eth_items s = []"
    using that events.pop_eq [OF q, of p x w] by (simp add: field_pop_def eth_items_def)
  fix y ys
  show "\<exists>s'. field_pop event_queue (\<lambda>q s. s\<lparr>event_queue := q\<rparr>) (event_pop p) s x w =
        Some (True, y, s', crit p w) \<and> eth_inv s' \<and> eth_items s' = ys \<and>
      drops (ring (event_queue s')) = drops (ring (event_queue s)) \<and>
      ring_bound (ring (event_queue s')) = ring_bound (ring (event_queue s)) \<and>
      ring_newest (ring (event_queue s')) = ring_newest (ring (event_queue s)) \<and>
      unat (max_events_per_run s') = unat (max_events_per_run s) \<and>
      (\<lambda>e. eth_ack s') = (\<lambda>e. eth_ack s) \<and>
      eth_dispatch (hal s') = eth_dispatch (hal s)" if "eth_items s = y # ys"
    using that inv events.pop_eq [OF q, of p x w] events.deq_simps [OF q]
    by (simp add: field_pop_def eth_items_def eth_inv_def)
qed

end
