(* ===== verification/Eth_Scheduled.thy ===== *)
theory Eth_Scheduled
  imports Board Eth_Preempted
begin

text \<open>
  The Ethernet service as a task of the scheduler, with interrupts anywhere: from the interrupt
  entry over the event queue and the dispatch of \<open>sch_run\<close> to the callback of the driver.
\<close>

section \<open>The service under the scheduler\<close>

lemma eth_preempted_app:
  assumes "leaves_log p env log" and "observes log seen (crit p) (eth_handle (hal s0))"
    and "\<forall>v. log (eth_ack s0 v) = log v"
  shows "preempted_app (eth_isr_at p) (eth_prog p) p env log
    (eth_steps.irq_account log seen s0 w0 es0 0 0 []) (eth_steps.irq_stage log seen s0 w0 es0)"
  unfolding eth_prog_def
  by (rule eth_steps.irq_preempted_app [OF assms(1,2) _ eth_dispatch_event]) (use assms(3) in simp)

section \<open>The types of the events\<close>

text \<open>
  From the initialisation on nothing is undefined, wherever interrupts hit the runs, and every event
  that the queue holds or gives is one of the enumeration: the switch of the run function never takes
  its default branch.
\<close>

lemma eth_events_typed:
  assumes "sch_eth_service_init p (Some raw) (Some h) (Some m) cap max_events w = (True, Some s0, w0)"
    and "unat cap * 2 \<le> length m" and "length m < 2 ^ 32"
    and "interleaved (eth_isr_at p) (eth_prog p) (s0, w0) es (c, s, v)"
  shows "eth_isr_at p e s v \<noteq> None" and "c = Step f \<Longrightarrow> f s v \<noteq> None"
    and "r \<in> set (eth_items s) \<Longrightarrow> \<exists>event_id. r = eth_event_value event_id"
    and "field_pop event_queue (\<lambda>q s. s\<lparr>event_queue := q\<rparr>) (event_pop p) s x v = Some (True, r, s', v') \<Longrightarrow>
      \<exists>event_id. r = eth_event_value event_id"
proof -
  obtain ack where "ack_irq h = Some ack" "max_events \<noteq> 0" "cap \<noteq> 0"
    using eth_init_iff [of p "Some raw" "Some h" "Some m" cap max_events w] assms(1) by (cases "ack_irq h") auto
  from eth_init_ok [OF this assms(2,3), of p raw w] have s0: "eth_inv s0" "eth_items s0 = []" using assms(1) by auto
  note typed = eth_steps.typed_anywhere [OF s0 assms(4) [unfolded eth_prog_def]]
  have event: "\<exists>event_id. r = eth_event_value event_id" if "r \<in> range eth_event" for r
  proof -
    from that obtain e where "r = eth_event e" by blast
    then show ?thesis
      by (cases e) (auto intro: exI [of _ SCH_ETH_EVENT_RX_READY] exI [of _ SCH_ETH_EVENT_TX_DONE] exI [of _ SCH_ETH_EVENT_LINK_CHANGE])
  qed
  show "eth_isr_at p e s v \<noteq> None" and "c = Step f \<Longrightarrow> f s v \<noteq> None" by (rule typed(1), rule typed(2))
  show "\<exists>event_id. r = eth_event_value event_id" if "r \<in> set (eth_items s)" by (rule event [OF subsetD [OF typed(3) that]])
  show "\<exists>event_id. r = eth_event_value event_id"
    if "field_pop event_queue (\<lambda>q s. s\<lparr>event_queue := q\<rparr>) (event_pop p) s x v = Some (True, r, s', v')"
    by (rule event [OF typed(4) [OF that]])
qed

section \<open>The board\<close>

text \<open>The service on the board: its driver writes down what it is asked for, and has no link service.\<close>

definition eth_board_hal :: "(unit, eth_interrupt board) sch_eth_hal" where
  "eth_board_hal = \<lparr>ack_irq = Some (\<lambda>c b. b),
     fetch_rx_descriptor = Some (\<lambda>c d b. (True, 5, b\<lparr>board_log := board_log b @ [ETH_RX]\<rparr>)),
     complete_tx_descriptor = Some (\<lambda>c d b. (False, d, b\<lparr>board_log := board_log b @ [ETH_TX]\<rparr>)),
     service_link_state = None, hal_ctx = None\<rparr>"

definition eth_board_raw :: "(unit, eth_interrupt board) sch_eth_service" where
  "eth_board_raw = \<lparr>hal = eth_board_hal,
     event_queue = \<lparr>ring = \<lparr>storage = None, element_size = 0, capacity = 0, head = 9, tail = 9, count = 9, drops = 9,
       overflow = SCH_OVERFLOW_OTHER 9\<rparr>\<rparr>, irq_hint = True, max_events_per_run = 0\<rparr>"

fun eth_board_seen :: "eth_interrupt \<Rightarrow> eth_interrupt list" where
  "eth_board_seen ETH_LINK = []"
| "eth_board_seen e = [e]"

lemma eth_board_observes: "observes board_log eth_board_seen (crit board_port) (eth_handle eth_board_hal)"
  unfolding observes_def
proof (intro conjI allI)
  show "board_log (eth_handle eth_board_hal e b) = board_log b @ eth_board_seen e" for e b
    by (cases e) (simp_all add: eth_board_hal_def)
qed simp

section \<open>Properties\<close>

text \<open>
  C27. The Ethernet service serves its interrupts in time, wherever they hit. The run function of
  the service is registered as a task, beside any tasks that leave it alone; interrupts arrive
  wherever they are enabled, between critical sections of the scheduler, before any step of a run
  of the service, and between polls. No poll and no interrupt entry is ever undefined, and the
  interrupts arrive as supplied. Of those pending at the start and those that arrived since, the
  driver was called for some, exactly once each and in their order, later ones are held in the
  queue, and the drop counter has grown by the number of the others; none of the last ones is lost,
  as many as the queue holds. And when the release grid of the task has enough points in a second
  stretch of polls for the capacity of the queue, nothing that arrived in the first stretch is held
  any more: no wake-up is lost.
\<close>

theorem eth_served_anywhere:
  assumes "eth_inv s0" and "eth_items s0 = map eth_event es0"
    and "leaves_log p env log" and "observes log seen (crit p) (eth_handle (hal s0))"
    and "\<forall>v. log (eth_ack s0 v) = log v"
    and "sch_wf sc" and "sch_quiet sc" and "j < SCH_MAX_TASKS" and "fn (tasks sc ! j) = Some Service_Task"
    and "tracks R period T0 lo (tasks sc ! j)" and "0 < period" and "period \<le> 2 ^ 31"
    and "\<forall>h\<in>set (hs1 @ hs2). \<forall>v. log (h v) = log v"
  shows "\<exists>polls1 sc1 w1 polls2 sc2 w2 served held.
    run_seq cfg (interrupted (eth_isr_at p) p) (interrupted_app (eth_isr_at p) (eth_prog p) env)
      (map (elapse (eth_isr_at p)) hs1) (Some sc) (system_start s0 v0 batches) = Some (polls1, Some sc1, w1) \<and>
    run_seq cfg (interrupted (eth_isr_at p) p) (interrupted_app (eth_isr_at p) (eth_prog p) env)
      (map (elapse (eth_isr_at p)) hs2) (Some sc1) w1 = Some (polls2, Some sc2, w2) \<and>
    \<not> broken w2 \<and> prefix (arrived w1) (arrived w2) \<and> arrived w2 @ concat (coming w2) = concat batches \<and>
    subseq (served @ held) (es0 @ arrived w2) \<and>
    suffix (drop (length (es0 @ arrived w2) - unat (capacity (ring (event_queue s0)))) (es0 @ arrived w2)) (served @ held) \<and>
    eth_items (service w2) = map eth_event held \<and>
    log (platform w2) = log v0 @ concat (map seen served) \<and>
    drops (ring (event_queue (service w2))) =
      drops (ring (event_queue s0)) + of_nat (length (es0 @ arrived w2) - length (served @ held)) \<and>
    (\<forall>Ts. map fst (polls1 @ polls2) = map of_nat Ts \<and> polls_close T0 Ts \<and>
        unat (capacity (ring (event_queue s0))) \<le> releases_after (length hs1) R period lo Ts * unat (max_events_per_run s0) \<longrightarrow>
      subseq held (drop (length (arrived w1)) (arrived w2)))"
proof -
  have newest: "ring_newest (ring (event_queue s0)) = False" using assms(1) by (simp add: eth_inv_def)
  have ack: "\<forall>(e :: eth_interrupt) v. log (eth_ack s0 v) = log v" using assms(5) by simp
  note served = eth_steps.served_anywhere [OF assms(3,4) ack eth_dispatch_event assms(1,2,6-13), where cfg = cfg and ?v0.0 = v0
      and batches = batches and ?x0.0 = 0, folded eth_prog_def, unfolded ring_bound_def]
  show ?thesis using served unfolding newest simp_thms .
qed

text \<open>A transmission done before the first poll, at 500 ticks, and a link change later; the second poll is at 1500 ticks.\<close>

theorem eth_served_anywhere_witness:
  "\<exists>s0 polls1 sc1 w1 polls2 sc2 w2.
    sch_eth_service_init board_port (Some eth_board_raw) (Some eth_board_hal) (Some (replicate 8 0)) 3 3
      board_start = (True, Some s0, board_start) \<and>
    run_seq all_on (interrupted (eth_isr_at board_port) board_port)
      (interrupted_app (eth_isr_at board_port) (eth_prog board_port) board_env)
      [elapse (eth_isr_at board_port) (board_at 500)] (Some board_sch)
      (system_start s0 board_start [[ETH_TX], [ETH_LINK]]) = Some (polls1, Some sc1, w1) \<and>
    run_seq all_on (interrupted (eth_isr_at board_port) board_port)
      (interrupted_app (eth_isr_at board_port) (eth_prog board_port) board_env)
      [elapse (eth_isr_at board_port) (board_at 1500)] (Some sc1) w1 = Some (polls2, Some sc2, w2) \<and>
    \<not> broken w2 \<and> board_log (platform w2) \<noteq> [] \<and> hd (board_log (platform w2)) = ETH_TX"
proof -
  let ?isr = "eth_isr_at board_port :: _ \<Rightarrow> (unit, eth_interrupt board) sch_eth_service \<Rightarrow> _"
  let ?p = "interrupted ?isr board_port" and ?env = "interrupted_app ?isr (eth_prog board_port) board_env"
  let ?batches = "[[ETH_TX], [ETH_LINK]]"
  let ?h1 = "board_at 500 :: eth_interrupt board \<Rightarrow> _" and ?h2 = "board_at 1500 :: eth_interrupt board \<Rightarrow> _"
  obtain s0 where s0: "sch_eth_service_init board_port (Some eth_board_raw) (Some eth_board_hal) (Some (replicate 8 0)) 3 3
      board_start = (True, Some s0, crit board_port board_start)" "eth_inv s0" "eth_items s0 = []"
    "hal s0 = eth_board_hal" "ring_bound (ring (event_queue s0)) = unat (3 :: size_t)"
    "max_events_per_run s0 = 3"
    by (rule eth_init_ok [of eth_board_hal "\<lambda>c b. b" 3 3 "replicate 8 0" board_port eth_board_raw board_start])
      (simp_all add: eth_board_hal_def)
  have obs: "observes board_log eth_board_seen (crit board_port) (eth_handle (hal s0))"
    using eth_board_observes s0(4) by simp
  have silent: "eth_ack s0 v = v" for v by (simp add: eth_ack_def s0(4) eth_board_hal_def)
  then have ack: "\<forall>v. board_log (eth_ack s0 v) = board_log v" by simp
  have items: "eth_items s0 = map eth_event []" using s0(3) by simp
  have hs: "\<forall>h\<in>set ([?h1] @ [?h2]). \<forall>v. board_log (h v) = board_log v" by simp
  have num: "(0::nat) < 1000" "(1000::nat) \<le> 2 ^ 31" by simp_all
  obtain polls1 sc1 w1 polls2 sc2 w2 served held where
    r: "run_seq all_on ?p ?env (map (elapse ?isr) [?h1]) (Some board_sch) (system_start s0 board_start ?batches) =
        Some (polls1, Some sc1, w1)"
      "run_seq all_on ?p ?env (map (elapse ?isr) [?h2]) (Some sc1) w1 = Some (polls2, Some sc2, w2)"
    and arr: "\<not> broken w2" "prefix (arrived w1) (arrived w2)" "arrived w2 @ concat (coming w2) = concat ?batches"
    and kept: "subseq (served @ held) ([] @ arrived w2)"
      "suffix (drop (length ([] @ arrived w2) - unat (capacity (ring (event_queue s0)))) ([] @ arrived w2)) (served @ held)"
    and log: "board_log (platform w2) = board_log board_start @ concat (map eth_board_seen served)"
    and gone: "\<forall>Ts. map fst (polls1 @ polls2) = map of_nat Ts \<and> polls_close 0 Ts \<and>
        unat (capacity (ring (event_queue s0))) \<le> releases_after (length [?h1]) 0 1000 0 Ts * unat (max_events_per_run s0) \<longrightarrow>
      subseq held (drop (length (arrived w1)) (arrived w2))"
    using eth_served_anywhere [OF s0(2) items board_leaves obs ack board_ok num hs, of all_on board_start ?batches]
    by (elim exE conjE)
  have ack': "\<forall>(e :: eth_interrupt) v. board_log (eth_ack s0 v) = board_log v"
    using silent by simp
  note clock = eth_steps.irq_account_clock [where clock = board_ticks, OF obs ack' _ arg_cong [OF silent, where f = board_ticks]]
  from board_two_polls [OF eth_preempted_app [OF board_leaves obs ack] clock eth_steps.irq_account_start [OF s0(2) items]
      r [unfolded list.map]]
  have "map fst (polls1 @ polls2) = map of_nat [500, 1500] \<and> polls_close 0 [500, 1500]"
    and first: "prefix [ETH_TX] (arrived w1)" by simp_all
  moreover have "releases_after (length [?h1]) 0 1000 0 [500, 1500] = 1" by (simp add: board_grid)
  ultimately have held: "subseq held (drop (length (arrived w1)) (arrived w2))"
    using gone [THEN spec, of "[500, 1500]"] s0(5,6) by (simp add: ring_bound_def)
  have "length (arrived w2) \<le> 2" using arg_cong [OF arr(3), of length] by simp
  then have "suffix (arrived w2) (served @ held)"
    using kept(2) s0(5) by (simp add: ring_bound_def)
  moreover have "0 < length (arrived w1)" "arrived w2 \<noteq> []" "hd (arrived w2) = ETH_TX"
    using first arr(2) by (auto simp: prefix_def)
  ultimately have "served \<noteq> [] \<and> hd served = ETH_TX" using first_served [OF _ _ held] kept(1) by simp
  then have "board_log (platform w2) \<noteq> [] \<and> hd (board_log (platform w2)) = ETH_TX"
    using log by (cases served) (simp_all add: board_start_def)
  then show ?thesis using s0(1) r [unfolded list.map] arr(1) by (simp only: board_sections) blast
qed

end
