(* ===== verification/Motor_Service.thy ===== *)
theory Motor_Service
  imports Irq_Service
begin

text \<open>
  \<^verbatim>\<open>src/services/motor_supervision_service.c\<close> and its header: commands from the application,
  feedback samples and fault events from interrupts, and a task that applies the command,
  disables the motor on a fault event and drains the feedback. The two HAL callbacks that drive
  the motor are mandatory and checked by the initialiser.
\<close>

section \<open>Data\<close>

datatype sch_motor_event_id =
    SCH_MOTOR_EVENT_FEEDBACK
  | SCH_MOTOR_EVENT_FAULT

fun motor_event_value :: "sch_motor_event_id \<Rightarrow> u16" where
  "motor_event_value SCH_MOTOR_EVENT_FEEDBACK = 1"
| "motor_event_value SCH_MOTOR_EVENT_FAULT = 2"

record sch_motor_feedback =
  speed_rpm :: u16
  current_ma :: i16

record ('x, 'w) sch_motor_hal =
  ack_irq :: "('x option \<Rightarrow> 'w \<Rightarrow> 'w) option"
  read_feedback_sample :: "('x option \<Rightarrow> sch_motor_feedback \<Rightarrow> 'w \<Rightarrow> bool \<times> sch_motor_feedback \<times> 'w) option"
  set_enable :: "('x option \<Rightarrow> bool \<Rightarrow> 'w \<Rightarrow> bool \<times> 'w) option"
  set_target_speed_rpm :: "('x option \<Rightarrow> u16 \<Rightarrow> 'w \<Rightarrow> bool \<times> 'w) option"
  hal_ctx :: "'x option"

record ('x, 'w) sch_motor_service =
  hal :: "('x, 'w) sch_motor_hal"
  feedback_ring :: sch_spsc_ring
  event_queue :: sch_event_queue
  target_speed_rpm :: u16
  enabled :: bool
  irq_hint :: bool
  max_feedback_items_per_run :: size_t
  max_events_per_run :: size_t

text \<open>The object representation of a sample: two 16-bit members, the second one signed.\<close>

definition sizeof_feedback :: size_t where
  "sizeof_feedback = 4"

definition feedback_bytes :: "sch_motor_feedback \<Rightarrow> u8 list" where
  "feedback_bytes f = u16_bytes (speed_rpm f) @ u16_bytes (current_ma f)"

definition feedback_of_bytes :: "u8 list \<Rightarrow> sch_motor_feedback" where
  "feedback_of_bytes bs =
     \<lparr>speed_rpm = u16_of_bytes (take 2 bs), current_ma = u16_of_bytes (take 2 (drop 2 bs))\<rparr>"

section \<open>Operations\<close>

definition sch_motor_supervision_service_init ::
  "'w port \<Rightarrow> ('x, 'w) sch_motor_service option \<Rightarrow> ('x, 'w) sch_motor_hal option \<Rightarrow>
   u8 list option \<Rightarrow> size_t \<Rightarrow> u8 list option \<Rightarrow> size_t \<Rightarrow> size_t \<Rightarrow> size_t \<Rightarrow> 'w \<Rightarrow>
   bool \<times> ('x, 'w) sch_motor_service option \<times> 'w" where
  "sch_motor_supervision_service_init p service hal_arg feedback_storage feedback_capacity event_storage
     event_capacity max_feedback max_events w =
     (if is_null service \<or> is_null hal_arg \<or> is_null (set_enable (the hal_arg)) \<or>
         is_null (set_target_speed_rpm (the hal_arg)) \<or> max_feedback = 0 \<or> max_events = 0
      then (False, service, w)
      else
        let s = (the service)\<lparr>hal := the hal_arg, target_speed_rpm := 0, enabled := False, irq_hint := False,
                  max_feedback_items_per_run := max_feedback, max_events_per_run := max_events\<rparr>;
            (ok_feedback, r, w) = sch_spsc_ring_init p (Some (feedback_ring s)) feedback_storage
              feedback_capacity sizeof_feedback SCH_OVERFLOW_DROP_OLDEST w;
            s = s\<lparr>feedback_ring := the r\<rparr>;
            (ok_events, q, w) = sch_event_queue_init p (Some (event_queue s)) event_storage event_capacity
              SCH_OVERFLOW_DROP_OLDEST w;
            s = s\<lparr>event_queue := the q\<rparr>
        in (ok_feedback \<and> ok_events, Some s, w))"

definition sch_motor_supervision_set_command ::
  "('x, 'w) sch_motor_service option \<Rightarrow> bool \<Rightarrow> u16 \<Rightarrow> ('x, 'w) sch_motor_service option" where
  "sch_motor_supervision_set_command service enable target_rpm =
     (if is_null service then service
      else Some ((the service)\<lparr>enabled := enable, target_speed_rpm := target_rpm\<rparr>))"

definition motor_ack :: "('x, 'w) sch_motor_service \<Rightarrow> 'w \<Rightarrow> 'w" where
  "motor_ack s w = (case ack_irq (hal s) of None \<Rightarrow> w | Some f \<Rightarrow> f (hal_ctx (hal s)) w)"

definition motor_sample :: "('x, 'w) sch_motor_service \<Rightarrow> 'w \<Rightarrow> bool \<times> sch_motor_feedback \<times> 'w" where
  "motor_sample s w =
     (let sample = \<lparr>speed_rpm = 0, current_ma = 0\<rparr>
      in case read_feedback_sample (hal s) of
           None \<Rightarrow> (False, sample, w)
         | Some f \<Rightarrow> f (hal_ctx (hal s)) sample w)"

definition sch_motor_isr_feedback ::
  "'w port \<Rightarrow> ('x, 'w) sch_motor_service option \<Rightarrow> 'w \<Rightarrow> (('x, 'w) sch_motor_service option \<times> 'w) option" where
  "sch_motor_isr_feedback p service w =
     (if is_null service then Some (service, w)
      else do {
        let s = the service;
        let w = motor_ack s w;
        let (ok, sample, w) = motor_sample s w;
        (s, w) \<leftarrow>
          (if ok
           then do {
             (push_result, r, w) \<leftarrow> ring_push feedback_bytes p (feedback_ring s) sample w;
             Some (s\<lparr>feedback_ring := r\<rparr>, w)
           }
           else Some (s, w));
        (push_result, q, w) \<leftarrow> event_push p (event_queue s) (motor_event_value SCH_MOTOR_EVENT_FEEDBACK) w;
        let s = s\<lparr>event_queue := q\<rparr>;
        let (state, w) = sch_port_enter_critical p w;
        let s = s\<lparr>irq_hint := True\<rparr>;
        Some (Some s, sch_port_exit_critical p state w)
      })"

definition sch_motor_isr_fault ::
  "'w port \<Rightarrow> ('x, 'w) sch_motor_service option \<Rightarrow> 'w \<Rightarrow> (('x, 'w) sch_motor_service option \<times> 'w) option" where
  "sch_motor_isr_fault p service w =
     (if is_null service then Some (service, w)
      else do {
        let s = the service;
        let w = motor_ack s w;
        (push_result, q, w) \<leftarrow> event_push p (event_queue s) (motor_event_value SCH_MOTOR_EVENT_FAULT) w;
        let s = s\<lparr>event_queue := q\<rparr>;
        let (state, w) = sch_port_enter_critical p w;
        let s = s\<lparr>irq_hint := True\<rparr>;
        Some (Some s, sch_port_exit_critical p state w)
      })"

text \<open>The body of the event loop.\<close>

definition motor_event_body ::
  "u16 \<Rightarrow> ('x, 'w) sch_motor_service \<Rightarrow> 'w \<Rightarrow> (bool \<times> ('x, 'w) sch_motor_service \<times> 'w) option" where
  "motor_event_body event_id s w =
     (if event_id = motor_event_value SCH_MOTOR_EVENT_FAULT
      then do {
        let s = s\<lparr>enabled := False\<rparr>;
        f \<leftarrow> set_enable (hal s);
        let (ok, w) = f (hal_ctx (hal s)) False w;
        Some (True, s, w)
      }
      else Some (True, s, w))"

definition sch_motor_supervision_service_run ::
  "'w port \<Rightarrow> ('x, 'w) sch_motor_service option \<Rightarrow> 'w \<Rightarrow> (('x, 'w) sch_motor_service option \<times> 'w) option" where
  "sch_motor_supervision_service_run p service w =
     (if is_null service then Some (service, w)
      else do {
        let s = the service;
        let (state, w) = sch_port_enter_critical p w;
        let had_irq_hint = irq_hint s;
        let s = s\<lparr>irq_hint := False\<rparr>;
        let w = sch_port_exit_critical p state w;
        let (no_feedback, w) =
          (if \<not> had_irq_hint then sch_spsc_ring_is_empty p (Some (feedback_ring s)) w else (False, w));
        let (nothing, w) =
          (if no_feedback
           then let (n, w) = sch_event_queue_size p (Some (event_queue s)) w in (n = 0, w)
           else (False, w));
        if nothing then Some (Some s, w)
        else do {
          f \<leftarrow> set_enable (hal s);
          let (ok, w) = f (hal_ctx (hal s)) (enabled s) w;
          w \<leftarrow>
            (if enabled s
             then do {
               f \<leftarrow> set_target_speed_rpm (hal s);
               let (ok, w) = f (hal_ctx (hal s)) (target_speed_rpm s) w;
               Some w
             }
             else Some w);
          (s, event_id, w) \<leftarrow> drain_loop (unat (max_events_per_run s))
            (field_pop event_queue (\<lambda>q s. s\<lparr>event_queue := q\<rparr>) (event_pop p)) motor_event_body s 0 w;
          (s, feedback, w) \<leftarrow> drain_loop (unat (max_feedback_items_per_run s))
            (field_pop feedback_ring (\<lambda>r s. s\<lparr>feedback_ring := r\<rparr>)
              (ring_pop feedback_bytes feedback_of_bytes p))
            (\<lambda>feedback s w. Some (True, s, w)) s \<lparr>speed_rpm = 0, current_ma = 0\<rparr> w;
          Some (Some s, w)
        }
      })"

section \<open>Invariant and initialisation\<close>

lemma feedback_bytes_inverse: "feedback_of_bytes (feedback_bytes f) = f"
  by (cases f) (simp add: feedback_of_bytes_def feedback_bytes_def u16_of_bytes_bytes)

interpretation feedback_objects: object_ring feedback_bytes feedback_of_bytes sizeof_feedback p for p
  by unfold_locales (simp_all add: feedback_bytes_inverse, simp_all add: feedback_bytes_def sizeof_feedback_def)

interpretation motor_feedback: queue_client
  "ring_push feedback_bytes p" "ring_pop feedback_bytes feedback_of_bytes p" "crit p"
  "typed_inv sizeof_feedback" "typed_items feedback_of_bytes" ring_bound ring_newest drops
  "\<lambda>r x. ring_enq r (feedback_bytes x)" ring_deq feedback_ring "\<lambda>r s. s\<lparr>feedback_ring := r\<rparr>"
  for p
  by unfold_locales simp_all

interpretation motor_events: queue_client
  "event_push p" "event_pop p" "crit p" event_inv event_items "\<lambda>q. ring_bound (ring q)"
  "\<lambda>q. ring_newest (ring q)" "\<lambda>q. drops (ring q)" event_enq event_deq
  event_queue "\<lambda>q s. s\<lparr>event_queue := q\<rparr>"
  for p
  by unfold_locales simp_all

definition motor_inv :: "('x, 'w) sch_motor_service \<Rightarrow> bool" where
  "motor_inv s \<longleftrightarrow>
     typed_inv sizeof_feedback (feedback_ring s) \<and> \<not> ring_newest (feedback_ring s) \<and>
     event_inv (event_queue s) \<and> \<not> ring_newest (ring (event_queue s)) \<and>
     \<not> is_null (set_enable (hal s)) \<and> \<not> is_null (set_target_speed_rpm (hal s)) \<and>
     max_feedback_items_per_run s \<noteq> 0 \<and> max_events_per_run s \<noteq> 0"

definition motor_held :: "('x, 'w) sch_motor_service \<Rightarrow> sch_motor_feedback list" where
  "motor_held s = typed_items feedback_of_bytes (feedback_ring s)"

definition motor_pending :: "('x, 'w) sch_motor_service \<Rightarrow> u16 list" where
  "motor_pending s = event_items (event_queue s)"

lemma motor_init_iff:
  "fst (sch_motor_supervision_service_init p service hal_arg fb fb_cap ev ev_cap max_fb max_ev w) \<longleftrightarrow>
     \<not> is_null service \<and> \<not> is_null hal_arg \<and> \<not> is_null (set_enable (the hal_arg)) \<and>
     \<not> is_null (set_target_speed_rpm (the hal_arg)) \<and> max_fb \<noteq> 0 \<and> max_ev \<noteq> 0 \<and>
     \<not> is_null fb \<and> fb_cap \<noteq> 0 \<and> \<not> is_null ev \<and> ev_cap \<noteq> 0"
  by (auto simp: sch_motor_supervision_service_init_def Let_def split_beta ring_init_iff event_init_iff
      sizeof_feedback_def)

lemma motor_init_ok:
  assumes "set_enable h = Some en" and "set_target_speed_rpm h = Some tg"
    and "max_fb \<noteq> 0" and "max_ev \<noteq> 0" and "fb_cap \<noteq> 0" and "ev_cap \<noteq> 0"
    and "unat fb_cap * 4 \<le> length fb" and "length fb < 2 ^ 32"
    and "unat ev_cap * 2 \<le> length ev" and "length ev < 2 ^ 32"
  obtains s' where
    "sch_motor_supervision_service_init p (Some s) (Some h) (Some fb) fb_cap (Some ev) ev_cap max_fb max_ev w =
      (True, Some s', crit p (crit p w))"
    "motor_inv s'" "motor_held s' = []" "motor_pending s' = []" "\<not> irq_hint s'" "hal s' = h"
    "\<not> enabled s'" "target_speed_rpm s' = 0"
    "ring_bound (feedback_ring s') = unat fb_cap" "ring_bound (ring (event_queue s')) = unat ev_cap"
    "drops (feedback_ring s') = 0" "drops (ring (event_queue s')) = 0"
    "max_feedback_items_per_run s' = max_fb" "max_events_per_run s' = max_ev"
proof -
  have fit: "unat fb_cap * unat sizeof_feedback \<le> length fb" using assms(7) by (simp add: sizeof_feedback_def)
  obtain r where r: "sch_spsc_ring_init p (Some (feedback_ring s)) (Some fb) fb_cap sizeof_feedback
      SCH_OVERFLOW_DROP_OLDEST w = (True, Some r, crit p w)" "typed_inv sizeof_feedback r"
    "typed_items feedback_of_bytes r = []" "drops r = 0" "ring_bound r = unat fb_cap"
    "ring_newest r \<longleftrightarrow> SCH_OVERFLOW_DROP_OLDEST = SCH_OVERFLOW_DROP_NEWEST"
    by (rule feedback_objects.init_refines [OF assms(5) disjI2 [OF refl] fit assms(8)])
  obtain q where q: "sch_event_queue_init p (Some (event_queue s)) (Some ev) ev_cap SCH_OVERFLOW_DROP_OLDEST
      (crit p w) = (True, Some q, crit p (crit p w))" "event_inv q" "event_items q = []"
    "ring_bound (ring q) = unat ev_cap" "drops (ring q) = 0"
    "ring_newest (ring q) \<longleftrightarrow> SCH_OVERFLOW_DROP_OLDEST = SCH_OVERFLOW_DROP_NEWEST"
    by (rule event_init_refines [OF assms(6) disjI2 [OF refl] assms(9,10)])
  show thesis
    by (rule that [of "s\<lparr>hal := h, target_speed_rpm := 0, enabled := False, irq_hint := False,
          max_feedback_items_per_run := max_fb, max_events_per_run := max_ev, feedback_ring := r,
          event_queue := q\<rparr>"])
      (use r q assms(1-4) in \<open>simp_all add: sch_motor_supervision_service_init_def motor_inv_def
        motor_held_def motor_pending_def\<close>)
qed

section \<open>Interrupts\<close>

lemma motor_isr_fault_eq:
  assumes "motor_inv s"
  shows "sch_motor_isr_fault p (Some s) w =
    Some (Some (s\<lparr>event_queue := event_enq (event_queue s) 2, irq_hint := True\<rparr>),
          crit p (crit p (motor_ack s w)))"
  using assms
  by (simp add: sch_motor_isr_fault_def motor_inv_def events.push_eq crit_def split_beta Let_def)

lemma motor_isr_feedback_eq:
  assumes "motor_inv s"
  shows "sch_motor_isr_feedback p (Some s) w =
    (case motor_sample s (motor_ack s w) of (ok, sample, w') \<Rightarrow>
       Some (Some (s\<lparr>feedback_ring := (if ok then ring_enq (feedback_ring s) (feedback_bytes sample) else feedback_ring s),
                     event_queue := event_enq (event_queue s) 1, irq_hint := True\<rparr>),
             crit p (crit p (if ok then crit p w' else w'))))"
  using assms
  by (cases "fst (motor_sample s (motor_ack s w))")
    (simp_all add: sch_motor_isr_feedback_def motor_inv_def events.push_eq feedback_objects.push_refines
      crit_def split_beta Let_def)

section \<open>The run function\<close>

definition motor_enable :: "('x, 'w) sch_motor_hal \<Rightarrow> bool \<Rightarrow> 'w \<Rightarrow> 'w" where
  "motor_enable h on w = snd (the (set_enable h) (hal_ctx h) on w)"

definition motor_apply :: "('x, 'w) sch_motor_service \<Rightarrow> 'w \<Rightarrow> 'w" where
  "motor_apply s w =
     (let w = motor_enable (hal s) (enabled s) w
      in if enabled s
         then snd (the (set_target_speed_rpm (hal s)) (hal_ctx (hal s)) (target_speed_rpm s) w) else w)"

definition motor_event_world :: "('x, 'w) sch_motor_hal \<Rightarrow> u16 \<Rightarrow> 'w \<Rightarrow> 'w" where
  "motor_event_world h event_id w = (if event_id = 2 then motor_enable h False w else w)"

definition motor_step ::
  "u16 \<Rightarrow> ('x, 'w) sch_motor_service \<Rightarrow> 'w \<Rightarrow> ('x, 'w) sch_motor_service \<times> 'w" where
  "motor_step event_id s w =
     (if event_id = 2 then s\<lparr>enabled := False\<rparr> else s, motor_event_world (hal s) event_id w)"

lemma motor_drain_fold:
  "drain_fold bracket motor_step n xs s w =
    (if 2 \<in> set (take n xs) then s\<lparr>enabled := False\<rparr> else s,
     drain_world bracket (motor_event_world (hal s)) n xs w)"
proof (induction n arbitrary: xs s w)
  case (Suc n)
  then show ?case by (cases xs) (simp_all add: motor_step_def)
qed simp

definition motor_idle :: "('x, 'w) sch_motor_service \<Rightarrow> bool" where
  "motor_idle s \<longleftrightarrow> \<not> irq_hint s \<and> motor_held s = [] \<and> motor_pending s = []"

definition motor_entry_world :: "'w port \<Rightarrow> ('x, 'w) sch_motor_service \<Rightarrow> 'w \<Rightarrow> 'w" where
  "motor_entry_world p s w =
     (if irq_hint s then crit p w
      else if motor_held s = [] then crit p (crit p (crit p w)) else crit p (crit p w))"

text \<open>Everything a run does, with the platform as the sequence of HAL calls it makes.\<close>

definition motor_world :: "'w port \<Rightarrow> ('x, 'w) sch_motor_service \<Rightarrow> 'w \<Rightarrow> 'w" where
  "motor_world p s w =
     (let w = motor_entry_world p s w
      in
        if motor_idle s then w
        else
          drain_world (crit p) (\<lambda>f w. w) (unat (max_feedback_items_per_run s)) (motor_held s)
            (drain_world (crit p) (motor_event_world (hal s)) (unat (max_events_per_run s)) (motor_pending s)
              (motor_apply s w)))"

lemma motor_run_eq:
  assumes "motor_inv s"
  shows "\<exists>s'. sch_motor_supervision_service_run p (Some s) w = Some (Some s', motor_world p s w) \<and>
    motor_inv s' \<and> \<not> irq_hint s' \<and>
    motor_pending s' = drop (unat (max_events_per_run s)) (motor_pending s) \<and>
    motor_held s' = drop (unat (max_feedback_items_per_run s)) (motor_held s) \<and>
    enabled s' = (enabled s \<and> 2 \<notin> set (take (unat (max_events_per_run s)) (motor_pending s))) \<and>
    target_speed_rpm s' = target_speed_rpm s \<and> hal s' = hal s \<and>
    drops (feedback_ring s') = drops (feedback_ring s) \<and>
    drops (ring (event_queue s')) = drops (ring (event_queue s)) \<and>
    ring_bound (feedback_ring s') = ring_bound (feedback_ring s) \<and>
    ring_bound (ring (event_queue s')) = ring_bound (ring (event_queue s)) \<and>
    max_feedback_items_per_run s' = max_feedback_items_per_run s \<and>
    max_events_per_run s' = max_events_per_run s"
proof -
  let ?s = "s\<lparr>irq_hint := False\<rparr>" and ?w = "motor_entry_world p s w"
  let ?ne = "unat (max_events_per_run s)" and ?nf = "unat (max_feedback_items_per_run s)"
  let ?q = "(event_deq ^^ min ?ne (length (motor_pending s))) (event_queue s)"
  let ?r = "(ring_deq ^^ min ?nf (length (motor_held s))) (feedback_ring s)"
  let ?on = "enabled s \<and> 2 \<notin> set (take ?ne (motor_pending s))"
  let ?w1 = "drain_world (crit p) (motor_event_world (hal s)) ?ne (motor_pending s) (motor_apply s ?w)"
  have inv: "typed_inv sizeof_feedback (feedback_ring s)" "event_inv (event_queue s)"
    using assms by (simp_all add: motor_inv_def)
  obtain en tg where hal: "set_enable (hal s) = Some en" "set_target_speed_rpm (hal s) = Some tg"
    using assms by (cases "set_enable (hal s)"; cases "set_target_speed_rpm (hal s)") (simp_all add: motor_inv_def)
  have empty: "sch_spsc_ring_is_empty p (Some (feedback_ring s)) v = (motor_held s = [], crit p v)"
    "sch_event_queue_size p (Some (event_queue s)) v = (count (ring (event_queue s)), crit p v)"
    "motor_pending s = [] \<longleftrightarrow> count (ring (event_queue s)) = 0" for v
    using inv by (simp_all add: typed_inv_def ring_is_empty_refines motor_held_def motor_pending_def
        event_size_refines event_items_empty_iff)
  have body: "motor_event_body x t v = Some (True, motor_step x t v)" if "hal t = hal s" for x t v
    using that hal
    by (simp add: motor_event_body_def motor_step_def motor_event_world_def motor_enable_def split_beta)
  have ev: "drain_loop ?ne (field_pop event_queue (\<lambda>q s. s\<lparr>event_queue := q\<rparr>) (event_pop p)) motor_event_body
      ?s 0 v = Some (?s\<lparr>event_queue := ?q, enabled := ?on\<rparr>, last (0 # take ?ne (motor_pending s)),
        drain_world (crit p) (motor_event_world (hal s)) ?ne (motor_pending s) v)" for v
    using motor_events.drain_steps [where s = ?s and P = "\<lambda>t. hal t = hal s" and body = motor_event_body and
        step = motor_step and n = ?ne and x = 0 and w = v and p = p] inv(2) body
    by (simp add: motor_drain_fold motor_pending_def) (simp add: motor_step_def split: if_splits)
  have fb: "drain_loop ?nf (field_pop feedback_ring (\<lambda>r s. s\<lparr>feedback_ring := r\<rparr>)
        (ring_pop feedback_bytes feedback_of_bytes p)) (\<lambda>feedback s w. Some (True, s, w)) t x v =
    Some (t\<lparr>feedback_ring := ?r\<rparr>, last (x # take ?nf (motor_held s)),
      drain_world (crit p) (\<lambda>f w. w) ?nf (motor_held s) v)" if "feedback_ring t = feedback_ring s" for t x v
    using motor_feedback.drain_dispatch [where s = t and P = "\<lambda>s. True" and
        body = "\<lambda>feedback s w. Some (True, s, w)" and eff = "\<lambda>f w. w" and n = ?nf and x = x and w = v and p = p]
      inv that
    by (simp add: motor_held_def)
  note keep = feedback_objects.queue.deqs_keep [OF inv(1)] events.deqs_keep [OF inv(2)]
  show ?thesis
  proof (cases "motor_idle s")
    case True
    then have "sch_motor_supervision_service_run p (Some s) w = Some (Some ?s, motor_world p s w)"
      by (simp add: sch_motor_supervision_service_run_def motor_idle_def empty crit_def split_beta Let_def
          motor_entry_world_def motor_world_def)
    then show ?thesis
      using True assms by (simp add: motor_inv_def motor_idle_def motor_held_def motor_pending_def)
  next
    case False
    have busy: "\<not> (\<not> irq_hint s \<and> motor_held s = [] \<and> motor_pending s = [])"
      using False by (simp add: motor_idle_def)
    have "sch_motor_supervision_service_run p (Some s) w =
        Some (Some (?s\<lparr>event_queue := ?q, enabled := ?on, feedback_ring := ?r\<rparr>), motor_world p s w)"
      using busy hal
      by (cases "irq_hint s"; cases "motor_held s = []"; cases "enabled s")
        (simp_all add: sch_motor_supervision_service_run_def motor_world_def motor_entry_world_def motor_apply_def
          motor_enable_def motor_idle_def crit_def split_beta Let_def empty ev fb)
    then show ?thesis
      using assms keep
      by (simp add: motor_inv_def motor_held_def motor_pending_def drop_min drop_min_typed)
  qed
qed

section \<open>Bursts of interrupts\<close>

datatype motor_interrupt = MOTOR_FEEDBACK | MOTOR_FAULT

fun motor_event :: "motor_interrupt \<Rightarrow> u16" where
  "motor_event MOTOR_FEEDBACK = 1"
| "motor_event MOTOR_FAULT = 2"

fun motor_isr_at ::
  "'w port \<Rightarrow> motor_interrupt \<Rightarrow> ('x, 'w) sch_motor_service \<Rightarrow> 'w \<Rightarrow> (('x, 'w) sch_motor_service \<times> 'w) option" where
  "motor_isr_at p MOTOR_FEEDBACK s w = do { (s, w) \<leftarrow> sch_motor_isr_feedback p (Some s) w; Some (the s, w) }"
| "motor_isr_at p MOTOR_FAULT s w = do { (s, w) \<leftarrow> sch_motor_isr_fault p (Some s) w; Some (the s, w) }"

lemma motor_isr_step:
  assumes "motor_inv s"
  shows "\<exists>s' w'. motor_isr_at p e s w = Some (s', w') \<and> motor_inv s' \<and>
    motor_pending s' = bounded_push (ring_bound (ring (event_queue s))) False (motor_pending s) (motor_event e) \<and>
    irq_hint s' \<and> enabled s' = enabled s \<and> target_speed_rpm s' = target_speed_rpm s \<and> hal s' = hal s \<and>
    ring_bound (ring (event_queue s')) = ring_bound (ring (event_queue s)) \<and>
    max_events_per_run s' = max_events_per_run s"
proof -
  have inv: "event_inv (event_queue s)" "typed_inv sizeof_feedback (feedback_ring s)" "\<not> ring_newest (ring (event_queue s))"
    using assms by (simp_all add: motor_inv_def)
  obtain ok sample w1 where "motor_sample s (motor_ack s w) = (ok, sample, w1)" by (metis surj_pair)
  then show ?thesis
    using assms inv events.enq_simps [OF inv(1)] feedback_objects.enq_refines [OF inv(2), of sample]
    by (cases e; cases ok)
      (simp_all add: motor_isr_feedback_eq motor_isr_fault_eq motor_inv_def motor_pending_def)
qed

lemma motor_burst:
  assumes "motor_inv s"
  shows "\<exists>s' w'. isr_all (motor_isr_at p) es s w = Some (s', w') \<and> motor_inv s' \<and>
    motor_pending s' = retained (ring_bound (ring (event_queue s))) False (motor_pending s @ map motor_event es) \<and>
    (es \<noteq> [] \<longrightarrow> irq_hint s') \<and> enabled s' = enabled s \<and> target_speed_rpm s' = target_speed_rpm s \<and>
    hal s' = hal s \<and> max_events_per_run s' = max_events_per_run s"
proof -
  have "\<exists>s' w'. isr_all (motor_isr_at p) es s w = Some (s', w') \<and> motor_inv s' \<and>
    motor_pending s' = foldl (bounded_push (ring_bound (ring (event_queue s))) False) (motor_pending s) (map motor_event es) \<and>
    (es \<noteq> [] \<longrightarrow> irq_hint s') \<and> enabled s' = enabled s \<and> target_speed_rpm s' = target_speed_rpm s \<and>
    hal s' = hal s \<and> max_events_per_run s' = max_events_per_run s"
    using assms
  proof (induction es arbitrary: s w)
    case (Cons e es)
    obtain s1 w1 where s1: "motor_isr_at p e s w = Some (s1, w1)" "motor_inv s1"
      "motor_pending s1 = bounded_push (ring_bound (ring (event_queue s))) False (motor_pending s) (motor_event e)"
      "irq_hint s1" "enabled s1 = enabled s" "target_speed_rpm s1 = target_speed_rpm s" "hal s1 = hal s"
      "ring_bound (ring (event_queue s1)) = ring_bound (ring (event_queue s))"
      "max_events_per_run s1 = max_events_per_run s"
      using motor_isr_step [OF Cons.prems, of p e w] by blast
    with Cons.IH [OF s1(2), of w1] show ?case by (cases es) auto
  qed simp
  moreover have "event_inv (event_queue s)" using assms by (simp add: motor_inv_def)
  then have "length (motor_pending s) \<le> ring_bound (ring (event_queue s))" "0 < ring_bound (ring (event_queue s))"
    using events.items_bound events.bound_pos by (simp_all add: motor_pending_def)
  ultimately show ?thesis by (simp add: bounded_burst)
qed

section \<open>Properties\<close>

datatype motor_call = SET_ENABLE bool | SET_TARGET u16

text \<open>An observer of the calls that drive the motor.\<close>

definition observes_motor :: "('w \<Rightarrow> motor_call list) \<Rightarrow> 'w port \<Rightarrow> ('x, 'w) sch_motor_hal \<Rightarrow> bool" where
  "observes_motor calls p h \<longleftrightarrow>
     (\<forall>w. calls (crit p w) = calls w) \<and>
     (\<forall>on w. calls (snd (the (set_enable h) (hal_ctx h) on w)) = calls w @ [SET_ENABLE on]) \<and>
     (\<forall>rpm w. calls (snd (the (set_target_speed_rpm h) (hal_ctx h) rpm w)) = calls w @ [SET_TARGET rpm])"

text \<open>The calls of one run.\<close>

definition motor_run_calls :: "('x, 'w) sch_motor_service \<Rightarrow> motor_call list" where
  "motor_run_calls s =
     (if motor_idle s then []
      else SET_ENABLE (enabled s) # (if enabled s then [SET_TARGET (target_speed_rpm s)] else []) @
        map (\<lambda>e. SET_ENABLE False) (filter ((=) 2) (take (unat (max_events_per_run s)) (motor_pending s))))"

lemma motor_world_calls:
  assumes "observes_motor calls p (hal s)"
  shows "calls (motor_world p s w) = calls w @ motor_run_calls s"
proof -
  have c: "calls (crit p v) = calls v" and en: "calls (motor_enable (hal s) on v) = calls v @ [SET_ENABLE on]"
    and tg: "calls (snd (the (set_target_speed_rpm (hal s)) (hal_ctx (hal s)) rpm v)) = calls v @ [SET_TARGET rpm]"
    for v on rpm
    using assms by (simp_all add: observes_motor_def motor_enable_def)
  have entry: "calls (motor_entry_world p s v) = calls v" for v by (simp add: motor_entry_world_def c)
  have events: "calls (drain_world (crit p) (motor_event_world (hal s)) n xs v) =
      calls v @ map (\<lambda>e. SET_ENABLE False) (filter ((=) 2) (take n xs))" for n xs v
  proof (induction n arbitrary: xs v)
    case (Suc n)
    then show ?case by (cases xs) (simp_all add: c en motor_event_world_def)
  qed simp
  have unseen: "calls (drain_world (crit p) (\<lambda>f w. w) n xs v) = calls v" for n and xs :: "sch_motor_feedback list" and v
    by (rule drain_world_unseen) (rule c)
  show ?thesis
    by (simp add: motor_world_def Let_def entry events unseen motor_apply_def en tg motor_run_calls_def)
qed

text \<open>A motor whose state is the list of the calls made to it.\<close>

definition call_hal :: "(unit, motor_call list) sch_motor_hal" where
  "call_hal = \<lparr>ack_irq = None, read_feedback_sample = Some (\<lambda>c f w. (True, \<lparr>speed_rpm = 900, current_ma = -5\<rparr>, w)),
     set_enable = Some (\<lambda>c on w. (True, w @ [SET_ENABLE on])),
     set_target_speed_rpm = Some (\<lambda>c rpm w. (True, w @ [SET_TARGET rpm])), hal_ctx = None\<rparr>"

definition motor_sample_ring :: "size_t \<Rightarrow> sch_spsc_ring" where
  "motor_sample_ring es = \<lparr>storage = Some (replicate 12 0), element_size = es, capacity = 3, head = 0, tail = 0,
     count = 0, drops = 0, overflow = SCH_OVERFLOW_DROP_OLDEST\<rparr>"

definition motor_service :: "bool \<Rightarrow> (unit, motor_call list) sch_motor_service" where
  "motor_service on = \<lparr>hal = call_hal, feedback_ring = motor_sample_ring 4, event_queue = \<lparr>ring = motor_sample_ring 2\<rparr>,
     target_speed_rpm = 1200, enabled = on, irq_hint = False, max_feedback_items_per_run = 2, max_events_per_run = 3\<rparr>"

lemma motor_service_ok:
  "motor_inv (motor_service on)" "motor_pending (motor_service on) = []" "motor_held (motor_service on) = []"
  "observes_motor (\<lambda>w. w) quiet_port (hal (motor_service on))" "motor_idle (motor_service on)"
  "hal (motor_service on) = call_hal" "enabled (motor_service on) = on" "target_speed_rpm (motor_service on) = 1200"
  "capacity (ring (event_queue (motor_service on))) = 3" "max_events_per_run (motor_service on) = 3"
  by (simp_all add: motor_service_def motor_inv_def motor_pending_def motor_held_def motor_idle_def observes_motor_def
      typed_inv_def event_inv_def event_items_def motor_sample_ring_def ring_inv_iff sizeof_u16_def sizeof_feedback_def
      ring_newest_def call_hal_def)

text \<open>
  C34. What a run of the motor service does. It is never undefined. With no hint and both queues
  empty it calls nothing; otherwise it applies the command (enable, and the target speed when
  enabled), then disables the motor once for every fault among the events it takes, which are the
  oldest ones up to the budget. A fault taken leaves the command disabled; feedback samples are
  consumed up to their budget; the hint is consumed.
\<close>

theorem motor_run_does:
  assumes "motor_inv s" and "observes_motor calls p (hal s)"
  shows "\<exists>s' w'. sch_motor_supervision_service_run p (Some s) w = Some (Some s', w') \<and> motor_inv s' \<and>
    calls w' = calls w @
      (if \<not> irq_hint s \<and> motor_held s = [] \<and> motor_pending s = [] then []
       else SET_ENABLE (enabled s) # (if enabled s then [SET_TARGET (target_speed_rpm s)] else []) @
         map (\<lambda>e. SET_ENABLE False) (filter ((=) 2) (take (unat (max_events_per_run s)) (motor_pending s)))) \<and>
    enabled s' = (enabled s \<and> 2 \<notin> set (take (unat (max_events_per_run s)) (motor_pending s))) \<and>
    target_speed_rpm s' = target_speed_rpm s \<and>
    motor_pending s' = drop (unat (max_events_per_run s)) (motor_pending s) \<and>
    motor_held s' = drop (unat (max_feedback_items_per_run s)) (motor_held s) \<and> \<not> irq_hint s'"
  using motor_run_eq [OF assms(1), of p w] motor_world_calls [OF assms(2), of w]
  unfolding motor_run_calls_def motor_idle_def by blast

theorem motor_run_does_witness:
  "\<exists>s' w'. sch_motor_supervision_service_run quiet_port (Some ((motor_service True)\<lparr>irq_hint := True\<rparr>)) [] = Some (Some s', w') \<and>
    w' = [SET_ENABLE True, SET_TARGET 1200] \<and> enabled s'"
proof -
  let ?s = "(motor_service True)\<lparr>irq_hint := True\<rparr>"
  have "motor_inv ?s" "observes_motor (\<lambda>w. w) quiet_port (hal ?s)" "motor_pending ?s = []"
    using motor_service_ok [of True] by (simp_all add: motor_inv_def motor_pending_def)
  from motor_run_does [OF this(1,2), of "[]"] this(3) show ?thesis by (simp add: motor_service_ok) blast
qed

text \<open>
  Without preemption: a fault stops the motor in the next run. If a burst of interrupts contains a fault among
  its last interrupts, as many as the event queue holds, and the event budget covers the queue,
  then the next run makes "disable" its last call to the motor and leaves it commanded off,
  whatever was pending before and whatever the command was.
\<close>

lemma motor_fault_disables:
  assumes "motor_inv s" and "observes_motor calls p (hal s)"
    and "MOTOR_FAULT \<in> set (drop (length es - unat (capacity (ring (event_queue s)))) es)"
    and "capacity (ring (event_queue s)) \<le> max_events_per_run s"
  shows "\<exists>s1 w1 s' w'. isr_all (motor_isr_at p) es s w = Some (s1, w1) \<and>
    sch_motor_supervision_service_run p (Some s1) w1 = Some (Some s', w') \<and> motor_inv s' \<and> \<not> enabled s' \<and>
    calls w' \<noteq> [] \<and> last (calls w') = SET_ENABLE False"
proof -
  let ?b = "unat (capacity (ring (event_queue s)))"
  obtain s1 w1 where s1: "isr_all (motor_isr_at p) es s w = Some (s1, w1)" "motor_inv s1"
    "motor_pending s1 = retained ?b False (motor_pending s @ map motor_event es)" "hal s1 = hal s"
    "max_events_per_run s1 = max_events_per_run s"
    using motor_burst [OF assms(1), of p es w] by (auto simp: ring_bound_def)
  have "2 \<in> motor_event ` set (drop (length es - ?b) es)" using assms(3) by force
  then have "2 \<in> set (drop (length es - ?b) (map motor_event es))" by (simp add: drop_map)
  also have "set (drop (length es - ?b) (map motor_event es)) \<subseteq> set (motor_pending s1)"
    unfolding s1(3) retained_def by auto
  finally have fault: "2 \<in> set (motor_pending s1)" .
  moreover have "length (motor_pending s1) \<le> unat (max_events_per_run s1)"
    using assms(4) by (simp add: s1(3,5) retained_def word_le_nat_alt)
  ultimately have t: "2 \<in> set (take (unat (max_events_per_run s1)) (motor_pending s1))" by simp
  have busy: "\<not> motor_idle s1" using fault by (auto simp: motor_idle_def)
  obtain s' where s': "sch_motor_supervision_service_run p (Some s1) w1 = Some (Some s', motor_world p s1 w1)"
    "motor_inv s'" "\<not> enabled s'"
    using motor_run_eq [OF s1(2), of p w1] t by auto
  have obs: "observes_motor calls p (hal s1)" using assms(2) by (simp add: s1(4))
  have "filter ((=) 2) (take (unat (max_events_per_run s1)) (motor_pending s1)) \<noteq> []"
    using t by (auto simp: filter_empty_conv)
  then have "calls (motor_world p s1 w1) \<noteq> [] \<and> last (calls (motor_world p s1 w1)) = SET_ENABLE False"
    using busy motor_world_calls [OF obs] by (simp add: motor_run_calls_def last_map)
  then show ?thesis using s1(1) s' by blast
qed

text \<open>
  C36. A fault can be forgotten. Fault and feedback events share one queue that gives up its
  oldest event when full: if the fault is followed by as many feedback interrupts as the queue
  holds before the task runs, the run keeps the motor enabled, applies the speed command and
  makes no disable call.
\<close>

theorem motor_fault_forgotten:
  assumes "motor_inv s" and "observes_motor calls p (hal s)" and "enabled s"
    and "unat (capacity (ring (event_queue s))) \<le> n"
  shows "\<exists>s1 w1 s' w'. isr_all (motor_isr_at p) (MOTOR_FAULT # replicate n MOTOR_FEEDBACK) s w = Some (s1, w1) \<and>
    sch_motor_supervision_service_run p (Some s1) w1 = Some (Some s', w') \<and> enabled s' \<and>
    calls w' = calls w1 @ [SET_ENABLE True, SET_TARGET (target_speed_rpm s)]"
proof -
  let ?b = "unat (capacity (ring (event_queue s)))"
  let ?es = "MOTOR_FAULT # replicate n MOTOR_FEEDBACK"
  obtain s1 w1 where s1: "isr_all (motor_isr_at p) ?es s w = Some (s1, w1)" "motor_inv s1" "irq_hint s1"
    "motor_pending s1 = retained ?b False (motor_pending s @ map motor_event ?es)" "hal s1 = hal s"
    "enabled s1" "target_speed_rpm s1 = target_speed_rpm s"
    using motor_burst [OF assms(1), of p ?es w] assms(3) by (auto simp: ring_bound_def)
  have "motor_pending s1 = drop (length (motor_pending s) + 1 + n - ?b) ((motor_pending s @ [2]) @ replicate n 1)"
    by (simp add: s1(4) retained_def)
  also have "\<dots> = drop (n - ?b) (replicate n 1)"
    using assms(4) by (subst drop_append) simp
  finally have "set (motor_pending s1) \<subseteq> {1}" by (auto dest: in_set_dropD)
  then have no: "e \<noteq> 2" if "e \<in> set (motor_pending s1)" for e using that by auto
  obtain s' where s': "sch_motor_supervision_service_run p (Some s1) w1 = Some (Some s', motor_world p s1 w1)" "enabled s'"
    using motor_run_eq [OF s1(2), of p w1] s1(6) no by (auto dest: in_set_takeD)
  have obs: "observes_motor calls p (hal s1)" using assms(2) by (simp add: s1(5))
  have none: "filter ((=) 2) (take (unat (max_events_per_run s1)) (motor_pending s1)) = []"
    using no by (auto simp: filter_empty_conv dest: in_set_takeD)
  have "calls (motor_world p s1 w1) = calls w1 @ [SET_ENABLE True, SET_TARGET (target_speed_rpm s)]"
    using motor_world_calls [OF obs] s1(3,6,7) none by (simp add: motor_run_calls_def motor_idle_def)
  then show ?thesis using s1(1) s' by blast
qed

theorem motor_fault_forgotten_witness:
  "\<exists>s1 w1 s' w'. isr_all (motor_isr_at quiet_port) (MOTOR_FAULT # replicate 3 MOTOR_FEEDBACK) (motor_service True) [] = Some (s1, w1) \<and>
    sch_motor_supervision_service_run quiet_port (Some s1) w1 = Some (Some s', w') \<and> enabled s' \<and>
    w' = w1 @ [SET_ENABLE True, SET_TARGET (target_speed_rpm (motor_service True))]"
  by (rule motor_fault_forgotten [OF motor_service_ok(1,4)]) (simp_all add: motor_service_ok)

text \<open>
  C37. A command waits for an interrupt. After \<open>sch_motor_supervision_set_command\<close> on a service
  with nothing pending, no number of runs calls the motor: the command is stored and not applied
  until an interrupt arrives.
\<close>

theorem motor_command_waits:
  assumes "motor_inv s" and "observes_motor calls p (hal s)" and "motor_idle s"
  shows "\<exists>s1 s' w'. sch_motor_supervision_set_command (Some s) on rpm = Some s1 \<and>
    run_times (\<lambda>t v. map_option (apfst the) (sch_motor_supervision_service_run p (Some t) v)) n s1 w = Some (s', w') \<and>
    calls w' = calls w \<and> enabled s' = on \<and> target_speed_rpm s' = rpm"
proof -
  let ?run = "\<lambda>t v. map_option (apfst the) (sch_motor_supervision_service_run p (Some t) v)"
  let ?s1 = "s\<lparr>enabled := on, target_speed_rpm := rpm\<rparr>"
  have "\<exists>s' w'. run_times ?run n t v = Some (s', w') \<and> calls w' = calls v \<and> enabled s' = enabled t \<and>
      target_speed_rpm s' = target_speed_rpm t"
    if "motor_inv t" "motor_idle t" "hal t = hal s" for t v
    using that
  proof (induction n arbitrary: t v)
    case (Suc n)
    obtain t' where t': "sch_motor_supervision_service_run p (Some t) v = Some (Some t', motor_world p t v)"
      "motor_inv t'" "motor_idle t'" "hal t' = hal t" "enabled t' = enabled t" "target_speed_rpm t' = target_speed_rpm t"
      using motor_run_eq [OF Suc.prems(1), of p v] Suc.prems(2) by (auto simp: motor_idle_def)
    moreover have "calls (motor_world p t v) = calls v"
      using motor_world_calls [of calls p t v] assms(2) Suc.prems(2,3) by (simp add: motor_run_calls_def)
    ultimately show ?case using Suc.IH [of t' "motor_world p t v"] Suc.prems(3) by simp
  qed simp
  from this [of ?s1 w] show ?thesis
    using assms(1,3) by (simp add: sch_motor_supervision_set_command_def motor_inv_def motor_idle_def motor_held_def motor_pending_def)
qed

theorem motor_command_waits_witness:
  "\<exists>s1 s' w'. sch_motor_supervision_set_command (Some (motor_service False)) True 1500 = Some s1 \<and>
    run_times (\<lambda>t v. map_option (apfst the) (sch_motor_supervision_service_run quiet_port (Some t) v)) 100 s1 [] = Some (s', w') \<and>
    w' = [] \<and> enabled s' = True \<and> target_speed_rpm s' = 1500"
  by (rule motor_command_waits [OF motor_service_ok(1,4,5)])

end
