(* ===== verification/Motor_Preempted.thy ===== *)
theory Motor_Preempted
  imports Resumption Motor_Service
begin

text \<open>
  The motor supervision under preemption: \<open>sch_motor_supervision_service_run\<close> as a program of its
  critical sections and callbacks. A fault interrupt that the queue still remembers switches the
  motor off, wherever in a run it arrives.
\<close>

section \<open>The run as a program\<close>

definition motor_take_hint ::
  "'w port \<Rightarrow> ('x, 'w) sch_motor_service \<Rightarrow> 'w \<Rightarrow> bool \<times> ('x, 'w) sch_motor_service \<times> 'w" where
  "motor_take_hint p s w =
     (let (state, w) = sch_port_enter_critical p w;
          had_irq_hint = irq_hint s;
          s = s\<lparr>irq_hint := False\<rparr>;
          w = sch_port_exit_critical p state w
      in (had_irq_hint, s, w))"

definition motor_feedback_prog :: "'w port \<Rightarrow> (('x, 'w) sch_motor_service, 'w) prog" where
  "motor_feedback_prog p = Step (\<lambda>s w. Some (
     drain_prog (unat (max_feedback_items_per_run s))
       (field_pop feedback_ring (\<lambda>r s. s\<lparr>feedback_ring := r\<rparr>) (ring_pop feedback_bytes feedback_of_bytes p))
       (\<lambda>feedback s w. Some (True, s, w)) Stop \<lparr>speed_rpm = 0, current_ma = 0\<rparr>, s, w))"

definition motor_event_prog :: "'w port \<Rightarrow> (('x, 'w) sch_motor_service, 'w) prog" where
  "motor_event_prog p = Step (\<lambda>s w. Some (
     drain_prog (unat (max_events_per_run s))
       (field_pop event_queue (\<lambda>q s. s\<lparr>event_queue := q\<rparr>) (event_pop p))
       motor_event_body (motor_feedback_prog p) 0, s, w))"

definition motor_apply_prog :: "'w port \<Rightarrow> (('x, 'w) sch_motor_service, 'w) prog" where
  "motor_apply_prog p = Step (\<lambda>s w. do {
     f \<leftarrow> set_enable (hal s);
     let (ok, w) = f (hal_ctx (hal s)) (enabled s) w;
     Some (Step (\<lambda>s w. do {
       w \<leftarrow>
         (if enabled s
          then do {
            f \<leftarrow> set_target_speed_rpm (hal s);
            let (ok, w) = f (hal_ctx (hal s)) (target_speed_rpm s) w;
            Some w
          }
          else Some w);
       Some (motor_event_prog p, s, w)
     }), s, w)
   })"

definition motor_prog :: "'w port \<Rightarrow> (('x, 'w) sch_motor_service, 'w) prog" where
  "motor_prog p = Step (\<lambda>s w.
     let (had_irq_hint, s, w) = motor_take_hint p s w
     in Some (if had_irq_hint then motor_apply_prog p
       else Step (\<lambda>s w.
         let (no_feedback, w) = sch_spsc_ring_is_empty p (Some (feedback_ring s)) w
         in Some (if \<not> no_feedback then motor_apply_prog p
           else Step (\<lambda>s w.
             let (n, w) = sch_event_queue_size p (Some (event_queue s)) w
             in Some (if n = 0 then Stop else motor_apply_prog p, s, w)), s, w)), s, w))"

text \<open>Undisturbed, the program is the run function, also where that is undefined.\<close>

lemma motor_apply_finish:
  "map_option (apfst Some) (finish (motor_apply_prog p) s w) = do {
     f \<leftarrow> set_enable (hal s);
     let (ok, w) = f (hal_ctx (hal s)) (enabled s) w;
     w \<leftarrow>
       (if enabled s
        then do {
          f \<leftarrow> set_target_speed_rpm (hal s);
          let (ok, w) = f (hal_ctx (hal s)) (target_speed_rpm s) w;
          Some w
        }
        else Some w);
     (s, event_id, w) \<leftarrow> drain_loop (unat (max_events_per_run s))
       (field_pop event_queue (\<lambda>q s. s\<lparr>event_queue := q\<rparr>) (event_pop p)) motor_event_body s 0 w;
     (s, feedback, w) \<leftarrow> drain_loop (unat (max_feedback_items_per_run s))
       (field_pop feedback_ring (\<lambda>r s. s\<lparr>feedback_ring := r\<rparr>) (ring_pop feedback_bytes feedback_of_bytes p))
       (\<lambda>feedback s w. Some (True, s, w)) s \<lparr>speed_rpm = 0, current_ma = 0\<rparr> w;
     Some (Some s, w)
   }"
  by (cases "set_enable (hal s)"; cases "enabled s"; cases "set_target_speed_rpm (hal s)")
    (simp_all add: motor_apply_prog_def motor_event_prog_def motor_feedback_prog_def finish_drain Let_def
      case_prod_unfold map_bind)

lemma motor_prog_eq:
  "sch_motor_supervision_service_run p (Some s) w = map_option (apfst Some) (finish (motor_prog p) s w)"
proof -
  let ?e = "sch_port_enter_critical p w"
  let ?s = "s\<lparr>irq_hint := False\<rparr>" and ?w = "sch_port_exit_critical p (fst ?e) (snd ?e)"
  let ?fb = "sch_spsc_ring_is_empty p (Some (feedback_ring s)) ?w"
  show ?thesis
    unfolding sch_motor_supervision_service_run_def
    by (cases "irq_hint s"; cases "fst ?fb"; cases "fst (sch_event_queue_size p (Some (event_queue s)) (snd ?fb)) = 0")
      (simp_all add: motor_prog_def motor_take_hint_def Let_def split_beta motor_apply_finish)
qed

section \<open>The account of the faults\<close>

text \<open>The interrupt side of the HAL does not drive the motor.\<close>

definition silent_isr :: "('w \<Rightarrow> motor_call list) \<Rightarrow> ('x, 'w) sch_motor_hal \<Rightarrow> bool" where
  "silent_isr calls h \<longleftrightarrow>
     (case ack_irq h of None \<Rightarrow> True | Some f \<Rightarrow> \<forall>c w. calls (f c w) = calls w) \<and>
     (case read_feedback_sample h of None \<Rightarrow> True | Some f \<Rightarrow> \<forall>c x w. calls (snd (snd (f c x w))) = calls w)"

lemma silent_isr_calls:
  assumes "silent_isr calls (hal s)" and "motor_inv s" and "\<forall>w. calls (crit p w) = calls w"
    and "motor_isr_at p e s w = Some (s', w')"
  shows "calls w' = calls w"
proof -
  have ack: "calls (motor_ack s v) = calls v" for v
    using assms(1) by (simp add: motor_ack_def silent_isr_def split: option.splits)
  have sample: "calls (snd (snd (motor_sample s v))) = calls v" for v
    using assms(1) by (simp add: motor_sample_def silent_isr_def Let_def split: option.splits)
  show ?thesis
    using assms(2-4) ack sample [of "motor_ack s w"]
    by (cases e) (auto simp: motor_isr_feedback_eq motor_isr_fault_eq split_beta split: if_splits)
qed

definition motor_off :: "('w \<Rightarrow> motor_call list) \<Rightarrow> ('x, 'w) sch_motor_service \<Rightarrow> 'w \<Rightarrow> bool" where
  "motor_off calls s w \<longleftrightarrow> \<not> enabled s \<and> calls w \<noteq> [] \<and> last (calls w) = SET_ENABLE False"

text \<open>
  \<open>evs\<close> are all events that ever entered the queue, and \<open>m\<close> of them have left it, taken by the run
  or given up. A fault among those has switched the motor off, is old (more events have entered
  since than the queue holds), or is the one at \<open>F\<close> that is being handled.
\<close>

definition accounted :: "nat \<Rightarrow> u16 list \<Rightarrow> nat set \<Rightarrow> nat \<Rightarrow> bool" where
  "accounted b evs F m \<longleftrightarrow> (\<forall>i<m. i \<notin> F \<longrightarrow> evs ! i = 2 \<longrightarrow> i + b < length evs)"

definition motor_track ::
  "('w \<Rightarrow> motor_call list) \<Rightarrow> ('x, 'w) sch_motor_service \<Rightarrow> nat set \<Rightarrow>
   ('x, 'w) sch_motor_service \<Rightarrow> 'w \<Rightarrow> motor_interrupt list \<Rightarrow> bool" where
  "motor_track calls s0 F s w es \<longleftrightarrow> motor_inv s \<and> hal s = hal s0 \<and>
     ring_bound (ring (event_queue s)) = ring_bound (ring (event_queue s0)) \<and>
     max_events_per_run s = max_events_per_run s0 \<and>
     (let evs = motor_pending s0 @ map motor_event es in
      \<exists>m\<le>length evs. F \<subseteq> {..<m} \<and> motor_pending s = drop m evs \<and>
        (motor_off calls s w \<or> accounted (ring_bound (ring (event_queue s0))) evs F m))"

lemma motor_trackI:
  "motor_inv s \<Longrightarrow> hal s = hal s0 \<Longrightarrow> ring_bound (ring (event_queue s)) = ring_bound (ring (event_queue s0)) \<Longrightarrow>
   max_events_per_run s = max_events_per_run s0 \<Longrightarrow> evs = motor_pending s0 @ map motor_event es \<Longrightarrow>
   m \<le> length evs \<Longrightarrow> F \<subseteq> {..<m} \<Longrightarrow> motor_pending s = drop m evs \<Longrightarrow>
   motor_off calls s w \<or> accounted (ring_bound (ring (event_queue s0))) evs F m \<Longrightarrow>
   motor_track calls s0 F s w es"
  unfolding motor_track_def Let_def by blast

lemma accounted_push:
  assumes "accounted b evs F m" and "m \<le> length evs" and "length (drop m evs) \<le> b" and "0 < b"
  shows "\<exists>m'\<ge>m. m' \<le> Suc (length evs) \<and> bounded_push b False (drop m evs) x = drop m' (evs @ [x]) \<and>
    accounted b (evs @ [x]) F m'"
proof (cases "length (drop m evs) < b")
  case True
  have "accounted b (evs @ [x]) F m"
    using assms(1,2) by (auto simp: accounted_def nth_append)
  then show ?thesis using True assms(2) by (intro exI [of _ m]) (simp add: bounded_push_def)
next
  case False
  then have m: "m + b = length evs" using assms(2,3) by simp
  have "accounted b (evs @ [x]) F (Suc m)"
    using assms(1) m \<open>0 < b\<close> by (auto simp: accounted_def nth_append less_Suc_eq)
  then show ?thesis
    using False m \<open>0 < b\<close> by (intro exI [of _ "Suc m"]) (simp add: bounded_push_def drop_Suc tl_drop)
qed

lemma motor_track_stable:
  assumes "observes_motor calls p (hal s0)" and "silent_isr calls (hal s0)"
  shows "stable (motor_isr_at p) calls (motor_track calls s0 F)"
proof (rule stableI)
  fix s w es e
  let ?b = "ring_bound (ring (event_queue s0))" and ?evs = "motor_pending s0 @ map motor_event es"
  assume tr: "motor_track calls s0 F s w es"
  then have inv: "motor_inv s" "hal s = hal s0" "ring_bound (ring (event_queue s)) = ?b"
    "max_events_per_run s = max_events_per_run s0" by (simp_all add: motor_track_def)
  from tr obtain m where m: "m \<le> length ?evs" "F \<subseteq> {..<m}" "motor_pending s = drop m ?evs"
    "motor_off calls s w \<or> accounted ?b ?evs F m" unfolding motor_track_def Let_def by blast
  obtain s' w' where s': "motor_isr_at p e s w = Some (s', w')" "motor_inv s'"
    "motor_pending s' = bounded_push ?b False (motor_pending s) (motor_event e)" "enabled s' = enabled s"
    "hal s' = hal s" "ring_bound (ring (event_queue s')) = ?b" "max_events_per_run s' = max_events_per_run s"
    using motor_isr_step [OF inv(1), of p e w] inv(3) by auto
  have "\<forall>w. calls (crit p w) = calls w" using assms(1) by (simp add: observes_motor_def)
  with silent_isr_calls [OF _ inv(1) _ s'(1)] assms(2) inv(2) have calls: "calls w' = calls w" by simp
  have "event_inv (event_queue s)" using inv(1) by (simp add: motor_inv_def)
  then have len: "length (drop m ?evs) \<le> ?b" "0 < ?b"
    using events.items_bound events.bound_pos inv(3) m(3) by (metis motor_pending_def)+
  have "\<exists>m'\<le>length (?evs @ [motor_event e]). F \<subseteq> {..<m'} \<and> motor_pending s' = drop m' (?evs @ [motor_event e]) \<and>
      (motor_off calls s' w' \<or> accounted ?b (?evs @ [motor_event e]) F m')"
  proof (cases "accounted ?b ?evs F m")
    case True
    from accounted_push [OF this m(1) len, of "motor_event e"] obtain m' where
      "m \<le> m'" "m' \<le> Suc (length ?evs)" "bounded_push ?b False (drop m ?evs) (motor_event e) = drop m' (?evs @ [motor_event e])"
      "accounted ?b (?evs @ [motor_event e]) F m'" by blast
    then show ?thesis using m(2) s'(3) m(3) by (intro exI [of _ m']) (auto simp del: append_assoc)
  next
    case False
    then have off: "motor_off calls s' w'" using m(4) s'(4) calls by (simp add: motor_off_def)
    obtain m' where "m \<le> m'" "m' \<le> Suc (length ?evs)"
      "bounded_push ?b False (drop m ?evs) (motor_event e) = drop m' (?evs @ [motor_event e])"
      using accounted_push [of ?b ?evs "{..<m}" m, OF _ m(1) len, of "motor_event e"] by (auto simp: accounted_def)
    then show ?thesis using m(2) s'(3) m(3) off by (intro exI [of _ m']) (auto simp del: append_assoc)
  qed
  then show "\<exists>s' w'. motor_isr_at p e s w = Some (s', w') \<and> motor_track calls s0 F s' w' (es @ [e])"
    using s' inv by (auto simp: motor_track_def Let_def)
qed (simp add: motor_track_def motor_off_def)

text \<open>A step of the run that leaves the events alone and does not switch an idle motor on.\<close>

lemma motor_track_keep:
  assumes "motor_track calls s0 F s w es" and "motor_inv s'" and "hal s' = hal s"
    and "ring_bound (ring (event_queue s')) = ring_bound (ring (event_queue s))"
    and "max_events_per_run s' = max_events_per_run s" and "motor_pending s' = motor_pending s"
    and "motor_off calls s w \<Longrightarrow> motor_off calls s' w'"
  shows "motor_track calls s0 F s' w' es"
  using assms by (auto simp: motor_track_def Let_def)

lemma motor_track_pop:
  assumes "motor_track calls s0 {} s w es" and "\<forall>w. calls (crit p w) = calls w"
  shows "\<exists>ok y s' w'. field_pop event_queue (\<lambda>q s. s\<lparr>event_queue := q\<rparr>) (event_pop p) s x w = Some (ok, y, s', w') \<and>
    (if ok then (\<exists>j<length (motor_pending s0 @ map motor_event es). (motor_pending s0 @ map motor_event es) ! j = y \<and>
        motor_track calls s0 {j} s' w' es) \<and> motor_pending s = y # motor_pending s'
     else motor_track calls s0 {} s' w' es \<and> motor_pending s' = [])"
proof -
  let ?b = "ring_bound (ring (event_queue s0))" and ?evs = "motor_pending s0 @ map motor_event es"
  have inv: "motor_inv s" using assms(1) by (simp add: motor_track_def)
  then have q: "event_inv (event_queue s)" by (simp add: motor_inv_def)
  from assms(1) obtain m where m: "m \<le> length ?evs" "motor_pending s = drop m ?evs"
    "motor_off calls s w \<or> accounted ?b ?evs {} m" by (auto simp: motor_track_def Let_def)
  show ?thesis
  proof (cases "motor_pending s")
    case Nil
    then have "field_pop event_queue (\<lambda>q s. s\<lparr>event_queue := q\<rparr>) (event_pop p) s x w = Some (False, x, s, crit p w)"
      using events.pop_eq [OF q, of p x w] by (simp add: field_pop_def motor_pending_def)
    moreover have "motor_track calls s0 {} s (crit p w) es"
      by (rule motor_track_keep [OF assms(1) inv]) (simp_all add: motor_off_def assms(2))
    ultimately show ?thesis using Nil by auto
  next
    case (Cons y ys)
    let ?s = "s\<lparr>event_queue := event_deq (event_queue s)\<rparr>"
    have pop: "field_pop event_queue (\<lambda>q s. s\<lparr>event_queue := q\<rparr>) (event_pop p) s x w = Some (True, y, ?s, crit p w)"
      using events.pop_eq [OF q, of p x w] Cons by (simp add: field_pop_def motor_pending_def)
    have "motor_inv ?s" using inv events.deq_simps [OF q] by (simp add: motor_inv_def)
    moreover have left: "motor_pending ?s = tl (motor_pending s)" using events.deq_simps [OF q] by (simp add: motor_pending_def)
    moreover have lt: "m < length ?evs" using m(1,2) Cons by (metis drop_all leI list.distinct(1))
    moreover have "y = ?evs ! m" using m(2) Cons lt by (metis Cons_nth_drop_Suc list.inject)
    moreover have "accounted ?b ?evs {} m \<Longrightarrow> accounted ?b ?evs {m} (Suc m)" by (auto simp: accounted_def less_Suc_eq)
    moreover have "motor_off calls s w \<Longrightarrow> motor_off calls ?s (crit p w)" by (simp add: motor_off_def assms(2))
    moreover have "tl (drop m ?evs) = drop (Suc m) ?evs" by (simp only: drop_Suc tl_drop)
    moreover have "hal s = hal s0" "ring_bound (ring (event_queue s)) = ?b" "max_events_per_run s = max_events_per_run s0"
      using assms(1) by (simp_all add: motor_track_def)
    ultimately have "motor_track calls s0 {m} ?s (crit p w) es"
      using m(2,3) events.deq_simps [OF q]
      by (intro motor_trackI [where evs = ?evs and m = "Suc m"]) (auto simp del: drop_append)
    then show ?thesis using pop lt \<open>y = ?evs ! m\<close> left Cons by auto
  qed
qed

lemma motor_track_handled:
  assumes "motor_track calls s0 {j} s w es" and "(motor_pending s0 @ map motor_event es) ! j = x"
    and "observes_motor calls p (hal s0)"
  shows "\<exists>s' w'. motor_event_body x s w = Some (True, s', w') \<and> motor_track calls s0 {} s' w' es \<and>
    motor_pending s' = motor_pending s"
proof -
  have inv: "motor_inv s" "hal s = hal s0" using assms(1) by (simp_all add: motor_track_def)
  then obtain f where f: "set_enable (hal s) = Some f" by (auto simp: motor_inv_def is_null_iff)
  show ?thesis
  proof (cases "x = 2")
    case True
    let ?w = "snd (f (hal_ctx (hal s)) False w)"
    have "calls ?w = calls w @ [SET_ENABLE False]"
      using assms(3) f inv(2) by (simp add: observes_motor_def)
    then have "motor_off calls (s\<lparr>enabled := False\<rparr>) ?w" by (simp add: motor_off_def)
    then have "motor_track calls s0 {} (s\<lparr>enabled := False\<rparr>) ?w es"
      using assms(1) by (auto simp: motor_track_def Let_def motor_inv_def motor_pending_def)
    then show ?thesis using True f by (auto simp: motor_event_body_def motor_pending_def split_beta)
  next
    case False
    then have "motor_track calls s0 {} s w es"
      using assms(1,2) by (fastforce simp: motor_track_def Let_def accounted_def)
    then show ?thesis using False by (auto simp: motor_event_body_def)
  qed
qed

section \<open>The run makes progress\<close>

text \<open>Of the first \<open>i\<close> events that entered the queue, all but the last \<open>n\<close> have left it.\<close>

definition motor_past ::
  "('w \<Rightarrow> motor_call list) \<Rightarrow> ('x, 'w) sch_motor_service \<Rightarrow> nat \<Rightarrow> nat \<Rightarrow> nat set \<Rightarrow>
   ('x, 'w) sch_motor_service \<Rightarrow> 'w \<Rightarrow> motor_interrupt list \<Rightarrow> bool" where
  "motor_past calls s0 i n F s w es \<longleftrightarrow> motor_track calls s0 F s w es \<and>
     i \<le> length (motor_pending s0) + length es \<and>
     i + length (motor_pending s) \<le> length (motor_pending s0) + length es + n"

lemma motor_past_mono: "motor_past calls s0 i n F s w es \<Longrightarrow> n \<le> n' \<Longrightarrow> motor_past calls s0 i n' F s w es"
  by (simp add: motor_past_def)

lemma motor_past_length: "motor_track calls s0 F s w es \<Longrightarrow> length (motor_pending s) \<le> length (motor_pending s0) + length es"
  by (auto simp: motor_track_def Let_def)

lemma motor_past_0: "motor_past calls s0 0 n F s w es \<longleftrightarrow> motor_track calls s0 F s w es"
  by (auto simp: motor_past_def trans_le_add1 [OF motor_past_length])

text \<open>The queue holds no more than its bound, so that many of the events may be left.\<close>

lemma motor_past_start:
  assumes "motor_track calls s0 F s w es" and "i \<le> length (motor_pending s0) + length es"
  shows "motor_past calls s0 i (ring_bound (ring (event_queue s0))) F s w es"
proof -
  from assms(1) have "event_inv (event_queue s)" "ring_bound (ring (event_queue s)) = ring_bound (ring (event_queue s0))"
    by (simp_all add: motor_track_def motor_inv_def)
  then have "length (motor_pending s) \<le> ring_bound (ring (event_queue s0))"
    using events.items_bound unfolding motor_pending_def by metis
  then show ?thesis using assms by (simp add: motor_past_def)
qed

lemma motor_past_stable:
  assumes "observes_motor calls p (hal s0)" and "silent_isr calls (hal s0)"
  shows "stable (motor_isr_at p) calls (motor_past calls s0 i n F)"
proof (rule stableI)
  fix s w es e
  assume J: "motor_past calls s0 i n F s w es"
  then have tr: "motor_track calls s0 F s w es" and inv: "motor_inv s" by (simp_all add: motor_past_def motor_track_def)
  obtain s' w' where
    s': "motor_isr_at p e s w = Some (s', w')" "motor_track calls s0 F s' w' (es @ [e])"
    using stable_isr [OF motor_track_stable [OF assms] tr, of e] by blast
  from motor_isr_step [OF inv, of p e w] s'(1) have
    "motor_pending s' = bounded_push (ring_bound (ring (event_queue s))) False (motor_pending s) (motor_event e)" by auto
  then have "length (motor_pending s') \<le> Suc (length (motor_pending s))" by (simp add: bounded_push_def)
  then show "\<exists>s' w'. motor_isr_at p e s w = Some (s', w') \<and> motor_past calls s0 i n F s' w' (es @ [e])"
    using s' J by (auto simp: motor_past_def)
qed (simp add: motor_past_def motor_track_def motor_off_def)

lemma motor_past_keep:
  assumes "motor_past calls s0 i n F s w es" and "motor_inv s'" and "hal s' = hal s"
    and "ring_bound (ring (event_queue s')) = ring_bound (ring (event_queue s))"
    and "max_events_per_run s' = max_events_per_run s" and "motor_pending s' = motor_pending s"
    and "motor_off calls s w \<Longrightarrow> motor_off calls s' w'"
  shows "motor_past calls s0 i n F s' w' es"
  using assms(1,6) by (auto simp: motor_past_def intro: motor_track_keep [OF _ assms(2-7)])

lemma motor_past_inv: "motor_past calls s0 i n F s w es \<Longrightarrow> motor_inv s"
  by (simp add: motor_past_def motor_track_def)

section \<open>The run keeps the account\<close>

text \<open>A run takes as many of the events that were queued when it began as its budget allows.\<close>

lemma feedback_withstands:
  assumes "observes_motor calls p (hal s0)" and "silent_isr calls (hal s0)" and "motor_past calls s0 i n {} s w es"
  shows "withstands (motor_isr_at p) calls (motor_past calls s0 i n {}) (motor_feedback_prog p) s w es"
  unfolding motor_feedback_prog_def
proof (rule withstands_step [OF motor_past_stable [OF assms(1,2)] assms(3)], simp)
  fix s w es
  let ?J = "motor_past calls s0 i n {}"
  assume J: "?J s w es"
  note st = motor_past_stable [OF assms(1,2), of i n "{}"]
  have crit: "calls (crit p v) = calls v" for v using assms(1) by (simp add: observes_motor_def)
  show "withstands (motor_isr_at p) calls ?J (drain_prog (unat (max_feedback_items_per_run s))
      (field_pop feedback_ring (\<lambda>r s. s\<lparr>feedback_ring := r\<rparr>) (ring_pop feedback_bytes feedback_of_bytes p))
      (\<lambda>feedback s w. Some (True, s, w)) Stop \<lparr>speed_rpm = 0, current_ma = 0\<rparr>) s w es"
  proof (rule withstands_drain [where I = ?J and H = "\<lambda>x. ?J", OF st st _ _ _ J])
    fix s w es x
    assume J: "?J s w es"
    then have inv: "motor_inv s" by (rule motor_past_inv)
    then have r: "typed_inv sizeof_feedback (feedback_ring s)" by (simp add: motor_inv_def)
    show "\<exists>ok y s' w'. field_pop feedback_ring (\<lambda>r s. s\<lparr>feedback_ring := r\<rparr>) (ring_pop feedback_bytes feedback_of_bytes p) s x w =
        Some (ok, y, s', w') \<and> (if ok then ?J s' w' es else ?J s' w' es)"
    proof (cases "motor_held s")
      case Nil
      have "?J s (crit p w) es" by (rule motor_past_keep [OF J inv]) (simp_all add: motor_off_def crit)
      then show ?thesis
        using Nil feedback_objects.queue.pop_eq [OF r, of p x w] by (auto simp: field_pop_def motor_held_def)
    next
      case (Cons y ys)
      let ?s = "s\<lparr>feedback_ring := ring_deq (feedback_ring s)\<rparr>"
      have "motor_inv ?s" using inv feedback_objects.queue.deq_simps [OF r] by (simp add: motor_inv_def)
      then have "?J ?s (crit p w) es"
        by (rule motor_past_keep [OF J]) (simp_all add: motor_off_def crit motor_pending_def)
      then show ?thesis
        using Cons feedback_objects.queue.pop_eq [OF r, of p x w] by (auto simp: field_pop_def motor_held_def)
    qed
  qed (auto intro: withstands.stop)
qed

lemma events_withstand:
  assumes "observes_motor calls p (hal s0)" and "silent_isr calls (hal s0)"
    and "motor_past calls s0 i (n + unat (max_events_per_run s0)) {} s w es"
  shows "withstands (motor_isr_at p) calls (motor_past calls s0 i n {}) (motor_event_prog p) s w es"
  unfolding motor_event_prog_def
proof (rule withstands_step [OF motor_past_stable [OF assms(1,2)] assms(3)], simp)
  fix s w es
  let ?I = "\<lambda>k. motor_past calls s0 i (n + k) {}"
  let ?H = "\<lambda>k x s w es. \<exists>j<length (motor_pending s0 @ map motor_event es).
    (motor_pending s0 @ map motor_event es) ! j = x \<and> motor_past calls s0 i (n + k) {j} s w es"
  assume I: "?I (unat (max_events_per_run s0)) s w es"
  then have budget: "max_events_per_run s = max_events_per_run s0" by (simp add: motor_past_def motor_track_def)
  note st = motor_past_stable [OF assms(1,2)]
  have crit: "\<forall>v. calls (crit p v) = calls v" using assms(1) by (simp add: observes_motor_def)
  have H: "stable (motor_isr_at p) calls (?H k x)" for k x
  proof (rule stableI)
    fix s w es e
    assume "?H k x s w es"
    then obtain j where j: "j < length (motor_pending s0 @ map motor_event es)"
      "(motor_pending s0 @ map motor_event es) ! j = x" "motor_past calls s0 i (n + k) {j} s w es" by blast
    obtain s' w' where
      "motor_isr_at p e s w = Some (s', w')" "motor_past calls s0 i (n + k) {j} s' w' (es @ [e])"
      using stable_isr [OF st j(3), of e] by blast
    moreover have "((motor_pending s0 @ map motor_event es) @ [motor_event e]) ! j = x"
      using j(1,2) by (simp only: nth_append if_True)
    then have "(motor_pending s0 @ map motor_event (es @ [e])) ! j = x" by simp
    ultimately show "\<exists>s' w'. motor_isr_at p e s w = Some (s', w') \<and> ?H k x s' w' (es @ [e])"
      using j(1) by (intro exI [of _ s'] exI [of _ w'] conjI exI [of _ j]) simp_all
  qed (auto dest: stable_log [OF st])
  have "withstands (motor_isr_at p) calls (?I 0) (drain_prog (unat (max_events_per_run s))
      (field_pop event_queue (\<lambda>q s. s\<lparr>event_queue := q\<rparr>) (event_pop p))
      motor_event_body (motor_feedback_prog p) 0) s w es"
  proof (rule withstands_drain_counted [where I = ?I and H = ?H and K = "?I 0", OF st H _ _ _ _ I [folded budget]])
    fix k s w es x
    assume I: "?I (Suc k) s w es"
    then have "motor_track calls s0 {} s w es" by (simp add: motor_past_def)
    from motor_track_pop [OF this crit, of x] obtain ok y s' w' where
      pop: "field_pop event_queue (\<lambda>q s. s\<lparr>event_queue := q\<rparr>) (event_pop p) s x w = Some (ok, y, s', w')"
      "if ok then (\<exists>j<length (motor_pending s0 @ map motor_event es). (motor_pending s0 @ map motor_event es) ! j = y \<and>
          motor_track calls s0 {j} s' w' es) \<and> motor_pending s = y # motor_pending s'
       else motor_track calls s0 {} s' w' es \<and> motor_pending s' = []" by blast
    have "if ok then ?H k y s' w' es else ?I 0 s' w' es"
      using pop(2) I by (cases ok) (fastforce simp: motor_past_def)+
    with pop(1) show "\<exists>ok y s' w'. field_pop event_queue (\<lambda>q s. s\<lparr>event_queue := q\<rparr>) (event_pop p) s x w =
        Some (ok, y, s', w') \<and> (if ok then ?H k y s' w' es else ?I 0 s' w' es)" by blast
  next
    fix k s w es x
    assume "?H k x s w es"
    then obtain j where j: "(motor_pending s0 @ map motor_event es) ! j = x" "motor_past calls s0 i (n + k) {j} s w es" by blast
    then have "motor_track calls s0 {j} s w es" by (simp add: motor_past_def)
    from motor_track_handled [OF this j(1) assms(1)] obtain s' w' where
      "motor_event_body x s w = Some (True, s', w')" "motor_track calls s0 {} s' w' es" "motor_pending s' = motor_pending s" by blast
    then show "\<exists>continue s' w'. motor_event_body x s w = Some (continue, s', w') \<and>
        (if continue then ?I k s' w' es else ?I 0 s' w' es)" using j(2) by (auto simp: motor_past_def)
  qed (simp_all add: feedback_withstands [OF assms(1,2)])
  then show "withstands (motor_isr_at p) calls (motor_past calls s0 i n {}) (drain_prog (unat (max_events_per_run s))
      (field_pop event_queue (\<lambda>q s. s\<lparr>event_queue := q\<rparr>) (event_pop p))
      motor_event_body (motor_feedback_prog p) 0) s w es" by simp
qed

lemma apply_withstands:
  assumes "observes_motor calls p (hal s0)" and "silent_isr calls (hal s0)"
    and "motor_past calls s0 i (n + unat (max_events_per_run s0)) {} s w es"
  shows "withstands (motor_isr_at p) calls (motor_past calls s0 i n {}) (motor_apply_prog p) s w es"
  unfolding motor_apply_prog_def
proof (rule withstands_step [OF motor_past_stable [OF assms(1,2)] assms(3)])
  fix s w es
  let ?J = "motor_past calls s0 i (n + unat (max_events_per_run s0)) {}" and ?Q = "motor_past calls s0 i n {}"
  assume J: "?J s w es"
  then have inv: "motor_inv s" "hal s = hal s0" by (simp_all add: motor_past_def motor_track_def)
  then obtain f where f: "set_enable (hal s) = Some f" by (auto simp: motor_inv_def is_null_iff)
  let ?w = "snd (f (hal_ctx (hal s)) (enabled s) w)"
  have "calls ?w = calls w @ [SET_ENABLE (enabled s)]" using assms(1) f inv(2) by (simp add: observes_motor_def)
  then have J1: "?J s ?w es" by (intro motor_past_keep [OF J inv(1)]) (simp_all add: motor_off_def)
  have "withstands (motor_isr_at p) calls ?Q (Step (\<lambda>s w. do {
      w \<leftarrow> (if enabled s then do {
          f \<leftarrow> set_target_speed_rpm (hal s);
          let (ok, w) = f (hal_ctx (hal s)) (target_speed_rpm s) w;
          Some w
        } else Some w);
      Some (motor_event_prog p, s, w) })) s ?w es"
  proof (rule withstands_step [OF motor_past_stable [OF assms(1,2)] J1])
    fix s w es
    assume J: "?J s w es"
    then have inv: "motor_inv s" by (rule motor_past_inv)
    then obtain f where f: "set_target_speed_rpm (hal s) = Some f" by (auto simp: motor_inv_def is_null_iff)
    have "enabled s \<Longrightarrow> ?J s (snd (f (hal_ctx (hal s)) (target_speed_rpm s) w)) es"
      by (rule motor_past_keep [OF J inv]) (simp_all add: motor_off_def)
    then show "\<exists>c s' w'. do {
        w \<leftarrow> (if enabled s then do {
            f \<leftarrow> set_target_speed_rpm (hal s);
            let (ok, w) = f (hal_ctx (hal s)) (target_speed_rpm s) w;
            Some w
          } else Some w);
        Some (motor_event_prog p, s, w) } = Some (c, s', w') \<and> withstands (motor_isr_at p) calls ?Q c s' w' es"
      using f J events_withstand [OF assms(1,2)] by (cases "enabled s") (simp_all add: split_beta)
  qed
  then show "\<exists>c s' w'. do {
      f \<leftarrow> set_enable (hal s);
      let (ok, w) = f (hal_ctx (hal s)) (enabled s) w;
      Some (Step (\<lambda>s w. do {
        w \<leftarrow> (if enabled s then do {
            f \<leftarrow> set_target_speed_rpm (hal s);
            let (ok, w) = f (hal_ctx (hal s)) (target_speed_rpm s) w;
            Some w
          } else Some w);
        Some (motor_event_prog p, s, w) }), s, w) } = Some (c, s', w') \<and> withstands (motor_isr_at p) calls ?Q c s' w' es"
    using f by (simp add: split_beta)
qed

lemma motor_withstands:
  assumes "observes_motor calls p (hal s0)" and "silent_isr calls (hal s0)"
    and "motor_past calls s0 i (n + unat (max_events_per_run s0)) {} s w es"
  shows "withstands (motor_isr_at p) calls (motor_past calls s0 i n {}) (motor_prog p) s w es"
proof -
  let ?J = "motor_past calls s0 i (n + unat (max_events_per_run s0)) {}" and ?Q = "motor_past calls s0 i n {}"
    and ?isr = "motor_isr_at p"
  note st = motor_past_stable [OF assms(1,2), of i _ "{}"] and run = apply_withstands [OF assms(1,2)]
  have crit: "calls (crit p v) = calls v" for v using assms(1) by (simp add: observes_motor_def)
  have J_crit: "?J s (crit p w) es" if "?J s w es" for s w es
    by (rule motor_past_keep [OF that]) (use motor_past_inv [OF that] in \<open>simp_all add: motor_off_def crit\<close>)
  have size: "withstands ?isr calls ?Q (Step (\<lambda>s w.
      let (n, w) = sch_event_queue_size p (Some (event_queue s)) w
      in Some (if n = 0 then Stop else motor_apply_prog p, s, w))) s w es" if "?J s w es" for s w es
  proof (rule withstands_ask_result [where P' = "\<lambda>n. if n = 0 then ?Q else ?J", OF st that])
    fix s w es
    assume J: "?J s w es"
    then have q: "event_inv (event_queue s)" using motor_past_inv [OF J] by (simp add: motor_inv_def)
    then have "fst (sch_event_queue_size p (Some (event_queue s)) w) = 0 \<longleftrightarrow> motor_pending s = []"
      by (simp add: event_size_refines event_items_empty_iff motor_pending_def)
    moreover have "?Q s (crit p w) es" if "motor_pending s = []" using J_crit [OF J] that by (simp add: motor_past_def)
    ultimately show "(if fst (sch_event_queue_size p (Some (event_queue s)) w) = 0 then ?Q else ?J) s
        (snd (sch_event_queue_size p (Some (event_queue s)) w)) es" using J_crit [OF J] q by (simp add: event_size_refines)
  qed (auto intro!: run withstands.stop split: if_splits)
  have empty: "withstands ?isr calls ?Q (Step (\<lambda>s w.
      let (no_feedback, w) = sch_spsc_ring_is_empty p (Some (feedback_ring s)) w
      in Some (if \<not> no_feedback then motor_apply_prog p
        else Step (\<lambda>s w.
          let (n, w) = sch_event_queue_size p (Some (event_queue s)) w
          in Some (if n = 0 then Stop else motor_apply_prog p, s, w)), s, w))) s w es" if "?J s w es" for s w es
  proof (rule withstands_ask [OF st that])
    fix s w es
    assume J: "?J s w es"
    then have "ring_inv (feedback_ring s)" using motor_past_inv [OF J] by (simp add: motor_inv_def typed_inv_def)
    then show "?J s (snd (sch_spsc_ring_is_empty p (Some (feedback_ring s)) w)) es"
      using J_crit [OF J] by (simp add: ring_is_empty_refines)
  qed (intro withstands_if run size; assumption)
  show ?thesis
    unfolding motor_prog_def
  proof (rule withstands_step [OF st assms(3)])
    fix s w es
    assume J: "?J s w es"
    let ?s = "s\<lparr>irq_hint := False\<rparr>"
    have hint: "motor_take_hint p s w = (irq_hint s, ?s, crit p w)"
      by (simp add: motor_take_hint_def crit_def split_beta Let_def)
    have "?J ?s (crit p w) es"
      by (rule motor_past_keep [OF J])
        (use motor_past_inv [OF J] in \<open>auto simp: motor_off_def crit motor_inv_def motor_pending_def\<close>)
    then show "\<exists>c s' w'. (let (had_irq_hint, s, w) = motor_take_hint p s w
        in Some (if had_irq_hint then motor_apply_prog p
          else Step (\<lambda>s w.
            let (no_feedback, w) = sch_spsc_ring_is_empty p (Some (feedback_ring s)) w
            in Some (if \<not> no_feedback then motor_apply_prog p
              else Step (\<lambda>s w.
                let (n, w) = sch_event_queue_size p (Some (event_queue s)) w
                in Some (if n = 0 then Stop else motor_apply_prog p, s, w)), s, w)), s, w)) = Some (c, s', w') \<and>
        withstands ?isr calls ?Q c s' w' es"
      unfolding hint using run empty by simp
  qed
qed

lemma motor_keeps_track:
  assumes "observes_motor calls p (hal s0)" and "silent_isr calls (hal s0)"
    and "motor_track calls s0 {} s w es"
  shows "withstands (motor_isr_at p) calls (motor_track calls s0 {}) (motor_prog p) s w es"
  using motor_withstands [OF assms(1,2), of 0 0 s w es] assms(3) by (simp add: motor_past_0 [abs_def])

section \<open>Properties\<close>

text \<open>What a last, undisturbed run makes of the account.\<close>

lemma nth_in_drop: "m \<le> k \<Longrightarrow> k < length xs \<Longrightarrow> xs ! k \<in> set (drop m xs)"
  by (auto simp: in_set_conv_nth intro!: exI [of _ "k - m"])

lemma motor_last_run:
  assumes "observes_motor calls p (hal s0)" and "motor_track calls s0 {} s w es"
    and "MOTOR_FAULT \<in> set (drop (length es - ring_bound (ring (event_queue s0))) es)"
    and "ring_bound (ring (event_queue s0)) \<le> unat (max_events_per_run s0)"
  shows "\<exists>s' w'. sch_motor_supervision_service_run p (Some s) w = Some (Some s', w') \<and> \<not> enabled s' \<and>
    calls w' \<noteq> [] \<and> last (calls w') = SET_ENABLE False"
proof -
  let ?b = "ring_bound (ring (event_queue s0))" and ?evs = "motor_pending s0 @ map motor_event es"
  have inv: "motor_inv s" "hal s = hal s0" "max_events_per_run s = max_events_per_run s0"
    "ring_bound (ring (event_queue s)) = ?b" using assms(2) by (simp_all add: motor_track_def)
  from assms(2) obtain m where m: "m \<le> length ?evs" "motor_pending s = drop m ?evs"
    "motor_off calls s w \<or> accounted ?b ?evs {} m" by (auto simp: motor_track_def Let_def)
  have obs: "observes_motor calls p (hal s)" using assms(1) inv(2) by simp
  obtain s' where s': "sch_motor_supervision_service_run p (Some s) w = Some (Some s', motor_world p s w)"
    "enabled s' \<longleftrightarrow> enabled s \<and> 2 \<notin> set (take (unat (max_events_per_run s)) (motor_pending s))"
    using motor_run_eq [OF inv(1), of p w] by blast
  note calls = motor_world_calls [OF obs, of w]
  show ?thesis
  proof (cases "motor_off calls s w")
    case True
    then show ?thesis
      using s' calls by (auto simp: motor_off_def motor_run_calls_def last_map intro!: exI [of _ s'])
  next
    case False
    from assms(3) obtain i where i: "i < length es" "length es - ?b \<le> i" "es ! i = MOTOR_FAULT"
      by (auto simp: in_set_conv_nth) (metis add.commute le_add2 less_diff_conv)
    let ?k = "length (motor_pending s0) + i"
    have "?evs ! ?k = 2" "?k < length ?evs" "\<not> ?k + ?b < length ?evs" using i by (simp_all add: nth_append)
    then have "m \<le> ?k" using m(3) False by (auto simp: accounted_def not_less)
    then have "2 \<in> set (motor_pending s)"
      using nth_in_drop [of m ?k ?evs] \<open>?evs ! ?k = 2\<close> \<open>?k < length ?evs\<close> unfolding m(2) by metis
    moreover have "event_inv (event_queue s)" using inv(1) by (simp add: motor_inv_def)
    then have "length (motor_pending s) \<le> unat (max_events_per_run s)"
      using events.items_bound [of "event_queue s"] inv(3,4) assms(4) by (simp add: motor_pending_def)
    ultimately have t: "2 \<in> set (take (unat (max_events_per_run s)) (motor_pending s))" by simp
    then have "filter ((=) 2) (take (unat (max_events_per_run s)) (motor_pending s)) \<noteq> []" "\<not> motor_idle s"
      by (auto simp: filter_empty_conv motor_idle_def)
    then have "calls (motor_world p s w) \<noteq> [] \<and> last (calls (motor_world p s w)) = SET_ENABLE False"
      using calls by (simp add: motor_run_calls_def last_map)
    then show ?thesis using s' t by blast
  qed
qed

text \<open>
  A fault stops the motor, wherever it arrives, if the budget of a run covers the event queue. Interrupts may arrive between any two critical
  sections or callbacks of any number of runs; no step of a run and no interrupt entry is ever
  undefined. When the interrupts stop, wherever that finds the run, and a fault is among the last
  interrupts, as many as the event queue holds, then after the rest of that run and one more run
  the motor is commanded off, and the last call made to it is "disable", whatever the command and
  whatever was pending before.
\<close>

lemma motor_fault_stops:
  assumes "motor_inv s0" and "observes_motor calls p (hal s0)" and "silent_isr calls (hal s0)"
    and "capacity (ring (event_queue s0)) \<le> max_events_per_run s0"
    and "interleaved (motor_isr_at p) (motor_prog p) (s0, w0) es (c, s, w)"
    and "MOTOR_FAULT \<in> set (drop (length es - unat (capacity (ring (event_queue s0)))) es)"
  shows "motor_isr_at p e s w \<noteq> None \<and> (case c of Stop \<Rightarrow> True | Step f \<Rightarrow> f s w \<noteq> None) \<and>
    (\<exists>s1 w1 s2 w2. finish c s w = Some (s1, w1) \<and>
      sch_motor_supervision_service_run p (Some s1) w1 = Some (Some s2, w2) \<and> \<not> enabled s2 \<and>
      calls w2 \<noteq> [] \<and> last (calls w2) = SET_ENABLE False)"
proof -
  let ?J = "motor_track calls s0 {}"
  note st = motor_track_stable [OF assms(2,3), of "{}"]
  have bound: "ring_bound (ring (event_queue s0)) \<le> unat (max_events_per_run s0)"
    using assms(4) by (simp add: ring_bound_def word_le_nat_alt)
  have "?J s0 w0 []"
    by (rule motor_trackI [where m = 0 and evs = "motor_pending s0 @ map motor_event []"])
      (use assms(1) in \<open>simp_all add: accounted_def\<close>)
  from interleaved_withstands [OF assms(5) this st motor_keeps_track [OF assms(2,3)]]
  have ws: "withstands (motor_isr_at p) calls ?J c s w es" .
  then obtain s1 w1 where s1: "finish c s w = Some (s1, w1)" "?J s1 w1 es"
    using withstands_finish [OF ws] by blast
  from motor_last_run [OF assms(2) s1(2) assms(6) [folded ring_bound_def] bound]
  have "\<exists>s2 w2. sch_motor_supervision_service_run p (Some s1) w1 = Some (Some s2, w2) \<and> \<not> enabled s2 \<and>
    calls w2 \<noteq> [] \<and> last (calls w2) = SET_ENABLE False" .
  moreover have "motor_isr_at p e s w \<noteq> None" by (rule withstands_isr [OF st ws])
  moreover have "case c of Stop \<Rightarrow> True | Step f \<Rightarrow> f s w \<noteq> None"
  proof (cases c)
    case (Step f)
    then show ?thesis using withstands_defined [OF ws [unfolded Step]] by simp
  qed simp
  ultimately show ?thesis using s1(1) by blast
qed

end
