(* ===== verification/Motor_Scheduled.thy ===== *)
theory Motor_Scheduled
  imports Board Motor_Preempted Together
begin

text \<open>
  The motor supervision as a task of the scheduler, with interrupts anywhere: how long a fault can
  leave the motor running.
\<close>

section \<open>The service under the scheduler\<close>

text \<open>Progress of the runs: each takes as many of the first \<open>i\<close> events as its budget allows.\<close>

definition motor_stage ::
  "('w \<Rightarrow> motor_call list) \<Rightarrow> ('x, 'w) sch_motor_service \<Rightarrow> nat \<Rightarrow> nat \<Rightarrow>
   ('x, 'w) sch_motor_service \<Rightarrow> 'w \<Rightarrow> motor_interrupt list \<Rightarrow> bool" where
  "motor_stage calls s0 i n = motor_past calls s0 i 
     (ring_bound (ring (event_queue s0)) - n * unat (max_events_per_run s0)) {}"

lemma motor_preempted_service:
  assumes "observes_motor calls p (hal s0)" and "silent_isr calls (hal s0)"
  shows "preempted_service (motor_isr_at p) (motor_prog p) calls (motor_track calls s0 {}) (motor_stage calls s0)"
proof
  fix s v es
  show "stable (motor_isr_at p) calls (motor_track calls s0 {})" by (rule motor_track_stable [OF assms(1,2)])
  show "stable (motor_isr_at p) calls (motor_stage calls s0 i n)" for i n
    unfolding motor_stage_def by (rule motor_past_stable [OF assms(1,2)])
  show "withstands (motor_isr_at p) calls (motor_track calls s0 {}) (motor_prog p) s v es" if "motor_track calls s0 {} s v es"
    by (rule motor_keeps_track [OF assms(1,2) that])
  show "withstands (motor_isr_at p) calls (motor_stage calls s0 i (Suc n)) (motor_prog p) s v es" if "motor_stage calls s0 i n s v es"
    for i n
    using that unfolding motor_stage_def by (intro motor_withstands [OF assms(1,2)]) (erule motor_past_mono, simp)
qed

lemma motor_preempted_app:
  assumes "leaves_log p env calls" and "observes_motor calls p (hal s0)" and "silent_isr calls (hal s0)"
  shows "preempted_app (motor_isr_at p) (motor_prog p) p env calls (motor_track calls s0 {}) (motor_stage calls s0)"
  by (intro preempted_app.intro preempted_app_axioms.intro motor_preempted_service [OF assms(2,3)] assms(1))

text \<open>An event among the first \<open>i\<close> that is a fault and still among the last has switched the motor off.\<close>

lemma motor_stage_off:
  assumes "motor_stage calls s0 k n s v es" and "ring_bound (ring (event_queue s0)) \<le> n * unat (max_events_per_run s0)"
    and "length (motor_pending s0) + i < k" and "i < length es" and "es ! i = MOTOR_FAULT"
    and "length es \<le> i + ring_bound (ring (event_queue s0))"
  shows "motor_off calls s v"
proof (rule ccontr)
  let ?b = "ring_bound (ring (event_queue s0))" and ?evs = "motor_pending s0 @ map motor_event es"
  let ?i = "length (motor_pending s0) + i"
  assume running: "\<not> motor_off calls s v"
  from assms(1,2) obtain m where m: "m \<le> length ?evs" "motor_pending s = drop m ?evs"
    "motor_off calls s v \<or> accounted ?b ?evs {} m" and past: "k + length (motor_pending s) \<le> length ?evs"
    by (auto simp: motor_stage_def motor_past_def motor_track_def Let_def)
  have "k \<le> m" using past m(1) unfolding m(2) by simp
  moreover have "?evs ! ?i = 2" using assms(4,5) by (simp add: nth_append)
  ultimately have "?i + ?b < length ?evs" using m(3) running assms(3) by (simp add: accounted_def)
  then show False using assms(6) by simp
qed

lemma motor_stage_end:
  assumes "motor_stage calls s0 (length (motor_pending s0) + length es1) n s v es"
    and "unat (capacity (ring (event_queue s0))) \<le> n * unat (max_events_per_run s0)" and "prefix es1 es"
    and "i < length es1" and "es1 ! i = MOTOR_FAULT" and "length es \<le> i + unat (capacity (ring (event_queue s0)))"
  shows "\<not> enabled s \<and> calls v \<noteq> [] \<and> last (calls v) = SET_ENABLE False"
proof -
  have "i < length es" "es ! i = MOTOR_FAULT" using assms(3-5) by (auto simp: prefix_def nth_append)
  from motor_stage_off [OF assms(1) assms(2) [folded ring_bound_def] _ this] have "motor_off calls s v"
    using assms(4,6) by (simp add: ring_bound_def)
  then show ?thesis by (simp add: motor_off_def)
qed

section \<open>What the motor supervision leaves alone\<close>

text \<open>A log that neither the critical sections nor the HAL of the motor write.\<close>

definition motor_leaves :: "('w \<Rightarrow> 'l) \<Rightarrow> 'w port \<Rightarrow> ('x, 'w) sch_motor_hal \<Rightarrow> bool" where
  "motor_leaves L p h \<longleftrightarrow> (\<forall>w. L (crit p w) = L w) \<and>
     (\<forall>f c w. ack_irq h = Some f \<longrightarrow> L (f c w) = L w) \<and>
     (\<forall>f c x w. read_feedback_sample h = Some f \<longrightarrow> L (snd (snd (f c x w))) = L w) \<and>
     (\<forall>f c on w. set_enable h = Some f \<longrightarrow> L (snd (f c on w)) = L w) \<and>
     (\<forall>f c rpm w. set_target_speed_rpm h = Some f \<longrightarrow> L (snd (f c rpm w)) = L w)"

lemma motor_apart:
  assumes "motor_leaves L p h"
  shows "apart (\<lambda>s. motor_inv s \<and> hal s = h) L (motor_isr_at p) [f \<mapsto> motor_prog p]"
proof -
  let ?K = "\<lambda>s. motor_inv s \<and> hal s = h"
  have crit: "L (crit p w) = L w" "L (sch_port_exit_critical p (fst (sch_port_enter_critical p w)) (snd (sch_port_enter_critical p w))) = L w"
    for w using assms by (simp_all add: motor_leaves_def crit_def split_beta)
  have rings: "typed_inv sizeof_feedback (feedback_ring s)" "event_inv (event_queue s)" if "?K s" for s
    using that by (simp_all add: motor_inv_def)
  have pop_feedback: "?K s' \<and> L w' = L w"
    if "?K s" "field_pop feedback_ring (\<lambda>r s. s\<lparr>feedback_ring := r\<rparr>) (ring_pop feedback_bytes feedback_of_bytes p) s x w =
      Some (ok, y, s', w')" for s x w ok y s' w'
    using that feedback_objects.queue.pop_eq [OF rings(1) [OF that(1)], of p x w]
      feedback_objects.queue.deq_simps [OF rings(1) [OF that(1)]]
    by (auto simp: field_pop_def motor_inv_def crit split: if_splits)
  have pop_event: "?K s' \<and> L w' = L w"
    if "?K s" "field_pop event_queue (\<lambda>q s. s\<lparr>event_queue := q\<rparr>) (event_pop p) s x w = Some (ok, y, s', w')" for s x w ok y s' w'
    using that events.pop_eq [OF rings(2) [OF that(1)], of p x w] events.deq_simps [OF rings(2) [OF that(1)]]
    by (auto simp: field_pop_def motor_inv_def crit split: if_splits)
  have body: "?K s' \<and> L w' = L w" if "?K s" "motor_event_body x s w = Some (c, s', w')" for x s w c s' w'
    using that assms
    by (auto simp: motor_event_body_def motor_inv_def motor_leaves_def Let_def split_beta bind_eq_Some_conv split: if_splits)
  have loop: "keeps ?K L (drain_prog n (field_pop feedback_ring (\<lambda>r s. s\<lparr>feedback_ring := r\<rparr>)
      (ring_pop feedback_bytes feedback_of_bytes p)) (\<lambda>feedback s w. Some (True, s, w)) Stop x)" for n x
    by (rule keeps_drain [OF pop_feedback _ keeps.stop]) auto
  have feedback: "keeps ?K L (motor_feedback_prog p)"
    unfolding motor_feedback_prog_def by (rule keeps_goto [OF loop])
  have loop: "keeps ?K L (drain_prog n (field_pop event_queue (\<lambda>q s. s\<lparr>event_queue := q\<rparr>) (event_pop p))
      motor_event_body (motor_feedback_prog p) x)" for n x
    by (rule keeps_drain [OF pop_event body feedback])
  have events: "keeps ?K L (motor_event_prog p)"
    unfolding motor_event_prog_def by (rule keeps_goto [OF loop])
  have applies: "keeps ?K L (motor_apply_prog p)"
    unfolding motor_apply_prog_def
    by (rule keeps.step) (use assms events in \<open>auto simp: motor_leaves_def Let_def split_beta bind_eq_Some_conv intro!: keeps.step split: if_splits\<close>)
  have ask: "L (snd (sch_spsc_ring_is_empty p (Some (feedback_ring s)) w)) = L w"
    "L (snd (sch_event_queue_size p (Some (event_queue s)) w)) = L w" if "?K s" for s w
    using rings [OF that] ring_is_empty_refines [of "feedback_ring s" p w] event_size_refines [of "event_queue s" p w]
    by (simp_all add: typed_inv_def crit)
  have asks: "keeps ?K L (Step (\<lambda>s w. let (no_feedback, w) = sch_spsc_ring_is_empty p (Some (feedback_ring s)) w
      in Some (if \<not> no_feedback then motor_apply_prog p
        else Step (\<lambda>s w. let (n, w) = sch_event_queue_size p (Some (event_queue s)) w
          in Some (if n = 0 then Stop else motor_apply_prog p, s, w)), s, w)))"
    by (intro keeps_ask keeps_if ask applies keeps.stop)
  have run: "keeps ?K L (motor_prog p)"
    unfolding motor_prog_def
    by (intro keeps_take keeps_if applies asks) (auto simp: motor_take_hint_def Let_def split_beta crit motor_inv_def)
  have entry: "isr_keeps ?K L (motor_isr_at p)"
    unfolding isr_keeps_def
  proof (intro allI impI)
    fix e s w s' w'
    assume K: "?K s" and isr: "motor_isr_at p e s w = Some (s', w')"
    have ack: "L (motor_ack s v) = L v" for v
      using assms K by (simp add: motor_ack_def motor_leaves_def split: option.split)
    have sample: "L (snd (snd (motor_sample s v))) = L v" for v
      using assms K by (simp add: motor_sample_def motor_leaves_def Let_def split: option.split)
    have "L w' = L w"
      using K isr ack sample [of "motor_ack s w"]
      by (cases e) (auto simp: motor_isr_feedback_eq motor_isr_fault_eq split_beta crit split: if_splits)
    then show "?K s' \<and> L w' = L w" using motor_isr_step [of s p e w] K isr by auto
  qed
  show ?thesis using run entry by (simp add: apart_def)
qed

section \<open>The board\<close>

definition motor_board_hal :: "(unit, motor_call board) sch_motor_hal" where
  "motor_board_hal = \<lparr>ack_irq = None, read_feedback_sample = None,
     set_enable = Some (\<lambda>c on b. (True, b\<lparr>board_log := board_log b @ [SET_ENABLE on]\<rparr>)),
     set_target_speed_rpm = Some (\<lambda>c rpm b. (True, b\<lparr>board_log := board_log b @ [SET_TARGET rpm]\<rparr>)), hal_ctx = None\<rparr>"

definition motor_board_service :: "(unit, motor_call board) sch_motor_service" where
  "motor_board_service = \<lparr>hal = motor_board_hal, feedback_ring = motor_sample_ring 4,
     event_queue = \<lparr>ring = motor_sample_ring 2\<rparr>, target_speed_rpm = 1500, enabled = True, irq_hint = False,
     max_feedback_items_per_run = 2, max_events_per_run = 3\<rparr>"

lemma motor_board_ok:
  "observes_motor board_log board_port (hal motor_board_service)" "silent_isr board_log (hal motor_board_service)"
  "motor_inv motor_board_service" "capacity (ring (event_queue motor_board_service)) = 3"
  "max_events_per_run motor_board_service = 3" "motor_pending motor_board_service = []"
  by (simp_all add: motor_board_service_def motor_inv_def motor_pending_def observes_motor_def silent_isr_def
      typed_inv_def event_inv_def event_items_def motor_sample_ring_def ring_inv_iff sizeof_u16_def sizeof_feedback_def
      ring_newest_def motor_board_hal_def)

interpretation motor_board: preempted_app "motor_isr_at board_port" "motor_prog board_port" board_port board_env board_log
  "motor_track board_log motor_board_service {}" "motor_stage board_log motor_board_service"
  by (rule motor_preempted_app [OF board_leaves motor_board_ok(1,2)])

section \<open>Properties\<close>

text \<open>
  C23. A fault stops the motor in time. The run function of the motor supervision is registered as
  a task, beside any tasks that leave the motor alone; interrupts arrive wherever they are enabled,
  between critical sections of the scheduler, before any step of a run of the service, and between
  polls. No poll and no interrupt entry is ever undefined, and the interrupts arrive as supplied.
  A fault that arrived in the first stretch of polls and is still among the last events, as many as
  the queue holds, has stopped the motor by the end of the second stretch, if the release grid of
  the task has enough points in it: so many that as many runs, each with its budget of
  \<^verbatim>\<open>max_events_per_run\<close> events, could take all the queue can hold. One point is enough only when
  the budget covers the capacity of the queue; the initialisation accepts smaller budgets, and then
  a fault can wait behind feedback events for several points. Stopped means that the motor is
  commanded off and that the last call to it is "disable".
\<close>

theorem motor_off_in_time:
  assumes "motor_inv s0" and "observes_motor calls p (hal s0)" and "silent_isr calls (hal s0)"
    and "leaves_log p env calls"
    and "sch_wf sc" and "sch_quiet sc" and "j < SCH_MAX_TASKS" and "fn (tasks sc ! j) = Some Service_Task"
    and "tracks R period T0 lo (tasks sc ! j)" and "0 < period" and "period \<le> 2 ^ 31"
    and "\<forall>h\<in>set (hs1 @ hs2). \<forall>v. calls (h v) = calls v"
  shows "\<exists>polls1 sc1 w1 polls2 sc2 w2.
    run_seq cfg (interrupted (motor_isr_at p) p) (interrupted_app (motor_isr_at p) (motor_prog p) env)
      (map (elapse (motor_isr_at p)) hs1) (Some sc) (system_start s0 v0 batches) = Some (polls1, Some sc1, w1) \<and>
    run_seq cfg (interrupted (motor_isr_at p) p) (interrupted_app (motor_isr_at p) (motor_prog p) env)
      (map (elapse (motor_isr_at p)) hs2) (Some sc1) w1 = Some (polls2, Some sc2, w2) \<and>
    \<not> broken w2 \<and> prefix (arrived w1) (arrived w2) \<and> arrived w2 @ concat (coming w2) = concat batches \<and>
    (\<forall>Ts i. map fst (polls1 @ polls2) = map of_nat Ts \<and> polls_close T0 Ts \<and>
        unat (capacity (ring (event_queue s0))) \<le>
          releases_after (length hs1) R period lo Ts * unat (max_events_per_run s0) \<and>
        i < length (arrived w1) \<and> arrived w1 ! i = MOTOR_FAULT \<and>
        length (arrived w2) \<le> i + unat (capacity (ring (event_queue s0))) \<longrightarrow>
      \<not> enabled (service w2) \<and> calls (platform w2) \<noteq> [] \<and> last (calls (platform w2)) = SET_ENABLE False)"
proof -
  let ?w = "system_start s0 v0 batches"
  have start: "motor_track calls s0 {} s0 v0 []"
    by (rule motor_trackI [where m = 0 and evs = "motor_pending s0 @ map motor_event []"])
      (use assms(1) in \<open>simp_all add: accounted_def\<close>)
  note app = motor_preempted_app [OF assms(4,2,3)]
  from start have "holds (motor_track calls s0 {}) ?w" by simp
  from preempted_app.polls_advance_after [OF app assms(5,6) this assms(12,7-11), of cfg]
  obtain polls1 sc1 w1 polls2 sc2 w2 n where
    r: "run_seq cfg (interrupted (motor_isr_at p) p) (interrupted_app (motor_isr_at p) (motor_prog p) env)
        (map (elapse (motor_isr_at p)) hs1) (Some sc) ?w = Some (polls1, Some sc1, w1)"
      "run_seq cfg (interrupted (motor_isr_at p) p) (interrupted_app (motor_isr_at p) (motor_prog p) env)
        (map (elapse (motor_isr_at p)) hs2) (Some sc1) w1 = Some (polls2, Some sc2, w2)"
    and J: "holds (motor_track calls s0 {}) w1" "holds (motor_track calls s0 {}) w2" "supplied ?w w1" "supplied w1 w2"
    and prog: "\<forall>k m. holds (motor_stage calls s0 k m) w1 \<longrightarrow> holds (motor_stage calls s0 k (m + n)) w2"
    and met: "\<forall>Ts. map fst (polls1 @ polls2) = map of_nat Ts \<longrightarrow> polls_close T0 Ts \<longrightarrow>
      releases_after (length hs1) R period lo Ts \<le> n" by blast
  let ?k = "length (motor_pending s0) + length (arrived w1)"
  from J(1) have "holds (motor_stage calls s0 ?k 0) w1" by (simp add: holds_def motor_stage_def motor_past_start)
  with prog have "holds (motor_stage calls s0 ?k n) w2" by (metis add_0)
  then have stage: "motor_stage calls s0 ?k n (service w2) (platform w2) (arrived w2)" by (simp add: holds_def)
  have "\<not> enabled (service w2) \<and> calls (platform w2) \<noteq> [] \<and> last (calls (platform w2)) = SET_ENABLE False"
    if "map fst (polls1 @ polls2) = map of_nat Ts" "polls_close T0 Ts"
      "unat (capacity (ring (event_queue s0))) \<le> releases_after (length hs1) R period lo Ts * unat (max_events_per_run s0)"
      "i < length (arrived w1)" "arrived w1 ! i = MOTOR_FAULT"
      "length (arrived w2) \<le> i + unat (capacity (ring (event_queue s0)))" for Ts i
  proof -
    have "unat (capacity (ring (event_queue s0))) \<le> n * unat (max_events_per_run s0)"
      using met that(1-3) by (meson le_trans mult_le_mono1)
    moreover have "prefix (arrived w1) (arrived w2)" using J(4) by (simp add: supplied_def)
    ultimately show ?thesis using motor_stage_end [OF stage] that(4-6) by blast
  qed
  moreover have "\<not> broken w2" using J(2) by (simp add: holds_def)
  moreover have "prefix (arrived w1) (arrived w2)" "arrived w2 @ concat (coming w2) = concat batches"
    using J(3,4) by (simp_all add: supplied_def system_start_def)
  ultimately show ?thesis using r by blast
qed

text \<open>The interrupts leave the clock of the board alone.\<close>

lemma motor_board_stable:
  "stable (motor_isr_at board_port) (\<lambda>v. v) (\<lambda>s v es. motor_track board_log motor_board_service {} s v es \<and> board_ticks v = t)"
proof (rule stableI)
  fix s es e and v :: "motor_call board"
  assume J: "motor_track board_log motor_board_service {} s v es \<and> board_ticks v = t"
  then obtain s' v' where s': "motor_isr_at board_port e s v = Some (s', v')"
    "motor_track board_log motor_board_service {} s' v' (es @ [e])"
    using stable_isr [OF motor_board.stable] by blast
  have "motor_inv s" "hal s = motor_board_hal" using J by (simp_all add: motor_track_def motor_board_service_def)
  then have "v' = v"
    using s'(1) by (cases e) (auto simp: motor_isr_feedback_eq motor_isr_fault_eq motor_ack_def motor_sample_def
        motor_board_hal_def split: if_splits)
  then show "\<exists>s' v'. motor_isr_at board_port e s v = Some (s', v') \<and>
      motor_track board_log motor_board_service {} s' v' (es @ [e]) \<and> board_ticks v' = t" using s' J by blast
qed simp

text \<open>A fault before the first poll, at 500 ticks, and feedback later; the second poll is at 1500 ticks.\<close>

theorem motor_off_in_time_witness:
  "\<exists>polls1 sc1 w1 polls2 sc2 w2.
    run_seq all_on (interrupted (motor_isr_at board_port) board_port)
      (interrupted_app (motor_isr_at board_port) (motor_prog board_port) board_env)
      [elapse (motor_isr_at board_port) (board_at 500)] (Some board_sch)
      (system_start motor_board_service board_start [[MOTOR_FAULT], [MOTOR_FEEDBACK], [MOTOR_FEEDBACK]]) =
      Some (polls1, Some sc1, w1) \<and>
    run_seq all_on (interrupted (motor_isr_at board_port) board_port)
      (interrupted_app (motor_isr_at board_port) (motor_prog board_port) board_env)
      [elapse (motor_isr_at board_port) (board_at 1500)] (Some sc1) w1 = Some (polls2, Some sc2, w2) \<and>
    \<not> enabled (service w2) \<and> last (board_log (platform w2)) = SET_ENABLE False"
proof -
  let ?isr = "motor_isr_at board_port :: _ \<Rightarrow> (unit, motor_call board) sch_motor_service \<Rightarrow> _"
  let ?p = "interrupted ?isr board_port" and ?env = "interrupted_app ?isr (motor_prog board_port) board_env"
  let ?w = "system_start motor_board_service board_start [[MOTOR_FAULT], [MOTOR_FEEDBACK], [MOTOR_FEEDBACK]]"
  let ?J = "motor_track board_log motor_board_service {}"
  let ?h1 = "board_at 500 :: motor_call board \<Rightarrow> _" and ?h2 = "board_at 1500 :: motor_call board \<Rightarrow> _"
  have hs: "\<forall>h\<in>set ([?h1] @ [?h2]). \<forall>v. board_log (h v) = board_log v" by simp
  have num: "(0::nat) < 1000" "(1000::nat) \<le> 2 ^ 31" by simp_all
  obtain polls1 sc1 w1 polls2 sc2 w2 where
    r: "run_seq all_on ?p ?env (map (elapse ?isr) [?h1]) (Some board_sch) ?w = Some (polls1, Some sc1, w1)"
      "run_seq all_on ?p ?env (map (elapse ?isr) [?h2]) (Some sc1) w1 = Some (polls2, Some sc2, w2)"
    and arr: "prefix (arrived w1) (arrived w2)" "arrived w2 @ concat (coming w2) = concat [[MOTOR_FAULT], [MOTOR_FEEDBACK], [MOTOR_FEEDBACK]]"
    and off: "\<forall>Ts i. map fst (polls1 @ polls2) = map of_nat Ts \<and> polls_close 0 Ts \<and>
        unat (capacity (ring (event_queue motor_board_service))) \<le>
          releases_after (length [?h1]) 0 1000 0 Ts * unat (max_events_per_run motor_board_service) \<and>
        i < length (arrived w1) \<and> arrived w1 ! i = MOTOR_FAULT \<and>
        length (arrived w2) \<le> i + unat (capacity (ring (event_queue motor_board_service))) \<longrightarrow>
      \<not> enabled (service w2) \<and> board_log (platform w2) \<noteq> [] \<and> last (board_log (platform w2)) = SET_ENABLE False"
    using motor_off_in_time [OF motor_board_ok(3,1,2) board_leaves board_ok num hs, of all_on board_start
        "[[MOTOR_FAULT], [MOTOR_FEEDBACK], [MOTOR_FEEDBACK]]"] by (elim exE conjE)
  have "?J motor_board_service board_start []"
    by (rule motor_trackI [where m = 0 and evs = "motor_pending motor_board_service @ map motor_event []"])
      (simp_all add: motor_board_ok accounted_def)
  from board_two_polls [OF motor_board.preempted_app_axioms motor_board_stable this r [unfolded list.map]]
  have polls: "map fst (polls1 @ polls2) = map of_nat [500, 1500] \<and> polls_close 0 [500, 1500]"
    and "prefix [MOTOR_FAULT] (arrived w1)" by blast+
  then have "0 < length (arrived w1)" "arrived w1 ! 0 = MOTOR_FAULT" by (auto simp: prefix_def)
  moreover have "unat (capacity (ring (event_queue motor_board_service))) \<le>
      releases_after (length [?h1]) 0 1000 0 [500, 1500] * unat (max_events_per_run motor_board_service)"
    by (simp add: board_grid motor_board_ok)
  moreover have "length (arrived w2) \<le> 0 + unat (capacity (ring (event_queue motor_board_service)))"
    using arg_cong [OF arr(2), of length] by (simp add: motor_board_ok)
  moreover note polls
  ultimately have "\<not> enabled (service w2) \<and> last (board_log (platform w2)) = SET_ENABLE False"
    using off by blast
  with r [unfolded list.map] show ?thesis by blast
qed

end
