(* ===== verification/Ipc_Service.thy ===== *)
theory Ipc_Service
  imports Irq_Service
begin

text \<open>
  \<^verbatim>\<open>src/services/ipc_service.c\<close> and its header: the inter-processor communication service.
  Interrupt entries append one record to a ring and set a bit in \<open>event_bits\<close>; the run
  function clears the bits and dispatches at most a budget of records by tag. HAL callbacks are
  target code, reached through pointers that may be null: optional functions on the platform
  state. \<open>'x\<close> is the type of the opaque HAL context.
\<close>

unbundle bit_operations_syntax

section \<open>Data\<close>

definition SCH_IPC_EVENT_BIT_NOTIFY :: u32 where
  "SCH_IPC_EVENT_BIT_NOTIFY = 1"

definition SCH_IPC_EVENT_BIT_ACK :: u32 where
  "SCH_IPC_EVENT_BIT_ACK = 2"

definition SCH_IPC_EVENT_BIT_FAULT :: u32 where
  "SCH_IPC_EVENT_BIT_FAULT = 4"

declare SCH_IPC_EVENT_BIT_NOTIFY_def [c_consts] SCH_IPC_EVENT_BIT_ACK_def [c_consts] SCH_IPC_EVENT_BIT_FAULT_def [c_consts]

record sch_ipc_irq_record =
  endpoint :: u16
  slot :: u16
  irq_tag :: u16
  detail_flags :: u16

datatype sch_ipc_irq_tag =
    SCH_IPC_IRQ_TAG_NOTIFY
  | SCH_IPC_IRQ_TAG_ACK
  | SCH_IPC_IRQ_TAG_FAULT

fun ipc_tag_value :: "sch_ipc_irq_tag \<Rightarrow> u16" where
  "ipc_tag_value SCH_IPC_IRQ_TAG_NOTIFY = 1"
| "ipc_tag_value SCH_IPC_IRQ_TAG_ACK = 2"
| "ipc_tag_value SCH_IPC_IRQ_TAG_FAULT = 3"

record ('x, 'w) sch_ipc_hal =
  ack_irq :: "('x option \<Rightarrow> sch_ipc_irq_tag \<Rightarrow> u16 \<Rightarrow> 'w \<Rightarrow> 'w) option"
  service_notify :: "('x option \<Rightarrow> sch_ipc_irq_record \<Rightarrow> 'w \<Rightarrow> bool \<times> 'w) option"
  service_ack :: "('x option \<Rightarrow> sch_ipc_irq_record \<Rightarrow> 'w \<Rightarrow> bool \<times> 'w) option"
  service_fault :: "('x option \<Rightarrow> sch_ipc_irq_record \<Rightarrow> 'w \<Rightarrow> bool \<times> 'w) option"
  hal_ctx :: "'x option"

record ('x, 'w) sch_ipc_service =
  hal :: "('x, 'w) sch_ipc_hal"
  irq_records :: sch_spsc_ring
  event_bits :: u32
  max_records_per_run :: size_t

text \<open>The object representation of a record: four 16-bit members without padding.\<close>

definition sizeof_ipc_record :: size_t where
  "sizeof_ipc_record = 8"

definition ipc_record_bytes :: "sch_ipc_irq_record \<Rightarrow> u8 list" where
  "ipc_record_bytes r =
     u16_bytes (endpoint r) @ u16_bytes (slot r) @ u16_bytes (irq_tag r) @ u16_bytes (detail_flags r)"

definition ipc_record_of_bytes :: "u8 list \<Rightarrow> sch_ipc_irq_record" where
  "ipc_record_of_bytes bs =
     \<lparr>endpoint = u16_of_bytes (take 2 bs), slot = u16_of_bytes (take 2 (drop 2 bs)),
      irq_tag = u16_of_bytes (take 2 (drop 4 bs)), detail_flags = u16_of_bytes (take 2 (drop 6 bs))\<rparr>"

section \<open>Operations\<close>

definition sch_ipc_service_init ::
  "'w port \<Rightarrow> ('x, 'w) sch_ipc_service option \<Rightarrow> ('x, 'w) sch_ipc_hal option \<Rightarrow> u8 list option \<Rightarrow>
   size_t \<Rightarrow> size_t \<Rightarrow> sch_overflow_mode \<Rightarrow> 'w \<Rightarrow> bool \<times> ('x, 'w) sch_ipc_service option \<times> 'w" where
  "sch_ipc_service_init p service hal_arg record_storage record_capacity max_records overflow_mode w =
     (if is_null service \<or> is_null hal_arg \<or> max_records = 0 then (False, service, w)
      else
        let s = (the service)\<lparr>hal := the hal_arg, event_bits := 0, max_records_per_run := max_records\<rparr>;
            (ok, r, w) = sch_spsc_ring_init p (Some (irq_records s)) record_storage record_capacity
              sizeof_ipc_record overflow_mode w
        in (ok, Some (s\<lparr>irq_records := the r\<rparr>), w))"

definition ipc_ack ::
  "('x, 'w) sch_ipc_service \<Rightarrow> sch_ipc_irq_tag \<Rightarrow> u16 \<Rightarrow> 'w \<Rightarrow> 'w" where
  "ipc_ack s tag endpoint_arg w =
     (case ack_irq (hal s) of None \<Rightarrow> w | Some f \<Rightarrow> f (hal_ctx (hal s)) tag endpoint_arg w)"

definition sch_ipc_isr_push ::
  "'w port \<Rightarrow> ('x, 'w) sch_ipc_service option \<Rightarrow> sch_ipc_irq_tag \<Rightarrow> u16 \<Rightarrow> u16 \<Rightarrow> u16 \<Rightarrow> u32 \<Rightarrow>
   'w \<Rightarrow> (('x, 'w) sch_ipc_service option \<times> 'w) option" where
  "sch_ipc_isr_push p service tag endpoint_arg slot_arg detail_flags_arg event_bit w =
     (if is_null service then Some (service, w)
      else do {
        let s = the service;
        let w = ipc_ack s tag endpoint_arg w;
        let record = \<lparr>endpoint = endpoint_arg, slot = slot_arg, irq_tag = ipc_tag_value tag, detail_flags = detail_flags_arg\<rparr>;
        (push_result, r, w) \<leftarrow> ring_push ipc_record_bytes p (irq_records s) record w;
        let s = s\<lparr>irq_records := r\<rparr>;
        let (state, w) = sch_port_enter_critical p w;
        let s = s\<lparr>event_bits := event_bits s OR event_bit\<rparr>;
        Some (Some s, sch_port_exit_critical p state w)
      })"

definition sch_ipc_isr_notify ::
  "'w port \<Rightarrow> ('x, 'w) sch_ipc_service option \<Rightarrow> u16 \<Rightarrow> u16 \<Rightarrow> u16 \<Rightarrow> 'w \<Rightarrow>
   (('x, 'w) sch_ipc_service option \<times> 'w) option" where
  "sch_ipc_isr_notify p service ep sl fl w =
     sch_ipc_isr_push p service SCH_IPC_IRQ_TAG_NOTIFY ep sl fl SCH_IPC_EVENT_BIT_NOTIFY w"

definition sch_ipc_isr_ack ::
  "'w port \<Rightarrow> ('x, 'w) sch_ipc_service option \<Rightarrow> u16 \<Rightarrow> u16 \<Rightarrow> u16 \<Rightarrow> 'w \<Rightarrow>
   (('x, 'w) sch_ipc_service option \<times> 'w) option" where
  "sch_ipc_isr_ack p service ep sl fl w =
     sch_ipc_isr_push p service SCH_IPC_IRQ_TAG_ACK ep sl fl SCH_IPC_EVENT_BIT_ACK w"

definition sch_ipc_isr_fault ::
  "'w port \<Rightarrow> ('x, 'w) sch_ipc_service option \<Rightarrow> u16 \<Rightarrow> u16 \<Rightarrow> u16 \<Rightarrow> 'w \<Rightarrow>
   (('x, 'w) sch_ipc_service option \<times> 'w) option" where
  "sch_ipc_isr_fault p service ep fl sl w =
     sch_ipc_isr_push p service SCH_IPC_IRQ_TAG_FAULT ep sl fl SCH_IPC_EVENT_BIT_FAULT w"

text \<open>The dispatch of one record: the switch of the run function.\<close>

definition ipc_dispatch ::
  "('x, 'w) sch_ipc_hal \<Rightarrow> sch_ipc_irq_record \<Rightarrow> 'w \<Rightarrow> 'w" where
  "ipc_dispatch h record w =
     (let call = (\<lambda>handler. case handler of None \<Rightarrow> w | Some f \<Rightarrow> snd (f (hal_ctx h) record w))
      in
        if irq_tag record = ipc_tag_value SCH_IPC_IRQ_TAG_NOTIFY then call (service_notify h)
        else if irq_tag record = ipc_tag_value SCH_IPC_IRQ_TAG_ACK then call (service_ack h)
        else if irq_tag record = ipc_tag_value SCH_IPC_IRQ_TAG_FAULT then call (service_fault h)
        else w)"

definition sch_ipc_service_run ::
  "'w port \<Rightarrow> ('x, 'w) sch_ipc_service option \<Rightarrow> 'w \<Rightarrow>
   (('x, 'w) sch_ipc_service option \<times> 'w) option" where
  "sch_ipc_service_run p service w =
     (if is_null service then Some (service, w)
      else do {
        let s = the service;
        let (state, w) = sch_port_enter_critical p w;
        let pending_event_bits = event_bits s;
        let s = s\<lparr>event_bits := 0\<rparr>;
        let w = sch_port_exit_critical p state w;
        let (empty, w) =
          (if pending_event_bits = 0 then sch_spsc_ring_is_empty p (Some (irq_records s)) w
           else (False, w));
        if empty then Some (Some s, w)
        else do {
          (s, record, w) \<leftarrow> drain_loop (unat (max_records_per_run s))
            (field_pop irq_records (\<lambda>r s. s\<lparr>irq_records := r\<rparr>)
              (ring_pop ipc_record_bytes ipc_record_of_bytes p))
            (\<lambda>record s w. Some (True, s, ipc_dispatch (hal s) record w))
            s \<lparr>endpoint = 0, slot = 0, irq_tag = 0, detail_flags = 0\<rparr> w;
          Some (Some s, w)
        }
      })"

definition sch_ipc_service_drop_count ::
  "'w port \<Rightarrow> ('x, 'w) sch_ipc_service option \<Rightarrow> 'w \<Rightarrow> size_t \<times> 'w" where
  "sch_ipc_service_drop_count p service w =
     (if is_null service then (0, w)
      else sch_spsc_ring_drop_count p (Some (irq_records (the service))) w)"

section \<open>Records in the ring\<close>

lemma ipc_record_bytes_inverse: "ipc_record_of_bytes (ipc_record_bytes r) = r"
  by (cases r) (simp add: ipc_record_of_bytes_def ipc_record_bytes_def u16_of_bytes_bytes)

lemma length_ipc_record_bytes: "length (ipc_record_bytes r) = 8"
  by (simp add: ipc_record_bytes_def)

interpretation ipc_ring: object_ring ipc_record_bytes ipc_record_of_bytes sizeof_ipc_record p for p
  by unfold_locales
    (simp_all add: ipc_record_bytes_inverse length_ipc_record_bytes sizeof_ipc_record_def)

interpretation ipc_client: queue_client
  "ring_push ipc_record_bytes p" "ring_pop ipc_record_bytes ipc_record_of_bytes p" "crit p"
  "typed_inv sizeof_ipc_record" "typed_items ipc_record_of_bytes" ring_bound ring_newest drops
  "\<lambda>r x. ring_enq r (ipc_record_bytes x)" ring_deq irq_records "\<lambda>r s. s\<lparr>irq_records := r\<rparr>"
  for p
  by unfold_locales simp_all

section \<open>The service contract\<close>

definition ipc_inv :: "('x, 'w) sch_ipc_service \<Rightarrow> bool" where
  "ipc_inv s \<longleftrightarrow> typed_inv sizeof_ipc_record (irq_records s) \<and> max_records_per_run s \<noteq> 0"

definition ipc_items :: "('x, 'w) sch_ipc_service \<Rightarrow> sch_ipc_irq_record list" where
  "ipc_items s = typed_items ipc_record_of_bytes (irq_records s)"

lemma ipc_init_iff:
  "fst (sch_ipc_service_init p service hal_arg st cap max_records mode w) \<longleftrightarrow>
     \<not> is_null service \<and> \<not> is_null hal_arg \<and> \<not> is_null st \<and> max_records \<noteq> 0 \<and> cap \<noteq> 0 \<and>
     (mode = SCH_OVERFLOW_DROP_NEWEST \<or> mode = SCH_OVERFLOW_DROP_OLDEST)"
  using ring_init_iff [of p _ st cap sizeof_ipc_record mode w]
  by (auto simp: sch_ipc_service_init_def Let_def split_beta sizeof_ipc_record_def)

lemma ipc_init_ok:
  assumes "max_records \<noteq> 0" and "cap \<noteq> 0"
    and "mode = SCH_OVERFLOW_DROP_NEWEST \<or> mode = SCH_OVERFLOW_DROP_OLDEST"
    and "unat cap * 8 \<le> length m" and "length m < 2 ^ 32"
  obtains s' where "sch_ipc_service_init p (Some s) (Some h) (Some m) cap max_records mode w =
      (True, Some s', crit p w)" "ipc_inv s'" "ipc_items s' = []" "event_bits s' = 0" "hal s' = h"
    "ring_bound (irq_records s') = unat cap" "drops (irq_records s') = 0"
    "ring_newest (irq_records s') \<longleftrightarrow> mode = SCH_OVERFLOW_DROP_NEWEST" "max_records_per_run s' = max_records"
proof -
  have fit: "unat cap * unat sizeof_ipc_record \<le> length m" using assms(4) by (simp add: sizeof_ipc_record_def)
  obtain r where r: "sch_spsc_ring_init p (Some (irq_records s)) (Some m) cap sizeof_ipc_record mode w =
      (True, Some r, crit p w)" "typed_inv sizeof_ipc_record r" "typed_items ipc_record_of_bytes r = []"
    "drops r = 0" "ring_bound r = unat cap" "ring_newest r \<longleftrightarrow> mode = SCH_OVERFLOW_DROP_NEWEST"
    by (rule ipc_ring.init_refines [OF assms(2,3) fit assms(5)])
  show thesis
    by (rule that [of "s\<lparr>hal := h, event_bits := 0, max_records_per_run := max_records, irq_records := r\<rparr>"])
      (use r assms(1) in \<open>simp_all add: sch_ipc_service_init_def ipc_inv_def ipc_items_def\<close>)
qed

text \<open>The three interrupt entries, as events.\<close>

datatype ipc_interrupt =
    IPC_NOTIFY u16 u16 u16
  | IPC_ACK u16 u16 u16
  | IPC_FAULT u16 u16 u16

fun ipc_isr ::
  "'w port \<Rightarrow> ipc_interrupt \<Rightarrow> ('x, 'w) sch_ipc_service option \<Rightarrow> 'w \<Rightarrow>
   (('x, 'w) sch_ipc_service option \<times> 'w) option" where
  "ipc_isr p (IPC_NOTIFY ep sl fl) service w = sch_ipc_isr_notify p service ep sl fl w"
| "ipc_isr p (IPC_ACK ep sl fl) service w = sch_ipc_isr_ack p service ep sl fl w"
| "ipc_isr p (IPC_FAULT ep fl sl) service w = sch_ipc_isr_fault p service ep fl sl w"

fun ipc_interrupt_tag :: "ipc_interrupt \<Rightarrow> sch_ipc_irq_tag" where
  "ipc_interrupt_tag (IPC_NOTIFY ep sl fl) = SCH_IPC_IRQ_TAG_NOTIFY"
| "ipc_interrupt_tag (IPC_ACK ep sl fl) = SCH_IPC_IRQ_TAG_ACK"
| "ipc_interrupt_tag (IPC_FAULT ep fl sl) = SCH_IPC_IRQ_TAG_FAULT"

fun ipc_record :: "ipc_interrupt \<Rightarrow> sch_ipc_irq_record" where
  "ipc_record (IPC_NOTIFY ep sl fl) =
     \<lparr>endpoint = ep, slot = sl, irq_tag = 1, detail_flags = fl\<rparr>"
| "ipc_record (IPC_ACK ep sl fl) =
     \<lparr>endpoint = ep, slot = sl, irq_tag = 2, detail_flags = fl\<rparr>"
| "ipc_record (IPC_FAULT ep fl sl) =
     \<lparr>endpoint = ep, slot = sl, irq_tag = 3, detail_flags = fl\<rparr>"

fun ipc_interrupt_bit :: "ipc_interrupt \<Rightarrow> u32" where
  "ipc_interrupt_bit (IPC_NOTIFY ep sl fl) = SCH_IPC_EVENT_BIT_NOTIFY"
| "ipc_interrupt_bit (IPC_ACK ep sl fl) = SCH_IPC_EVENT_BIT_ACK"
| "ipc_interrupt_bit (IPC_FAULT ep fl sl) = SCH_IPC_EVENT_BIT_FAULT"

lemma ipc_interrupt_bit_nonzero: "ipc_interrupt_bit e \<noteq> 0"
  by (cases e) (simp_all add: c_consts)

text \<open>Calls with the address of the service.\<close>

definition ipc_isr_at ::
  "'w port \<Rightarrow> ipc_interrupt \<Rightarrow> ('x, 'w) sch_ipc_service \<Rightarrow> 'w \<Rightarrow>
   (('x, 'w) sch_ipc_service \<times> 'w) option" where
  "ipc_isr_at p e s w = do { (s, w) \<leftarrow> ipc_isr p e (Some s) w; Some (the s, w) }"

definition ipc_run_at ::
  "'w port \<Rightarrow> ('x, 'w) sch_ipc_service \<Rightarrow> 'w \<Rightarrow> (('x, 'w) sch_ipc_service \<times> 'w) option" where
  "ipc_run_at p s w = do { (s, w) \<leftarrow> sch_ipc_service_run p (Some s) w; Some (the s, w) }"

lemma ipc_ack_update [simp]:
  "ipc_ack (irq_records_update f s) = ipc_ack s" "ipc_ack (event_bits_update g s) = ipc_ack s"
  by (simp_all add: ipc_ack_def fun_eq_iff split: option.split)

lemma ipc_push_eq:
  assumes "ipc_inv s"
  shows "sch_ipc_isr_push p (Some s) tag a b d eb w =
    Some (Some (s\<lparr>irq_records := ring_enq (irq_records s)
              (ipc_record_bytes \<lparr>endpoint = a, slot = b, irq_tag = ipc_tag_value tag, detail_flags = d\<rparr>),
            event_bits := event_bits s OR eb\<rparr>),
          crit p (crit p (ipc_ack s tag a w)))"
  using assms
  by (simp add: sch_ipc_isr_push_def ipc_inv_def ipc_ring.push_refines crit_def split_beta Let_def)

lemma ipc_isr_eq:
  assumes "ipc_inv s"
  shows "ipc_isr_at p e s w =
    Some (s\<lparr>irq_records := ring_enq (irq_records s) (ipc_record_bytes (ipc_record e)),
            event_bits := event_bits s OR ipc_interrupt_bit e\<rparr>,
          crit p (crit p (ipc_ack s (ipc_interrupt_tag e) (endpoint (ipc_record e)) w)))"
  by (cases e) (simp_all add: ipc_isr_at_def sch_ipc_isr_notify_def sch_ipc_isr_ack_def sch_ipc_isr_fault_def ipc_push_eq [OF assms])

lemma ipc_run_eq:
  assumes "ipc_inv s"
  shows "ipc_run_at p s w =
    Some (s\<lparr>irq_records := (ring_deq ^^ min (unat (max_records_per_run s)) (length (ipc_items s))) (irq_records s),
            event_bits := 0\<rparr>,
          service_world (crit p) (ipc_dispatch (hal s)) (unat (max_records_per_run s))
            (event_bits s \<noteq> 0) (ipc_items s) w)"
proof -
  have inv: "typed_inv sizeof_ipc_record (irq_records s)" using assms by (simp add: ipc_inv_def)
  have empty: "sch_spsc_ring_is_empty p (Some (irq_records s)) v = (ipc_items s = [], crit p v)" for v
    using inv ring_inv_valid [of "irq_records s"]
    by (simp add: sch_spsc_ring_is_empty_def sch_spsc_ring_size_def typed_inv_def crit_def split_beta
        Let_def ipc_items_def)
  have drain: "drain_loop n (field_pop irq_records (\<lambda>r s. s\<lparr>irq_records := r\<rparr>)
        (ring_pop ipc_record_bytes ipc_record_of_bytes p))
      (\<lambda>record s w. Some (True, s, ipc_dispatch (hal s) record w)) (s\<lparr>event_bits := 0\<rparr>) x v =
    Some (s\<lparr>event_bits := 0, irq_records := (ring_deq ^^ min n (length (ipc_items s))) (irq_records s)\<rparr>,
      last (x # take n (ipc_items s)), drain_world (crit p) (ipc_dispatch (hal s)) n (ipc_items s) v)" for n x v
    using ipc_client.drain_dispatch [where s = "s\<lparr>event_bits := 0\<rparr>" and P = "\<lambda>t. hal t = hal s" and
        body = "\<lambda>record s w. Some (True, s, ipc_dispatch (hal s) record w)" and eff = "ipc_dispatch (hal s)"
        and n = n and x = x and w = v and p = p] inv
    by (simp add: ipc_items_def)
  show ?thesis
    by (cases "event_bits s = 0"; cases "ipc_items s = []")
      (simp_all add: ipc_run_at_def sch_ipc_service_run_def empty drain service_world_def crit_def split_beta
        Let_def)
qed

interpretation ipc: irq_service
  "ipc_isr_at p :: _ \<Rightarrow> ('x, 'w) sch_ipc_service \<Rightarrow> _" "ipc_run_at p" "crit p" ipc_inv ipc_items "\<lambda>s. ring_bound (irq_records s)"
  "\<lambda>s. ring_newest (irq_records s)" "\<lambda>s. drops (irq_records s)" "\<lambda>s. event_bits s \<noteq> 0"
  "\<lambda>s. unat (max_records_per_run s)" ipc_record
  "\<lambda>s e. ipc_ack s (ipc_interrupt_tag e) (endpoint (ipc_record e))" "\<lambda>s. ipc_dispatch (hal s)"
  for p
proof unfold_locales
  fix s :: "('x, 'w) sch_ipc_service" and e w
  assume inv: "ipc_inv s"
  then have r: "typed_inv sizeof_ipc_record (irq_records s)" by (simp add: ipc_inv_def)
  have "event_bits s OR ipc_interrupt_bit e \<noteq> 0"
    by (simp add: or_eq_0_iff ipc_interrupt_bit_nonzero)
  then show "\<exists>s'. ipc_isr_at p e s w = Some (s', crit p (crit p (ipc_ack s (ipc_interrupt_tag e) (endpoint (ipc_record e)) w))) \<and>
      ipc_inv s' \<and>
      ipc_items s' = bounded_push (ring_bound (irq_records s)) (ring_newest (irq_records s)) (ipc_items s) (ipc_record e) \<and>
      event_bits s' \<noteq> 0 \<and>
      drops (irq_records s') =
        (if length (ipc_items s) = ring_bound (irq_records s) then drops (irq_records s) + 1 else drops (irq_records s)) \<and>
      ring_bound (irq_records s') = ring_bound (irq_records s) \<and>
      ring_newest (irq_records s') = ring_newest (irq_records s) \<and>
      unat (max_records_per_run s') = unat (max_records_per_run s) \<and>
      (\<lambda>e. ipc_ack s' (ipc_interrupt_tag e) (endpoint (ipc_record e))) =
        (\<lambda>e. ipc_ack s (ipc_interrupt_tag e) (endpoint (ipc_record e))) \<and>
      ipc_dispatch (hal s') = ipc_dispatch (hal s)"
    using inv ipc_ring.enq_refines [OF r, of "ipc_record e"]
    by (simp add: ipc_isr_eq [OF inv] ipc_inv_def ipc_items_def)
  show "\<exists>s'. ipc_run_at p s w = Some (s', service_world (crit p) (ipc_dispatch (hal s))
        (unat (max_records_per_run s)) (event_bits s \<noteq> 0) (ipc_items s) w) \<and>
      ipc_inv s' \<and> ipc_items s' = drop (unat (max_records_per_run s)) (ipc_items s) \<and>
      \<not> event_bits s' \<noteq> 0 \<and> drops (irq_records s') = drops (irq_records s) \<and>
      ring_bound (irq_records s') = ring_bound (irq_records s) \<and>
      ring_newest (irq_records s') = ring_newest (irq_records s) \<and>
      unat (max_records_per_run s') = unat (max_records_per_run s) \<and>
      (\<lambda>e. ipc_ack s' (ipc_interrupt_tag e) (endpoint (ipc_record e))) =
        (\<lambda>e. ipc_ack s (ipc_interrupt_tag e) (endpoint (ipc_record e))) \<and>
      ipc_dispatch (hal s') = ipc_dispatch (hal s)"
    using inv ipc_ring.queue.deqs_keep [OF r] ipc_run_eq [OF inv, of p w]
    by (simp add: ipc_inv_def ipc_items_def drop_min_typed)
  show "length (ipc_items s) \<le> ring_bound (irq_records s)" and "0 < ring_bound (irq_records s)"
    using typed_inv_bound [OF r] by (simp_all add: ipc_items_def)
  show "0 < unat (max_records_per_run s)" using inv by (simp add: ipc_inv_def unat_gt_0)
qed

section \<open>Served interrupts\<close>

text \<open>What handling an interrupt means: its callback, if there is one, gets its record.\<close>

fun ipc_handle :: "('x, 'w) sch_ipc_hal \<Rightarrow> ipc_interrupt \<Rightarrow> 'w \<Rightarrow> 'w" where
  "ipc_handle h (IPC_NOTIFY a b c) w = (case service_notify h of None \<Rightarrow> w
     | Some f \<Rightarrow> snd (f (hal_ctx h) (ipc_record (IPC_NOTIFY a b c)) w))"
| "ipc_handle h (IPC_ACK a b c) w = (case service_ack h of None \<Rightarrow> w
     | Some f \<Rightarrow> snd (f (hal_ctx h) (ipc_record (IPC_ACK a b c)) w))"
| "ipc_handle h (IPC_FAULT a b c) w = (case service_fault h of None \<Rightarrow> w
     | Some f \<Rightarrow> snd (f (hal_ctx h) (ipc_record (IPC_FAULT a b c)) w))"

lemma ipc_dispatch_record: "\<forall>e. ipc_dispatch h (ipc_record e) = ipc_handle h e"
proof
  fix e
  show "ipc_dispatch h (ipc_record e) = ipc_handle h e"
    by (cases e) (simp_all add: ipc_dispatch_def fun_eq_iff Let_def split: option.split)
qed

lemma ipc_drop_count_eq:
  "ipc_inv s \<Longrightarrow> sch_ipc_service_drop_count p (Some s) w = (drops (irq_records s), crit p w)"
  by (simp add: sch_ipc_service_drop_count_def ipc_inv_def typed_inv_def ring_inv_valid
      sch_spsc_ring_drop_count_def crit_def split_beta Let_def)

text \<open>
  A burst of interrupts and then enough runs: every interrupt retained by the policy of the ring
  is handled exactly once and in order, the others are counted as dropped.
\<close>

lemma ipc_interrupts_served:
  assumes "ipc_inv s" and "ipc_items s = map ipc_record es0"
    and "unat (capacity (irq_records s)) \<le> n * unat (max_records_per_run s)"
    and "observes log seen (crit p) (ipc_handle (hal s))"
  shows "\<exists>s1 w1 s' w'. isr_all (ipc_isr_at p) es s w = Some (s1, w1) \<and>
    run_times (ipc_run_at p) n s1 w1 = Some (s', w') \<and> ipc_inv s' \<and> ipc_items s' = [] \<and>
    log w' = log w1 @ concat (map seen (retained (unat (capacity (irq_records s)))
      (overflow (irq_records s) = SCH_OVERFLOW_DROP_NEWEST) (es0 @ es))) \<and>
    fst (sch_ipc_service_drop_count p (Some s') w') =
      drops (irq_records s) + of_nat (length (es0 @ es) - unat (capacity (irq_records s)))"
  using ipc.interrupts_served [OF assms(1,2) _ assms(4) ipc_dispatch_record, where n = n and es = es and w = w] assms(3) ipc_drop_count_eq
  by (fastforce simp: ring_bound_def ring_newest_def)

end
