(* ===== verification/Ipc_Preempted.thy ===== *)
theory Ipc_Preempted
  imports Irq_Scheduled Ipc_Service
begin

text \<open>
  The IPC service under preemption: \<open>sch_ipc_service_run\<close> as a program whose steps are the
  critical sections and callbacks of the C function. Without interrupts the program computes what
  the run function computes, also where that is undefined, and C39 says what that is; it meets the
  contract under which no record is lost, repeated or reordered beyond what the drop counter tells,
  wherever interrupts hit.
\<close>

section \<open>The program\<close>

text \<open>The section that takes and clears the event bits.\<close>

definition ipc_take_hint ::
  "'w port \<Rightarrow> ('x, 'w) sch_ipc_service \<Rightarrow> 'w \<Rightarrow> bool \<times> ('x, 'w) sch_ipc_service \<times> 'w" where
  "ipc_take_hint p s w =
     (let (state, w) = sch_port_enter_critical p w;
          pending_event_bits = event_bits s;
          s = s\<lparr>event_bits := 0\<rparr>;
          w = sch_port_exit_critical p state w
      in (pending_event_bits \<noteq> 0, s, w))"

definition ipc_prog :: "'w port \<Rightarrow> (('x, 'w) sch_ipc_service, 'w) prog" where
  "ipc_prog p = service_prog (ipc_take_hint p)
     (\<lambda>s. sch_spsc_ring_is_empty p (Some (irq_records s)))
     (field_pop irq_records (\<lambda>r s. s\<lparr>irq_records := r\<rparr>) (ring_pop ipc_record_bytes ipc_record_of_bytes p))
     (\<lambda>s record. ipc_dispatch (hal s) record)
     (\<lambda>s. unat (max_records_per_run s))
     \<lparr>endpoint = 0, slot = 0, irq_tag = 0, detail_flags = 0\<rparr>"

section \<open>The contract of a preemptible service\<close>

interpretation ipc_steps: preemptible
  "ipc_isr_at p :: _ \<Rightarrow> ('x, 'w) sch_ipc_service \<Rightarrow> _" "ipc_run_at p" "crit p" ipc_inv ipc_items
  "\<lambda>s. ring_bound (irq_records s)" "\<lambda>s. ring_newest (irq_records s)" "\<lambda>s. drops (irq_records s)"
  "\<lambda>s. event_bits s \<noteq> 0" "\<lambda>s. unat (max_records_per_run s)" ipc_record
  "\<lambda>s e. ipc_ack s (ipc_interrupt_tag e) (endpoint (ipc_record e))" "\<lambda>s. ipc_dispatch (hal s)"
  "ipc_take_hint p" "\<lambda>s. sch_spsc_ring_is_empty p (Some (irq_records s))"
  "field_pop irq_records (\<lambda>r s. s\<lparr>irq_records := r\<rparr>) (ring_pop ipc_record_bytes ipc_record_of_bytes p)"
  for p
proof unfold_locales
  fix s :: "('x, 'w) sch_ipc_service" and w x
  assume inv: "ipc_inv s"
  then have r: "typed_inv sizeof_ipc_record (irq_records s)" by (simp add: ipc_inv_def)
  show "\<exists>s'. ipc_take_hint p s w = (event_bits s \<noteq> 0, s', crit p w) \<and> ipc_inv s' \<and> ipc_items s' = ipc_items s \<and>
      drops (irq_records s') = drops (irq_records s) \<and>
      ring_bound (irq_records s') = ring_bound (irq_records s) \<and>
      ring_newest (irq_records s') = ring_newest (irq_records s) \<and>
      unat (max_records_per_run s') = unat (max_records_per_run s) \<and>
      (\<lambda>e. ipc_ack s' (ipc_interrupt_tag e) (endpoint (ipc_record e))) =
        (\<lambda>e. ipc_ack s (ipc_interrupt_tag e) (endpoint (ipc_record e))) \<and>
      ipc_dispatch (hal s') = ipc_dispatch (hal s)"
    using inv by (simp add: ipc_take_hint_def crit_def split_beta Let_def ipc_inv_def ipc_items_def)
  show "sch_spsc_ring_is_empty p (Some (irq_records s)) w = (ipc_items s = [], crit p w)"
    using ring_is_empty_refines [of "irq_records s" p w] r
    by (simp add: ipc_items_def typed_items_empty_iff typed_inv_def)
  show "field_pop irq_records (\<lambda>r s. s\<lparr>irq_records := r\<rparr>) (ring_pop ipc_record_bytes ipc_record_of_bytes p) s x w =
      Some (False, x, s, crit p w)" if "ipc_items s = []"
    using that ipc_ring.queue.pop_eq [OF r, of p x w] by (simp add: field_pop_def ipc_items_def)
  fix y ys
  show "\<exists>s'. field_pop irq_records (\<lambda>r s. s\<lparr>irq_records := r\<rparr>) (ring_pop ipc_record_bytes ipc_record_of_bytes p) s x w =
        Some (True, y, s', crit p w) \<and> ipc_inv s' \<and> ipc_items s' = ys \<and>
      drops (irq_records s') = drops (irq_records s) \<and>
      ring_bound (irq_records s') = ring_bound (irq_records s) \<and>
      ring_newest (irq_records s') = ring_newest (irq_records s) \<and>
      unat (max_records_per_run s') = unat (max_records_per_run s) \<and>
      (\<lambda>e. ipc_ack s' (ipc_interrupt_tag e) (endpoint (ipc_record e))) =
        (\<lambda>e. ipc_ack s (ipc_interrupt_tag e) (endpoint (ipc_record e))) \<and>
      ipc_dispatch (hal s') = ipc_dispatch (hal s)" if "ipc_items s = y # ys"
    using that inv ipc_ring.queue.pop_eq [OF r, of p x w] ipc_ring.queue.deq_simps [OF r]
    by (simp add: field_pop_def ipc_items_def ipc_inv_def)
qed

section \<open>One run\<close>

text \<open>Undisturbed, the program is the run function, also where that is undefined.\<close>

lemma ipc_prog_finish: "finish (ipc_prog p) s w = ipc_run_at p s w"
  unfolding ipc_prog_def service_prog_finish
  by (simp add: ipc_take_hint_def ipc_run_at_def sch_ipc_service_run_def split_beta Let_def split: bind_splits)

text \<open>
  A log of the callbacks: each enters which one it is and the record it got. A record calls the one
  of its tag, if there is one; an unknown tag calls none.
\<close>

fun ipc_callback ::
  "('x, 'w) sch_ipc_hal \<Rightarrow> sch_ipc_irq_tag \<Rightarrow> ('x option \<Rightarrow> sch_ipc_irq_record \<Rightarrow> 'w \<Rightarrow> bool \<times> 'w) option" where
  "ipc_callback h SCH_IPC_IRQ_TAG_NOTIFY = service_notify h"
| "ipc_callback h SCH_IPC_IRQ_TAG_ACK = service_ack h"
| "ipc_callback h SCH_IPC_IRQ_TAG_FAULT = service_fault h"

definition observes_ipc ::
  "('w \<Rightarrow> (sch_ipc_irq_tag \<times> sch_ipc_irq_record) list) \<Rightarrow> 'w port \<Rightarrow> ('x, 'w) sch_ipc_hal \<Rightarrow> bool" where
  "observes_ipc calls p h \<longleftrightarrow> (\<forall>w. calls (crit p w) = calls w) \<and>
     (\<forall>tag f r w. ipc_callback h tag = Some f \<longrightarrow> calls (snd (f (hal_ctx h) r w)) = calls w @ [(tag, r)])"

definition ipc_called :: "('x, 'w) sch_ipc_hal \<Rightarrow> sch_ipc_irq_record \<Rightarrow> (sch_ipc_irq_tag \<times> sch_ipc_irq_record) list" where
  "ipc_called h r = [(tag, r). tag \<leftarrow> [SCH_IPC_IRQ_TAG_NOTIFY, SCH_IPC_IRQ_TAG_ACK, SCH_IPC_IRQ_TAG_FAULT],
     ipc_tag_value tag = irq_tag r \<and> \<not> is_null (ipc_callback h tag)]"

lemma observes_ipc_dispatch:
  assumes "observes_ipc calls p h"
  shows "observes calls (ipc_called h) (crit p) (ipc_dispatch h)"
proof -
  have cb: "ipc_callback h tag = Some f \<Longrightarrow> calls (snd (f (hal_ctx h) r w)) = calls w @ [(tag, r)]" for tag f r w
    using assms by (simp add: observes_ipc_def)
  have "calls (ipc_dispatch h r w) = calls w @ ipc_called h r" for r w
    using cb [of SCH_IPC_IRQ_TAG_NOTIFY] cb [of SCH_IPC_IRQ_TAG_ACK] cb [of SCH_IPC_IRQ_TAG_FAULT]
    by (simp add: ipc_dispatch_def ipc_called_def Let_def is_null_iff split: option.split)
  then show ?thesis using assms by (simp add: observes_def observes_ipc_def)
qed

lemma ring_deqs_setup: "capacity ((ring_deq ^^ n) r) = capacity r \<and> overflow ((ring_deq ^^ n) r) = overflow r"
  by (induction n) (simp_all add: ring_deq_def)

lemma all_tags: "(\<forall>tag. P tag) \<longleftrightarrow>
    P SCH_IPC_IRQ_TAG_NOTIFY \<and> P SCH_IPC_IRQ_TAG_ACK \<and> P SCH_IPC_IRQ_TAG_FAULT"
  by (metis sch_ipc_irq_tag.exhaust)

text \<open>A service whose ring is full and wraps around: a fault and a record of no known tag before a notification.\<close>

definition ipc_call_hal :: "(unit, (sch_ipc_irq_tag \<times> sch_ipc_irq_record) list) sch_ipc_hal" where
  "ipc_call_hal = \<lparr>ack_irq = None, service_notify = Some (\<lambda>c r w. (True, w @ [(SCH_IPC_IRQ_TAG_NOTIFY, r)])),
     service_ack = None, service_fault = Some (\<lambda>c r w. (False, w @ [(SCH_IPC_IRQ_TAG_FAULT, r)])), hal_ctx = None\<rparr>"

definition ipc_full_service :: "(unit, (sch_ipc_irq_tag \<times> sch_ipc_irq_record) list) sch_ipc_service" where
  "ipc_full_service = \<lparr>hal = ipc_call_hal, irq_records =
     \<lparr>storage = Some (ipc_record_bytes (ipc_record (IPC_NOTIFY 1 2 3)) @ ipc_record_bytes (ipc_record (IPC_FAULT 4 5 6)) @
        ipc_record_bytes \<lparr>endpoint = 7, slot = 7, irq_tag = 9, detail_flags = 7\<rparr>),
      element_size = 8, capacity = 3, head = 1, tail = 1, count = 3, drops = 2, overflow = SCH_OVERFLOW_DROP_OLDEST\<rparr>,
     event_bits = 5, max_records_per_run = 2\<rparr>"

section \<open>Properties\<close>

text \<open>
  C39. What a run of the IPC service does. From any state that keeps the invariant of the service,
  with or without event bits, it is never undefined. It clears the event bits and takes the oldest
  records, as many as its budget allows, out of the ring; each of them goes, in the order of their
  arrival, to the callback of its tag, exactly once, if there is such a callback, and no other
  callback is called. The rest stays queued, nothing is counted as dropped, and the set-up is the
  same as before. With an empty ring the run only passes through two critical sections. The
  program of the run's atomic steps does the same when nothing interrupts it.
\<close>

theorem ipc_run_does:
  assumes "ipc_inv s" and "observes_ipc calls p (hal s)"
  shows "\<exists>s' w'. sch_ipc_service_run p (Some s) w = Some (Some s', w') \<and> finish (ipc_prog p) s w = Some (s', w') \<and>
    ipc_inv s' \<and> event_bits s' = 0 \<and>
    ipc_items s' = drop (unat (max_records_per_run s)) (ipc_items s) \<and>
    calls w' = calls w @ concat (map (ipc_called (hal s)) (take (unat (max_records_per_run s)) (ipc_items s))) \<and>
    drops (irq_records s') = drops (irq_records s) \<and> capacity (irq_records s') = capacity (irq_records s) \<and>
    overflow (irq_records s') = overflow (irq_records s) \<and>
    hal s' = hal s \<and> max_records_per_run s' = max_records_per_run s \<and>
    (ipc_items s = [] \<longrightarrow> w' = crit p (crit p w))"
proof -
  let ?n = "min (unat (max_records_per_run s)) (length (ipc_items s))"
  let ?s = "s\<lparr>irq_records := (ring_deq ^^ ?n) (irq_records s), event_bits := 0\<rparr>"
  let ?w = "service_world (crit p) (ipc_dispatch (hal s)) (unat (max_records_per_run s)) (event_bits s \<noteq> 0) (ipc_items s) w"
  have r: "typed_inv sizeof_ipc_record (irq_records s)" using assms(1) by (simp add: ipc_inv_def)
  have run: "ipc_run_at p s w = Some (?s, ?w)" by (rule ipc_run_eq [OF assms(1)])
  then have "sch_ipc_service_run p (Some s) w = Some (Some ?s, ?w)"
    by (auto simp: ipc_run_at_def bind_eq_Some_conv sch_ipc_service_run_def Let_def split_beta)
  moreover have "finish (ipc_prog p) s w = Some (?s, ?w)" by (simp add: ipc_prog_finish run)
  moreover have "ipc_inv ?s \<and> ipc_items ?s = drop (unat (max_records_per_run s)) (ipc_items s) \<and>
      drops (irq_records ?s) = drops (irq_records s) \<and> capacity (irq_records ?s) = capacity (irq_records s) \<and>
      overflow (irq_records ?s) = overflow (irq_records s)"
    using assms(1) ipc_ring.queue.deqs_keep [OF r]
    by (simp add: ipc_inv_def ipc_items_def drop_min_typed ring_deqs_setup)
  moreover have "calls ?w = calls w @ concat (map (ipc_called (hal s)) (take (unat (max_records_per_run s)) (ipc_items s)))"
    using observes_service [OF observes_ipc_dispatch [OF assms(2)], where r = "\<lambda>x. x" and eff = "ipc_dispatch (hal s)"]
    by simp
  moreover have "?w = crit p (crit p w)" if "ipc_items s = []"
    using assms(1) that by (cases "unat (max_records_per_run s)") (auto simp: service_world_def ipc_inv_def unat_eq_0 Let_def)
  ultimately show ?thesis by simp
qed

theorem ipc_run_does_witness:
  "\<exists>s' w'. sch_ipc_service_run quiet_port (Some ipc_full_service) [] = Some (Some s', w') \<and> event_bits s' = 0 \<and>
    w' = [(SCH_IPC_IRQ_TAG_FAULT, ipc_record (IPC_FAULT 4 5 6))] \<and> ipc_items s' = [ipc_record (IPC_NOTIFY 1 2 3)]"
proof -
  have s: "ipc_inv ipc_full_service" "observes_ipc (\<lambda>w. w) quiet_port (hal ipc_full_service)"
    by (simp_all add: ipc_full_service_def ipc_call_hal_def ipc_inv_def typed_inv_def ring_inv_iff sizeof_ipc_record_def
        length_ipc_record_bytes observes_ipc_def quiet_port_def crit_def all_tags)
  have "ipc_items ipc_full_service = [ipc_record (IPC_FAULT 4 5 6), \<lparr>endpoint = 7, slot = 7, irq_tag = 9, detail_flags = 7\<rparr>,
      ipc_record (IPC_NOTIFY 1 2 3)]" by code_simp
  with ipc_run_does [OF s, of "[]"] show ?thesis
    by (simp add: ipc_full_service_def ipc_called_def ipc_call_hal_def) blast
qed

end
