(* ===== verification/Ipc_Scheduled.thy ===== *)
theory Ipc_Scheduled
  imports Board Ipc_Preempted
begin

text \<open>
  The IPC service as a task of the scheduler, with interrupts anywhere: from the interrupt entry
  over the ring and the dispatch of \<open>sch_run\<close> to the callback of the endpoint.
\<close>

section \<open>The service under the scheduler\<close>

lemma ipc_preempted_service:
  assumes "observes log seen (crit p) (ipc_handle (hal s0))" and "\<forall>tag ep v. log (ipc_ack s0 tag ep v) = log v"
  shows "preempted_service (ipc_isr_at p) (ipc_prog p) log
    (ipc_steps.irq_account log seen s0 w0 es0 0 0 []) (ipc_steps.irq_stage log seen s0 w0 es0)"
  unfolding ipc_prog_def
  by (rule ipc_steps.irq_preempted_service [OF assms(1) _ ipc_dispatch_record]) (use assms(2) in simp)

lemma ipc_preempted_app:
  assumes "leaves_log p env log" and "observes log seen (crit p) (ipc_handle (hal s0))"
    and "\<forall>tag ep v. log (ipc_ack s0 tag ep v) = log v"
  shows "preempted_app (ipc_isr_at p) (ipc_prog p) p env log
    (ipc_steps.irq_account log seen s0 w0 es0 0 0 []) (ipc_steps.irq_stage log seen s0 w0 es0)"
  by (intro preempted_app.intro preempted_app_axioms.intro ipc_preempted_service [OF assms(2,3)] assms(1))

text \<open>What neither the critical sections nor the callbacks write, the service leaves alone.\<close>

definition ipc_leaves :: "('w \<Rightarrow> 'l) \<Rightarrow> 'w port \<Rightarrow> ('x, 'w) sch_ipc_service \<Rightarrow> bool" where
  "ipc_leaves L p s0 \<longleftrightarrow> (\<forall>v. L (crit p v) = L v) \<and> (\<forall>tag ep v. L (ipc_ack s0 tag ep v) = L v) \<and>
     (\<forall>record v. L (ipc_dispatch (hal s0) record v) = L v)"

lemma ipc_apart:
  "ipc_leaves L p s0 \<Longrightarrow>
     apart (\<lambda>s. ipc_inv s \<and> ipc_steps.same_setup s s0) L (ipc_isr_at p) [f \<mapsto> ipc_prog p]"
  unfolding ipc_prog_def by (rule ipc_steps.irq_apart) (simp_all add: ipc_leaves_def)

section \<open>The board\<close>

text \<open>The service on the board: its callbacks write down the records they get.\<close>

definition ipc_board_hal :: "(unit, sch_ipc_irq_record board) sch_ipc_hal" where
  "ipc_board_hal = \<lparr>ack_irq = None, service_notify = Some (\<lambda>c r b. (True, b\<lparr>board_log := board_log b @ [r]\<rparr>)),
     service_ack = Some (\<lambda>c r b. (True, b\<lparr>board_log := board_log b @ [r]\<rparr>)),
     service_fault = Some (\<lambda>c r b. (False, b\<lparr>board_log := board_log b @ [r]\<rparr>)), hal_ctx = None\<rparr>"

definition ipc_board_raw :: "(unit, sch_ipc_irq_record board) sch_ipc_service" where
  "ipc_board_raw = \<lparr>hal = ipc_board_hal,
     irq_records = \<lparr>storage = None, element_size = 0, capacity = 0, head = 9, tail = 9, count = 9, drops = 9,
       overflow = SCH_OVERFLOW_OTHER 9\<rparr>, event_bits = 7, max_records_per_run = 0\<rparr>"

lemma ipc_board_observes: "observes board_log (\<lambda>e. [ipc_record e]) (crit board_port) (ipc_handle ipc_board_hal)"
  unfolding observes_def
proof (intro conjI allI)
  show "board_log (ipc_handle ipc_board_hal e b) = board_log b @ [ipc_record e]" for e b
    by (cases e) (simp_all add: ipc_board_hal_def)
qed simp

section \<open>Properties\<close>

text \<open>
  C35. The records keep their types. From the initialisation on, over any memory and with any
  callbacks, and wherever interrupts hit any number of runs, no interrupt entry and no step of a run
  is undefined, every record that the ring holds carries a tag of the enumeration, and so does every
  record that a pop hands to the switch of the run function: it never takes its default branch.
\<close>

theorem ipc_records_typed:
  assumes "sch_ipc_service_init p (Some raw) (Some h) (Some m) cap max_records mode w = (True, Some s0, w0)"
    and "unat cap * 8 \<le> length m" and "length m < 2 ^ 32"
    and "interleaved (ipc_isr_at p) (ipc_prog p) (s0, w0) es (c, s, v)"
  shows "ipc_isr_at p e s v \<noteq> None \<and> (case c of Stop \<Rightarrow> True | Step f \<Rightarrow> f s v \<noteq> None) \<and>
    (\<forall>r\<in>set (ipc_items s). \<exists>tag. irq_tag r = ipc_tag_value tag) \<and>
    (\<forall>x r s' v'. field_pop irq_records (\<lambda>r s. s\<lparr>irq_records := r\<rparr>) (ring_pop ipc_record_bytes ipc_record_of_bytes p) s x v =
      Some (True, r, s', v') \<longrightarrow> (\<exists>tag. irq_tag r = ipc_tag_value tag))"
proof -
  have "max_records \<noteq> 0" "cap \<noteq> 0" "mode = SCH_OVERFLOW_DROP_NEWEST \<or> mode = SCH_OVERFLOW_DROP_OLDEST"
    using ipc_init_iff [of p "Some raw" "Some h" "Some m" cap max_records mode w] assms(1) by simp_all
  from ipc_init_ok [OF this assms(2,3), of p raw h w] have s0: "ipc_inv s0" "ipc_items s0 = []" using assms(1) by auto
  note typed = ipc_steps.typed_anywhere [OF s0 assms(4) [unfolded ipc_prog_def]]
  have tag: "\<exists>tag. irq_tag r = ipc_tag_value tag" if "r \<in> range ipc_record" for r
  proof -
    from that obtain e where "r = ipc_record e" by blast
    then show ?thesis
      by (cases e) (auto intro: exI [of _ SCH_IPC_IRQ_TAG_NOTIFY] exI [of _ SCH_IPC_IRQ_TAG_ACK] exI [of _ SCH_IPC_IRQ_TAG_FAULT])
  qed
  have "case c of Stop \<Rightarrow> True | Step f \<Rightarrow> f s v \<noteq> None" by (cases c) (use typed(2) in auto)
  moreover have "\<forall>r\<in>set (ipc_items s). \<exists>tag. irq_tag r = ipc_tag_value tag" using typed(3) tag by blast
  ultimately show ?thesis using typed(1) tag [OF typed(4)] by blast
qed

text \<open>Over a memory of 32 bytes, with a notification and an acknowledgement before the first run.\<close>

theorem ipc_records_typed_witness:
  "\<exists>s0 s v.
    sch_ipc_service_init board_port (Some ipc_board_raw) (Some ipc_board_hal) (Some (replicate 32 0)) 3 3
      SCH_OVERFLOW_DROP_OLDEST board_start = (True, Some s0, board_start) \<and>
    interleaved (ipc_isr_at board_port) (ipc_prog board_port) (s0, board_start)
      [IPC_NOTIFY 1 1 1, IPC_ACK 4 5 6] (ipc_prog board_port, s, v) \<and>
    (\<exists>tag. irq_tag (hd (ipc_items s)) = ipc_tag_value tag)"
proof -
  obtain s0 where s0: "sch_ipc_service_init board_port (Some ipc_board_raw) (Some ipc_board_hal) (Some (replicate 32 0)) 3 3
      SCH_OVERFLOW_DROP_OLDEST board_start = (True, Some s0, crit board_port board_start)" "ipc_inv s0" "ipc_items s0 = []"
    "ring_bound (irq_records s0) = unat (3 :: size_t)"
    by (rule ipc_init_ok [of 3 3 SCH_OVERFLOW_DROP_OLDEST "replicate 32 0" board_port ipc_board_raw ipc_board_hal board_start])
      simp_all
  note init = s0(1) [unfolded board_sections]
  let ?E = "interleaved (ipc_isr_at board_port) (ipc_prog board_port) (s0, board_start)"
  obtain s1 v1 where s1: "ipc_isr_at board_port (IPC_NOTIFY 1 1 1) s0 board_start = Some (s1, v1)"
    "ipc_inv s1" "ipc_items s1 = [ipc_record (IPC_NOTIFY 1 1 1)]" "ring_bound (irq_records s1) = 3"
    using ipc.isr_eq [OF s0(2), of board_port "IPC_NOTIFY 1 1 1" board_start] s0(3,4)
    by (auto simp: bounded_push_def)
  obtain s2 v2 where s2: "ipc_isr_at board_port (IPC_ACK 4 5 6) s1 v1 = Some (s2, v2)"
    "ipc_items s2 = [ipc_record (IPC_NOTIFY 1 1 1), ipc_record (IPC_ACK 4 5 6)]"
    using ipc.isr_eq [OF s1(2), of board_port "IPC_ACK 4 5 6" v1] s1(3,4) by (auto simp: bounded_push_def)
  have "?E [] (ipc_prog board_port, s0, board_start)" by (rule interleaved.call [OF interleaved.idle])
  from interleaved.interrupt [OF interleaved.interrupt [OF this s1(1)] s2(1)]
  have e: "?E [IPC_NOTIFY 1 1 1, IPC_ACK 4 5 6] (ipc_prog board_port, s2, v2)" by simp
  have "\<forall>r\<in>set (ipc_items s2). \<exists>tag. irq_tag r = ipc_tag_value tag"
    using ipc_records_typed [OF init _ _ e] by (simp del: ex_simps)
  then have "\<exists>tag. irq_tag (hd (ipc_items s2)) = ipc_tag_value tag" unfolding s2(2) by simp
  with init e show ?thesis by blast
qed

text \<open>
  C26. The IPC service serves its interrupts in time, wherever they hit. The run function of the
  service is registered as a task, beside any tasks that leave it alone; interrupts arrive wherever
  they are enabled, between critical sections of the scheduler, before any step of a run of the
  service, and between polls. No poll and no interrupt entry is ever undefined, and the interrupts
  arrive as supplied. Of those pending at the start and those that arrived since, the callbacks were
  called for some, exactly once each and in their order, later ones are held in the ring, and the
  drop counter has grown by the number of the others; a ring that drops the oldest has lost none of
  the last ones, as many as it holds. And when the release grid of the task has enough points in a
  second stretch of polls for the capacity of the ring, nothing that arrived in the first stretch
  is held any more: no wake-up is lost.
\<close>

theorem ipc_served_anywhere:
  assumes "ipc_inv s0" and "ipc_items s0 = map ipc_record es0"
    and "leaves_log p env log" and "observes log seen (crit p) (ipc_handle (hal s0))"
    and "\<forall>tag ep v. log (ipc_ack s0 tag ep v) = log v"
    and "sch_wf sc" and "sch_quiet sc" and "j < SCH_MAX_TASKS" and "fn (tasks sc ! j) = Some Service_Task"
    and "tracks R period T0 lo (tasks sc ! j)" and "0 < period" and "period \<le> 2 ^ 31"
    and "\<forall>h\<in>set (hs1 @ hs2). \<forall>v. log (h v) = log v"
  shows "\<exists>polls1 sc1 w1 polls2 sc2 w2 served held.
    run_seq cfg (interrupted (ipc_isr_at p) p) (interrupted_app (ipc_isr_at p) (ipc_prog p) env)
      (map (elapse (ipc_isr_at p)) hs1) (Some sc) (system_start s0 v0 batches) = Some (polls1, Some sc1, w1) \<and>
    run_seq cfg (interrupted (ipc_isr_at p) p) (interrupted_app (ipc_isr_at p) (ipc_prog p) env)
      (map (elapse (ipc_isr_at p)) hs2) (Some sc1) w1 = Some (polls2, Some sc2, w2) \<and>
    \<not> broken w2 \<and> prefix (arrived w1) (arrived w2) \<and> arrived w2 @ concat (coming w2) = concat batches \<and>
    subseq (served @ held) (es0 @ arrived w2) \<and>
    (overflow (irq_records s0) = SCH_OVERFLOW_DROP_NEWEST \<or>
      suffix (drop (length (es0 @ arrived w2) - unat (capacity (irq_records s0))) (es0 @ arrived w2)) (served @ held)) \<and>
    ipc_items (service w2) = map ipc_record held \<and>
    log (platform w2) = log v0 @ concat (map seen served) \<and>
    drops (irq_records (service w2)) =
      drops (irq_records s0) + of_nat (length (es0 @ arrived w2) - length (served @ held)) \<and>
    (\<forall>Ts. map fst (polls1 @ polls2) = map of_nat Ts \<and> polls_close T0 Ts \<and>
        unat (capacity (irq_records s0)) \<le> releases_after (length hs1) R period lo Ts * unat (max_records_per_run s0) \<longrightarrow>
      subseq held (drop (length (arrived w1)) (arrived w2)))"
  unfolding ipc_prog_def ring_bound_def [symmetric] ring_newest_def [symmetric]
  by (rule ipc_steps.served_anywhere [OF assms(3,4) _ ipc_dispatch_record assms(1,2,6-13)]) (use assms(5) in simp)

text \<open>A notification before the first poll, at 500 ticks, and a fault later; the second poll is at 1500 ticks.\<close>

theorem ipc_served_anywhere_witness:
  "\<exists>s0 polls1 sc1 w1 polls2 sc2 w2.
    sch_ipc_service_init board_port (Some ipc_board_raw) (Some ipc_board_hal) (Some (replicate 32 0)) 3 3
      SCH_OVERFLOW_DROP_OLDEST board_start = (True, Some s0, board_start) \<and>
    run_seq all_on (interrupted (ipc_isr_at board_port) board_port)
      (interrupted_app (ipc_isr_at board_port) (ipc_prog board_port) board_env)
      [elapse (ipc_isr_at board_port) (board_at 500)] (Some board_sch)
      (system_start s0 board_start [[IPC_NOTIFY 1 1 1], [IPC_FAULT 4 5 6]]) = Some (polls1, Some sc1, w1) \<and>
    run_seq all_on (interrupted (ipc_isr_at board_port) board_port)
      (interrupted_app (ipc_isr_at board_port) (ipc_prog board_port) board_env)
      [elapse (ipc_isr_at board_port) (board_at 1500)] (Some sc1) w1 = Some (polls2, Some sc2, w2) \<and>
    \<not> broken w2 \<and> board_log (platform w2) \<noteq> [] \<and> hd (board_log (platform w2)) = ipc_record (IPC_NOTIFY 1 1 1)"
proof -
  let ?isr = "ipc_isr_at board_port :: _ \<Rightarrow> (unit, sch_ipc_irq_record board) sch_ipc_service \<Rightarrow> _"
  let ?p = "interrupted ?isr board_port" and ?env = "interrupted_app ?isr (ipc_prog board_port) board_env"
  let ?batches = "[[IPC_NOTIFY 1 1 1], [IPC_FAULT 4 5 6]]"
  let ?h1 = "board_at 500 :: sch_ipc_irq_record board \<Rightarrow> _" and ?h2 = "board_at 1500 :: sch_ipc_irq_record board \<Rightarrow> _"
  obtain s0 where s0: "sch_ipc_service_init board_port (Some ipc_board_raw) (Some ipc_board_hal) (Some (replicate 32 0)) 3 3
      SCH_OVERFLOW_DROP_OLDEST board_start = (True, Some s0, crit board_port board_start)" "ipc_inv s0" "ipc_items s0 = []"
    "hal s0 = ipc_board_hal" "ring_bound (irq_records s0) = unat (3 :: size_t)"
    "ring_newest (irq_records s0) \<longleftrightarrow> SCH_OVERFLOW_DROP_OLDEST = SCH_OVERFLOW_DROP_NEWEST" "max_records_per_run s0 = 3"
    by (rule ipc_init_ok [of 3 3 SCH_OVERFLOW_DROP_OLDEST "replicate 32 0" board_port ipc_board_raw ipc_board_hal board_start])
      simp_all
  have obs: "observes board_log (\<lambda>e. [ipc_record e]) (crit board_port) (ipc_handle (hal s0))"
    using ipc_board_observes s0(4) by simp
  have silent: "ipc_ack s0 tag ep v = v" for tag ep v by (simp add: ipc_ack_def s0(4) ipc_board_hal_def)
  then have ack: "\<forall>tag ep v. board_log (ipc_ack s0 tag ep v) = board_log v" by simp
  have items: "ipc_items s0 = map ipc_record []" using s0(3) by simp
  have hs: "\<forall>h\<in>set ([?h1] @ [?h2]). \<forall>v. board_log (h v) = board_log v" by simp
  have num: "(0::nat) < 1000" "(1000::nat) \<le> 2 ^ 31" by simp_all
  obtain polls1 sc1 w1 polls2 sc2 w2 served held where
    r: "run_seq all_on ?p ?env (map (elapse ?isr) [?h1]) (Some board_sch) (system_start s0 board_start ?batches) =
        Some (polls1, Some sc1, w1)"
      "run_seq all_on ?p ?env (map (elapse ?isr) [?h2]) (Some sc1) w1 = Some (polls2, Some sc2, w2)"
    and arr: "\<not> broken w2" "prefix (arrived w1) (arrived w2)" "arrived w2 @ concat (coming w2) = concat ?batches"
    and kept: "subseq (served @ held) ([] @ arrived w2)"
      "overflow (irq_records s0) = SCH_OVERFLOW_DROP_NEWEST \<or>
        suffix (drop (length ([] @ arrived w2) - unat (capacity (irq_records s0))) ([] @ arrived w2)) (served @ held)"
    and log: "board_log (platform w2) = board_log board_start @ concat (map (\<lambda>e. [ipc_record e]) served)"
    and gone: "\<forall>Ts. map fst (polls1 @ polls2) = map of_nat Ts \<and> polls_close 0 Ts \<and>
        unat (capacity (irq_records s0)) \<le> releases_after (length [?h1]) 0 1000 0 Ts * unat (max_records_per_run s0) \<longrightarrow>
      subseq held (drop (length (arrived w1)) (arrived w2))"
    using ipc_served_anywhere [OF s0(2) items board_leaves obs ack board_ok num hs, of all_on board_start ?batches]
    by (elim exE conjE)
  have ack': "\<forall>e v. board_log (ipc_ack s0 (ipc_interrupt_tag e) (endpoint (ipc_record e)) v) = board_log v"
    using silent by simp
  note clock = ipc_steps.irq_account_clock [where clock = board_ticks, OF obs ack' _ arg_cong [OF silent, where f = board_ticks]]
  from board_two_polls [OF ipc_preempted_app [OF board_leaves obs ack] clock ipc_steps.irq_account_start [OF s0(2) items]
      r [unfolded list.map]]
  have "map fst (polls1 @ polls2) = map of_nat [500, 1500] \<and> polls_close 0 [500, 1500]"
    and first: "prefix [IPC_NOTIFY 1 1 1] (arrived w1)" by simp_all
  moreover have "releases_after (length [?h1]) 0 1000 0 [500, 1500] = 1" by (simp add: board_grid)
  ultimately have held: "subseq held (drop (length (arrived w1)) (arrived w2))"
    using gone [THEN spec, of "[500, 1500]"] s0(5,7) by (simp add: ring_bound_def)
  have "length (arrived w2) \<le> 2" using arg_cong [OF arr(3), of length] by simp
  then have "suffix (arrived w2) (served @ held)"
    using kept(2) s0(5,6) by (simp add: ring_bound_def ring_newest_def)
  moreover have "0 < length (arrived w1)" "arrived w2 \<noteq> []" "hd (arrived w2) = IPC_NOTIFY 1 1 1"
    using first arr(2) by (auto simp: prefix_def)
  ultimately have "served \<noteq> [] \<and> hd served = IPC_NOTIFY 1 1 1" using first_served [OF _ _ held] kept(1) by simp
  then have "board_log (platform w2) \<noteq> [] \<and> hd (board_log (platform w2)) = ipc_record (IPC_NOTIFY 1 1 1)"
    using log by (cases served) (simp_all add: board_start_def)
  then show ?thesis using s0(1) r [unfolded list.map] arr(1) by (simp only: board_sections) blast
qed

end
