(* ===== verification/Motor_Ipc_Together.thy ===== *)
theory Motor_Ipc_Together
  imports Motor_Scheduled Ipc_Scheduled
begin

text \<open>
  Two services at once: the motor supervision and the IPC service as two tasks of one scheduler, with
  the interrupts of both arriving anywhere, also in the runs of the other. What either guarantees
  alone it guarantees here, if neither writes the log of the other.
\<close>

section \<open>The two services under one scheduler\<close>

abbreviation motor_ipc_isr ::
  "'w port \<Rightarrow> motor_interrupt + ipc_interrupt \<Rightarrow> ('x, 'w) sch_motor_service \<times> ('y, 'w) sch_ipc_service \<Rightarrow> 'w \<Rightarrow>
   ((('x, 'w) sch_motor_service \<times> ('y, 'w) sch_ipc_service) \<times> 'w) option" where
  "motor_ipc_isr p \<equiv> both (motor_isr_at p) (ipc_isr_at p)"

abbreviation motor_ipc ::
  "'f \<Rightarrow> 'f \<Rightarrow> 'w port \<Rightarrow> 'f \<rightharpoonup> (('x, 'w) sch_motor_service \<times> ('y, 'w) sch_ipc_service, 'w) prog" where
  "motor_ipc f g p \<equiv> side_by_side [f \<mapsto> motor_prog p] [g \<mapsto> ipc_prog p]"

abbreviation motor_ipc_track where
  "motor_ipc_track calls log seen m0 c0 w0 es0 \<equiv>
     jointly (motor_track calls m0 {}) (ipc_steps.irq_account log seen c0 w0 es0 0 0 [])"

abbreviation motor_ipc_stage where
  "motor_ipc_stage f g calls log seen m0 c0 w0 es0 \<equiv> joint_stage
     {f} (motor_track calls m0 {}) (\<lambda>h k n. if h = f then motor_stage calls m0 k n else motor_track calls m0 {})
     {g} (ipc_steps.irq_account log seen c0 w0 es0 0 0 [])
     (\<lambda>h k n. if h = g then ipc_steps.irq_stage log seen c0 w0 es0 k n else ipc_steps.irq_account log seen c0 w0 es0 0 0 [])"

lemma motor_ipc_apps:
  assumes "observes_motor calls p (sch_motor_service.hal m0)" and "silent_isr calls (sch_motor_service.hal m0)"
    and "observes log seen (crit p) (ipc_handle (sch_ipc_service.hal c0))" and "\<forall>tag ep v. log (ipc_ack c0 tag ep v) = log v"
    and "motor_leaves log p (sch_motor_service.hal m0)" and "ipc_leaves calls p c0"
    and "f \<noteq> g" and "leaves_but {f, g} p env (\<lambda>v. (calls v, log v))"
  shows "preempted_apps (motor_ipc_isr p) (motor_ipc f g p) p env (\<lambda>v. (calls v, log v))
    (motor_ipc_track calls log seen m0 c0 w0 es0) (motor_ipc_stage f g calls log seen m0 c0 w0 es0)"
proof (intro preempted_apps.intro preempted_apps_axioms.intro)
  note motor = preempted_service.single [OF motor_preempted_service [OF assms(1,2)], of f]
  note ipc = preempted_service.single [OF ipc_preempted_service [OF assms(3,4)], of g]
  have stage: "(if h = f then motor_stage calls m0 k n else motor_track calls m0 {}) s v es \<Longrightarrow>
      motor_inv s \<and> sch_motor_service.hal s = sch_motor_service.hal m0" for h k n s v es
    by (auto simp: motor_stage_def motor_past_def motor_track_def split: if_splits)
  have stage': "(if h = g then ipc_steps.irq_stage log seen c0 w0 es0 k n
        else ipc_steps.irq_account log seen c0 w0 es0 0 0 []) s v es \<Longrightarrow>
      ipc_inv s \<and> ipc_steps.same_setup s c0" for h k n s v es
    by (auto simp: ipc_steps.irq_stage_def ipc_steps.irq_account_def split: if_splits)
  have "dom [f \<mapsto> motor_prog p] = {f}" "dom [g \<mapsto> ipc_prog p] = {g}" by simp_all
  note both = services_together [OF motor ipc _ motor_apart [OF assms(5)] ipc_apart [OF assms(6)] _ stage _ stage', unfolded this]
  show "preempted_services (motor_ipc_isr p) (motor_ipc f g p) (\<lambda>v. (calls v, log v))
    (motor_ipc_track calls log seen m0 c0 w0 es0) (motor_ipc_stage f g calls log seen m0 c0 w0 es0)"
    by (rule both) (use assms(7) in \<open>auto simp: motor_track_def ipc_steps.irq_account_def\<close>)
  show "leaves_but (dom (motor_ipc f g p)) p env (\<lambda>v. (calls v, log v))"
    using assms(8) by (simp add: dom_side_by_side insert_commute)
qed

section \<open>The board\<close>

text \<open>The two services on one board; its log holds the calls of both.\<close>

datatype joint_call = Motor_Call motor_call | Ipc_Call sch_ipc_irq_record

fun motor_of :: "joint_call \<Rightarrow> motor_call option" where
  "motor_of (Motor_Call c) = Some c"
| "motor_of (Ipc_Call r) = None"

fun ipc_of :: "joint_call \<Rightarrow> sch_ipc_irq_record option" where
  "ipc_of (Motor_Call c) = None"
| "ipc_of (Ipc_Call r) = Some r"

definition joint_motor_log :: "joint_call board \<Rightarrow> motor_call list" where
  "joint_motor_log b = List.map_filter motor_of (board_log b)"

definition joint_ipc_log :: "joint_call board \<Rightarrow> sch_ipc_irq_record list" where
  "joint_ipc_log b = List.map_filter ipc_of (board_log b)"

definition joint_motor_hal :: "(unit, joint_call board) sch_motor_hal" where
  "joint_motor_hal = \<lparr>sch_motor_hal.ack_irq = None, read_feedback_sample = None,
     set_enable = Some (\<lambda>c on b. (True, b\<lparr>board_log := board_log b @ [Motor_Call (SET_ENABLE on)]\<rparr>)),
     set_target_speed_rpm = Some (\<lambda>c rpm b. (True, b\<lparr>board_log := board_log b @ [Motor_Call (SET_TARGET rpm)]\<rparr>)), hal_ctx = None\<rparr>"

definition joint_motor_service :: "(unit, joint_call board) sch_motor_service" where
  "joint_motor_service = \<lparr>sch_motor_service.hal = joint_motor_hal, feedback_ring = motor_sample_ring 4,
     event_queue = \<lparr>ring = motor_sample_ring 2\<rparr>, target_speed_rpm = 1500, enabled = True, irq_hint = False,
     max_feedback_items_per_run = 2, max_events_per_run = 3\<rparr>"

definition joint_ipc_hal :: "(unit, joint_call board) sch_ipc_hal" where
  "joint_ipc_hal = \<lparr>ack_irq = None,
     service_notify = Some (\<lambda>c r b. (True, b\<lparr>board_log := board_log b @ [Ipc_Call r]\<rparr>)),
     service_ack = Some (\<lambda>c r b. (True, b\<lparr>board_log := board_log b @ [Ipc_Call r]\<rparr>)),
     service_fault = Some (\<lambda>c r b. (False, b\<lparr>board_log := board_log b @ [Ipc_Call r]\<rparr>)), hal_ctx = None\<rparr>"

definition joint_ipc_raw :: "(unit, joint_call board) sch_ipc_service" where
  "joint_ipc_raw = \<lparr>hal = joint_ipc_hal,
     irq_records = \<lparr>storage = None, element_size = 0, capacity = 0, head = 9, tail = 9, count = 9, drops = 9,
       overflow = SCH_OVERFLOW_OTHER 9\<rparr>, event_bits = 7, max_records_per_run = 0\<rparr>"

definition joint_ipc_service :: "(unit, joint_call board) sch_ipc_service" where
  "joint_ipc_service = the (fst (snd (sch_ipc_service_init board_port (Some joint_ipc_raw) (Some joint_ipc_hal)
     (Some (replicate 32 0)) 3 3 SCH_OVERFLOW_DROP_OLDEST (board_start :: joint_call board))))"

lemma joint_logs [simp]:
  "joint_motor_log (b\<lparr>board_log := l\<rparr>) = List.map_filter motor_of l" "joint_ipc_log (b\<lparr>board_log := l\<rparr>) = List.map_filter ipc_of l"
  "joint_motor_log (b\<lparr>board_ticks := t\<rparr>) = joint_motor_log b" "joint_ipc_log (b\<lparr>board_ticks := t\<rparr>) = joint_ipc_log b"
  by (simp_all add: joint_motor_log_def joint_ipc_log_def)

lemma joint_motor_ok:
  "motor_inv joint_motor_service" "observes_motor joint_motor_log board_port (sch_motor_service.hal joint_motor_service)"
  "silent_isr joint_motor_log (sch_motor_service.hal joint_motor_service)"
  "capacity (ring (event_queue joint_motor_service)) = 3" "max_events_per_run joint_motor_service = 3"
  "motor_leaves joint_ipc_log board_port (sch_motor_service.hal joint_motor_service)"
  "motor_leaves board_ticks board_port (sch_motor_service.hal joint_motor_service)"
  by (simp_all add: joint_motor_service_def motor_inv_def observes_motor_def silent_isr_def motor_leaves_def
      typed_inv_def event_inv_def motor_sample_ring_def ring_inv_iff sizeof_u16_def sizeof_feedback_def ring_newest_def
      joint_motor_hal_def map_filter_append List.map_filter_simps flip: joint_motor_log_def joint_ipc_log_def)

lemma joint_ipc_init:
  "sch_ipc_service_init board_port (Some joint_ipc_raw) (Some joint_ipc_hal) (Some (replicate 32 0)) 3 3
     SCH_OVERFLOW_DROP_OLDEST (board_start :: joint_call board) = (True, Some joint_ipc_service, board_start)"
  and joint_ipc_ok: "ipc_inv joint_ipc_service" "ipc_items joint_ipc_service = map ipc_record []"
    "sch_ipc_service.hal joint_ipc_service = joint_ipc_hal"
    "unat (capacity (irq_records joint_ipc_service)) = 3" "unat (max_records_per_run joint_ipc_service) = 3"
    "overflow (irq_records joint_ipc_service) \<noteq> SCH_OVERFLOW_DROP_NEWEST"
proof -
  obtain s0 where s0: "sch_ipc_service_init board_port (Some joint_ipc_raw) (Some joint_ipc_hal) (Some (replicate 32 0)) 3 3
      SCH_OVERFLOW_DROP_OLDEST (board_start :: joint_call board) = (True, Some s0, crit board_port board_start)"
    "ipc_inv s0" "ipc_items s0 = []" "sch_ipc_service.hal s0 = joint_ipc_hal" "ring_bound (irq_records s0) = unat (3 :: size_t)"
    "ring_newest (irq_records s0) \<longleftrightarrow> SCH_OVERFLOW_DROP_OLDEST = SCH_OVERFLOW_DROP_NEWEST" "max_records_per_run s0 = 3"
    by (rule ipc_init_ok [of 3 3 SCH_OVERFLOW_DROP_OLDEST "replicate 32 0" board_port joint_ipc_raw joint_ipc_hal board_start])
      simp_all
  then have "joint_ipc_service = s0" by (simp add: joint_ipc_service_def)
  with s0 show "sch_ipc_service_init board_port (Some joint_ipc_raw) (Some joint_ipc_hal) (Some (replicate 32 0)) 3 3
     SCH_OVERFLOW_DROP_OLDEST (board_start :: joint_call board) = (True, Some joint_ipc_service, board_start)"
    "ipc_inv joint_ipc_service" "ipc_items joint_ipc_service = map ipc_record []"
    "sch_ipc_service.hal joint_ipc_service = joint_ipc_hal"
    "unat (capacity (irq_records joint_ipc_service)) = 3" "unat (max_records_per_run joint_ipc_service) = 3"
    "overflow (irq_records joint_ipc_service) \<noteq> SCH_OVERFLOW_DROP_NEWEST"
    by (simp_all add: ring_bound_def ring_newest_def)
qed

lemma joint_ipc_dispatch:
  "ipc_dispatch joint_ipc_hal r b = b \<or> ipc_dispatch joint_ipc_hal r b = b\<lparr>board_log := board_log b @ [Ipc_Call r]\<rparr>"
  by (simp add: ipc_dispatch_def joint_ipc_hal_def Let_def)

lemma joint_ipc_fits:
  "observes joint_ipc_log (\<lambda>e. [ipc_record e]) (crit board_port) (ipc_handle (sch_ipc_service.hal joint_ipc_service))"
  "\<forall>tag ep v. joint_ipc_log (ipc_ack joint_ipc_service tag ep v) = joint_ipc_log v"
  "ipc_leaves joint_motor_log board_port joint_ipc_service" "ipc_leaves board_ticks board_port joint_ipc_service"
proof -
  have ack: "ipc_ack joint_ipc_service tag ep v = v" for tag ep v
    by (simp add: ipc_ack_def joint_ipc_ok(3)) (simp add: joint_ipc_hal_def)
  then show "\<forall>tag ep v. joint_ipc_log (ipc_ack joint_ipc_service tag ep v) = joint_ipc_log v" by simp
  have "joint_motor_log (ipc_dispatch joint_ipc_hal r v) = joint_motor_log v"
    "board_ticks (ipc_dispatch joint_ipc_hal r v) = board_ticks v" for r v
    using joint_ipc_dispatch [of r v]
    by (auto simp: map_filter_append List.map_filter_simps simp flip: joint_motor_log_def)
  then show "ipc_leaves joint_motor_log board_port joint_ipc_service" "ipc_leaves board_ticks board_port joint_ipc_service"
    by (simp_all add: ipc_leaves_def ack joint_ipc_ok(3))
  have "joint_ipc_log (ipc_handle joint_ipc_hal e b) = joint_ipc_log b @ [ipc_record e]" for e b
    by (cases e) (simp_all add: joint_ipc_hal_def map_filter_append List.map_filter_simps flip: joint_ipc_log_def)
  then show "observes joint_ipc_log (\<lambda>e. [ipc_record e]) (crit board_port) (ipc_handle (sch_ipc_service.hal joint_ipc_service))"
    by (simp add: observes_def joint_ipc_ok(3))
qed

text \<open>The motor supervision as a part of the board, and the two services as its application.\<close>

abbreviation joint_calls :: "joint_call board \<Rightarrow> motor_call list \<times> sch_ipc_irq_record list" where
  "joint_calls \<equiv> \<lambda>b. (joint_motor_log b, joint_ipc_log b)"

abbreviation joint_services :: "unit app_fn \<rightharpoonup>
    ((unit, joint_call board) sch_motor_service \<times> (unit, joint_call board) sch_ipc_service, joint_call board) prog" where
  "joint_services \<equiv> motor_ipc Service_Task (Other_Task ()) board_port"

abbreviation joint_track ::
  "(unit, joint_call board) sch_motor_service \<times> (unit, joint_call board) sch_ipc_service \<Rightarrow> joint_call board \<Rightarrow>
   (motor_interrupt + ipc_interrupt) list \<Rightarrow> bool" where
  "joint_track \<equiv> motor_ipc_track joint_motor_log joint_ipc_log (\<lambda>e. [ipc_record e]) joint_motor_service joint_ipc_service
     board_start []"

lemma joint_keeps:
  "isr_keeps (\<lambda>s. motor_inv s \<and> sch_motor_service.hal s = sch_motor_service.hal joint_motor_service) joint_ipc_log
     (motor_isr_at board_port)"
  "isr_keeps (\<lambda>s. ipc_inv s \<and> ipc_steps.same_setup s joint_ipc_service) joint_motor_log (ipc_isr_at board_port)"
  "isr_keeps (\<lambda>s. motor_inv s \<and> sch_motor_service.hal s = sch_motor_service.hal joint_motor_service) board_ticks
     (motor_isr_at board_port)"
  "isr_keeps (\<lambda>s. ipc_inv s \<and> ipc_steps.same_setup s joint_ipc_service) board_ticks (ipc_isr_at board_port)"
  by (rule apart_isr [OF motor_apart [OF joint_motor_ok(6)]] apart_isr [OF ipc_apart [OF joint_ipc_fits(3)]]
    apart_isr [OF motor_apart [OF joint_motor_ok(7)]] apart_isr [OF ipc_apart [OF joint_ipc_fits(4)]])+

lemma joint_account_inv:
  "ipc_steps.irq_account joint_ipc_log (\<lambda>e. [ipc_record e]) joint_ipc_service w0 es0 t m flight s w es \<Longrightarrow>
     ipc_inv s \<and> ipc_steps.same_setup s joint_ipc_service"
  by (simp add: ipc_steps.irq_account_def)

lemma joint_acks:
  "\<forall>e v. joint_ipc_log (ipc_ack joint_ipc_service (ipc_interrupt_tag e) (endpoint (ipc_record e)) v) = joint_ipc_log v"
  using joint_ipc_fits(2) by simp

interpretation joint_motor: part "motor_isr_at board_port" joint_motor_log fst "\<lambda>a (_, b). (a, b)" of_first
  "motor_ipc_isr board_port" joint_calls
  "\<lambda>s. motor_inv s \<and> sch_motor_service.hal s = sch_motor_service.hal joint_motor_service" joint_ipc_log
  "\<lambda>s w es. ipc_steps.irq_account joint_ipc_log (\<lambda>e. [ipc_record e]) joint_ipc_service board_start [] 0 0 [] (snd s) w (seconds es)"
  by (rule first_part [OF joint_keeps(1,2) ipc_steps.irq_account_stable(1) [OF joint_ipc_fits(1) joint_acks] joint_account_inv])

lemma board_leaves_joint: "leaves_but {Service_Task, Other_Task ()} board_port board_env joint_calls"
  by (simp add: leaves_but_def board_port_def board_env_def frame_refl)

interpretation joint: preempted_apps "motor_ipc_isr board_port" joint_services board_port board_env joint_calls joint_track
  "motor_ipc_stage Service_Task (Other_Task ()) joint_motor_log joint_ipc_log (\<lambda>e. [ipc_record e])
     joint_motor_service joint_ipc_service board_start []"
  by (rule motor_ipc_apps [OF joint_motor_ok(2,3) joint_ipc_fits(1,2) joint_motor_ok(6) joint_ipc_fits(3)
    _ board_leaves_joint]) simp

lemma joint_stable:
  "stable (motor_ipc_isr board_port) (\<lambda>v. v) (\<lambda>s v es. joint_track s v es \<and> board_ticks v = t)"
  by (rule stable_clock [OF joint.J_stable both_keeps [OF joint_keeps(3,4)]])
    (auto simp: jointly_def motor_track_def dest: joint_account_inv)

section \<open>Properties\<close>

text \<open>
  C30. The motor stops in time and the IPC service serves in time, both on one scheduler. Their run
  functions are two of its tasks, of any priorities and periods, beside any others that leave them
  alone; the interrupts of both arrive wherever they are enabled, so also an IPC interrupt in a run
  of the motor supervision, a fault in a run of the IPC service, and either between critical sections
  of the scheduler; neither writes the log of the other. No poll and no interrupt entry is ever
  undefined, and the interrupts arrive as supplied. A motor fault that arrived in the first stretch of
  polls and is still among the last motor events, as many as the queue holds, has stopped the motor
  by the end of the second stretch, if the release grid of the motor's task has enough points in it:
  so many that as many runs, each with its budget of \<^verbatim>\<open>max_events_per_run\<close> events, could take all
  the event queue can hold; one point is enough only when the budget covers the capacity. And of
  the IPC interrupts the callbacks were called for some, exactly once each and in their order, later
  ones are held, the drop counter has grown by the number of the others, and nothing that arrived in
  the first stretch is held any more if the second has enough points of the grid of the IPC task.
\<close>

theorem motor_off_beside_ipc:
  assumes "motor_inv m0" and "observes_motor calls p (sch_motor_service.hal m0)"
    and "silent_isr calls (sch_motor_service.hal m0)"
    and "ipc_inv c0" and "ipc_items c0 = map ipc_record es0"
    and "observes log seen (crit p) (ipc_handle (sch_ipc_service.hal c0))" and "\<forall>tag ep v. log (ipc_ack c0 tag ep v) = log v"
    and "motor_leaves log p (sch_motor_service.hal m0)" and "ipc_leaves calls p c0"
    and "f \<noteq> g" and "leaves_but {f, g} p env (\<lambda>v. (calls v, log v))"
    and "sch_wf sc" and "sch_quiet sc"
    and "i < SCH_MAX_TASKS" and "fn (tasks sc ! i) = Some f" and "tracks R period T0 lo (tasks sc ! i)"
    and "0 < period" and "period \<le> 2 ^ 31"
    and "j < SCH_MAX_TASKS" and "fn (tasks sc ! j) = Some g" and "tracks R' period' T0 lo' (tasks sc ! j)"
    and "0 < period'" and "period' \<le> 2 ^ 31"
    and "\<forall>h\<in>set (hs1 @ hs2). \<forall>v. (calls (h v), log (h v)) = (calls v, log v)"
  shows "\<exists>polls1 sc1 w1 polls2 sc2 w2 served held.
    run_seq cfg (interrupted (motor_ipc_isr p) p) (interrupted_apps (motor_ipc_isr p) (motor_ipc f g p) env)
      (map (elapse (motor_ipc_isr p)) hs1) (Some sc) (system_start (m0, c0) v0 batches) = Some (polls1, Some sc1, w1) \<and>
    run_seq cfg (interrupted (motor_ipc_isr p) p) (interrupted_apps (motor_ipc_isr p) (motor_ipc f g p) env)
      (map (elapse (motor_ipc_isr p)) hs2) (Some sc1) w1 = Some (polls2, Some sc2, w2) \<and>
    \<not> broken w2 \<and> prefix (arrived w1) (arrived w2) \<and> arrived w2 @ concat (coming w2) = concat batches \<and>
    (\<forall>Ts k. map fst (polls1 @ polls2) = map of_nat Ts \<and> polls_close T0 Ts \<and>
        unat (capacity (ring (event_queue m0))) \<le> releases_after (length hs1) R period lo Ts * unat (max_events_per_run m0) \<and>
        k < length (firsts (arrived w1)) \<and> firsts (arrived w1) ! k = MOTOR_FAULT \<and>
        length (firsts (arrived w2)) \<le> k + unat (capacity (ring (event_queue m0))) \<longrightarrow>
      \<not> enabled (fst (service w2)) \<and> calls (platform w2) \<noteq> [] \<and> last (calls (platform w2)) = SET_ENABLE False) \<and>
    subseq (served @ held) (es0 @ seconds (arrived w2)) \<and>
    (overflow (irq_records c0) = SCH_OVERFLOW_DROP_NEWEST \<or>
      suffix (drop (length (es0 @ seconds (arrived w2)) - unat (capacity (irq_records c0))) (es0 @ seconds (arrived w2)))
        (served @ held)) \<and>
    ipc_items (snd (service w2)) = map ipc_record held \<and>
    log (platform w2) = log v0 @ concat (map seen served) \<and>
    drops (irq_records (snd (service w2))) =
      drops (irq_records c0) + of_nat (length (es0 @ seconds (arrived w2)) - length (served @ held)) \<and>
    (\<forall>Ts. map fst (polls1 @ polls2) = map of_nat Ts \<and> polls_close T0 Ts \<and>
        unat (capacity (irq_records c0)) \<le> releases_after (length hs1) R' period' lo' Ts * unat (max_records_per_run c0) \<longrightarrow>
      subseq held (drop (length (seconds (arrived w1))) (seconds (arrived w2))))"
proof -
  let ?isr = "motor_ipc_isr p" and ?w = "system_start (m0, c0) v0 batches"
  let ?log = "\<lambda>v. (calls v, log v)"
  let ?J = "motor_ipc_track calls log seen m0 c0 v0 es0" and ?P = "motor_ipc_stage f g calls log seen m0 c0 v0 es0"
  have apps: "preempted_apps ?isr (motor_ipc f g p) p env ?log ?J ?P"
    by (rule motor_ipc_apps [OF assms(2,3,6-11)])
  have "motor_track calls m0 {} m0 v0 []"
    by (rule motor_trackI [where m = 0 and evs = "motor_pending m0 @ map motor_event []"])
      (use assms(1) in \<open>simp_all add: accounted_def\<close>)
  moreover have "ipc_steps.irq_account log seen c0 v0 es0 0 0 [] c0 v0 []" by (rule ipc_steps.irq_account_start [OF assms(4,5)])
  ultimately have start: "holds ?J ?w" by (simp add: jointly_def List.map_filter_simps)
  have dom: "f \<in> dom (motor_ipc f g p)" "g \<in> dom (motor_ipc f g p)" by (simp_all add: dom_side_by_side)
  from preempted_apps.polls_advance_both [OF apps assms(12,13) start assms(24,14,15) dom(1) assms(16-20) dom(2) assms(21-23), of cfg]
  obtain polls1 sc1 w1 polls2 sc2 w2 n n' where
    r: "run_seq cfg (interrupted ?isr p) (interrupted_apps ?isr (motor_ipc f g p) env) (map (elapse ?isr) hs1) (Some sc) ?w =
        Some (polls1, Some sc1, w1)"
      "run_seq cfg (interrupted ?isr p) (interrupted_apps ?isr (motor_ipc f g p) env) (map (elapse ?isr) hs2) (Some sc1) w1 =
        Some (polls2, Some sc2, w2)"
    and J: "holds ?J w1" "supplied ?w w1" "holds ?J w2" "supplied w1 w2"
    and prog: "\<forall>k m. holds (?P f k m) w1 \<longrightarrow> holds (?P f k (m + n)) w2"
      "\<forall>k m. holds (?P g k m) w1 \<longrightarrow> holds (?P g k (m + n')) w2"
    and met: "\<forall>Ts. map fst (polls1 @ polls2) = map of_nat Ts \<longrightarrow> polls_close T0 Ts \<longrightarrow>
      releases_after (length hs1) R period lo Ts \<le> n \<and> releases_after (length hs1) R' period' lo' Ts \<le> n'" by blast
  let ?k = "length (motor_pending m0) + length (firsts (arrived w1))" and ?t = "length (es0 @ seconds (arrived w1))"
  have now: "\<not> broken w1" "motor_track calls m0 {} (fst (service w1)) (platform w1) (firsts (arrived w1))"
    "ipc_steps.irq_account log seen c0 v0 es0 0 0 [] (snd (service w1)) (platform w1) (seconds (arrived w1))"
    using J(1) by (simp_all add: holds_def jointly_def)
  have "motor_stage calls m0 ?k 0 (fst (service w1)) (platform w1) (firsts (arrived w1))"
    using motor_past_start [OF now(2)] by (simp add: motor_stage_def)
  moreover have "ipc_steps.irq_stage log seen c0 v0 es0 ?t 0 (snd (service w1)) (platform w1) (seconds (arrived w1))"
    using ipc_steps.irq_account_now [OF now(3)] by (simp add: ipc_steps.irq_stage_def)
  ultimately have at: "holds (?P f (Inl ?k) 0) w1" "holds (?P g (Inr ?t) 0) w1"
    using now by (simp_all add: holds_def jointly_def)
  note prog(1) [rule_format, OF at(1), unfolded add_0] prog(2) [rule_format, OF at(2), unfolded add_0]
  then have stage: "motor_stage calls m0 ?k n (fst (service w2)) (platform w2) (firsts (arrived w2))"
    "ipc_steps.irq_stage log seen c0 v0 es0 ?t n' (snd (service w2)) (platform w2) (seconds (arrived w2))"
    by (simp_all add: holds_def jointly_def)
  from stage(2) obtain served held where a: "subseq (served @ held) (es0 @ seconds (arrived w2))"
    "ring_newest (irq_records c0) \<or>
      suffix (drop (length (es0 @ seconds (arrived w2)) - ring_bound (irq_records c0)) (es0 @ seconds (arrived w2))) (served @ held)"
    "ipc_items (snd (service w2)) = map ipc_record held" "log (platform w2) = log v0 @ concat (map seen served)"
    "drops (irq_records (snd (service w2))) =
      drops (irq_records c0) + of_nat (length (es0 @ seconds (arrived w2)) - length (served @ held))"
    "ring_bound (irq_records c0) \<le> n' * unat (max_records_per_run c0) \<longrightarrow>
      subseq held (drop (length (seconds (arrived w1))) (seconds (arrived w2)))"
    by (rule ipc_steps.irq_stage_end)
  have arr: "\<not> broken w2" "prefix (arrived w1) (arrived w2)" "arrived w2 @ concat (coming w2) = concat batches"
    using J by (simp_all add: holds_def supplied_def system_start_def)
  have off: "\<not> enabled (fst (service w2)) \<and> calls (platform w2) \<noteq> [] \<and> last (calls (platform w2)) = SET_ENABLE False"
    if "map fst (polls1 @ polls2) = map of_nat Ts" "polls_close T0 Ts"
      "unat (capacity (ring (event_queue m0))) \<le> releases_after (length hs1) R period lo Ts * unat (max_events_per_run m0)"
      "k < length (firsts (arrived w1))" "firsts (arrived w1) ! k = MOTOR_FAULT"
      "length (firsts (arrived w2)) \<le> k + unat (capacity (ring (event_queue m0)))" for Ts k
  proof -
    have "unat (capacity (ring (event_queue m0))) \<le> n * unat (max_events_per_run m0)"
      using met that(1-3) by (meson le_trans mult_le_mono1)
    then show ?thesis using motor_stage_end [OF stage(1) _ map_filter_prefix [OF arr(2)]] that(4-6) by blast
  qed
  have gone: "subseq held (drop (length (seconds (arrived w1))) (seconds (arrived w2)))"
    if "map fst (polls1 @ polls2) = map of_nat Ts" "polls_close T0 Ts"
      "unat (capacity (irq_records c0)) \<le> releases_after (length hs1) R' period' lo' Ts * unat (max_records_per_run c0)" for Ts
    using met that a(6) unfolding ring_bound_def by (meson le_trans mult_le_mono1)
  show ?thesis
    by ((rule exI)+, intro conjI, rule r(1), rule r(2), rule arr(1), rule arr(2), rule arr(3),
        intro allI impI, elim conjE, rule off, assumption+, rule a(1), rule a(2) [unfolded ring_bound_def ring_newest_def],
        rule a(3), rule a(4), rule a(5), intro allI impI, elim conjE, rule gone, assumption+)
qed

text \<open>A fault and a notification before the first poll, at 500 ticks; the second poll is at 1500 ticks.\<close>

theorem motor_off_beside_ipc_witness:
  "\<exists>polls1 sc1 w1 polls2 sc2 w2.
    run_seq all_on (interrupted (motor_ipc_isr board_port) board_port)
      (interrupted_apps (motor_ipc_isr board_port) joint_services board_env)
      [elapse (motor_ipc_isr board_port) (board_at 500)] (Some board_pair)
      (system_start (joint_motor_service, joint_ipc_service) board_start
        [[Inl MOTOR_FAULT, Inr (IPC_NOTIFY 1 1 1)], [Inr (IPC_FAULT 4 5 6)]]) = Some (polls1, Some sc1, w1) \<and>
    run_seq all_on (interrupted (motor_ipc_isr board_port) board_port)
      (interrupted_apps (motor_ipc_isr board_port) joint_services board_env)
      [elapse (motor_ipc_isr board_port) (board_at 1500)] (Some sc1) w1 = Some (polls2, Some sc2, w2) \<and>
    \<not> broken w2 \<and> \<not> enabled (fst (service w2)) \<and> last (joint_motor_log (platform w2)) = SET_ENABLE False \<and>
    joint_ipc_log (platform w2) \<noteq> [] \<and> hd (joint_ipc_log (platform w2)) = ipc_record (IPC_NOTIFY 1 1 1)"
proof -
  let ?isr = "motor_ipc_isr board_port :: _ \<Rightarrow> (unit, joint_call board) sch_motor_service \<times> (unit, joint_call board) sch_ipc_service \<Rightarrow> _"
  let ?p = "interrupted ?isr board_port" and ?env = "interrupted_apps ?isr joint_services board_env"
  let ?batches = "[[Inl MOTOR_FAULT, Inr (IPC_NOTIFY 1 1 1)], [Inr (IPC_FAULT 4 5 6)]]"
  let ?w = "system_start (joint_motor_service, joint_ipc_service) board_start ?batches"
  let ?h1 = "board_at 500 :: joint_call board \<Rightarrow> _" and ?h2 = "board_at 1500 :: joint_call board \<Rightarrow> _"
  have hs: "\<forall>h\<in>set ([?h1] @ [?h2]). \<forall>v. joint_calls (h v) = joint_calls v" by simp
  have num: "(0::nat) < 1000" "(1000::nat) \<le> 2 ^ 31" "0 < SCH_MAX_TASKS" "1 < SCH_MAX_TASKS" "Service_Task \<noteq> Other_Task ()"
    by (simp_all add: SCH_MAX_TASKS_def)
  obtain polls1 sc1 w1 polls2 sc2 w2 served held where
    r: "run_seq all_on ?p ?env (map (elapse ?isr) [?h1]) (Some board_pair) ?w = Some (polls1, Some sc1, w1)"
      "run_seq all_on ?p ?env (map (elapse ?isr) [?h2]) (Some sc1) w1 = Some (polls2, Some sc2, w2)"
    and arr: "\<not> broken w2" "prefix (arrived w1) (arrived w2)" "arrived w2 @ concat (coming w2) = concat ?batches"
    and off: "\<forall>Ts k. map fst (polls1 @ polls2) = map of_nat Ts \<and> polls_close 0 Ts \<and>
        unat (capacity (ring (event_queue joint_motor_service))) \<le>
          releases_after (length [?h1]) 0 1000 0 Ts * unat (max_events_per_run joint_motor_service) \<and>
        k < length (firsts (arrived w1)) \<and> firsts (arrived w1) ! k = MOTOR_FAULT \<and>
        length (firsts (arrived w2)) \<le> k + unat (capacity (ring (event_queue joint_motor_service))) \<longrightarrow>
      \<not> enabled (fst (service w2)) \<and> joint_motor_log (platform w2) \<noteq> [] \<and> last (joint_motor_log (platform w2)) = SET_ENABLE False"
    and kept: "subseq (served @ held) ([] @ seconds (arrived w2))"
      "overflow (irq_records joint_ipc_service) = SCH_OVERFLOW_DROP_NEWEST \<or>
        suffix (drop (length ([] @ seconds (arrived w2)) - unat (capacity (irq_records joint_ipc_service)))
          ([] @ seconds (arrived w2))) (served @ held)"
    and log: "joint_ipc_log (platform w2) = joint_ipc_log board_start @ concat (map (\<lambda>e. [ipc_record e]) served)"
    and gone: "\<forall>Ts. map fst (polls1 @ polls2) = map of_nat Ts \<and> polls_close 0 Ts \<and>
        unat (capacity (irq_records joint_ipc_service)) \<le>
          releases_after (length [?h1]) 0 1000 0 Ts * unat (max_records_per_run joint_ipc_service) \<longrightarrow>
      subseq held (drop (length (seconds (arrived w1))) (seconds (arrived w2)))"
    using motor_off_beside_ipc [OF joint_motor_ok(1-3) joint_ipc_ok(1,2) joint_ipc_fits(1,2) joint_motor_ok(6)
        joint_ipc_fits(3) num(5) board_leaves_joint board_pair_ok(1,2) num(3) board_pair_ok(3,5) num(1,2)
        num(4) board_pair_ok(4,6) num(1,2) hs, of all_on board_start ?batches]
    by (elim exE conjE)
  have "motor_track joint_motor_log joint_motor_service {} joint_motor_service board_start []"
    by (rule motor_trackI [where m = 0 and evs = "motor_pending joint_motor_service @ map motor_event []"])
      (simp_all add: joint_motor_ok(1) accounted_def)
  then have start: "joint_track (joint_motor_service, joint_ipc_service) board_start []"
    using ipc_steps.irq_account_start [OF joint_ipc_ok(1,2), of joint_ipc_log "\<lambda>e. [ipc_record e]" board_start]
    by (simp add: jointly_def List.map_filter_simps)
  have used: "in_use (tasks board_pair ! 0)" by (simp add: board_pair_tasks new_task_def)
  have logs: "joint_calls v' = joint_calls v" if "board_log v' = board_log v" for v v'
    using that by (simp add: joint_motor_log_def joint_ipc_log_def)
  from board_polls [OF joint.preempted_apps_axioms logs joint_stable start board_pair_ok(1,2) num(3) used board_pair_ok(3)
      r [unfolded list.map]]
  have polls: "map fst (polls1 @ polls2) = map of_nat [500, 1500] \<and> polls_close 0 [500, 1500]"
    and first: "prefix [Inl MOTOR_FAULT, Inr (IPC_NOTIFY 1 1 1)] (arrived w1)" by blast+
  have firsts: "firsts (arrived w1) ! 0 = MOTOR_FAULT" "0 < length (firsts (arrived w1))"
    "0 < length (seconds (arrived w1))" "hd (seconds (arrived w1)) = IPC_NOTIFY 1 1 1"
    using first by (auto simp: prefix_def List.map_filter_simps)
  have few: "length (firsts (arrived w2)) \<le> 3" "length (seconds (arrived w2)) \<le> 3"
    using arg_cong [OF arr(3), of length]
    by (auto simp: List.map_filter_def intro: order_trans [OF length_filter_le])
  have stop: "\<not> enabled (fst (service w2)) \<and> joint_motor_log (platform w2) \<noteq> [] \<and> last (joint_motor_log (platform w2)) = SET_ENABLE False"
    using off [THEN spec, of "[500, 1500]", THEN spec, of 0] polls firsts(1,2) few(1) by (simp add: board_grid joint_motor_ok(4,5))
  have held: "subseq held (drop (length (seconds (arrived w1))) (seconds (arrived w2)))"
    using gone [THEN spec, of "[500, 1500]"] polls by (simp add: board_grid joint_ipc_ok)
  have "suffix (seconds (arrived w2)) (served @ held)" using kept(2) few(2) joint_ipc_ok by simp
  moreover have "seconds (arrived w2) \<noteq> []" "hd (seconds (arrived w2)) = IPC_NOTIFY 1 1 1"
    using map_filter_prefix [OF arr(2), of of_second] firsts(3,4) by (auto simp: prefix_def)
  ultimately have "served \<noteq> [] \<and> hd served = IPC_NOTIFY 1 1 1"
    using first_served [OF _ _ held firsts(3)] kept(1) by simp
  then have "joint_ipc_log (platform w2) \<noteq> [] \<and> hd (joint_ipc_log (platform w2)) = ipc_record (IPC_NOTIFY 1 1 1)"
    using log by (cases served) (simp_all add: board_start_def joint_ipc_log_def List.map_filter_simps)
  with stop arr(1) r [unfolded list.map] show ?thesis by blast
qed

end
