(* ===== verification/Uart_Service.thy ===== *)
theory Uart_Service
  imports Typed_Ring
begin

text \<open>
  \<^verbatim>\<open>src/services/uart_service.c\<close> and its header: a receive ring filled by the interrupt and
  drained by the task, and a transmit ring filled by clients and written to the hardware by the
  task until the budget or the hardware's buffer is exhausted. The HAL's read and write
  callbacks are mandatory and checked by the initialiser; calling a null one is undefined.
\<close>

section \<open>Data\<close>

record ('x, 'w) sch_uart_hal =
  try_read_byte :: "('x option \<Rightarrow> u16 \<Rightarrow> 'w \<Rightarrow> bool \<times> u16 \<times> 'w) option"
  try_write_byte :: "('x option \<Rightarrow> u16 \<Rightarrow> 'w \<Rightarrow> bool \<times> 'w) option"
  ack_irq :: "('x option \<Rightarrow> 'w \<Rightarrow> 'w) option"
  hal_ctx :: "'x option"

record ('x, 'w) sch_uart_service =
  hal :: "('x, 'w) sch_uart_hal"
  rx_ring :: sch_spsc_ring
  tx_ring :: sch_spsc_ring
  rx_hint :: bool
  tx_hint :: bool
  max_rx_items_per_run :: size_t
  max_tx_items_per_run :: size_t

section \<open>Operations\<close>

definition sch_uart_service_init ::
  "'w port \<Rightarrow> ('x, 'w) sch_uart_service option \<Rightarrow> ('x, 'w) sch_uart_hal option \<Rightarrow> u8 list option \<Rightarrow>
   size_t \<Rightarrow> u8 list option \<Rightarrow> size_t \<Rightarrow> size_t \<Rightarrow> size_t \<Rightarrow> 'w \<Rightarrow>
   bool \<times> ('x, 'w) sch_uart_service option \<times> 'w" where
  "sch_uart_service_init p service hal_arg rx_storage rx_capacity tx_storage tx_capacity max_rx max_tx w =
     (if is_null service \<or> is_null hal_arg \<or> is_null (try_read_byte (the hal_arg)) \<or>
         is_null (try_write_byte (the hal_arg)) \<or> max_rx = 0 \<or> max_tx = 0
      then (False, service, w)
      else
        let s = (the service)\<lparr>hal := the hal_arg, rx_hint := False, tx_hint := False,
                  max_rx_items_per_run := max_rx, max_tx_items_per_run := max_tx\<rparr>;
            (ok_rx, r, w) = sch_spsc_ring_init p (Some (rx_ring s)) rx_storage rx_capacity sizeof_u16
              SCH_OVERFLOW_DROP_OLDEST w;
            s = s\<lparr>rx_ring := the r\<rparr>;
            (ok_tx, r, w) = sch_spsc_ring_init p (Some (tx_ring s)) tx_storage tx_capacity sizeof_u16
              SCH_OVERFLOW_DROP_NEWEST w;
            s = s\<lparr>tx_ring := the r\<rparr>
        in (ok_rx \<and> ok_tx, Some s, w))"

definition uart_ack :: "('x, 'w) sch_uart_service \<Rightarrow> 'w \<Rightarrow> 'w" where
  "uart_ack s w = (case ack_irq (hal s) of None \<Rightarrow> w | Some f \<Rightarrow> f (hal_ctx (hal s)) w)"

definition sch_uart_isr_rx ::
  "'w port \<Rightarrow> ('x, 'w) sch_uart_service option \<Rightarrow> 'w \<Rightarrow> (('x, 'w) sch_uart_service option \<times> 'w) option" where
  "sch_uart_isr_rx p service w =
     (if is_null service then Some (service, w)
      else do {
        let s = the service;
        let w = uart_ack s w;
        read \<leftarrow> try_read_byte (hal s);
        let (ok, byte, w) = read (hal_ctx (hal s)) 0 w;
        if ok then do {
          (push_result, r, w) \<leftarrow> ring_push u16_bytes p (rx_ring s) byte w;
          let s = s\<lparr>rx_ring := r\<rparr>;
          let (state, w) = sch_port_enter_critical p w;
          let s = s\<lparr>rx_hint := True\<rparr>;
          Some (Some s, sch_port_exit_critical p state w)
        }
        else Some (Some s, w)
      })"

definition sch_uart_isr_tx_ready ::
  "'w port \<Rightarrow> ('x, 'w) sch_uart_service option \<Rightarrow> 'w \<Rightarrow> ('x, 'w) sch_uart_service option \<times> 'w" where
  "sch_uart_isr_tx_ready p service w =
     (if is_null service then (service, w)
      else
        let s = the service;
            w = uart_ack s w;
            (state, w) = sch_port_enter_critical p w;
            s = s\<lparr>tx_hint := True\<rparr>
        in (Some s, sch_port_exit_critical p state w))"

definition sch_uart_service_queue_tx ::
  "'w port \<Rightarrow> ('x, 'w) sch_uart_service option \<Rightarrow> u16 \<Rightarrow> 'w \<Rightarrow>
   (bool \<times> ('x, 'w) sch_uart_service option \<times> 'w) option" where
  "sch_uart_service_queue_tx p service byte w =
     (if is_null service then Some (False, service, w)
      else do {
        let s = the service;
        (push_result, r, w) \<leftarrow> ring_push u16_bytes p (tx_ring s) byte w;
        Some (push_result = SCH_RING_PUSH_OK, Some (s\<lparr>tx_ring := r\<rparr>), w)
      })"

text \<open>The bodies of the two drain loops: the transmit loop stops when the hardware is full.\<close>

definition uart_tx_body ::
  "'w port \<Rightarrow> u16 \<Rightarrow> ('x, 'w) sch_uart_service \<Rightarrow> 'w \<Rightarrow> (bool \<times> ('x, 'w) sch_uart_service \<times> 'w) option" where
  "uart_tx_body p byte s w = do {
     write \<leftarrow> try_write_byte (hal s);
     let (ok, w) = write (hal_ctx (hal s)) byte w;
     if \<not> ok then do {
       (push_result, r, w) \<leftarrow> ring_push u16_bytes p (tx_ring s) byte w;
       Some (False, s\<lparr>tx_ring := r\<rparr>, w)
     }
     else Some (True, s, w)
   }"

definition sch_uart_service_run ::
  "'w port \<Rightarrow> ('x, 'w) sch_uart_service option \<Rightarrow> 'w \<Rightarrow> (('x, 'w) sch_uart_service option \<times> 'w) option" where
  "sch_uart_service_run p service w =
     (if is_null service then Some (service, w)
      else do {
        let s = the service;
        let (state, w) = sch_port_enter_critical p w;
        let had_rx_hint = rx_hint s;
        let had_tx_hint = tx_hint s;
        let s = s\<lparr>rx_hint := False, tx_hint := False\<rparr>;
        let w = sch_port_exit_critical p state w;
        let (rx_empty, w) =
          (if \<not> had_rx_hint \<and> \<not> had_tx_hint then sch_spsc_ring_is_empty p (Some (rx_ring s)) w
           else (False, w));
        let (nothing, w) =
          (if rx_empty then sch_spsc_ring_is_empty p (Some (tx_ring s)) w else (False, w));
        if nothing then Some (Some s, w)
        else do {
          (s, byte, w) \<leftarrow> drain_loop (unat (max_tx_items_per_run s))
            (field_pop tx_ring (\<lambda>r s. s\<lparr>tx_ring := r\<rparr>) (ring_pop u16_bytes u16_of_bytes p))
            (uart_tx_body p) s 0 w;
          (s, byte, w) \<leftarrow> drain_loop (unat (max_rx_items_per_run s))
            (field_pop rx_ring (\<lambda>r s. s\<lparr>rx_ring := r\<rparr>) (ring_pop u16_bytes u16_of_bytes p))
            (\<lambda>byte s w. Some (True, s, w)) s byte w;
          Some (Some s, w)
        }
      })"

section \<open>Invariant and initialisation\<close>

definition uart_inv :: "('x, 'w) sch_uart_service \<Rightarrow> bool" where
  "uart_inv s \<longleftrightarrow>
     typed_inv sizeof_u16 (rx_ring s) \<and> \<not> ring_newest (rx_ring s) \<and>
     typed_inv sizeof_u16 (tx_ring s) \<and> ring_newest (tx_ring s) \<and>
     \<not> is_null (try_read_byte (hal s)) \<and> \<not> is_null (try_write_byte (hal s)) \<and>
     max_rx_items_per_run s \<noteq> 0 \<and> max_tx_items_per_run s \<noteq> 0"

definition uart_rx :: "('x, 'w) sch_uart_service \<Rightarrow> u16 list" where
  "uart_rx s = typed_items u16_of_bytes (rx_ring s)"

definition uart_tx :: "('x, 'w) sch_uart_service \<Rightarrow> u16 list" where
  "uart_tx s = typed_items u16_of_bytes (tx_ring s)"

lemma uart_init_iff:
  "fst (sch_uart_service_init p service hal_arg rx rx_cap tx tx_cap max_rx max_tx w) \<longleftrightarrow>
     \<not> is_null service \<and> \<not> is_null hal_arg \<and> \<not> is_null (try_read_byte (the hal_arg)) \<and>
     \<not> is_null (try_write_byte (the hal_arg)) \<and> max_rx \<noteq> 0 \<and> max_tx \<noteq> 0 \<and>
     \<not> is_null rx \<and> rx_cap \<noteq> 0 \<and> \<not> is_null tx \<and> tx_cap \<noteq> 0"
  by (auto simp: sch_uart_service_init_def Let_def split_beta ring_init_iff sizeof_u16_def)

lemma uart_init_ok:
  assumes "try_read_byte h = Some rd" and "try_write_byte h = Some wr"
    and "max_rx \<noteq> 0" and "max_tx \<noteq> 0" and "rx_cap \<noteq> 0" and "tx_cap \<noteq> 0"
    and "unat rx_cap * 2 \<le> length rx" and "length rx < 2 ^ 32"
    and "unat tx_cap * 2 \<le> length tx" and "length tx < 2 ^ 32"
  obtains s' where
    "sch_uart_service_init p (Some s) (Some h) (Some rx) rx_cap (Some tx) tx_cap max_rx max_tx w =
      (True, Some s', crit p (crit p w))"
    "uart_inv s'" "uart_rx s' = []" "uart_tx s' = []" "\<not> rx_hint s'" "\<not> tx_hint s'" "hal s' = h"
    "ring_bound (rx_ring s') = unat rx_cap" "ring_bound (tx_ring s') = unat tx_cap"
    "drops (rx_ring s') = 0" "drops (tx_ring s') = 0"
    "max_rx_items_per_run s' = max_rx" "max_tx_items_per_run s' = max_tx"
proof -
  have fit: "unat rx_cap * unat sizeof_u16 \<le> length rx" "unat tx_cap * unat sizeof_u16 \<le> length tx"
    using assms(7,9) by (simp_all add: sizeof_u16_def)
  obtain r where r: "sch_spsc_ring_init p (Some (rx_ring s)) (Some rx) rx_cap sizeof_u16 SCH_OVERFLOW_DROP_OLDEST w =
      (True, Some r, crit p w)" "typed_inv sizeof_u16 r" "typed_items u16_of_bytes r = []"
    "drops r = 0" "ring_bound r = unat rx_cap"
    "ring_newest r \<longleftrightarrow> SCH_OVERFLOW_DROP_OLDEST = SCH_OVERFLOW_DROP_NEWEST"
    by (rule u16.init_refines [OF assms(5) disjI2 [OF refl] fit(1) assms(8)])
  obtain t where t: "sch_spsc_ring_init p (Some (tx_ring s)) (Some tx) tx_cap sizeof_u16 SCH_OVERFLOW_DROP_NEWEST
      (crit p w) = (True, Some t, crit p (crit p w))" "typed_inv sizeof_u16 t" "typed_items u16_of_bytes t = []"
    "drops t = 0" "ring_bound t = unat tx_cap"
    "ring_newest t \<longleftrightarrow> SCH_OVERFLOW_DROP_NEWEST = SCH_OVERFLOW_DROP_NEWEST"
    by (rule u16.init_refines [OF assms(6) disjI1 [OF refl] fit(2) assms(10)])
  show thesis
    by (rule that [of "s\<lparr>hal := h, rx_hint := False, tx_hint := False, max_rx_items_per_run := max_rx,
          max_tx_items_per_run := max_tx, rx_ring := r, tx_ring := t\<rparr>"])
      (use r t assms(1-4) in \<open>simp_all add: sch_uart_service_init_def uart_inv_def uart_rx_def uart_tx_def\<close>)
qed

section \<open>The interrupt side\<close>

text \<open>What the read callback delivers to the receive interrupt.\<close>

definition uart_read :: "('x, 'w) sch_uart_service \<Rightarrow> 'w \<Rightarrow> bool \<times> u16 \<times> 'w" where
  "uart_read s w = the (try_read_byte (hal s)) (hal_ctx (hal s)) 0 w"

definition uart_write :: "('x, 'w) sch_uart_service \<Rightarrow> u16 \<Rightarrow> 'w \<Rightarrow> bool \<times> 'w" where
  "uart_write s x w = the (try_write_byte (hal s)) (hal_ctx (hal s)) x w"

lemma uart_isr_rx_eq:
  assumes "uart_inv s"
  shows "sch_uart_isr_rx p (Some s) w =
    (case uart_read s (uart_ack s w) of (ok, byte, w') \<Rightarrow>
       Some (if ok
         then (Some (s\<lparr>rx_ring := ring_enq (rx_ring s) (u16_bytes byte), rx_hint := True\<rparr>), crit p (crit p w'))
         else (Some s, w')))"
  using assms
  by (cases "try_read_byte (hal s)")
    (simp_all add: sch_uart_isr_rx_def uart_inv_def uart_read_def u16.push_refines crit_def split_beta Let_def)

lemma uart_queue_tx_eq:
  assumes "uart_inv s"
  shows "sch_uart_service_queue_tx p (Some s) byte w =
    Some (length (uart_tx s) < ring_bound (tx_ring s),
          Some (s\<lparr>tx_ring := ring_enq (tx_ring s) (u16_bytes byte)\<rparr>), crit p w)"
  using assms typed_inv_bound [of sizeof_u16 "tx_ring s"]
  by (auto simp: sch_uart_service_queue_tx_def uart_inv_def u16.push_refines push_status_def uart_tx_def)

section \<open>The run function\<close>

text \<open>
  What the transmit loop does to the held bytes: the bytes the hardware accepted, the bytes
  left in the ring, and the platform. A refused byte is put back, at the end of the ring.
\<close>

fun uart_send ::
  "('w \<Rightarrow> 'w) \<Rightarrow> (u16 \<Rightarrow> 'w \<Rightarrow> bool \<times> 'w) \<Rightarrow> nat \<Rightarrow> u16 list \<Rightarrow> 'w \<Rightarrow> u16 list \<times> u16 list \<times> 'w" where
  "uart_send bracket write 0 xs w = ([], xs, w)"
| "uart_send bracket write (Suc n) [] w = ([], [], bracket w)"
| "uart_send bracket write (Suc n) (x # xs) w =
     (case write x (bracket w) of (ok, w') \<Rightarrow>
       if ok then (case uart_send bracket write n xs w' of (sent, left, w'') \<Rightarrow> (x # sent, left, w''))
       else ([], xs @ [x], bracket w'))"

interpretation uart_tx_client: queue_client
  "ring_push u16_bytes p" "ring_pop u16_bytes u16_of_bytes p" "crit p"
  "typed_inv sizeof_u16" "typed_items u16_of_bytes" ring_bound ring_newest drops
  "\<lambda>r x. ring_enq r (u16_bytes x)" ring_deq tx_ring "\<lambda>r s. s\<lparr>tx_ring := r\<rparr>"
  for p
  by unfold_locales simp_all

interpretation uart_rx_client: queue_client
  "ring_push u16_bytes p" "ring_pop u16_bytes u16_of_bytes p" "crit p"
  "typed_inv sizeof_u16" "typed_items u16_of_bytes" ring_bound ring_newest drops
  "\<lambda>r x. ring_enq r (u16_bytes x)" ring_deq rx_ring "\<lambda>r s. s\<lparr>rx_ring := r\<rparr>"
  for p
  by unfold_locales simp_all

text \<open>Taking the head and putting it back never overflows the ring.\<close>

lemma put_back:
  assumes "typed_inv sizeof_u16 r" and "typed_items u16_of_bytes r = y # ys"
  defines "r' \<equiv> ring_enq (ring_deq r) (u16_bytes y)"
  shows "typed_inv sizeof_u16 r'" and "typed_items u16_of_bytes r' = ys @ [y]"
    and "ring_bound r' = ring_bound r" and "ring_newest r' = ring_newest r" and "drops r' = drops r"
proof -
  note d = u16.deq_refines [OF assms(1)]
  note e = u16.enq_refines [OF d(1), of y]
  have "length (typed_items u16_of_bytes r) \<le> ring_bound r" using typed_inv_bound [OF assms(1)] by simp
  then have "Suc (length ys) \<le> ring_bound r" unfolding assms(2) by simp
  moreover have "typed_items u16_of_bytes (ring_deq r) = ys" by (simp add: d(2) assms(2))
  moreover from this have "unat (count (ring_deq r)) = length ys" using length_typed_items by metis
  ultimately show "typed_inv sizeof_u16 r'" "typed_items u16_of_bytes r' = ys @ [y]"
    "ring_bound r' = ring_bound r" "ring_newest r' = ring_newest r" "drops r' = drops r"
    using d e by (simp_all add: r'_def bounded_push_def)
qed

lemma uart_tx_loop:
  assumes "typed_inv sizeof_u16 (tx_ring s)" and "\<not> is_null (try_write_byte (hal s))"
  shows "\<exists>t y. drain_loop n
      (field_pop tx_ring (\<lambda>r s. s\<lparr>tx_ring := r\<rparr>) (ring_pop u16_bytes u16_of_bytes p)) (uart_tx_body p) s x w =
      Some (s\<lparr>tx_ring := t\<rparr>, y, snd (snd (uart_send (crit p) (uart_write s) n (uart_tx s) w))) \<and>
    typed_inv sizeof_u16 t \<and>
    typed_items u16_of_bytes t = fst (snd (uart_send (crit p) (uart_write s) n (uart_tx s) w)) \<and>
    ring_bound t = ring_bound (tx_ring s) \<and> ring_newest t = ring_newest (tx_ring s) \<and>
    drops t = drops (tx_ring s)"
  using assms
proof (induction n arbitrary: s x w)
  case 0
  then show ?case by (auto simp: uart_tx_def intro!: exI [of _ "tx_ring s"])
next
  case (Suc n)
  note inv = Suc.prems(1)
  show ?case
  proof (cases "uart_tx s")
    case Nil
    then have "typed_items u16_of_bytes (tx_ring s) = []" by (simp only: uart_tx_def)
    then show ?thesis
      using inv unfolding Nil
      by (auto simp: field_pop_def u16.pop_refines simp del: typed_items_empty_iff
          intro!: exI [of _ "tx_ring s"])
  next
    case (Cons y ys)
    then have items: "typed_items u16_of_bytes (tx_ring s) = y # ys" by (simp add: uart_tx_def)
    let ?t = "ring_deq (tx_ring s)" and ?s = "s\<lparr>tx_ring := ring_deq (tx_ring s)\<rparr>"
    note deq = u16.deq_refines [OF inv]
    obtain wr where wr: "try_write_byte (hal s) = Some wr"
      using Suc.prems(2) by (cases "try_write_byte (hal s)") simp_all
    obtain ok w' where st: "uart_write s y (crit p w) = (ok, w')" by (metis surj_pair)
    have st': "wr (hal_ctx (hal s)) y (crit p w) = (ok, w')" using st wr by (simp add: uart_write_def)
    have pop: "field_pop tx_ring (\<lambda>r s. s\<lparr>tx_ring := r\<rparr>) (ring_pop u16_bytes u16_of_bytes p) s x w =
        Some (True, y, ?s, crit p w)"
      using items by (simp add: field_pop_def u16.pop_refines [OF inv])
    show ?thesis
    proof (cases ok)
      case True
      have "uart_tx ?s = ys" using items deq(2) by (simp add: uart_tx_def)
      moreover have "uart_write ?s = uart_write s" by (simp add: uart_write_def fun_eq_iff)
      ultimately obtain t z where
        "drain_loop n (field_pop tx_ring (\<lambda>r s. s\<lparr>tx_ring := r\<rparr>) (ring_pop u16_bytes u16_of_bytes p))
          (uart_tx_body p) ?s y w' =
          Some (s\<lparr>tx_ring := t\<rparr>, z, snd (snd (uart_send (crit p) (uart_write s) n ys w')))"
        "typed_inv sizeof_u16 t"
        "typed_items u16_of_bytes t = fst (snd (uart_send (crit p) (uart_write s) n ys w'))"
        "ring_bound t = ring_bound (tx_ring s)" "ring_newest t = ring_newest (tx_ring s)"
        "drops t = drops (tx_ring s)"
        using Suc.IH [of ?s y w'] Suc.prems(2) deq by auto
      moreover have "uart_tx_body p y ?s (crit p w) = Some (True, ?s, w')"
        using True st' wr by (simp add: uart_tx_body_def)
      ultimately show ?thesis
        using True st pop Cons by (auto simp: split_beta)
    next
      case False
      note pb = put_back [OF inv items]
      have "uart_tx_body p y ?s (crit p w) =
          Some (False, s\<lparr>tx_ring := ring_enq ?t (u16_bytes y)\<rparr>, crit p w')"
        using False st' wr by (simp add: uart_tx_body_def u16.push_refines [OF deq(1)])
      then show ?thesis
        using False st pop Cons pb by (auto intro!: exI [of _ "ring_enq ?t (u16_bytes y)"])
    qed
  qed
qed

text \<open>The platform when the transmit loop starts.\<close>

definition uart_entry_world :: "'w port \<Rightarrow> ('x, 'w) sch_uart_service \<Rightarrow> 'w \<Rightarrow> 'w" where
  "uart_entry_world p s w =
     (if rx_hint s \<or> tx_hint s then crit p w
      else if uart_rx s = [] then crit p (crit p (crit p w)) else crit p (crit p w))"

definition uart_idle :: "('x, 'w) sch_uart_service \<Rightarrow> bool" where
  "uart_idle s \<longleftrightarrow> \<not> rx_hint s \<and> \<not> tx_hint s \<and> uart_rx s = [] \<and> uart_tx s = []"

lemma uart_run_eq:
  assumes "uart_inv s"
    and send_def: "send = uart_send (crit p) (uart_write s) (unat (max_tx_items_per_run s)) (uart_tx s)
      (uart_entry_world p s w)"
  shows "\<exists>s'. sch_uart_service_run p (Some s) w =
      Some (Some s', if uart_idle s then uart_entry_world p s w
        else drain_world (crit p) (\<lambda>byte w. w) (unat (max_rx_items_per_run s)) (uart_rx s) (snd (snd send))) \<and>
    uart_inv s' \<and> \<not> rx_hint s' \<and> \<not> tx_hint s' \<and>
    uart_tx s' = fst (snd send) \<and> uart_rx s' = drop (unat (max_rx_items_per_run s)) (uart_rx s) \<and>
    drops (tx_ring s') = drops (tx_ring s) \<and> drops (rx_ring s') = drops (rx_ring s) \<and>
    ring_bound (tx_ring s') = ring_bound (tx_ring s) \<and> ring_bound (rx_ring s') = ring_bound (rx_ring s) \<and>
    hal s' = hal s \<and> max_rx_items_per_run s' = max_rx_items_per_run s \<and>
    max_tx_items_per_run s' = max_tx_items_per_run s"
proof -
  let ?s = "s\<lparr>rx_hint := False, tx_hint := False\<rparr>"
  let ?w = "uart_entry_world p s w" and ?nt = "unat (max_tx_items_per_run s)"
    and ?nr = "unat (max_rx_items_per_run s)"
  have inv: "typed_inv sizeof_u16 (rx_ring s)" "typed_inv sizeof_u16 (tx_ring s)"
    using assms(1) by (simp_all add: uart_inv_def)
  have empty: "sch_spsc_ring_is_empty p (Some (rx_ring s)) v = (uart_rx s = [], crit p v)"
    "sch_spsc_ring_is_empty p (Some (tx_ring s)) v = (uart_tx s = [], crit p v)" for v
    using inv by (simp_all add: typed_inv_def ring_is_empty_refines uart_rx_def uart_tx_def)
  have same: "uart_tx ?s = uart_tx s" "uart_write ?s = uart_write s"
    by (simp_all add: uart_tx_def uart_write_def fun_eq_iff)
  obtain t y where tx: "drain_loop ?nt
      (field_pop tx_ring (\<lambda>r s. s\<lparr>tx_ring := r\<rparr>) (ring_pop u16_bytes u16_of_bytes p)) (uart_tx_body p) ?s 0 ?w =
      Some (?s\<lparr>tx_ring := t\<rparr>, y, snd (snd send))"
    "typed_inv sizeof_u16 t" "typed_items u16_of_bytes t = fst (snd send)"
    "ring_bound t = ring_bound (tx_ring s)" "ring_newest t = ring_newest (tx_ring s)" "drops t = drops (tx_ring s)"
    using uart_tx_loop [of ?s ?nt p 0 ?w] assms(1) inv(2) unfolding same by (auto simp: uart_inv_def send_def)
  let ?r = "(ring_deq ^^ min ?nr (length (uart_rx s))) (rx_ring s)"
  have rx: "drain_loop ?nr (field_pop rx_ring (\<lambda>r s. s\<lparr>rx_ring := r\<rparr>) (ring_pop u16_bytes u16_of_bytes p))
      (\<lambda>byte s w. Some (True, s, w)) (?s\<lparr>tx_ring := t\<rparr>) y v =
    Some (?s\<lparr>tx_ring := t, rx_ring := ?r\<rparr>, last (y # take ?nr (uart_rx s)),
      drain_world (crit p) (\<lambda>byte w. w) ?nr (uart_rx s) v)" for v
    using uart_rx_client.drain_dispatch [where s = "?s\<lparr>tx_ring := t\<rparr>" and P = "\<lambda>s. True" and
        body = "\<lambda>byte s w. Some (True, s, w)" and eff = "\<lambda>byte w. w" and n = ?nr and x = y and w = v and p = p] inv
    by (simp add: uart_rx_def)
  note keep = u16.queue.deqs_keep [OF inv(1)]
  show ?thesis
  proof (cases "uart_idle s")
    case True
    then have "fst (snd send) = []"
      by (cases ?nt) (simp_all add: send_def uart_idle_def)
    then have "sch_uart_service_run p (Some s) w = Some (Some ?s, ?w)"
      using True by (simp add: sch_uart_service_run_def uart_idle_def empty crit_def split_beta Let_def uart_entry_world_def)
    then show ?thesis
      using True assms(1) \<open>fst (snd send) = []\<close>
      by (simp add: uart_inv_def uart_idle_def uart_tx_def uart_rx_def)
  next
    case False
    then have "sch_uart_service_run p (Some s) w = Some (Some (?s\<lparr>tx_ring := t, rx_ring := ?r\<rparr>),
        drain_world (crit p) (\<lambda>byte w. w) ?nr (uart_rx s) (snd (snd send)))"
      using tx(1) rx
      by (auto simp: sch_uart_service_run_def uart_idle_def empty crit_def split_beta Let_def uart_entry_world_def
          split: if_splits)
    then show ?thesis
      using False assms(1) tx(2-6) keep
      by (simp add: uart_inv_def uart_tx_def uart_rx_def drop_min_typed)
  qed
qed

text \<open>
  Order: without a refusal the loop sends a prefix and keeps the rest; after a refusal the
  refused byte, which was next in line, is last.
\<close>

lemma uart_send_shape:
  "uart_send bracket wr n xs w = (sent, left, w') \<Longrightarrow>
     sent @ left = xs \<or> (\<exists>x rest. xs = sent @ x # rest \<and> left = rest @ [x])"
proof (induction bracket wr n xs w arbitrary: sent left w' rule: uart_send.induct)
  case (3 bracket wr n x xs w)
  obtain ok w1 where st: "wr x (bracket w) = (ok, w1)" by (metis surj_pair)
  show ?case
  proof (cases ok)
    case True
    obtain sent1 where s1: "uart_send bracket wr n xs w1 = (sent1, left, w')" "sent = x # sent1"
      using 3(2) st True by (auto split: prod.splits)
    then show ?thesis using 3(1) [OF st [symmetric] True s1(1)] by simp
  next
    case False
    then show ?thesis using 3(2) st by auto
  qed
qed simp_all

lemma uart_send_all:
  "uart_send bracket wr n xs w = (sent, left, w') \<Longrightarrow> (\<And>x w. fst (wr x w)) \<Longrightarrow>
     sent = take n xs \<and> left = drop n xs"
proof (induction bracket wr n xs w arbitrary: sent left w' rule: uart_send.induct)
  case (3 bracket wr n x xs w)
  obtain ok w1 where st: "wr x (bracket w) = (ok, w1)" by (metis surj_pair)
  moreover have ok using st 3(3) [of x "bracket w"] by simp
  ultimately show ?case using 3(1,2,3) by (auto split: prod.splits)
qed auto

section \<open>Properties\<close>

text \<open>An observer of the transmit line: it grows by the bytes the hardware accepts.\<close>

definition observes_line :: "('w \<Rightarrow> u16 list) \<Rightarrow> 'w port \<Rightarrow> ('x, 'w) sch_uart_service \<Rightarrow> bool" where
  "observes_line line p s \<longleftrightarrow>
     (\<forall>w. line (crit p w) = line w) \<and>
     (\<forall>x w. line (snd (uart_write s x w)) = line w @ (if fst (uart_write s x w) then [x] else []))"

lemma observes_line_send:
  assumes "observes_line line p s"
  shows "uart_send (crit p) (uart_write s) n xs w = (sent, left, w') \<Longrightarrow> line w' = line w @ sent \<and> length sent \<le> n"
proof (induction n arbitrary: xs w sent)
  case (Suc n)
  show ?case
  proof (cases xs)
    case Nil
    with Suc.prems assms show ?thesis by (auto simp: observes_line_def)
  next
    case (Cons x xs')
    obtain ok w1 where st: "uart_write s x (crit p w) = (ok, w1)" by (metis surj_pair)
    have l: "line w1 = line w @ (if ok then [x] else [])"
      using assms st unfolding observes_line_def by (metis fst_conv snd_conv)
    show ?thesis
    proof (cases ok)
      case True
      obtain sent1 where s1: "uart_send (crit p) (uart_write s) n xs' w1 = (sent1, left, w')" "sent = x # sent1"
        using Suc.prems Cons st True by (auto split: prod.splits)
      then show ?thesis using Suc.IH [OF s1(1)] l True by simp
    next
      case False
      then show ?thesis using Suc.prems Cons st l assms by (auto simp: observes_line_def)
    qed
  qed
qed simp

lemma observes_line_world:
  assumes "observes_line line p s"
  shows "line (uart_entry_world p s w) = line w"
    and "line (drain_world (crit p) (\<lambda>byte w. w) n xs w) = line w"
proof -
  have c: "line (crit p v) = line v" for v using assms by (simp add: observes_line_def)
  then show "line (uart_entry_world p s w) = line w" by (simp add: uart_entry_world_def)
  show "line (drain_world (crit p) (\<lambda>byte w. w) n xs w) = line w"
    by (rule drain_world_unseen) (rule c)
qed

text \<open>
  The hardware of the examples: a transmitter that is busy for a number of attempts and then
  accepts everything, with the line it drives.
\<close>

definition line_hal :: "(unit, nat \<times> u16 list) sch_uart_hal" where
  "line_hal = \<lparr>try_read_byte = Some (\<lambda>c b w. (True, 65, w)),
     try_write_byte = Some (\<lambda>c x w. case w of (busy, line) \<Rightarrow>
       if busy = 0 then (True, (0, line @ [x])) else (False, (busy - 1, line))),
     ack_irq = None, hal_ctx = None\<rparr>"

definition line_ring :: "sch_overflow_mode \<Rightarrow> sch_spsc_ring" where
  "line_ring mode = \<lparr>storage = Some (replicate 8 0), element_size = 2, capacity = 4, head = 0, tail = 0,
     count = 0, drops = 0, overflow = mode\<rparr>"

definition line_uart :: "u16 list \<Rightarrow> (unit, nat \<times> u16 list) sch_uart_service" where
  "line_uart bytes = \<lparr>hal = line_hal, rx_ring = line_ring SCH_OVERFLOW_DROP_OLDEST,
     tx_ring = foldl (\<lambda>r x. ring_enq r (u16_bytes x)) (line_ring SCH_OVERFLOW_DROP_NEWEST) bytes,
     rx_hint = False, tx_hint = False, max_rx_items_per_run = 2, max_tx_items_per_run = 3\<rparr>"

lemma line_uart_ok:
  "uart_inv (line_uart bytes)" "uart_tx (line_uart bytes) = take 4 bytes" "uart_rx (line_uart bytes) = []"
  "ring_bound (tx_ring (line_uart bytes)) = 4" "hal (line_uart bytes) = line_hal"
proof -
  have r: "typed_inv sizeof_u16 (line_ring SCH_OVERFLOW_DROP_NEWEST)" "typed_inv sizeof_u16 (line_ring SCH_OVERFLOW_DROP_OLDEST)"
    by (simp_all add: typed_inv_def line_ring_def ring_inv_iff sizeof_u16_def)
  have "typed_items u16_of_bytes (line_ring m) = []" "ring_bound (line_ring m) = 4"
    "ring_newest (line_ring m) \<longleftrightarrow> m = SCH_OVERFLOW_DROP_NEWEST" for m
    by (simp_all add: line_ring_def ring_bound_def ring_newest_def)
  with r u16.queue.enqs_keep [OF r(1), of bytes] u16.queue.items_burst_newest [OF r(1), of bytes]
  show "uart_inv (line_uart bytes)" "uart_tx (line_uart bytes) = take 4 bytes" "uart_rx (line_uart bytes) = []"
    "ring_bound (tx_ring (line_uart bytes)) = 4" "hal (line_uart bytes) = line_hal"
    by (simp_all add: line_uart_def uart_inv_def uart_tx_def uart_rx_def line_hal_def)
qed

lemma line_uart_observes: "hal s = line_hal \<Longrightarrow> observes_line snd quiet_port s"
  by (auto simp: observes_line_def uart_write_def line_hal_def)

text \<open>
  A run of the UART service loses nothing. It is never undefined, appends to the line at most
  a budget of the queued bytes, in order, and every queued byte is afterwards on the line or
  still queued: either the queue held the bytes sent followed by those it still holds, or the
  hardware refused one, which is then queued behind all others. Received bytes are consumed up
  to their budget, the hints are consumed and nothing is counted as dropped.
\<close>

lemma uart_run_sends:
  assumes "uart_inv s" and "observes_line line p s"
  shows "\<exists>s' w' sent. sch_uart_service_run p (Some s) w = Some (Some s', w') \<and> uart_inv s' \<and>
    line w' = line w @ sent \<and> length sent \<le> unat (max_tx_items_per_run s) \<and>
    (uart_tx s = sent @ uart_tx s' \<or> (\<exists>x rest. uart_tx s = sent @ x # rest \<and> uart_tx s' = rest @ [x])) \<and>
    uart_rx s' = drop (unat (max_rx_items_per_run s)) (uart_rx s) \<and> \<not> rx_hint s' \<and> \<not> tx_hint s' \<and>
    drops (tx_ring s') = drops (tx_ring s) \<and> drops (rx_ring s') = drops (rx_ring s)"
proof -
  obtain sent left w1 where send: "uart_send (crit p) (uart_write s) (unat (max_tx_items_per_run s)) (uart_tx s)
      (uart_entry_world p s w) = (sent, left, w1)" by (metis surj_pair)
  note line = observes_line_send [OF assms(2) send]
  let ?w = "if uart_idle s then uart_entry_world p s w
    else drain_world (crit p) (\<lambda>byte w. w) (unat (max_rx_items_per_run s)) (uart_rx s) w1"
  obtain s' where s': "sch_uart_service_run p (Some s) w = Some (Some s', ?w)" "uart_inv s'" "\<not> rx_hint s'"
    "\<not> tx_hint s'" "uart_tx s' = left" "uart_rx s' = drop (unat (max_rx_items_per_run s)) (uart_rx s)"
    "drops (tx_ring s') = drops (tx_ring s)" "drops (rx_ring s') = drops (rx_ring s)"
    using uart_run_eq [OF assms(1) send [symmetric]] by auto
  have "uart_idle s \<Longrightarrow> sent = []" using uart_send_shape [OF send] by (auto simp: uart_idle_def)
  then have "line ?w = line w @ sent" using line by (simp add: observes_line_world [OF assms(2)])
  then show ?thesis
    using s' line(1) uart_send_shape [OF send]
    by (intro exI [of _ s'] exI [of _ ?w] exI [of _ sent]) auto
qed

text \<open>
  C29. A refusal changes the order of the bytes. When the transmitter is busy at the first byte of
  a run, the run sends nothing and queues that byte behind all others, so the bytes that were
  queued after it overtake it; with two bytes queued and a transmitter busy once, the line ends
  up with the second byte first.
\<close>

theorem uart_refused_byte_goes_last:
  assumes "uart_inv s" and "observes_line line p s" and "uart_tx s = x # xs"
    and "\<not> fst (uart_write s x (crit p (uart_entry_world p s w)))"
  shows "\<exists>s' w'. sch_uart_service_run p (Some s) w = Some (Some s', w') \<and> uart_inv s' \<and>
    hal s' = hal s \<and> max_tx_items_per_run s' = max_tx_items_per_run s \<and>
    w' = drain_world (crit p) (\<lambda>byte w. w) (unat (max_rx_items_per_run s)) (uart_rx s)
      (crit p (snd (uart_write s x (crit p (uart_entry_world p s w))))) \<and>
    line w' = line w \<and> uart_tx s' = xs @ [x]"
proof -
  obtain n where n: "unat (max_tx_items_per_run s) = Suc n"
    using assms(1) by (metis not0_implies_Suc uart_inv_def unat_eq_zero)
  obtain w1 where wr: "uart_write s x (crit p (uart_entry_world p s w)) = (False, w1)"
    using assms(4) by (metis (full_types) prod.collapse)
  have send: "uart_send (crit p) (uart_write s) (unat (max_tx_items_per_run s)) (uart_tx s)
      (uart_entry_world p s w) = ([], xs @ [x], crit p w1)"
    using assms(3) n wr by simp
  have "\<not> uart_idle s" using assms(3) by (simp add: uart_idle_def)
  moreover have "line (drain_world (crit p) (\<lambda>byte w. w) (unat (max_rx_items_per_run s)) (uart_rx s) (crit p w1)) = line w"
    using observes_line_send [OF assms(2) send] observes_line_world(1) [OF assms(2), of w]
    by (simp add: observes_line_world(2) [OF assms(2)])
  ultimately show ?thesis using uart_run_eq [OF assms(1) send [symmetric]] wr by auto
qed

theorem uart_refused_byte_goes_last_witness:
  "\<exists>s1 s2 w1 w2. uart_tx (line_uart [1, 2]) = [1, 2] \<and>
    sch_uart_service_run quiet_port (Some (line_uart [1, 2])) (1, []) = Some (Some s1, w1) \<and>
    sch_uart_service_run quiet_port (Some s1) w1 = Some (Some s2, w2) \<and> snd w2 = [2, 1]"
proof -
  let ?s = "line_uart [1, 2]"
  have entry: "uart_entry_world quiet_port s w = w" for s :: "(unit, nat \<times> u16 list) sch_uart_service" and w
    by (simp add: uart_entry_world_def)
  have drain: "drain_world (\<lambda>w. w) (\<lambda>byte w. w) n xs w = w" for n and xs :: "u16 list" and w :: "nat \<times> u16 list"
    using drain_world_unseen [of "\<lambda>w. w" "\<lambda>w. w" n xs w] by simp
  have q: "crit quiet_port = (\<lambda>w :: nat \<times> u16 list. w)" by (simp add: fun_eq_iff)
  have wr: "uart_write t x w = (if fst w = 0 then (True, (0, snd w @ [x])) else (False, (fst w - 1, snd w)))"
    if "hal t = line_hal" for t x w
    using that by (simp add: uart_write_def line_hal_def split_beta)
  have refused: "\<not> fst (uart_write ?s 1 (crit quiet_port (uart_entry_world quiet_port ?s (1, []))))"
    by (simp add: entry wr line_uart_ok)
  obtain s1 where s1: "sch_uart_service_run quiet_port (Some ?s) (1, []) = Some (Some s1, (0, []))"
    "uart_inv s1" "uart_tx s1 = [2, 1]" "hal s1 = line_hal" "max_tx_items_per_run s1 = 3"
    using uart_refused_byte_goes_last [OF line_uart_ok(1) line_uart_observes [OF line_uart_ok(5)] _ refused, of "[2]"]
      line_uart_ok(2,5) [of "[1, 2]"]
    by (auto simp: entry q drain wr line_uart_def)
  have "unat (max_tx_items_per_run s1) = Suc (Suc (Suc 0))" by (simp add: s1(5))
  then have "uart_send (crit quiet_port) (uart_write s1) (unat (max_tx_items_per_run s1)) (uart_tx s1)
      (uart_entry_world quiet_port s1 (0, [])) = ([2, 1], [], (0, [2, 1]))"
    by (simp add: s1(3,4) wr entry)
  from uart_run_eq [OF s1(2) this [symmetric]] s1 show ?thesis
    using line_uart_ok(2) [of "[1, 2]"] by (auto simp: uart_idle_def q drain)
qed

text \<open>
  The two ways into the service. \<open>sch_uart_service_queue_tx\<close> says true exactly when the byte
  was queued; when the transmit ring is full it leaves the queued bytes alone and counts a drop.
  The receive interrupt queues the byte the hardware delivers, giving up the oldest received
  byte when the ring is full, and sets the hint; without a byte it changes nothing.
\<close>

lemma uart_producers:
  assumes "uart_inv s" and "uart_read s (uart_ack s w) = (ok, rx_byte, w')"
  shows "(\<exists>s'. sch_uart_service_queue_tx p (Some s) byte w =
      Some (length (uart_tx s) < unat (capacity (tx_ring s)), Some s', crit p w) \<and> uart_inv s' \<and>
      uart_tx s' = (if length (uart_tx s) < unat (capacity (tx_ring s)) then uart_tx s @ [byte] else uart_tx s) \<and>
      drops (tx_ring s') =
        (if length (uart_tx s) < unat (capacity (tx_ring s)) then drops (tx_ring s) else drops (tx_ring s) + 1) \<and>
      uart_rx s' = uart_rx s) \<and>
    (\<exists>s'. sch_uart_isr_rx p (Some s) w = Some (Some s', if ok then crit p (crit p w') else w') \<and> uart_inv s' \<and>
      uart_rx s' = (if \<not> ok then uart_rx s
        else if length (uart_rx s) < unat (capacity (rx_ring s)) then uart_rx s @ [rx_byte]
        else tl (uart_rx s) @ [rx_byte]) \<and>
      rx_hint s' = (ok \<or> rx_hint s) \<and> uart_tx s' = uart_tx s)"
proof
  have inv: "typed_inv sizeof_u16 (tx_ring s)" "typed_inv sizeof_u16 (rx_ring s)" "ring_newest (tx_ring s)"
    "\<not> ring_newest (rx_ring s)" using assms by (simp_all add: uart_inv_def)
  have "unat (count (tx_ring s)) \<le> unat (capacity (tx_ring s))"
    using typed_inv_bound [OF inv(1)] by (simp add: ring_bound_def)
  then show "\<exists>s'. sch_uart_service_queue_tx p (Some s) byte w =
      Some (length (uart_tx s) < unat (capacity (tx_ring s)), Some s', crit p w) \<and> uart_inv s' \<and>
      uart_tx s' = (if length (uart_tx s) < unat (capacity (tx_ring s)) then uart_tx s @ [byte] else uart_tx s) \<and>
      drops (tx_ring s') =
        (if length (uart_tx s) < unat (capacity (tx_ring s)) then drops (tx_ring s) else drops (tx_ring s) + 1) \<and>
      uart_rx s' = uart_rx s"
    using u16.enq_refines [OF inv(1), of byte] inv assms(1)
    by (auto simp: uart_queue_tx_eq ring_bound_def uart_inv_def uart_tx_def uart_rx_def bounded_push_def)
  show "\<exists>s'. sch_uart_isr_rx p (Some s) w = Some (Some s', if ok then crit p (crit p w') else w') \<and> uart_inv s' \<and>
      uart_rx s' = (if \<not> ok then uart_rx s
        else if length (uart_rx s) < unat (capacity (rx_ring s)) then uart_rx s @ [rx_byte]
        else tl (uart_rx s) @ [rx_byte]) \<and>
      rx_hint s' = (ok \<or> rx_hint s) \<and> uart_tx s' = uart_tx s"
    using u16.enq_refines [OF inv(2), of rx_byte] inv assms
    by (cases ok)
      (simp_all add: uart_isr_rx_eq ring_bound_def uart_inv_def uart_tx_def uart_rx_def bounded_push_def)
qed

end
