(* ===== verification/Uart_Preempted.thy ===== *)
theory Uart_Preempted
  imports Resumption Uart_Service "HOL-Library.Multiset"
begin

text \<open>
  The UART service under preemption: \<open>sch_uart_service_run\<close> as a program of its critical sections
  and callbacks. Every byte handed to the service is on the line, queued, or counted as dropped,
  wherever the interrupts arrive; none is dropped unless bytes are queued while a run is under way.
\<close>

section \<open>The run as a program\<close>

definition uart_take_hints ::
  "'w port \<Rightarrow> ('x, 'w) sch_uart_service \<Rightarrow> 'w \<Rightarrow> (bool \<times> bool) \<times> ('x, 'w) sch_uart_service \<times> 'w" where
  "uart_take_hints p s w =
     (let (state, w) = sch_port_enter_critical p w;
          had_rx_hint = rx_hint s;
          had_tx_hint = tx_hint s;
          s = s\<lparr>rx_hint := False, tx_hint := False\<rparr>;
          w = sch_port_exit_critical p state w
      in ((had_rx_hint, had_tx_hint), s, w))"

definition uart_rx_prog :: "'w port \<Rightarrow> u16 \<Rightarrow> (('x, 'w) sch_uart_service, 'w) prog" where
  "uart_rx_prog p byte = Step (\<lambda>s w. Some (
     drain_prog (unat (max_rx_items_per_run s))
       (field_pop rx_ring (\<lambda>r s. s\<lparr>rx_ring := r\<rparr>) (ring_pop u16_bytes u16_of_bytes p))
       (\<lambda>byte s w. Some (True, s, w)) Stop byte, s, w))"

text \<open>The transmit loop: between the refusal of a byte and putting it back there is room for interrupts.\<close>

fun uart_tx_prog :: "'w port \<Rightarrow> nat \<Rightarrow> u16 \<Rightarrow> (('x, 'w) sch_uart_service, 'w) prog" where
  "uart_tx_prog p 0 byte = uart_rx_prog p byte"
| "uart_tx_prog p (Suc n) byte = Step (\<lambda>s w. do {
     (ok, byte, s, w) \<leftarrow> field_pop tx_ring (\<lambda>r s. s\<lparr>tx_ring := r\<rparr>) (ring_pop u16_bytes u16_of_bytes p) s byte w;
     Some (if \<not> ok then uart_rx_prog p byte
       else Step (\<lambda>s w. do {
         write \<leftarrow> try_write_byte (hal s);
         let (ok, w) = write (hal_ctx (hal s)) byte w;
         Some (if ok then uart_tx_prog p n byte
           else Step (\<lambda>s w. do {
             (push_result, r, w) \<leftarrow> ring_push u16_bytes p (tx_ring s) byte w;
             Some (uart_rx_prog p byte, s\<lparr>tx_ring := r\<rparr>, w)
           }), s, w)
       }), s, w)
   })"

definition uart_loops_prog :: "'w port \<Rightarrow> (('x, 'w) sch_uart_service, 'w) prog" where
  "uart_loops_prog p = Step (\<lambda>s w. Some (uart_tx_prog p (unat (max_tx_items_per_run s)) 0, s, w))"

definition uart_prog :: "'w port \<Rightarrow> (('x, 'w) sch_uart_service, 'w) prog" where
  "uart_prog p = Step (\<lambda>s w.
     let ((had_rx_hint, had_tx_hint), s, w) = uart_take_hints p s w
     in Some (if had_rx_hint \<or> had_tx_hint then uart_loops_prog p
       else Step (\<lambda>s w.
         let (rx_empty, w) = sch_spsc_ring_is_empty p (Some (rx_ring s)) w
         in Some (if \<not> rx_empty then uart_loops_prog p
           else Step (\<lambda>s w.
             let (tx_empty, w) = sch_spsc_ring_is_empty p (Some (tx_ring s)) w
             in Some (if tx_empty then Stop else uart_loops_prog p, s, w)), s, w)), s, w))"

text \<open>Undisturbed, the program is the run function, also where that is undefined.\<close>

lemma uart_tx_finish:
  "finish (uart_tx_prog p n x) s w = do {
     (s, x, w) \<leftarrow> drain_loop n
       (field_pop tx_ring (\<lambda>r s. s\<lparr>tx_ring := r\<rparr>) (ring_pop u16_bytes u16_of_bytes p)) (uart_tx_body p) s x w;
     finish (uart_rx_prog p x) s w
   }"
proof (induction n arbitrary: s x w)
  case (Suc n)
  let ?pop = "field_pop tx_ring (\<lambda>r s. s\<lparr>tx_ring := r\<rparr>) (ring_pop u16_bytes u16_of_bytes p)"
  show ?case
  proof (cases "?pop s x w")
    case (Some a)
    obtain ok y s1 w1 where a: "a = (ok, y, s1, w1)" by (metis surj_pair)
    show ?thesis
    proof (cases "try_write_byte (hal s1)")
      case (Some f)
      obtain sent w2 where f: "f (hal_ctx (hal s1)) y w1 = (sent, w2)" by (metis surj_pair)
      show ?thesis
        using \<open>?pop s x w = Some a\<close> a Some f Suc.IH
        by (cases ok; cases sent; cases "ring_push u16_bytes p (tx_ring s1) y w2")
          (simp_all add: uart_tx_body_def split_beta)
    qed (use \<open>?pop s x w = Some a\<close> a in \<open>cases ok; simp add: uart_tx_body_def\<close>)
  qed simp
qed simp

lemma uart_loops_finish:
  "map_option (apfst Some) (finish (uart_loops_prog p) s w) = do {
     (s, byte, w) \<leftarrow> drain_loop (unat (max_tx_items_per_run s))
       (field_pop tx_ring (\<lambda>r s. s\<lparr>tx_ring := r\<rparr>) (ring_pop u16_bytes u16_of_bytes p))
       (uart_tx_body p) s 0 w;
     (s, byte, w) \<leftarrow> drain_loop (unat (max_rx_items_per_run s))
       (field_pop rx_ring (\<lambda>r s. s\<lparr>rx_ring := r\<rparr>) (ring_pop u16_bytes u16_of_bytes p))
       (\<lambda>byte s w. Some (True, s, w)) s byte w;
     Some (Some s, w)
   }"
  by (simp add: uart_loops_prog_def uart_tx_finish uart_rx_prog_def finish_drain case_prod_unfold map_bind)

lemma uart_prog_eq:
  "sch_uart_service_run p (Some s) w = map_option (apfst Some) (finish (uart_prog p) s w)"
proof -
  let ?e = "sch_port_enter_critical p w"
  let ?s = "s\<lparr>rx_hint := False, tx_hint := False\<rparr>" and ?w = "sch_port_exit_critical p (fst ?e) (snd ?e)"
  let ?rx = "sch_spsc_ring_is_empty p (Some (rx_ring s)) ?w"
  show ?thesis
    unfolding sch_uart_service_run_def
    by (cases "rx_hint s"; cases "tx_hint s"; cases "fst ?rx";
        cases "fst (sch_spsc_ring_is_empty p (Some (tx_ring s)) (snd ?rx))")
      (simp_all add: uart_prog_def uart_take_hints_def Let_def split_beta uart_loops_finish)
qed

section \<open>The interrupts\<close>

text \<open>
  The two interrupts of the device, and a byte queued for transmission: by an interrupt of the
  application while a run is under way, or by anyone between two runs.
\<close>

datatype uart_interrupt = UART_RX | UART_TX_READY | UART_QUEUE u16

fun uart_isr_at ::
  "'w port \<Rightarrow> uart_interrupt \<Rightarrow> ('x, 'w) sch_uart_service \<Rightarrow> 'w \<Rightarrow> (('x, 'w) sch_uart_service \<times> 'w) option" where
  "uart_isr_at p UART_RX s w = do { (s, w) \<leftarrow> sch_uart_isr_rx p (Some s) w; Some (the s, w) }"
| "uart_isr_at p UART_TX_READY s w = Some (apfst the (sch_uart_isr_tx_ready p (Some s) w))"
| "uart_isr_at p (UART_QUEUE byte) s w =
     do { (ok, s, w) \<leftarrow> sch_uart_service_queue_tx p (Some s) byte w; Some (the s, w) }"

definition uart_queued :: "uart_interrupt list \<Rightarrow> u16 list" where
  "uart_queued es = concat (map (\<lambda>e. case e of UART_QUEUE byte \<Rightarrow> [byte] | _ \<Rightarrow> []) es)"

lemma uart_queued_simps [simp]:
  "uart_queued [] = []" "uart_queued (es @ [UART_RX]) = uart_queued es"
  "uart_queued (es @ [UART_TX_READY]) = uart_queued es"
  "uart_queued (es @ [UART_QUEUE byte]) = uart_queued es @ [byte]"
  by (simp_all add: uart_queued_def)

text \<open>The interrupt side of the HAL does not transmit.\<close>

definition silent_line :: "('w \<Rightarrow> u16 list) \<Rightarrow> ('x, 'w) sch_uart_hal \<Rightarrow> bool" where
  "silent_line line h \<longleftrightarrow>
     (case ack_irq h of None \<Rightarrow> True | Some f \<Rightarrow> \<forall>c w. line (f c w) = line w) \<and>
     (case try_read_byte h of None \<Rightarrow> True | Some f \<Rightarrow> \<forall>c x w. line (snd (snd (f c x w))) = line w)"

text \<open>What one interrupt does to the transmit side.\<close>

lemma uart_isr_step:
  assumes "uart_inv s" and "\<forall>w. line (crit p w) = line w" and "silent_line line (hal s)"
  shows "\<exists>s' w'. uart_isr_at p e s w = Some (s', w') \<and> uart_inv s' \<and> hal s' = hal s \<and> line w' = line w \<and>
    ring_bound (tx_ring s') = ring_bound (tx_ring s) \<and>
    tx_ring s' = (case e of UART_QUEUE byte \<Rightarrow> ring_enq (tx_ring s) (u16_bytes byte) | _ \<Rightarrow> tx_ring s)"
proof -
  have inv: "typed_inv sizeof_u16 (rx_ring s)" "typed_inv sizeof_u16 (tx_ring s)" using assms(1) by (simp_all add: uart_inv_def)
  have ack: "line (uart_ack s v) = line v" for v
    using assms(3) by (simp add: uart_ack_def silent_line_def split: option.splits)
  show ?thesis
  proof (cases e)
    case UART_RX
    obtain ok byte w1 where rd: "uart_read s (uart_ack s w) = (ok, byte, w1)" by (metis surj_pair)
    obtain f where "try_read_byte (hal s) = Some f" using assms(1) by (auto simp: uart_inv_def is_null_iff)
    then have "line (snd (snd (uart_read s (uart_ack s w)))) = line (uart_ack s w)"
      using assms(3) by (simp add: uart_read_def silent_line_def)
    then have "line w1 = line w" by (simp add: rd ack)
    then show ?thesis
      using UART_RX rd assms(1,2) u16.enq_refines [OF inv(1), of byte]
      by (cases ok) (simp_all add: uart_isr_rx_eq uart_inv_def)
  next
    case UART_TX_READY
    then show ?thesis
      using assms(1,2) ack
      by (simp add: sch_uart_isr_tx_ready_def uart_inv_def split_beta Let_def crit_def)
  next
    case (UART_QUEUE byte)
    then show ?thesis
      using assms(1,2) u16.enq_refines [OF inv(2), of byte]
      by (simp add: uart_queue_tx_eq uart_inv_def)
  qed
qed

section \<open>The account of the bytes\<close>

text \<open>
  \<open>F\<close> holds the byte the run has in its hands. While nothing has been queued from outside, there
  is room to put it back.
\<close>

definition uart_track ::
  "('w \<Rightarrow> u16 list) \<Rightarrow> ('x, 'w) sch_uart_service \<Rightarrow> u16 multiset \<Rightarrow> u16 multiset \<Rightarrow>
   ('x, 'w) sch_uart_service \<Rightarrow> 'w \<Rightarrow> uart_interrupt list \<Rightarrow> bool" where
  "uart_track line s0 base F s w es \<longleftrightarrow> uart_inv s \<and> hal s = hal s0 \<and>
     ring_bound (tx_ring s) = ring_bound (tx_ring s0) \<and>
     (\<exists>lost. mset (line w) + F + mset (uart_tx s) + lost = base + mset (uart_queued es) \<and>
       drops (tx_ring s) = drops (tx_ring s0) + of_nat (size lost) \<and>
       (uart_queued es = [] \<longrightarrow> lost = {#} \<and> length (uart_tx s) + size F \<le> ring_bound (tx_ring s0)))"

text \<open>A step that does not touch the transmit side.\<close>

lemma uart_track_keep:
  assumes "uart_track line s0 base F s w es" and "uart_inv s'" and "hal s' = hal s"
    and "tx_ring s' = tx_ring s" and "line w' = line w" and "uart_queued es' = uart_queued es"
  shows "uart_track line s0 base F s' w' es'"
  using assms by (auto simp: uart_track_def uart_tx_def)

text \<open>Bytes change places: from the queue into the hands of the run, and on to the line.\<close>

lemma uart_track_move:
  assumes "uart_track line s0 base F s w es" and "uart_inv s'" and "hal s' = hal s"
    and "ring_bound (tx_ring s') = ring_bound (tx_ring s)" and "drops (tx_ring s') = drops (tx_ring s)"
    and "mset (line w') + F' + mset (uart_tx s') = mset (line w) + F + mset (uart_tx s)"
    and "length (uart_tx s') + size F' \<le> length (uart_tx s) + size F"
  shows "uart_track line s0 base F' s' w' es"
proof -
  from assms(1) obtain lost where "mset (line w) + F + mset (uart_tx s) + lost = base + mset (uart_queued es)"
    "drops (tx_ring s) = drops (tx_ring s0) + of_nat (size lost)"
    "uart_queued es = [] \<longrightarrow> lost = {#} \<and> length (uart_tx s) + size F \<le> ring_bound (tx_ring s0)"
    by (auto simp: uart_track_def)
  moreover have "hal s = hal s0" "ring_bound (tx_ring s) = ring_bound (tx_ring s0)"
    using assms(1) by (simp_all add: uart_track_def)
  ultimately show ?thesis
    unfolding uart_track_def assms(6) [symmetric] using assms(2-5,7) by (auto intro!: exI [of _ lost])
qed

text \<open>
  A byte enters the queue from outside or from the hands of the run, or is dropped because the
  queue is full.
\<close>

lemma uart_track_enq:
  assumes "uart_track line s0 base F s w es" and "uart_inv s'" and "hal s' = hal s" and "line w' = line w"
    and "tx_ring s' = ring_enq (tx_ring s) (u16_bytes byte)"
    and "F + mset (uart_queued es') = F' + mset (uart_queued es) + {#byte#}" and "size F' \<le> size F"
    and "uart_queued es' = [] \<Longrightarrow> uart_queued es = [] \<and> F = add_mset byte F'"
  shows "uart_track line s0 base F' s' w' es'"
proof -
  have inv: "typed_inv sizeof_u16 (tx_ring s)" "ring_newest (tx_ring s)" "hal s = hal s0"
    "ring_bound (tx_ring s) = ring_bound (tx_ring s0)"
    using assms(1) by (simp_all add: uart_track_def uart_inv_def)
  note enq = u16.enq_refines [OF inv(1), of byte]
  from assms(1) obtain lost where lost: "mset (line w) + F + mset (uart_tx s) + lost = base + mset (uart_queued es)"
    "drops (tx_ring s) = drops (tx_ring s0) + of_nat (size lost)"
    "uart_queued es = [] \<longrightarrow> lost = {#} \<and> length (uart_tx s) + size F \<le> ring_bound (tx_ring s0)"
    by (auto simp: uart_track_def)
  have "mset (line w) + F' + mset (uart_tx s) + lost + {#byte#} + (F + mset (uart_queued es)) =
      (mset (line w) + F + mset (uart_tx s) + lost) + (F' + mset (uart_queued es) + {#byte#})"
    by (simp add: ac_simps)
  also have "\<dots> = base + mset (uart_queued es') + (F + mset (uart_queued es))"
    unfolding lost(1) assms(6) [symmetric] by (simp add: ac_simps)
  finally have eq: "mset (line w) + F' + mset (uart_tx s) + lost + {#byte#} = base + mset (uart_queued es')"
    by (rule add_right_imp_eq)
  show ?thesis
  proof (cases "length (uart_tx s) < ring_bound (tx_ring s)")
    case True
    then have "uart_tx s' = uart_tx s @ [byte]" "drops (tx_ring s') = drops (tx_ring s)"
      using enq assms(5) by (simp_all add: uart_tx_def bounded_push_def)
    moreover have "uart_queued es' = [] \<Longrightarrow> lost = {#} \<and> Suc (length (uart_tx s)) + size F' \<le> ring_bound (tx_ring s0)"
      using lost(3) assms(8) by auto
    ultimately show ?thesis
      unfolding uart_track_def using lost(2) assms(2-4) enq(3) inv(3,4) assms(5) eq
      by (intro conjI exI [of _ lost]) auto
  next
    case False
    then have "length (uart_tx s) = ring_bound (tx_ring s)"
      using typed_inv_bound [OF inv(1)] by (simp add: uart_tx_def)
    then have s': "uart_tx s' = uart_tx s" "drops (tx_ring s') = drops (tx_ring s) + 1"
      using enq assms(5) inv(2) by (simp_all add: uart_tx_def bounded_push_def)
    have busy: "uart_queued es' \<noteq> []"
      using assms(8) lost(3) False inv(4) by (cases "uart_queued es' = []") auto
    show ?thesis
      unfolding uart_track_def using lost(2) assms(2-5) enq(3) inv(3,4) s' busy eq
      by (intro conjI exI [of _ "add_mset byte lost"]) auto
  qed
qed

lemma uart_track_stable:
  assumes "\<forall>w. line (crit p w) = line w" and "silent_line line (hal s0)"
  shows "stable (uart_isr_at p) line (uart_track line s0 base F)"
proof (rule stableI)
  fix s w es e
  assume tr: "uart_track line s0 base F s w es"
  then have inv: "uart_inv s" "hal s = hal s0" by (simp_all add: uart_track_def)
  obtain s' w' where s': "uart_isr_at p e s w = Some (s', w')" "uart_inv s'" "hal s' = hal s" "line w' = line w"
    "ring_bound (tx_ring s') = ring_bound (tx_ring s)"
    "tx_ring s' = (case e of UART_QUEUE byte \<Rightarrow> ring_enq (tx_ring s) (u16_bytes byte) | _ \<Rightarrow> tx_ring s)"
    using uart_isr_step [where s = s and e = e and p = p and w = w and line = line] assms inv by auto
  have "uart_track line s0 base F s' w' (es @ [e])"
  proof (cases e)
    case (UART_QUEUE byte)
    then show ?thesis
      by (intro uart_track_enq [OF tr s'(2-4), of byte]) (simp_all add: s'(6))
  qed (simp_all add: uart_track_keep [OF tr s'(2,3) _ s'(4)] s'(6))
  then show "\<exists>s' w'. uart_isr_at p e s w = Some (s', w') \<and> uart_track line s0 base F s' w' (es @ [e])"
    using s'(1) by blast
qed (simp add: uart_track_def)

section \<open>The run keeps the account\<close>

text \<open>What the lemmas of this section share: an observer of the line that only writes change.\<close>

definition line_setting ::
  "('w \<Rightarrow> u16 list) \<Rightarrow> 'w port \<Rightarrow> ('x, 'w) sch_uart_service \<Rightarrow> bool" where
  "line_setting line p s0 \<longleftrightarrow> observes_line line p s0 \<and> silent_line line (hal s0)"

lemma line_setting_crit: "line_setting line p s0 \<Longrightarrow> line (crit p w) = line w"
  by (simp add: line_setting_def observes_line_def)

lemma line_setting_stable: "line_setting line p s0 \<Longrightarrow> stable (uart_isr_at p) line (uart_track line s0 base F)"
  by (rule uart_track_stable) (simp_all add: line_setting_def observes_line_def)

lemma line_setting_write:
  "line_setting line p s0 \<Longrightarrow> hal s = hal s0 \<Longrightarrow> try_write_byte (hal s) = Some f \<Longrightarrow>
     line (snd (f (hal_ctx (hal s)) x w)) = line w @ (if fst (f (hal_ctx (hal s)) x w) then [x] else [])"
  by (simp add: line_setting_def observes_line_def uart_write_def)

text \<open>
  Of the first \<open>t\<close> bytes handed to the service \<open>k\<close> are on the line, if there are so many. A run
  makes progress towards a \<open>t\<close> above zero when the transmitter refuses nothing.
\<close>

definition uart_past ::
  "('w \<Rightarrow> u16 list) \<Rightarrow> ('x, 'w) sch_uart_service \<Rightarrow> u16 multiset \<Rightarrow> nat \<Rightarrow> nat \<Rightarrow> u16 multiset \<Rightarrow>
   ('x, 'w) sch_uart_service \<Rightarrow> 'w \<Rightarrow> uart_interrupt list \<Rightarrow> bool" where
  "uart_past line s0 base t k F s w es \<longleftrightarrow> uart_track line s0 base F s w es \<and>
     t \<le> length (line w) + size F + length (uart_tx s) \<and> min t k \<le> length (line w)"

definition uart_takes :: "nat \<Rightarrow> ('x, 'w) sch_uart_service \<Rightarrow> bool" where
  "uart_takes t s0 \<longleftrightarrow> t = 0 \<or> (\<forall>x w. fst (uart_write s0 x w))"

lemma uart_past_0: "uart_past line s0 base 0 k F s w es \<longleftrightarrow> uart_track line s0 base F s w es"
  by (simp add: uart_past_def)

lemma uart_past_inv: "uart_past line s0 base t k F s w es \<Longrightarrow> uart_inv s"
  by (simp add: uart_past_def uart_track_def)

lemma uart_past_less: "uart_past line s0 base t (Suc k) F s w es \<Longrightarrow> uart_past line s0 base t k F s w es"
  by (auto simp: uart_past_def)

lemma uart_past_all:
  "uart_past line s0 base t k {#} s w es \<Longrightarrow> uart_tx s = [] \<Longrightarrow> uart_past line s0 base t k' {#} s w es"
  by (auto simp: uart_past_def)

lemma uart_past_keep:
  assumes "uart_past line s0 base t k F s w es" and "uart_inv s'" and "hal s' = hal s"
    and "tx_ring s' = tx_ring s" and "line w' = line w"
  shows "uart_past line s0 base t k F s' w' es"
proof -
  have "uart_track line s0 base F s' w' es"
    using assms(1) by (auto simp: uart_past_def intro: uart_track_keep [OF _ assms(2-5) refl])
  then show ?thesis using assms(1,4,5) by (simp add: uart_past_def uart_tx_def)
qed

lemma uart_past_move:
  assumes "uart_past line s0 base t k F s w es" and "uart_inv s'" and "hal s' = hal s"
    and "ring_bound (tx_ring s') = ring_bound (tx_ring s)" and "drops (tx_ring s') = drops (tx_ring s)"
    and "mset (line w') + F' + mset (uart_tx s') = mset (line w) + F + mset (uart_tx s)"
    and "length (uart_tx s') + size F' \<le> length (uart_tx s) + size F" and "min t k' \<le> length (line w')"
  shows "uart_past line s0 base t k' F' s' w' es"
proof -
  have "uart_track line s0 base F' s' w' es"
    using assms(1) by (auto simp: uart_past_def intro: uart_track_move [OF _ assms(2-7)])
  moreover have "length (line w') + size F' + length (uart_tx s') = length (line w) + size F + length (uart_tx s)"
    using arg_cong [OF assms(6), of size] by simp
  ultimately show ?thesis using assms(1,8) by (simp add: uart_past_def)
qed

lemma uart_past_stable:
  assumes "line_setting line p s0"
  shows "stable (uart_isr_at p) line (uart_past line s0 base t k F)"
proof (rule stableI)
  fix s w es e
  assume J: "uart_past line s0 base t k F s w es"
  then have tr: "uart_track line s0 base F s w es" and inv: "uart_inv s" "hal s = hal s0"
    by (simp_all add: uart_past_def uart_track_def)
  obtain s' w' where
    s': "uart_isr_at p e s w = Some (s', w')" "uart_track line s0 base F s' w' (es @ [e])"
    using stable_isr [OF line_setting_stable [OF assms] tr, of e] by blast
  have "\<forall>w. line (crit p w) = line w" "silent_line line (hal s)"
    using assms inv(2) by (simp_all add: line_setting_def observes_line_def)
  from uart_isr_step [OF inv(1) this, of e w] s'(1) have ring: "line w' = line w"
    "tx_ring s' = (case e of UART_QUEUE byte \<Rightarrow> ring_enq (tx_ring s) (u16_bytes byte) | _ \<Rightarrow> tx_ring s)" by auto
  have r: "typed_inv sizeof_u16 (tx_ring s)" "ring_newest (tx_ring s)" using inv(1) by (simp_all add: uart_inv_def)
  have "length (uart_tx s) \<le> length (uart_tx s')"
    using ring(2) u16.enq_refines(2) [OF r(1)] r(2) by (cases e) (simp_all add: uart_tx_def bounded_push_def)
  then show "\<exists>s' w'. uart_isr_at p e s w = Some (s', w') \<and> uart_past line s0 base t k F s' w' (es @ [e])"
    using s' J ring(1) by (auto simp: uart_past_def)
qed (simp add: uart_past_def uart_track_def)

lemma uart_rx_withstands:
  assumes "line_setting line p s0" and "uart_past line s0 base t k {#} s w es"
  shows "withstands (uart_isr_at p) line (uart_past line s0 base t k {#}) (uart_rx_prog p byte) s w es"
  unfolding uart_rx_prog_def
proof (rule withstands_step [OF uart_past_stable [OF assms(1)] assms(2)], simp)
  fix s w es
  let ?J = "uart_past line s0 base t k {#}"
  assume J: "?J s w es"
  note st = uart_past_stable [OF assms(1), of base t k "{#}"] and crit = line_setting_crit [OF assms(1)]
  show "withstands (uart_isr_at p) line ?J (drain_prog (unat (max_rx_items_per_run s))
      (field_pop rx_ring (\<lambda>r s. s\<lparr>rx_ring := r\<rparr>) (ring_pop u16_bytes u16_of_bytes p))
      (\<lambda>byte s w. Some (True, s, w)) Stop byte) s w es"
  proof (rule withstands_drain [where I = ?J and H = "\<lambda>x. ?J", OF st st _ _ _ J])
    fix s w es x
    assume J: "?J s w es"
    then have inv: "uart_inv s" by (rule uart_past_inv)
    then have r: "typed_inv sizeof_u16 (rx_ring s)" by (simp add: uart_inv_def)
    let ?s = "s\<lparr>rx_ring := ring_deq (rx_ring s)\<rparr>"
    have "uart_inv ?s" using inv u16.deq_refines [OF r] by (simp add: uart_inv_def)
    then have "?J ?s (crit p w) es" "?J s (crit p w) es"
      by (rule uart_past_keep [OF J], simp_all add: crit) (rule uart_past_keep [OF J inv], simp_all add: crit)
    then show "\<exists>ok y s' w'. field_pop rx_ring (\<lambda>r s. s\<lparr>rx_ring := r\<rparr>) (ring_pop u16_bytes u16_of_bytes p) s x w =
        Some (ok, y, s', w') \<and> (if ok then ?J s' w' es else ?J s' w' es)"
      by (auto simp: field_pop_def u16.pop_refines [OF r])
  qed (auto intro: withstands.stop)
qed

lemma uart_put_back_withstands:
  assumes "line_setting line p s0" and "uart_track line s0 base {#byte#} s w es"
  shows "withstands (uart_isr_at p) line (uart_past line s0 base 0 k {#}) (Step (\<lambda>s w. do {
      (push_result, r, w) \<leftarrow> ring_push u16_bytes p (tx_ring s) byte w;
      Some (uart_rx_prog p byte, s\<lparr>tx_ring := r\<rparr>, w)
    })) s w es"
proof (rule withstands_step [OF line_setting_stable [OF assms(1)] assms(2)])
  fix s w es
  assume J: "uart_track line s0 base {#byte#} s w es"
  then have inv: "uart_inv s" by (simp add: uart_track_def)
  then have t: "typed_inv sizeof_u16 (tx_ring s)" by (simp add: uart_inv_def)
  let ?s = "s\<lparr>tx_ring := ring_enq (tx_ring s) (u16_bytes byte)\<rparr>"
  have "uart_inv ?s" using inv u16.enq_refines [OF t, of byte] by (simp add: uart_inv_def)
  then have "uart_track line s0 base {#} ?s (crit p w) es"
    by (rule uart_track_enq [OF J]) (simp_all add: line_setting_crit [OF assms(1)])
  then have "uart_past line s0 base 0 k {#} ?s (crit p w) es" by (simp add: uart_past_0)
  from uart_rx_withstands [OF assms(1) this, of byte]
  show "\<exists>c s' w'. do { (push_result, r, w) \<leftarrow> ring_push u16_bytes p (tx_ring s) byte w;
      Some (uart_rx_prog p byte, s\<lparr>tx_ring := r\<rparr>, w) } = Some (c, s', w') \<and>
    withstands (uart_isr_at p) line (uart_past line s0 base 0 k {#}) c s' w' es"
    by (simp add: u16.push_refines [OF t])
qed

lemma uart_write_withstands:
  assumes "line_setting line p s0" and "uart_takes t s0" and "uart_past line s0 base t k {#byte#} s w es"
    and "\<And>s w es. uart_past line s0 base t (Suc k) {#} s w es \<Longrightarrow>
      withstands (uart_isr_at p) line (uart_past line s0 base t (Suc k) {#}) (uart_tx_prog p n byte) s w es"
  shows "withstands (uart_isr_at p) line (uart_past line s0 base t (Suc k) {#}) (Step (\<lambda>s w. do {
      write \<leftarrow> try_write_byte (hal s);
      let (ok, w) = write (hal_ctx (hal s)) byte w;
      Some (if ok then uart_tx_prog p n byte
        else Step (\<lambda>s w. do {
          (push_result, r, w) \<leftarrow> ring_push u16_bytes p (tx_ring s) byte w;
          Some (uart_rx_prog p byte, s\<lparr>tx_ring := r\<rparr>, w)
        }), s, w)
    })) s w es"
proof (rule withstands_step [OF uart_past_stable [OF assms(1)] assms(3)])
  fix s w es
  assume J: "uart_past line s0 base t k {#byte#} s w es"
  then have inv: "uart_inv s" "hal s = hal s0" "min t k \<le> length (line w)" by (simp_all add: uart_past_def uart_track_def)
  then obtain f where f: "try_write_byte (hal s) = Some f" by (auto simp: uart_inv_def is_null_iff)
  obtain ok w1 where w1: "f (hal_ctx (hal s)) byte w = (ok, w1)" by (metis surj_pair)
  note line = line_setting_write [OF assms(1) inv(2) f, of byte w, unfolded w1, simplified]
  have "uart_past line s0 base t (Suc k) {#} s w1 es" if ok
    using that inv(3) by (intro uart_past_move [OF J inv(1)]) (simp_all add: line)
  moreover have "uart_track line s0 base {#byte#} s w1 es" if "\<not> ok"
    using that uart_past_keep [OF J inv(1), of w1] by (simp add: line uart_past_def)
  moreover have "t = 0" if "\<not> ok"
  proof -
    have "\<not> fst (uart_write s0 byte w)" using that f w1 inv(2) by (simp add: uart_write_def)
    then show ?thesis using assms(2) by (auto simp: uart_takes_def)
  qed
  ultimately show "\<exists>c s' w'. do {
        write \<leftarrow> try_write_byte (hal s);
        let (ok, w) = write (hal_ctx (hal s)) byte w;
        Some (if ok then uart_tx_prog p n byte
          else Step (\<lambda>s w. do {
            (push_result, r, w) \<leftarrow> ring_push u16_bytes p (tx_ring s) byte w;
            Some (uart_rx_prog p byte, s\<lparr>tx_ring := r\<rparr>, w)
          }), s, w)
      } = Some (c, s', w') \<and> withstands (uart_isr_at p) line (uart_past line s0 base t (Suc k) {#}) c s' w' es"
    using f w1 assms(4) uart_put_back_withstands [OF assms(1), of base byte s w1 es "Suc k"] by (cases ok) simp_all
qed

lemma uart_tx_withstands:
  assumes "line_setting line p s0" and "uart_takes t s0"
  shows "uart_past line s0 base t (if n = 0 then Suc k else k) {#} s w es \<Longrightarrow>
    withstands (uart_isr_at p) line (uart_past line s0 base t (Suc k) {#}) (uart_tx_prog p n byte) s w es"
proof (induction n arbitrary: byte s w es)
  case 0
  then show ?case using uart_rx_withstands [OF assms(1)] by simp
next
  case (Suc n)
  note crit = line_setting_crit [OF assms(1)] and prog = uart_tx_prog.simps(2) [of p n byte]
  show ?case
    unfolding prog
  proof (rule withstands_step [OF uart_past_stable [OF assms(1)] Suc.prems])
    fix s w es
    assume "uart_past line s0 base t (if Suc n = 0 then Suc k else k) {#} s w es"
    then have J: "uart_past line s0 base t k {#} s w es" by simp
    then have inv: "uart_inv s" by (rule uart_past_inv)
    then have t: "typed_inv sizeof_u16 (tx_ring s)" by (simp add: uart_inv_def)
    show "\<exists>c s' w'. do {
        (ok, byte, s, w) \<leftarrow> field_pop tx_ring (\<lambda>r s. s\<lparr>tx_ring := r\<rparr>) (ring_pop u16_bytes u16_of_bytes p) s byte w;
        Some (if \<not> ok then uart_rx_prog p byte
          else Step (\<lambda>s w. do {
            write \<leftarrow> try_write_byte (hal s);
            let (ok, w) = write (hal_ctx (hal s)) byte w;
            Some (if ok then uart_tx_prog p n byte
              else Step (\<lambda>s w. do {
                (push_result, r, w) \<leftarrow> ring_push u16_bytes p (tx_ring s) byte w;
                Some (uart_rx_prog p byte, s\<lparr>tx_ring := r\<rparr>, w)
              }), s, w)
          }), s, w)
      } = Some (c, s', w') \<and> withstands (uart_isr_at p) line (uart_past line s0 base t (Suc k) {#}) c s' w' es"
    proof (cases "uart_tx s")
      case Nil
      have "uart_past line s0 base t k {#} s (crit p w) es" by (rule uart_past_keep [OF J inv]) (simp_all add: crit)
      from uart_rx_withstands [OF assms(1) uart_past_all [OF this Nil], where byte = byte] show ?thesis
        using Nil by (simp add: field_pop_def u16.pop_refines [OF t] uart_tx_def del: typed_items_empty_iff)
    next
      case (Cons y ys)
      let ?s = "s\<lparr>tx_ring := ring_deq (tx_ring s)\<rparr>"
      note deq = u16.deq_refines [OF t]
      have "uart_inv ?s" using inv deq by (simp add: uart_inv_def)
      moreover have "uart_tx ?s = ys" using Cons deq(2) by (simp add: uart_tx_def)
      moreover have "min t k \<le> length (line w)" using J by (simp add: uart_past_def)
      ultimately have past: "uart_past line s0 base t k {#y#} ?s (crit p w) es"
        by (intro uart_past_move [OF J]) (simp_all add: crit Cons deq)
      have "withstands (uart_isr_at p) line (uart_past line s0 base t (Suc k) {#}) (uart_tx_prog p n y) s w es"
        if "uart_past line s0 base t (Suc k) {#} s w es" for s w es
        using Suc.IH [of s w es y] that uart_past_less [OF that] by (cases "n = 0") simp_all
      from uart_write_withstands [OF assms past this] show ?thesis
        using Cons by (simp add: field_pop_def u16.pop_refines [OF t] uart_tx_def)
    qed
  qed
qed

lemma uart_withstands:
  assumes "line_setting line p s0" and "uart_takes t s0" and "uart_past line s0 base t k {#} s w es"
  shows "withstands (uart_isr_at p) line (uart_past line s0 base t (Suc k) {#}) (uart_prog p) s w es"
proof -
  let ?J = "uart_past line s0 base t k {#}" and ?Q = "uart_past line s0 base t (Suc k) {#}" and ?isr = "uart_isr_at p"
  note st = uart_past_stable [OF assms(1), of base t _ "{#}"] and crit = line_setting_crit [OF assms(1)]
  have J_crit: "?J s (crit p w) es" if "?J s w es" for s w es
    by (rule uart_past_keep [OF that uart_past_inv [OF that]]) (simp_all add: crit)
  have loops: "withstands ?isr line ?Q (uart_loops_prog p) s w es" if "?J s w es" for s w es
    unfolding uart_loops_prog_def
  proof (rule withstands_step [OF st that], simp)
    fix s w es
    assume J: "?J s w es"
    then have "max_tx_items_per_run s \<noteq> 0" using uart_past_inv [OF J] by (simp add: uart_inv_def)
    then show "withstands ?isr line ?Q (uart_tx_prog p (unat (max_tx_items_per_run s)) 0) s w es"
      using J by (intro uart_tx_withstands [OF assms(1,2)]) (simp add: unat_eq_zero)
  qed
  have asks: "?J s (snd (sch_spsc_ring_is_empty p (Some (rx_ring s)) w)) es"
    "sch_spsc_ring_is_empty p (Some (tx_ring s)) w = (uart_tx s = [], crit p w)" if "?J s w es" for s w es
  proof -
    have "ring_inv (rx_ring s)" "typed_inv sizeof_u16 (tx_ring s)"
      using uart_past_inv [OF that] by (simp_all add: uart_inv_def typed_inv_def)
    then show "?J s (snd (sch_spsc_ring_is_empty p (Some (rx_ring s)) w)) es"
      "sch_spsc_ring_is_empty p (Some (tx_ring s)) w = (uart_tx s = [], crit p w)"
      using J_crit [OF that] by (simp_all add: ring_is_empty_refines uart_tx_def typed_inv_def)
  qed
  have tx: "withstands ?isr line ?Q (Step (\<lambda>s w.
      let (tx_empty, w) = sch_spsc_ring_is_empty p (Some (tx_ring s)) w
      in Some (if tx_empty then Stop else uart_loops_prog p, s, w))) s w es" if "?J s w es" for s w es
  proof (rule withstands_ask_result [where P' = "\<lambda>tx_empty. if tx_empty then ?Q else ?J", OF st that])
    fix s w es
    assume "?J s w es"
    from J_crit [OF this] uart_past_all [OF J_crit [OF this]] asks(2) [OF this]
    show "(if fst (sch_spsc_ring_is_empty p (Some (tx_ring s)) w) then ?Q else ?J) s
        (snd (sch_spsc_ring_is_empty p (Some (tx_ring s)) w)) es" by simp
  qed (auto intro!: withstands.stop loops split: if_splits)
  have rx: "withstands ?isr line ?Q (Step (\<lambda>s w.
      let (rx_empty, w) = sch_spsc_ring_is_empty p (Some (rx_ring s)) w
      in Some (if \<not> rx_empty then uart_loops_prog p
        else Step (\<lambda>s w.
          let (tx_empty, w) = sch_spsc_ring_is_empty p (Some (tx_ring s)) w
          in Some (if tx_empty then Stop else uart_loops_prog p, s, w)), s, w))) s w es" if "?J s w es" for s w es
    by (rule withstands_ask [OF st that asks(1)]) (assumption | intro withstands_if loops tx)+
  show ?thesis
    unfolding uart_prog_def
  proof (rule withstands_step [OF st assms(3)])
    fix s w es
    assume J: "?J s w es"
    let ?s = "s\<lparr>rx_hint := False, tx_hint := False\<rparr>"
    have hints: "uart_take_hints p s w = ((rx_hint s, tx_hint s), ?s, crit p w)"
      by (simp add: uart_take_hints_def crit_def split_beta Let_def)
    have "uart_inv s" using J by (rule uart_past_inv)
    then have "?J ?s (crit p w) es"
      by (intro uart_past_keep [OF J]) (simp_all add: crit uart_inv_def)
    then show "\<exists>c s' w'. (let ((had_rx_hint, had_tx_hint), s, w) = uart_take_hints p s w
        in Some (if had_rx_hint \<or> had_tx_hint then uart_loops_prog p
          else Step (\<lambda>s w.
            let (rx_empty, w) = sch_spsc_ring_is_empty p (Some (rx_ring s)) w
            in Some (if \<not> rx_empty then uart_loops_prog p
              else Step (\<lambda>s w.
                let (tx_empty, w) = sch_spsc_ring_is_empty p (Some (tx_ring s)) w
                in Some (if tx_empty then Stop else uart_loops_prog p, s, w)), s, w)), s, w)) = Some (c, s', w') \<and>
        withstands ?isr line ?Q c s' w' es"
      unfolding hints using loops rx by simp
  qed
qed

lemma uart_keeps_track:
  assumes "line_setting line p s0" and "uart_track line s0 base {#} s w es"
  shows "withstands (uart_isr_at p) line (uart_track line s0 base {#}) (uart_prog p) s w es"
  using uart_withstands [OF assms(1), of 0 base 0 s w es] assms(2) by (simp add: uart_past_0 [abs_def] uart_takes_def)

section \<open>Properties\<close>

text \<open>
  Every byte is accounted for, wherever interrupts arrive. Receive and transmit-ready interrupts
  and calls of \<open>sch_uart_service_queue_tx\<close> may come between any two critical sections or callbacks of
  any number of runs; no step of a run and no interrupt entry is ever undefined. When they stop,
  wherever that finds the run, the rest of the run ends, and the bytes that were on the line or queued
  at the start or handed in since are on the line, queued, or counted as dropped, each as often as it
  was handed in. If none was handed in since, none is dropped: what the transmitter refuses always
  fits back into the ring.
\<close>

lemma uart_bytes_accounted:
  assumes "uart_inv s0" and "observes_line line p s0" and "silent_line line (hal s0)"
    and "interleaved (uart_isr_at p) (uart_prog p) (s0, w0) es (c, s, w)"
  shows "uart_isr_at p e s w \<noteq> None \<and> (case c of Stop \<Rightarrow> True | Step f \<Rightarrow> f s w \<noteq> None) \<and>
    (\<exists>s1 w1 lost. finish c s w = Some (s1, w1) \<and> uart_inv s1 \<and>
      mset (line w1) + mset (uart_tx s1) + lost = mset (line w0) + mset (uart_tx s0) + mset (uart_queued es) \<and>
      drops (tx_ring s1) = drops (tx_ring s0) + of_nat (size lost) \<and> (uart_queued es = [] \<longrightarrow> lost = {#}))"
proof -
  let ?J = "uart_track line s0 (mset (line w0) + mset (uart_tx s0)) {#}"
  have set: "line_setting line p s0" using assms(2,3) by (simp add: line_setting_def)
  note st = line_setting_stable [OF set, of "mset (line w0) + mset (uart_tx s0)" "{#}"]
  have "typed_inv sizeof_u16 (tx_ring s0)" using assms(1) by (simp add: uart_inv_def)
  then have "?J s0 w0 []"
    using typed_inv_bound [of sizeof_u16 "tx_ring s0"] assms(1) by (simp add: uart_track_def uart_tx_def)
  from interleaved_withstands [OF assms(4) this st uart_keeps_track [OF set]]
  have ws: "withstands (uart_isr_at p) line ?J c s w es" .
  then obtain s1 w1 where s1: "finish c s w = Some (s1, w1)" "?J s1 w1 es" using withstands_finish [OF ws] by blast
  then have "\<exists>lost. mset (line w1) + mset (uart_tx s1) + lost = mset (line w0) + mset (uart_tx s0) + mset (uart_queued es) \<and>
      drops (tx_ring s1) = drops (tx_ring s0) + of_nat (size lost) \<and> (uart_queued es = [] \<longrightarrow> lost = {#})" "uart_inv s1"
    by (auto simp: uart_track_def)
  moreover have "uart_isr_at p e s w \<noteq> None" by (rule withstands_isr [OF st ws])
  moreover have "case c of Stop \<Rightarrow> True | Step f \<Rightarrow> f s w \<noteq> None"
  proof (cases c)
    case (Step f)
    then show ?thesis using withstands_defined [OF ws [unfolded Step]] by simp
  qed simp
  ultimately show ?thesis using s1(1) by blast
qed

end
