(* ===== verification/Uart_Scheduled.thy ===== *)
theory Uart_Scheduled
  imports Board Uart_Preempted
begin

text \<open>
  The UART service as a task of the scheduler, with interrupts anywhere: every byte handed to it is
  accounted for, and bytes go out at every dispatch of the task when the transmitter is ready.
\<close>

section \<open>The service under the scheduler\<close>

text \<open>Progress can only be promised for a transmitter that refuses nothing.\<close>

definition uart_stage ::
  "('w \<Rightarrow> u16 list) \<Rightarrow> ('x, 'w) sch_uart_service \<Rightarrow> u16 multiset \<Rightarrow> nat \<times> nat \<Rightarrow> nat \<Rightarrow>
   ('x, 'w) sch_uart_service \<Rightarrow> 'w \<Rightarrow> uart_interrupt list \<Rightarrow> bool" where
  "uart_stage line s0 base = (\<lambda>(t, k) n. uart_past line s0 base (if uart_takes t s0 then t else 0) (k + n) {#})"

lemma uart_preempted_service:
  assumes "observes_line line p s0" and "silent_line line (hal s0)"
  shows "preempted_service (uart_isr_at p) (uart_prog p) line (uart_track line s0 base {#}) (uart_stage line s0 base)"
proof
  have set: "line_setting line p s0" using assms by (simp add: line_setting_def)
  fix s v es
  show "stable (uart_isr_at p) line (uart_track line s0 base {#})" by (rule line_setting_stable [OF set])
  show "stable (uart_isr_at p) line (uart_stage line s0 base k n)" for k n
    unfolding uart_stage_def split_beta by (rule uart_past_stable [OF set])
  show "withstands (uart_isr_at p) line (uart_track line s0 base {#}) (uart_prog p) s v es" if "uart_track line s0 base {#} s v es"
    by (rule uart_keeps_track [OF set that])
  show "withstands (uart_isr_at p) line (uart_stage line s0 base k (Suc n)) (uart_prog p) s v es" if "uart_stage line s0 base k n s v es"
    for k n
  proof -
    have "uart_takes (if uart_takes (fst k) s0 then fst k else 0) s0" by (simp add: uart_takes_def)
    from uart_withstands [OF set this] show ?thesis using that by (simp add: uart_stage_def split_beta)
  qed
qed

lemma uart_preempted_app:
  assumes "leaves_log p env line" and "observes_line line p s0" and "silent_line line (hal s0)"
  shows "preempted_app (uart_isr_at p) (uart_prog p) p env line (uart_track line s0 base {#}) (uart_stage line s0 base)"
  by (intro preempted_app.intro preempted_app_axioms.intro uart_preempted_service [OF assms(2,3)] assms(1))

section \<open>The board\<close>

definition uart_board_hal :: "(unit, u16 board) sch_uart_hal" where
  "uart_board_hal = \<lparr>try_read_byte = Some (\<lambda>c x b. (True, 65, b)),
     try_write_byte = Some (\<lambda>c x b. (True, b\<lparr>board_log := board_log b @ [x]\<rparr>)), ack_irq = None, hal_ctx = None\<rparr>"

definition uart_board_service :: "u16 list \<Rightarrow> (unit, u16 board) sch_uart_service" where
  "uart_board_service bytes = \<lparr>hal = uart_board_hal, rx_ring = rx_ring (line_uart bytes), tx_ring = tx_ring (line_uart bytes),
     rx_hint = False, tx_hint = False, max_rx_items_per_run = 2, max_tx_items_per_run = 3\<rparr>"

lemma uart_board_ok:
  "uart_inv (uart_board_service bytes)" "uart_tx (uart_board_service bytes) = take 4 bytes"
  "ring_bound (tx_ring (uart_board_service bytes)) = 4"
  "observes_line board_log board_port (uart_board_service bytes)" "silent_line board_log (hal (uart_board_service bytes))"
  "fst (uart_write (uart_board_service bytes) x b)"
  using line_uart_ok(1,2,4) [of bytes]
  by (simp_all add: uart_board_service_def uart_inv_def uart_tx_def uart_board_hal_def observes_line_def silent_line_def uart_write_def)

interpretation uart_board: preempted_app "uart_isr_at board_port" "uart_prog board_port" board_port board_env board_log
  "uart_track board_log (uart_board_service bytes) base {#}" "uart_stage board_log (uart_board_service bytes) base"
  for bytes base
  by (rule uart_preempted_app [OF board_leaves uart_board_ok(4,5)])

text \<open>The interrupts leave the clock of the board alone.\<close>

lemma uart_board_stable:
  "stable (uart_isr_at board_port) (\<lambda>v. v) (\<lambda>s v es. uart_track board_log (uart_board_service bytes) base {#} s v es \<and> board_ticks v = t)"
proof (rule stableI)
  fix s es e and v :: "u16 board"
  assume J: "uart_track board_log (uart_board_service bytes) base {#} s v es \<and> board_ticks v = t"
  then obtain s' v' where s': "uart_isr_at board_port e s v = Some (s', v')"
    "uart_track board_log (uart_board_service bytes) base {#} s' v' (es @ [e])"
    using uart_board.stable [of bytes base] unfolding stable_def by blast
  have "uart_inv s" "hal s = uart_board_hal" using J by (simp_all add: uart_track_def uart_board_service_def)
  then have "v' = v"
    using s'(1) by (cases e) (auto simp: uart_isr_rx_eq uart_queue_tx_eq uart_ack_def uart_read_def uart_board_hal_def
        sch_uart_isr_tx_ready_def Let_def split: if_splits)
  then show "\<exists>s' v'. uart_isr_at board_port e s v = Some (s', v') \<and>
      uart_track board_log (uart_board_service bytes) base {#} s' v' (es @ [e]) \<and> board_ticks v' = t" using s' J by blast
qed simp

section \<open>Properties\<close>

text \<open>
  C28. Bytes reach the line, none unaccounted for. The run function of the UART service is registered
  as a task, beside any tasks that leave the line alone; device interrupts arrive and bytes are
  queued for transmission wherever interrupts are enabled, between critical sections of the
  scheduler, before any step of a run of the service, and between polls. No poll and no interrupt
  entry is ever undefined, and the interrupts arrive as supplied. The bytes on the line or queued at
  the start and those handed in since are on the line, queued, or counted as dropped, each as often
  as it was handed in; none is dropped if none was handed in. And if the transmitter refuses nothing,
  at least one more byte is on the line for every point of the release grid of the task that the
  polls met, until those queued at the start are.
\<close>

theorem uart_sent_in_time:
  assumes "uart_inv s0" and "observes_line line p s0" and "silent_line line (hal s0)" and "leaves_log p env line"
    and "sch_wf sc" and "sch_quiet sc" and "j < SCH_MAX_TASKS" and "fn (tasks sc ! j) = Some Service_Task"
    and "tracks R period T0 lo (tasks sc ! j)" and "0 < period" and "period \<le> 2 ^ 31"
    and "\<forall>h\<in>set hs. \<forall>v. line (h v) = line v"
  shows "\<exists>polls sc' w' lost.
    run_seq cfg (interrupted (uart_isr_at p) p) (interrupted_app (uart_isr_at p) (uart_prog p) env)
      (map (elapse (uart_isr_at p)) hs) (Some sc) (system_start s0 v0 batches) = Some (polls, Some sc', w') \<and>
    \<not> broken w' \<and> arrived w' @ concat (coming w') = concat batches \<and>
    mset (line (platform w')) + mset (uart_tx (service w')) + lost =
      mset (line v0) + mset (uart_tx s0) + mset (uart_queued (arrived w')) \<and>
    drops (tx_ring (service w')) = drops (tx_ring s0) + of_nat (size lost) \<and>
    (uart_queued (arrived w') = [] \<longrightarrow> lost = {#}) \<and>
    (\<forall>Ts. (\<forall>x v. fst (uart_write s0 x v)) \<and> map fst polls = map of_nat Ts \<and> polls_close T0 Ts \<longrightarrow>
      length (line v0) + min (length (uart_tx s0)) (releases_met R period lo Ts) \<le> length (line (platform w')))"
proof -
  let ?w = "system_start s0 v0 batches" and ?base = "mset (line v0) + mset (uart_tx s0)"
  let ?goal = "(length (line v0) + length (uart_tx s0), length (line v0))"
  have "typed_inv sizeof_u16 (tx_ring s0)" using assms(1) by (simp add: uart_inv_def)
  then have start: "uart_track line s0 ?base {#} s0 v0 []"
    using typed_inv_bound [of sizeof_u16 "tx_ring s0"] assms(1) by (simp add: uart_track_def uart_tx_def)
  then have J: "holds (uart_track line s0 ?base {#}) ?w" and stage: "holds (uart_stage line s0 ?base ?goal 0) ?w"
    by (simp_all add: uart_stage_def uart_past_def)
  from preempted_app.polls_advance [OF uart_preempted_app [OF assms(4,2,3)] assms(5,6) J assms(12,7-11), of cfg]
  obtain polls sc' w' n where
    r: "run_seq cfg (interrupted (uart_isr_at p) p) (interrupted_app (uart_isr_at p) (uart_prog p) env)
      (map (elapse (uart_isr_at p)) hs) (Some sc) ?w = Some (polls, Some sc', w')"
    and J': "holds (uart_track line s0 ?base {#}) w'" "supplied ?w w'"
    and prog: "\<forall>k m. holds (uart_stage line s0 ?base k m) ?w \<longrightarrow> holds (uart_stage line s0 ?base k (m + n)) w'"
    and met: "\<forall>Ts. map fst polls = map of_nat Ts \<longrightarrow> polls_close T0 Ts \<longrightarrow> releases_met R period lo Ts \<le> n" by blast
  from prog stage have "holds (uart_stage line s0 ?base ?goal n) w'" by (metis add_0)
  then have "length (line v0) + min (length (uart_tx s0)) n \<le> length (line (platform w'))" if "\<forall>x v. fst (uart_write s0 x v)"
    using that by (simp add: holds_def uart_stage_def uart_past_def uart_takes_def min_add_distrib_right)
  then have "length (line v0) + min (length (uart_tx s0)) (releases_met R period lo Ts) \<le> length (line (platform w'))"
    if "\<forall>x v. fst (uart_write s0 x v)" "map fst polls = map of_nat Ts" "polls_close T0 Ts" for Ts using met that by fastforce
  moreover from J'(1) have "\<not> broken w'" and "uart_track line s0 ?base {#} (service w') (platform w') (arrived w')"
    by (simp_all add: holds_def)
  moreover from this(2) obtain lost where
    "mset (line (platform w')) + mset (uart_tx (service w')) + lost = ?base + mset (uart_queued (arrived w'))"
    "drops (tx_ring (service w')) = drops (tx_ring s0) + of_nat (size lost)"
    "uart_queued (arrived w') = [] \<longrightarrow> lost = {#}" by (auto simp: uart_track_def)
  moreover have "arrived w' @ concat (coming w') = concat batches" using J'(2) by (simp add: supplied_def system_start_def)
  ultimately show ?thesis using r by (intro exI [of _ polls] exI [of _ sc'] exI [of _ w'] exI [of _ lost]) simp
qed

text \<open>Two bytes queued, a third one queued before the poll at 500 ticks.\<close>

theorem uart_sent_in_time_witness:
  "\<exists>polls sc' w' lost.
    run_seq all_on (interrupted (uart_isr_at board_port) board_port)
      (interrupted_app (uart_isr_at board_port) (uart_prog board_port) board_env)
      [elapse (uart_isr_at board_port) (board_at 500)] (Some board_sch)
      (system_start (uart_board_service [7, 8]) board_start [[UART_RX, UART_QUEUE 9]]) = Some (polls, Some sc', w') \<and>
    mset (board_log (platform w')) + mset (uart_tx (service w')) + lost = {#7, 8#} + mset (uart_queued (arrived w')) \<and>
    1 \<le> length (board_log (platform w'))"
proof -
  let ?isr = "uart_isr_at board_port :: _ \<Rightarrow> (unit, u16 board) sch_uart_service \<Rightarrow> _"
  let ?p = "interrupted ?isr board_port" and ?env = "interrupted_app ?isr (uart_prog board_port) board_env"
  let ?s = "uart_board_service [7, 8]" and ?batches = "[[UART_RX, UART_QUEUE 9]]"
  let ?w = "system_start ?s board_start ?batches"
  let ?h = "board_at 500 :: u16 board \<Rightarrow> _" and ?v0 = "board_start :: u16 board"
  have hs: "\<forall>h\<in>set [?h]. \<forall>v. board_log (h v) = board_log v" by simp
  have num: "(0::nat) < 1000" "(1000::nat) \<le> 2 ^ 31" by simp_all
  obtain polls sc' w' lost where
    r: "run_seq all_on ?p ?env (map (elapse ?isr) [?h]) (Some board_sch) ?w = Some (polls, Some sc', w')"
    and bytes: "mset (board_log (platform w')) + mset (uart_tx (service w')) + lost =
      mset (board_log ?v0) + mset (uart_tx ?s) + mset (uart_queued (arrived w'))"
    and met: "\<forall>Ts. (\<forall>x v. fst (uart_write ?s x v)) \<and> map fst polls = map of_nat Ts \<and> polls_close 0 Ts \<longrightarrow>
      length (board_log ?v0) + min (length (uart_tx ?s)) (releases_met 0 1000 0 Ts) \<le> length (board_log (platform w'))"
    using uart_sent_in_time [OF uart_board_ok(1,4,5) [of "[7, 8]"] board_leaves board_ok num hs, of all_on board_start ?batches]
    by (elim exE conjE)
  let ?base = "mset (uart_tx ?s)"
  have J: "holds (uart_track board_log ?s ?base {#}) ?w"
    by (simp add: uart_track_def uart_board_ok board_start_def)
  have "map fst polls = [500]"
    using run_seq_first_tick [of all_on ?p ?env, OF r [unfolded list.map]] board_poll_tick [OF uart_board_stable J stable_log [OF uart_board.stable]]
    by simp
  then have "map fst polls = map of_nat [500] \<and> polls_close 0 [500]" by simp
  moreover note board_grid(1)
  ultimately have "1 \<le> length (board_log (platform w'))"
    using met [THEN spec, of "[500]"] by (simp add: uart_board_ok)
  then show ?thesis using r [unfolded list.map] bytes by (auto simp: uart_board_ok board_start_def)
qed

end
