(* ===== verification/I2c_Eeprom_Service.thy ===== *)
theory I2c_Eeprom_Service
  imports Typed_Ring
begin

text \<open>
  \<^verbatim>\<open>src/services/i2c_eeprom_service.c\<close> and its header: a ring of requests that the task submits
  to the bus driver, and a queue of completion events that the interrupt fills. Enumeration
  objects that the driver writes through a pointer can hold any value, so events are 32-bit
  integers here.
\<close>

section \<open>Data\<close>

type_synonym sch_i2c_event_id = i32

definition SCH_I2C_EVENT_TRANSFER_DONE :: sch_i2c_event_id where
  "SCH_I2C_EVENT_TRANSFER_DONE = 1"

definition SCH_I2C_EVENT_TRANSFER_ERROR :: sch_i2c_event_id where
  "SCH_I2C_EVENT_TRANSFER_ERROR = 2"

declare SCH_I2C_EVENT_TRANSFER_DONE_def [c_consts] SCH_I2C_EVENT_TRANSFER_ERROR_def [c_consts]

record sch_eeprom_request =
  address :: u16
  length_req :: u16
  write_req :: bool

record ('x, 'w) sch_i2c_eeprom_hal =
  ack_irq :: "('x option \<Rightarrow> 'w \<Rightarrow> 'w) option"
  submit_request :: "('x option \<Rightarrow> sch_eeprom_request \<Rightarrow> 'w \<Rightarrow> bool \<times> 'w) option"
  consume_completion :: "('x option \<Rightarrow> sch_i2c_event_id \<Rightarrow> 'w \<Rightarrow> bool \<times> sch_i2c_event_id \<times> 'w) option"
  hal_ctx :: "'x option"

record ('x, 'w) sch_i2c_eeprom_service =
  hal :: "('x, 'w) sch_i2c_eeprom_hal"
  request_ring :: sch_spsc_ring
  completion_queue :: sch_event_queue
  irq_hint :: bool
  max_requests_per_run :: size_t
  max_completions_per_run :: size_t

text \<open>The object representation of a request: two 16-bit members, one byte, one byte of padding.\<close>

definition sizeof_request :: size_t where
  "sizeof_request = 6"

definition request_bytes :: "sch_eeprom_request \<Rightarrow> u8 list" where
  "request_bytes r = u16_bytes (address r) @ u16_bytes (length_req r) @ [if write_req r then 1 else 0, 0]"

definition request_of_bytes :: "u8 list \<Rightarrow> sch_eeprom_request" where
  "request_of_bytes bs =
     \<lparr>address = u16_of_bytes (take 2 bs), length_req = u16_of_bytes (take 2 (drop 2 bs)),
      write_req = (bs ! 4 \<noteq> 0)\<rparr>"

section \<open>Operations\<close>

definition sch_i2c_eeprom_service_init ::
  "'w port \<Rightarrow> ('x, 'w) sch_i2c_eeprom_service option \<Rightarrow> ('x, 'w) sch_i2c_eeprom_hal option \<Rightarrow>
   u8 list option \<Rightarrow> size_t \<Rightarrow> u8 list option \<Rightarrow> size_t \<Rightarrow> size_t \<Rightarrow> size_t \<Rightarrow> 'w \<Rightarrow>
   bool \<times> ('x, 'w) sch_i2c_eeprom_service option \<times> 'w" where
  "sch_i2c_eeprom_service_init p service hal_arg request_storage request_capacity completion_storage
     completion_capacity max_requests max_completions w =
     (if is_null service \<or> is_null hal_arg \<or> is_null (submit_request (the hal_arg)) \<or>
         max_requests = 0 \<or> max_completions = 0
      then (False, service, w)
      else
        let s = (the service)\<lparr>hal := the hal_arg, irq_hint := False,
                  max_requests_per_run := max_requests, max_completions_per_run := max_completions\<rparr>;
            (ok_requests, r, w) = sch_spsc_ring_init p (Some (request_ring s)) request_storage
              request_capacity sizeof_request SCH_OVERFLOW_DROP_NEWEST w;
            s = s\<lparr>request_ring := the r\<rparr>;
            (ok_completions, q, w) = sch_event_queue_init p (Some (completion_queue s)) completion_storage
              completion_capacity SCH_OVERFLOW_DROP_OLDEST w;
            s = s\<lparr>completion_queue := the q\<rparr>
        in (ok_requests \<and> ok_completions, Some s, w))"

definition sch_i2c_eeprom_enqueue_request_isr ::
  "'w port \<Rightarrow> ('x, 'w) sch_i2c_eeprom_service option \<Rightarrow> sch_eeprom_request option \<Rightarrow> 'w \<Rightarrow>
   (bool \<times> ('x, 'w) sch_i2c_eeprom_service option \<times> 'w) option" where
  "sch_i2c_eeprom_enqueue_request_isr p service request w =
     (if is_null service \<or> is_null request then Some (False, service, w)
      else do {
        let s = the service;
        (push_result, r, w) \<leftarrow> ring_push request_bytes p (request_ring s) (the request) w;
        Some (push_result = SCH_RING_PUSH_OK, Some (s\<lparr>request_ring := r\<rparr>), w)
      })"

definition i2c_ack :: "('x, 'w) sch_i2c_eeprom_service \<Rightarrow> 'w \<Rightarrow> 'w" where
  "i2c_ack s w = (case ack_irq (hal s) of None \<Rightarrow> w | Some f \<Rightarrow> f (hal_ctx (hal s)) w)"

definition i2c_completion :: "('x, 'w) sch_i2c_eeprom_service \<Rightarrow> 'w \<Rightarrow> sch_i2c_event_id \<times> 'w" where
  "i2c_completion s w =
     (let event_id = SCH_I2C_EVENT_TRANSFER_DONE
      in case consume_completion (hal s) of
           None \<Rightarrow> (event_id, w)
         | Some f \<Rightarrow> let (ok, event_id, w) = f (hal_ctx (hal s)) event_id w in (event_id, w))"

definition sch_i2c_eeprom_isr_complete ::
  "'w port \<Rightarrow> ('x, 'w) sch_i2c_eeprom_service option \<Rightarrow> 'w \<Rightarrow>
   (('x, 'w) sch_i2c_eeprom_service option \<times> 'w) option" where
  "sch_i2c_eeprom_isr_complete p service w =
     (if is_null service then Some (service, w)
      else do {
        let s = the service;
        let w = i2c_ack s w;
        let (event_id, w) = i2c_completion s w;
        (push_result, q, w) \<leftarrow> event_push p (completion_queue s) (ucast event_id) w;
        let s = s\<lparr>completion_queue := q\<rparr>;
        let (state, w) = sch_port_enter_critical p w;
        let s = s\<lparr>irq_hint := True\<rparr>;
        Some (Some s, sch_port_exit_critical p state w)
      })"

text \<open>The body of the submission loop: a refused request ends it.\<close>

definition i2c_submit_body ::
  "sch_eeprom_request \<Rightarrow> ('x, 'w) sch_i2c_eeprom_service \<Rightarrow> 'w \<Rightarrow>
   (bool \<times> ('x, 'w) sch_i2c_eeprom_service \<times> 'w) option" where
  "i2c_submit_body request s w = do {
     submit \<leftarrow> submit_request (hal s);
     let (ok, w) = submit (hal_ctx (hal s)) request w;
     if \<not> ok then Some (False, s, w) else Some (True, s, w)
   }"

definition sch_i2c_eeprom_service_run ::
  "'w port \<Rightarrow> ('x, 'w) sch_i2c_eeprom_service option \<Rightarrow> 'w \<Rightarrow>
   (('x, 'w) sch_i2c_eeprom_service option \<times> 'w) option" where
  "sch_i2c_eeprom_service_run p service w =
     (if is_null service then Some (service, w)
      else do {
        let s = the service;
        let (state, w) = sch_port_enter_critical p w;
        let had_irq_hint = irq_hint s;
        let s = s\<lparr>irq_hint := False\<rparr>;
        let w = sch_port_exit_critical p state w;
        let (no_request, w) =
          (if \<not> had_irq_hint then sch_spsc_ring_is_empty p (Some (request_ring s)) w else (False, w));
        let (nothing, w) =
          (if no_request
           then let (n, w) = sch_event_queue_size p (Some (completion_queue s)) w in (n = 0, w)
           else (False, w));
        if nothing then Some (Some s, w)
        else do {
          (s, request, w) \<leftarrow> drain_loop (unat (max_requests_per_run s))
            (field_pop request_ring (\<lambda>r s. s\<lparr>request_ring := r\<rparr>)
              (ring_pop request_bytes request_of_bytes p))
            i2c_submit_body s \<lparr>address = 0, length_req = 0, write_req = False\<rparr> w;
          (s, completion, w) \<leftarrow> drain_loop (unat (max_completions_per_run s))
            (field_pop completion_queue (\<lambda>q s. s\<lparr>completion_queue := q\<rparr>) (event_pop p))
            (\<lambda>completion s w. Some (True, s, w)) s 0 w;
          Some (Some s, w)
        }
      })"

section \<open>Invariant and initialisation\<close>

lemma request_bytes_inverse: "request_of_bytes (request_bytes r) = r"
  by (cases r) (simp add: request_of_bytes_def request_bytes_def u16_of_bytes_bytes nth_append)

interpretation request_objects: object_ring request_bytes request_of_bytes sizeof_request p for p
  by unfold_locales (simp_all add: request_bytes_inverse, simp_all add: request_bytes_def sizeof_request_def)

interpretation i2c_requests: queue_client
  "ring_push request_bytes p" "ring_pop request_bytes request_of_bytes p" "crit p"
  "typed_inv sizeof_request" "typed_items request_of_bytes" ring_bound ring_newest drops
  "\<lambda>r x. ring_enq r (request_bytes x)" ring_deq request_ring "\<lambda>r s. s\<lparr>request_ring := r\<rparr>"
  for p
  by unfold_locales simp_all

interpretation i2c_completions: queue_client
  "event_push p" "event_pop p" "crit p" event_inv event_items "\<lambda>q. ring_bound (ring q)"
  "\<lambda>q. ring_newest (ring q)" "\<lambda>q. drops (ring q)" event_enq event_deq
  completion_queue "\<lambda>q s. s\<lparr>completion_queue := q\<rparr>"
  for p
  by unfold_locales simp_all

definition i2c_inv :: "('x, 'w) sch_i2c_eeprom_service \<Rightarrow> bool" where
  "i2c_inv s \<longleftrightarrow>
     typed_inv sizeof_request (request_ring s) \<and> ring_newest (request_ring s) \<and>
     event_inv (completion_queue s) \<and> \<not> ring_newest (ring (completion_queue s)) \<and>
     \<not> is_null (submit_request (hal s)) \<and> max_requests_per_run s \<noteq> 0 \<and> max_completions_per_run s \<noteq> 0"

definition i2c_held :: "('x, 'w) sch_i2c_eeprom_service \<Rightarrow> sch_eeprom_request list" where
  "i2c_held s = typed_items request_of_bytes (request_ring s)"

definition i2c_done :: "('x, 'w) sch_i2c_eeprom_service \<Rightarrow> u16 list" where
  "i2c_done s = event_items (completion_queue s)"

lemma i2c_init_iff:
  "fst (sch_i2c_eeprom_service_init p service hal_arg rq rq_cap cq cq_cap max_rq max_cq w) \<longleftrightarrow>
     \<not> is_null service \<and> \<not> is_null hal_arg \<and> \<not> is_null (submit_request (the hal_arg)) \<and>
     max_rq \<noteq> 0 \<and> max_cq \<noteq> 0 \<and> \<not> is_null rq \<and> rq_cap \<noteq> 0 \<and> \<not> is_null cq \<and> cq_cap \<noteq> 0"
  by (auto simp: sch_i2c_eeprom_service_init_def Let_def split_beta ring_init_iff event_init_iff sizeof_request_def)

lemma i2c_init_ok:
  assumes "submit_request h = Some sub" and "max_rq \<noteq> 0" and "max_cq \<noteq> 0" and "rq_cap \<noteq> 0" and "cq_cap \<noteq> 0"
    and "unat rq_cap * 6 \<le> length rq" and "length rq < 2 ^ 32"
    and "unat cq_cap * 2 \<le> length cq" and "length cq < 2 ^ 32"
  obtains s' where
    "sch_i2c_eeprom_service_init p (Some s) (Some h) (Some rq) rq_cap (Some cq) cq_cap max_rq max_cq w =
      (True, Some s', crit p (crit p w))"
    "i2c_inv s'" "i2c_held s' = []" "i2c_done s' = []" "\<not> irq_hint s'" "hal s' = h"
    "ring_bound (request_ring s') = unat rq_cap" "ring_bound (ring (completion_queue s')) = unat cq_cap"
    "drops (request_ring s') = 0" "drops (ring (completion_queue s')) = 0"
    "max_requests_per_run s' = max_rq" "max_completions_per_run s' = max_cq"
proof -
  have fit: "unat rq_cap * unat sizeof_request \<le> length rq" using assms(6) by (simp add: sizeof_request_def)
  obtain r where r: "sch_spsc_ring_init p (Some (request_ring s)) (Some rq) rq_cap sizeof_request
      SCH_OVERFLOW_DROP_NEWEST w = (True, Some r, crit p w)" "typed_inv sizeof_request r"
    "typed_items request_of_bytes r = []" "drops r = 0" "ring_bound r = unat rq_cap"
    "ring_newest r \<longleftrightarrow> SCH_OVERFLOW_DROP_NEWEST = SCH_OVERFLOW_DROP_NEWEST"
    by (rule request_objects.init_refines [OF assms(4) disjI1 [OF refl] fit assms(7)])
  obtain q where q: "sch_event_queue_init p (Some (completion_queue s)) (Some cq) cq_cap SCH_OVERFLOW_DROP_OLDEST
      (crit p w) = (True, Some q, crit p (crit p w))" "event_inv q" "event_items q = []"
    "ring_bound (ring q) = unat cq_cap" "drops (ring q) = 0"
    "ring_newest (ring q) \<longleftrightarrow> SCH_OVERFLOW_DROP_OLDEST = SCH_OVERFLOW_DROP_NEWEST"
    by (rule event_init_refines [OF assms(5) disjI2 [OF refl] assms(8,9)])
  show thesis
    by (rule that [of "s\<lparr>hal := h, irq_hint := False, max_requests_per_run := max_rq,
          max_completions_per_run := max_cq, request_ring := r, completion_queue := q\<rparr>"])
      (use r q assms(1-3) in \<open>simp_all add: sch_i2c_eeprom_service_init_def i2c_inv_def i2c_held_def i2c_done_def\<close>)
qed

section \<open>Requests, completions and the run function\<close>

lemma i2c_enqueue_eq:
  assumes "i2c_inv s"
  shows "sch_i2c_eeprom_enqueue_request_isr p (Some s) (Some request) w =
    Some (length (i2c_held s) < ring_bound (request_ring s),
          Some (s\<lparr>request_ring := ring_enq (request_ring s) (request_bytes request)\<rparr>), crit p w)"
  using assms typed_inv_bound [of sizeof_request "request_ring s"]
  by (auto simp: sch_i2c_eeprom_enqueue_request_isr_def i2c_inv_def request_objects.push_refines push_status_def
      i2c_held_def)

lemma i2c_isr_complete_eq:
  assumes "i2c_inv s"
  shows "sch_i2c_eeprom_isr_complete p (Some s) w =
    (case i2c_completion s (i2c_ack s w) of (event_id, w') \<Rightarrow>
       Some (Some (s\<lparr>completion_queue := event_enq (completion_queue s) (ucast event_id), irq_hint := True\<rparr>),
             crit p (crit p w')))"
  using assms
  by (simp add: sch_i2c_eeprom_isr_complete_def i2c_inv_def events.push_eq crit_def split_beta Let_def)

definition i2c_submit :: "('x, 'w) sch_i2c_eeprom_service \<Rightarrow> sch_eeprom_request \<Rightarrow> 'w \<Rightarrow> bool \<times> 'w" where
  "i2c_submit s request w = the (submit_request (hal s)) (hal_ctx (hal s)) request w"

definition i2c_idle :: "('x, 'w) sch_i2c_eeprom_service \<Rightarrow> bool" where
  "i2c_idle s \<longleftrightarrow> \<not> irq_hint s \<and> i2c_held s = [] \<and> i2c_done s = []"

definition i2c_entry_world :: "'w port \<Rightarrow> ('x, 'w) sch_i2c_eeprom_service \<Rightarrow> 'w \<Rightarrow> 'w" where
  "i2c_entry_world p s w =
     (if irq_hint s then crit p w
      else if i2c_held s = [] then crit p (crit p (crit p w)) else crit p (crit p w))"

lemma i2c_run_eq:
  assumes "i2c_inv s"
    and send: "drain_stop (crit p) (i2c_submit s) (unat (max_requests_per_run s)) (i2c_held s)
      (i2c_entry_world p s w) = (submitted, left, w1)"
  shows "\<exists>s'. sch_i2c_eeprom_service_run p (Some s) w =
      Some (Some s', if i2c_idle s then i2c_entry_world p s w
        else drain_world (crit p) (\<lambda>c w. w) (unat (max_completions_per_run s)) (i2c_done s) w1) \<and>
    i2c_inv s' \<and> \<not> irq_hint s' \<and> i2c_held s' = left \<and>
    i2c_done s' = drop (unat (max_completions_per_run s)) (i2c_done s) \<and>
    drops (request_ring s') = drops (request_ring s) \<and>
    drops (ring (completion_queue s')) = drops (ring (completion_queue s)) \<and>
    ring_bound (request_ring s') = ring_bound (request_ring s) \<and>
    ring_bound (ring (completion_queue s')) = ring_bound (ring (completion_queue s)) \<and>
    hal s' = hal s \<and> max_requests_per_run s' = max_requests_per_run s \<and>
    max_completions_per_run s' = max_completions_per_run s"
proof -
  let ?s = "s\<lparr>irq_hint := False\<rparr>" and ?w = "i2c_entry_world p s w"
  let ?nr = "unat (max_requests_per_run s)" and ?nc = "unat (max_completions_per_run s)"
  have inv: "typed_inv sizeof_request (request_ring s)" "event_inv (completion_queue s)"
    using assms(1) by (simp_all add: i2c_inv_def)
  have empty: "sch_spsc_ring_is_empty p (Some (request_ring s)) v = (i2c_held s = [], crit p v)"
    "sch_event_queue_size p (Some (completion_queue s)) v = (count (ring (completion_queue s)), crit p v)"
    "i2c_done s = [] \<longleftrightarrow> count (ring (completion_queue s)) = 0" for v
    using inv by (simp_all add: typed_inv_def ring_is_empty_refines i2c_held_def i2c_done_def
        event_size_refines event_items_empty_iff)
  have shape: "left = drop (length (i2c_held s) - length left) (i2c_held s)"
    using drain_stop_shape [OF send] by auto
  let ?r = "(ring_deq ^^ (length (i2c_held s) - length left)) (request_ring s)"
  let ?q = "(event_deq ^^ min ?nc (length (i2c_done s))) (completion_queue s)"
  have body: "i2c_submit_body x t v = Some (fst (i2c_submit s x v), t, snd (i2c_submit s x v))"
    if "hal t = hal s" for x t v
    using assms(1) that
    by (cases "submit_request (hal s)") (simp_all add: i2c_submit_body_def i2c_submit_def i2c_inv_def split_beta)
  obtain y where rq: "drain_loop ?nr (field_pop request_ring (\<lambda>r s. s\<lparr>request_ring := r\<rparr>)
        (ring_pop request_bytes request_of_bytes p)) i2c_submit_body ?s
        \<lparr>address = 0, length_req = 0, write_req = False\<rparr> ?w = Some (?s\<lparr>request_ring := ?r\<rparr>, y, w1)"
    using i2c_requests.drain_refuse [where s = ?s and P = "\<lambda>t. hal t = hal s" and body = i2c_submit_body and
        handle = "i2c_submit s" and p = p and n = ?nr and w = ?w and taken = submitted and left = left and w' = w1
        and x = "\<lparr>address = 0, length_req = 0, write_req = False\<rparr>"] inv(1) send body
    by (auto simp: i2c_held_def)
  have cq: "drain_loop ?nc (field_pop completion_queue (\<lambda>q s. s\<lparr>completion_queue := q\<rparr>) (event_pop p))
      (\<lambda>completion s w. Some (True, s, w)) (?s\<lparr>request_ring := ?r\<rparr>) 0 w1 =
    Some (?s\<lparr>request_ring := ?r, completion_queue := ?q\<rparr>, last (0 # take ?nc (i2c_done s)),
      drain_world (crit p) (\<lambda>c w. w) ?nc (i2c_done s) w1)"
    using i2c_completions.drain_dispatch [where s = "?s\<lparr>request_ring := ?r\<rparr>" and P = "\<lambda>s. True" and
        body = "\<lambda>completion s w. Some (True, s, w)" and eff = "\<lambda>c w. w" and n = ?nc and x = 0 and w = w1 and p = p] inv
    by (simp add: i2c_done_def)
  note keep = request_objects.queue.deqs_keep [OF inv(1)] events.deqs_keep [OF inv(2)]
  show ?thesis
  proof (cases "i2c_idle s")
    case True
    then have l: "left = []" using shape by (simp add: i2c_idle_def)
    have "sch_i2c_eeprom_service_run p (Some s) w = Some (Some ?s, ?w)"
      using True
      by (simp add: sch_i2c_eeprom_service_run_def i2c_idle_def empty crit_def split_beta Let_def i2c_entry_world_def)
    then show ?thesis
      using True assms(1) l by (simp add: i2c_inv_def i2c_idle_def i2c_held_def i2c_done_def)
  next
    case False
    then have "sch_i2c_eeprom_service_run p (Some s) w =
        Some (Some (?s\<lparr>request_ring := ?r, completion_queue := ?q\<rparr>),
          drain_world (crit p) (\<lambda>c w. w) ?nc (i2c_done s) w1)"
      using rq cq
      by (auto simp: sch_i2c_eeprom_service_run_def i2c_idle_def empty crit_def split_beta Let_def
          i2c_entry_world_def split: if_splits)
    then show ?thesis
      using False assms(1) keep shape
      by (simp add: i2c_inv_def i2c_held_def i2c_done_def drop_min)
  qed
qed

section \<open>Properties\<close>

text \<open>An observer of the bus: it grows by the requests the driver accepts.\<close>

definition observes_bus ::
  "('w \<Rightarrow> sch_eeprom_request list) \<Rightarrow> 'w port \<Rightarrow> ('x, 'w) sch_i2c_eeprom_service \<Rightarrow> bool" where
  "observes_bus bus p s \<longleftrightarrow>
     (\<forall>w. bus (crit p w) = bus w) \<and>
     (\<forall>x w. bus (snd (i2c_submit s x w)) = bus w @ (if fst (i2c_submit s x w) then [x] else []))"

lemma observes_bus_stop:
  assumes "observes_bus bus p s"
    and "drain_stop (crit p) (i2c_submit s) n xs w = (taken, left, w')"
  shows "bus w' = bus w @ taken \<and> length taken \<le> n"
  using drain_stop_log [of bus "crit p" "i2c_submit s", OF _ _ assms(2)] assms(1)
  by (simp add: observes_bus_def)

lemma observes_bus_world:
  assumes "observes_bus bus p s"
  shows "bus (i2c_entry_world p s w) = bus w"
    and "bus (drain_world (crit p) (\<lambda>c w. w) n xs w) = bus w"
proof -
  have c: "bus (crit p v) = bus v" for v using assms by (simp add: observes_bus_def)
  then show "bus (i2c_entry_world p s w) = bus w" by (simp add: i2c_entry_world_def)
  show "bus (drain_world (crit p) (\<lambda>c w. w) n xs w) = bus w"
    by (rule drain_world_unseen) (rule c)
qed

text \<open>A driver that is busy for a number of attempts, with the requests it took.\<close>

definition bus_hal :: "(unit, nat \<times> sch_eeprom_request list) sch_i2c_eeprom_hal" where
  "bus_hal = \<lparr>ack_irq = None,
     submit_request = Some (\<lambda>c x w. case w of (busy, bus) \<Rightarrow>
       if busy = 0 then (True, (0, bus @ [x])) else (False, (busy - 1, bus))),
     consume_completion = Some (\<lambda>c e w. (True, SCH_I2C_EVENT_TRANSFER_ERROR, w)), hal_ctx = None\<rparr>"

definition bus_ring :: "size_t \<Rightarrow> sch_overflow_mode \<Rightarrow> sch_spsc_ring" where
  "bus_ring es mode = \<lparr>storage = Some (replicate 12 0), element_size = es, capacity = 2, head = 0, tail = 0,
     count = 0, drops = 0, overflow = mode\<rparr>"

definition bus_service :: "sch_eeprom_request list \<Rightarrow> (unit, nat \<times> sch_eeprom_request list) sch_i2c_eeprom_service" where
  "bus_service requests = \<lparr>hal = bus_hal,
     request_ring = foldl (\<lambda>r x. ring_enq r (request_bytes x)) (bus_ring 6 SCH_OVERFLOW_DROP_NEWEST) requests,
     completion_queue = \<lparr>ring = bus_ring 2 SCH_OVERFLOW_DROP_OLDEST\<rparr>,
     irq_hint = False, max_requests_per_run = 2, max_completions_per_run = 1\<rparr>"

definition eeprom_read :: "u16 \<Rightarrow> sch_eeprom_request" where
  "eeprom_read a = \<lparr>address = a, length_req = 16, write_req = False\<rparr>"

lemma bus_service_ok:
  "i2c_inv (bus_service requests)" "i2c_held (bus_service requests) = take 2 requests"
  "i2c_done (bus_service requests) = []" "hal (bus_service requests) = bus_hal"
  "capacity (request_ring (bus_service requests)) = 2"
proof -
  have r: "typed_inv sizeof_request (bus_ring 6 SCH_OVERFLOW_DROP_NEWEST)" "typed_inv sizeof_u16 (bus_ring 2 SCH_OVERFLOW_DROP_OLDEST)"
    by (simp_all add: typed_inv_def bus_ring_def ring_inv_iff sizeof_u16_def sizeof_request_def)
  have e: "typed_items request_of_bytes (bus_ring es m) = []" "typed_items u16_of_bytes (bus_ring es m) = []" "ring_bound (bus_ring es m) = 2"
    "ring_newest (bus_ring es m) \<longleftrightarrow> m = SCH_OVERFLOW_DROP_NEWEST" for es m
    by (simp_all add: bus_ring_def ring_bound_def ring_newest_def)
  note k = request_objects.queue.enqs_keep [OF r(1), of requests] request_objects.queue.items_burst_newest [OF r(1), of requests]
  show "i2c_inv (bus_service requests)" "i2c_held (bus_service requests) = take 2 requests"
    "i2c_done (bus_service requests) = []" "hal (bus_service requests) = bus_hal"
    using r e k
    by (simp_all add: bus_service_def i2c_inv_def i2c_held_def i2c_done_def bus_hal_def event_inv_def event_items_def)
  show "capacity (request_ring (bus_service requests)) = 2"
    using k e(3) [of 6 SCH_OVERFLOW_DROP_NEWEST]
    by (simp add: bus_service_def ring_bound_def word_unat_eq_iff)
qed

lemma bus_service_observes: "observes_bus snd quiet_port (bus_service requests)"
  by (auto simp: observes_bus_def i2c_submit_def bus_service_ok bus_hal_def)

text \<open>
  A run of the EEPROM service submits the queued requests in order. It is never undefined,
  hands at most a budget of them to the bus driver, oldest first, and stops at the first one the
  driver refuses; what it leaves queued is what follows those. The completion events are
  consumed up to their budget and the hint is consumed.
\<close>

lemma i2c_run_submits:
  assumes "i2c_inv s" and "observes_bus bus p s"
  shows "\<exists>s' w' submitted. sch_i2c_eeprom_service_run p (Some s) w = Some (Some s', w') \<and> i2c_inv s' \<and>
    bus w' = bus w @ submitted \<and> length submitted \<le> unat (max_requests_per_run s) \<and>
    (i2c_held s = submitted @ i2c_held s' \<or> (\<exists>x. i2c_held s = submitted @ x # i2c_held s')) \<and>
    i2c_done s' = drop (unat (max_completions_per_run s)) (i2c_done s) \<and> \<not> irq_hint s'"
proof -
  obtain submitted left w1 where send: "drain_stop (crit p) (i2c_submit s) (unat (max_requests_per_run s)) (i2c_held s)
      (i2c_entry_world p s w) = (submitted, left, w1)" by (metis surj_pair)
  note bus = observes_bus_stop [OF assms(2) send]
  let ?w = "if i2c_idle s then i2c_entry_world p s w
    else drain_world (crit p) (\<lambda>c w. w) (unat (max_completions_per_run s)) (i2c_done s) w1"
  obtain s' where s': "sch_i2c_eeprom_service_run p (Some s) w = Some (Some s', ?w)" "i2c_inv s'" "\<not> irq_hint s'"
    "i2c_held s' = left" "i2c_done s' = drop (unat (max_completions_per_run s)) (i2c_done s)"
    using i2c_run_eq [OF assms(1) send] by auto
  have "i2c_idle s \<Longrightarrow> submitted = []" using drain_stop_shape [OF send] by (auto simp: i2c_idle_def)
  then have "bus ?w = bus w @ submitted" using bus by (simp add: observes_bus_world [OF assms(2)])
  then show ?thesis
    using s' bus drain_stop_shape [OF send]
    by (intro exI [of _ s'] exI [of _ ?w] exI [of _ submitted]) auto
qed

text \<open>
  C32. A request that the driver refuses is lost. When the driver is busy at the first request of a
  run, that request has left the ring and is on no bus: the requests behind it stay queued, the
  drop counter does not move, and nothing remembers the request although
  \<open>sch_i2c_eeprom_enqueue_request_isr\<close> had accepted it.
\<close>

theorem i2c_refused_request_lost:
  assumes "i2c_inv s" and "observes_bus bus p s" and "i2c_held s = x # xs"
    and "\<not> fst (i2c_submit s x (crit p (i2c_entry_world p s w)))"
  shows "\<exists>s' w'. sch_i2c_eeprom_service_run p (Some s) w = Some (Some s', w') \<and> i2c_inv s' \<and>
    i2c_held s' = xs \<and> bus w' = bus w \<and> drops (request_ring s') = drops (request_ring s)"
proof -
  obtain n where n: "unat (max_requests_per_run s) = Suc n"
    using assms(1) by (metis not0_implies_Suc i2c_inv_def unat_eq_zero)
  obtain w1 where sub: "i2c_submit s x (crit p (i2c_entry_world p s w)) = (False, w1)"
    using assms(4) by (metis (full_types) prod.collapse)
  have send: "drain_stop (crit p) (i2c_submit s) (unat (max_requests_per_run s)) (i2c_held s)
      (i2c_entry_world p s w) = ([], xs, w1)"
    using assms(3) n sub by simp
  have "\<not> i2c_idle s" using assms(3) by (simp add: i2c_idle_def)
  moreover have "bus (drain_world (crit p) (\<lambda>c w. w) (unat (max_completions_per_run s)) (i2c_done s) w1) = bus w"
    using observes_bus_stop [OF assms(2) send] by (simp add: observes_bus_world [OF assms(2)])
  ultimately show ?thesis using i2c_run_eq [OF assms(1) send] by auto
qed

theorem i2c_refused_request_lost_witness:
  "\<exists>s' w'. i2c_held (bus_service [eeprom_read 1, eeprom_read 2]) = [eeprom_read 1, eeprom_read 2] \<and>
    sch_i2c_eeprom_service_run quiet_port (Some (bus_service [eeprom_read 1, eeprom_read 2])) (1, []) =
      Some (Some s', w') \<and> i2c_held s' = [eeprom_read 2] \<and> snd w' = []"
proof -
  let ?s = "bus_service [eeprom_read 1, eeprom_read 2]"
  have held: "i2c_held ?s = [eeprom_read 1, eeprom_read 2]" by (simp add: bus_service_ok)
  have "\<not> fst (i2c_submit ?s (eeprom_read 1) (crit quiet_port (i2c_entry_world quiet_port ?s (1, []))))"
    by (simp add: i2c_submit_def bus_service_ok bus_hal_def i2c_entry_world_def)
  from i2c_refused_request_lost [OF bus_service_ok(1) bus_service_observes held this] held show ?thesis by auto
qed

text \<open>
  The two ways into the service. \<open>sch_i2c_eeprom_enqueue_request_isr\<close> says true exactly when
  the request, with all its members, was queued; a full ring and a null request leave the queued
  requests alone. The completion interrupt queues one event, the driver's or "done" when there
  is no \<open>consume_completion\<close>, giving up the oldest when the queue is full, and sets the hint.
\<close>

lemma i2c_producers:
  assumes "i2c_inv s" and "i2c_completion s (i2c_ack s w) = (event_id, w')"
  shows "(\<exists>s'. sch_i2c_eeprom_enqueue_request_isr p (Some s) (Some request) w =
      Some (length (i2c_held s) < unat (capacity (request_ring s)), Some s', crit p w) \<and> i2c_inv s' \<and>
      i2c_held s' = (if length (i2c_held s) < unat (capacity (request_ring s)) then i2c_held s @ [request] else i2c_held s) \<and>
      i2c_done s' = i2c_done s) \<and>
    sch_i2c_eeprom_enqueue_request_isr p (Some s) None w = Some (False, Some s, w) \<and>
    (\<exists>s'. sch_i2c_eeprom_isr_complete p (Some s) w = Some (Some s', crit p (crit p w')) \<and> i2c_inv s' \<and>
      i2c_done s' = (if length (i2c_done s) < unat (capacity (ring (completion_queue s))) then i2c_done s @ [ucast event_id]
        else tl (i2c_done s) @ [ucast event_id]) \<and>
      irq_hint s' \<and> i2c_held s' = i2c_held s)"
proof (intro conjI)
  have inv: "typed_inv sizeof_request (request_ring s)" "ring_newest (request_ring s)" "event_inv (completion_queue s)"
    "\<not> ring_newest (ring (completion_queue s))" using assms(1) by (simp_all add: i2c_inv_def)
  show "\<exists>s'. sch_i2c_eeprom_enqueue_request_isr p (Some s) (Some request) w =
      Some (length (i2c_held s) < unat (capacity (request_ring s)), Some s', crit p w) \<and> i2c_inv s' \<and>
      i2c_held s' = (if length (i2c_held s) < unat (capacity (request_ring s)) then i2c_held s @ [request] else i2c_held s) \<and>
      i2c_done s' = i2c_done s"
    using request_objects.enq_refines [OF inv(1), of request] inv assms(1)
    by (simp add: i2c_enqueue_eq ring_bound_def i2c_inv_def i2c_held_def i2c_done_def bounded_push_def)
  show "sch_i2c_eeprom_enqueue_request_isr p (Some s) None w = Some (False, Some s, w)"
    by (simp add: sch_i2c_eeprom_enqueue_request_isr_def)
  show "\<exists>s'. sch_i2c_eeprom_isr_complete p (Some s) w = Some (Some s', crit p (crit p w')) \<and> i2c_inv s' \<and>
      i2c_done s' = (if length (i2c_done s) < unat (capacity (ring (completion_queue s))) then i2c_done s @ [ucast event_id]
        else tl (i2c_done s) @ [ucast event_id]) \<and>
      irq_hint s' \<and> i2c_held s' = i2c_held s"
    using events.enq_simps [OF inv(3), of "ucast event_id"] inv assms
    by (simp add: i2c_isr_complete_eq ring_bound_def i2c_inv_def i2c_held_def i2c_done_def bounded_push_def)
qed

end
