(* ===== verification/I2c_Preempted.thy ===== *)
theory I2c_Preempted
  imports Resumption I2c_Eeprom_Service "HOL-Library.Sublist"
begin

text \<open>
  The EEPROM service under preemption: \<open>sch_i2c_eeprom_service_run\<close> as a program of its critical
  sections and callbacks. Wherever interrupts queue requests and report completions, the driver is
  offered the queued requests in the order in which they were queued, each of them once.
\<close>

section \<open>The run as a program\<close>

definition i2c_take_hint ::
  "'w port \<Rightarrow> ('x, 'w) sch_i2c_eeprom_service \<Rightarrow> 'w \<Rightarrow> bool \<times> ('x, 'w) sch_i2c_eeprom_service \<times> 'w" where
  "i2c_take_hint p s w =
     (let (state, w) = sch_port_enter_critical p w;
          had_irq_hint = irq_hint s;
          s = s\<lparr>irq_hint := False\<rparr>;
          w = sch_port_exit_critical p state w
      in (had_irq_hint, s, w))"

definition i2c_completions_prog :: "'w port \<Rightarrow> (('x, 'w) sch_i2c_eeprom_service, 'w) prog" where
  "i2c_completions_prog p = Step (\<lambda>s w. Some (
     drain_prog (unat (max_completions_per_run s))
       (field_pop completion_queue (\<lambda>q s. s\<lparr>completion_queue := q\<rparr>) (event_pop p))
       (\<lambda>completion s w. Some (True, s, w)) Stop 0, s, w))"

definition i2c_requests_prog :: "'w port \<Rightarrow> (('x, 'w) sch_i2c_eeprom_service, 'w) prog" where
  "i2c_requests_prog p = Step (\<lambda>s w. Some (
     drain_prog (unat (max_requests_per_run s))
       (field_pop request_ring (\<lambda>r s. s\<lparr>request_ring := r\<rparr>) (ring_pop request_bytes request_of_bytes p))
       i2c_submit_body (i2c_completions_prog p) \<lparr>address = 0, length_req = 0, write_req = False\<rparr>, s, w))"

definition i2c_prog :: "'w port \<Rightarrow> (('x, 'w) sch_i2c_eeprom_service, 'w) prog" where
  "i2c_prog p = Step (\<lambda>s w.
     let (had_irq_hint, s, w) = i2c_take_hint p s w
     in Some (if had_irq_hint then i2c_requests_prog p
       else Step (\<lambda>s w.
         let (no_request, w) = sch_spsc_ring_is_empty p (Some (request_ring s)) w
         in Some (if \<not> no_request then i2c_requests_prog p
           else Step (\<lambda>s w.
             let (n, w) = sch_event_queue_size p (Some (completion_queue s)) w
             in Some (if n = 0 then Stop else i2c_requests_prog p, s, w)), s, w)), s, w))"

text \<open>Undisturbed, the program is the run function, also where that is undefined.\<close>

lemma i2c_requests_finish:
  "map_option (apfst Some) (finish (i2c_requests_prog p) s w) = do {
     (s, request, w) \<leftarrow> drain_loop (unat (max_requests_per_run s))
       (field_pop request_ring (\<lambda>r s. s\<lparr>request_ring := r\<rparr>) (ring_pop request_bytes request_of_bytes p))
       i2c_submit_body s \<lparr>address = 0, length_req = 0, write_req = False\<rparr> w;
     (s, completion, w) \<leftarrow> drain_loop (unat (max_completions_per_run s))
       (field_pop completion_queue (\<lambda>q s. s\<lparr>completion_queue := q\<rparr>) (event_pop p))
       (\<lambda>completion s w. Some (True, s, w)) s 0 w;
     Some (Some s, w)
   }"
  by (simp add: i2c_requests_prog_def i2c_completions_prog_def finish_drain case_prod_unfold map_bind)

lemma i2c_prog_eq:
  "sch_i2c_eeprom_service_run p (Some s) w = map_option (apfst Some) (finish (i2c_prog p) s w)"
proof -
  let ?e = "sch_port_enter_critical p w"
  let ?s = "s\<lparr>irq_hint := False\<rparr>" and ?w = "sch_port_exit_critical p (fst ?e) (snd ?e)"
  let ?rq = "sch_spsc_ring_is_empty p (Some (request_ring s)) ?w"
  show ?thesis
    unfolding sch_i2c_eeprom_service_run_def
    by (cases "irq_hint s"; cases "fst ?rq"; cases "fst (sch_event_queue_size p (Some (completion_queue s)) (snd ?rq)) = 0")
      (simp_all add: i2c_prog_def i2c_take_hint_def Let_def split_beta i2c_requests_finish)
qed

section \<open>The interrupts\<close>

datatype i2c_interrupt = I2C_COMPLETE | I2C_ENQUEUE sch_eeprom_request

fun i2c_isr_at ::
  "'w port \<Rightarrow> i2c_interrupt \<Rightarrow> ('x, 'w) sch_i2c_eeprom_service \<Rightarrow> 'w \<Rightarrow>
   (('x, 'w) sch_i2c_eeprom_service \<times> 'w) option" where
  "i2c_isr_at p I2C_COMPLETE s w = do { (s, w) \<leftarrow> sch_i2c_eeprom_isr_complete p (Some s) w; Some (the s, w) }"
| "i2c_isr_at p (I2C_ENQUEUE request) s w =
     do { (ok, s, w) \<leftarrow> sch_i2c_eeprom_enqueue_request_isr p (Some s) (Some request) w; Some (the s, w) }"

definition i2c_enqueued :: "i2c_interrupt list \<Rightarrow> sch_eeprom_request list" where
  "i2c_enqueued es = concat (map (\<lambda>e. case e of I2C_ENQUEUE request \<Rightarrow> [request] | _ \<Rightarrow> []) es)"

lemma i2c_enqueued_simps [simp]:
  "i2c_enqueued [] = []" "i2c_enqueued (es @ [I2C_COMPLETE]) = i2c_enqueued es"
  "i2c_enqueued (es @ [I2C_ENQUEUE request]) = i2c_enqueued es @ [request]"
  by (simp_all add: i2c_enqueued_def)

text \<open>An observer of what the driver is offered, accepted or not; the interrupt side offers nothing.\<close>

definition observes_offers ::
  "('w \<Rightarrow> sch_eeprom_request list) \<Rightarrow> 'w port \<Rightarrow> ('x, 'w) sch_i2c_eeprom_service \<Rightarrow> bool" where
  "observes_offers offers p s \<longleftrightarrow>
     (\<forall>w. offers (crit p w) = offers w) \<and>
     (\<forall>x w. offers (snd (i2c_submit s x w)) = offers w @ [x]) \<and>
     (case ack_irq (hal s) of None \<Rightarrow> True | Some f \<Rightarrow> \<forall>c w. offers (f c w) = offers w) \<and>
     (case consume_completion (hal s) of None \<Rightarrow> True
      | Some f \<Rightarrow> \<forall>c e w. offers (snd (snd (f c e w))) = offers w)"

lemma observes_offers_same: "hal s = hal s0 \<Longrightarrow> observes_offers offers p s \<longleftrightarrow> observes_offers offers p s0"
  by (simp add: observes_offers_def i2c_submit_def)

lemma i2c_isr_step:
  assumes "i2c_inv s" and "observes_offers offers p s"
  shows "\<exists>s' w'. i2c_isr_at p e s w = Some (s', w') \<and> i2c_inv s' \<and> hal s' = hal s \<and> offers w' = offers w \<and>
    request_ring s' = (case e of I2C_ENQUEUE request \<Rightarrow> ring_enq (request_ring s) (request_bytes request) | _ \<Rightarrow> request_ring s)"
proof -
  have inv: "typed_inv sizeof_request (request_ring s)" "event_inv (completion_queue s)"
    using assms(1) by (simp_all add: i2c_inv_def)
  show ?thesis
  proof (cases e)
    case I2C_COMPLETE
    obtain event_id w1 where c: "i2c_completion s (i2c_ack s w) = (event_id, w1)" by (metis surj_pair)
    have "offers (i2c_ack s w) = offers w"
      using assms(2) by (simp add: i2c_ack_def observes_offers_def split: option.splits)
    moreover have "offers (snd (i2c_completion s v)) = offers v" for v
      using assms(2) by (simp add: i2c_completion_def observes_offers_def split_beta Let_def split: option.splits)
    from this [of "i2c_ack s w"] have "offers w1 = offers (i2c_ack s w)" by (simp add: c)
    ultimately show ?thesis
      using I2C_COMPLETE c assms events.enq_simps [OF inv(2), of "ucast event_id"]
      by (simp add: i2c_isr_complete_eq i2c_inv_def observes_offers_def)
  next
    case (I2C_ENQUEUE request)
    then show ?thesis
      using assms request_objects.enq_refines [OF inv(1), of request]
      by (simp add: i2c_enqueue_eq i2c_inv_def observes_offers_def)
  qed
qed

section \<open>The account of the requests\<close>

text \<open>\<open>F\<close> holds the request the run has taken and not offered yet.\<close>

definition i2c_track ::
  "('w \<Rightarrow> sch_eeprom_request list) \<Rightarrow> ('x, 'w) sch_i2c_eeprom_service \<Rightarrow> sch_eeprom_request list \<Rightarrow>
   sch_eeprom_request list \<Rightarrow> ('x, 'w) sch_i2c_eeprom_service \<Rightarrow> 'w \<Rightarrow> i2c_interrupt list \<Rightarrow> bool" where
  "i2c_track offers s0 base F s w es \<longleftrightarrow> i2c_inv s \<and> hal s = hal s0 \<and>
     (\<exists>accepted. subseq accepted (i2c_enqueued es) \<and> offers w @ F @ i2c_held s = base @ accepted \<and>
       drops (request_ring s) = drops (request_ring s0) + of_nat (length (i2c_enqueued es) - length accepted))"

lemma i2c_track_move:
  assumes "i2c_track offers s0 base F s w es" and "i2c_inv s'" and "hal s' = hal s"
    and "drops (request_ring s') = drops (request_ring s)" and "i2c_enqueued es' = i2c_enqueued es"
    and "offers w' @ F' @ i2c_held s' = offers w @ F @ i2c_held s"
  shows "i2c_track offers s0 base F' s' w' es'"
  using assms unfolding i2c_track_def by auto

lemma i2c_track_enq:
  assumes "i2c_track offers s0 base F s w es" and "i2c_inv s'" and "hal s' = hal s" and "offers w' = offers w"
    and "request_ring s' = ring_enq (request_ring s) (request_bytes request)"
    and "i2c_enqueued es' = i2c_enqueued es @ [request]"
  shows "i2c_track offers s0 base F s' w' es'"
proof -
  have inv: "typed_inv sizeof_request (request_ring s)" "ring_newest (request_ring s)" "hal s = hal s0"
    using assms(1) by (simp_all add: i2c_track_def i2c_inv_def)
  note enq = request_objects.enq_refines [OF inv(1), of request]
  from assms(1) obtain acc where acc: "subseq acc (i2c_enqueued es)" "offers w @ F @ i2c_held s = base @ acc"
    "drops (request_ring s) = drops (request_ring s0) + of_nat (length (i2c_enqueued es) - length acc)"
    by (auto simp: i2c_track_def)
  have le: "length acc \<le> length (i2c_enqueued es)" using acc(1) by (rule list_emb_length)
  show ?thesis
  proof (cases "length (i2c_held s) < ring_bound (request_ring s)")
    case True
    then have "i2c_held s' = i2c_held s @ [request]" "drops (request_ring s') = drops (request_ring s)"
      using enq assms(5) by (simp_all add: i2c_held_def bounded_push_def)
    moreover have "subseq (acc @ [request]) (i2c_enqueued es')"
      unfolding assms(6) using acc(1) by (rule list_emb_append_mono) simp
    moreover have "offers w @ F @ i2c_held s @ [request] = base @ acc @ [request]"
      using arg_cong [OF acc(2), of "\<lambda>xs. xs @ [request]"] by simp
    ultimately show ?thesis
      unfolding i2c_track_def using assms(2-4,6) inv(3) acc(3)
      by (intro conjI exI [of _ "acc @ [request]"]) simp_all
  next
    case False
    then have "length (i2c_held s) = ring_bound (request_ring s)"
      using typed_inv_bound [OF inv(1)] by (simp add: i2c_held_def)
    then have "i2c_held s' = i2c_held s" "drops (request_ring s') = drops (request_ring s) + 1"
      using enq assms(5) inv(2) by (simp_all add: i2c_held_def bounded_push_def)
    moreover have "subseq acc (i2c_enqueued es')" unfolding assms(6) using list_emb_append_mono [OF acc(1), of "[]" "[request]"] by simp
    ultimately show ?thesis
      unfolding i2c_track_def using assms(2-4,6) inv(3) acc(2,3) le
      by (intro conjI exI [of _ acc]) (simp_all add: Suc_diff_le)
  qed
qed

lemma i2c_track_stable:
  assumes "observes_offers offers p s0"
  shows "stable (i2c_isr_at p) offers (i2c_track offers s0 base F)"
proof (rule stableI)
  fix s w es e
  assume tr: "i2c_track offers s0 base F s w es"
  then have inv: "i2c_inv s" "hal s = hal s0" by (simp_all add: i2c_track_def)
  obtain s' w' where s': "i2c_isr_at p e s w = Some (s', w')" "i2c_inv s'" "hal s' = hal s" "offers w' = offers w"
    "request_ring s' = (case e of I2C_ENQUEUE request \<Rightarrow> ring_enq (request_ring s) (request_bytes request) | _ \<Rightarrow> request_ring s)"
    using i2c_isr_step [OF inv(1), of offers p e w] assms observes_offers_same [OF inv(2)] by auto
  have "i2c_track offers s0 base F s' w' (es @ [e])"
  proof (cases e)
    case (I2C_ENQUEUE request)
    then show ?thesis by (intro i2c_track_enq [OF tr s'(2-4), of request]) (simp_all add: s'(5))
  qed (simp_all add: i2c_track_move [OF tr s'(2,3)] s'(4,5) i2c_held_def)
  then show "\<exists>s' w'. i2c_isr_at p e s w = Some (s', w') \<and> i2c_track offers s0 base F s' w' (es @ [e])"
    using s'(1) by blast
qed (simp add: i2c_track_def)

section \<open>The run makes progress\<close>

text \<open>Of the first \<open>t\<close> requests that were accepted the driver has been offered \<open>k\<close>, if there are so many.\<close>

definition i2c_past ::
  "('w \<Rightarrow> sch_eeprom_request list) \<Rightarrow> ('x, 'w) sch_i2c_eeprom_service \<Rightarrow> sch_eeprom_request list \<Rightarrow> nat \<Rightarrow> nat \<Rightarrow>
   sch_eeprom_request list \<Rightarrow> ('x, 'w) sch_i2c_eeprom_service \<Rightarrow> 'w \<Rightarrow> i2c_interrupt list \<Rightarrow> bool" where
  "i2c_past offers s0 base t k F s w es \<longleftrightarrow> i2c_track offers s0 base F s w es \<and>
     t \<le> length (offers w @ F @ i2c_held s) \<and> min t k \<le> length (offers w)"

lemma i2c_past_0: "i2c_past offers s0 base 0 k F s w es \<longleftrightarrow> i2c_track offers s0 base F s w es"
  by (simp add: i2c_past_def)

lemma i2c_past_inv: "i2c_past offers s0 base t k F s w es \<Longrightarrow> i2c_inv s"
  by (simp add: i2c_past_def i2c_track_def)

lemma i2c_past_less: "i2c_past offers s0 base t (Suc k) F s w es \<Longrightarrow> i2c_past offers s0 base t k F s w es"
  by (auto simp: i2c_past_def)

text \<open>When nothing is queued, the driver has been offered everything.\<close>

lemma i2c_past_all:
  "i2c_past offers s0 base t k [] s w es \<Longrightarrow> i2c_held s = [] \<Longrightarrow> i2c_past offers s0 base t k' [] s w es"
  by (auto simp: i2c_past_def)

lemma i2c_past_move:
  assumes "i2c_past offers s0 base t k F s w es" and "i2c_inv s'" and "hal s' = hal s"
    and "drops (request_ring s') = drops (request_ring s)"
    and "offers w' @ F' @ i2c_held s' = offers w @ F @ i2c_held s" and "min t k' \<le> length (offers w')"
  shows "i2c_past offers s0 base t k' F' s' w' es"
proof -
  have "i2c_track offers s0 base F' s' w' es"
    using assms(1) by (auto simp: i2c_past_def intro: i2c_track_move [OF _ assms(2-4) refl assms(5)])
  moreover have "length (offers w' @ F' @ i2c_held s') = length (offers w @ F @ i2c_held s)" unfolding assms(5) ..
  ultimately show ?thesis using assms(1,6) by (simp add: i2c_past_def)
qed

lemma i2c_past_keep:
  assumes "i2c_past offers s0 base t k F s w es" and "i2c_inv s'" and "hal s' = hal s"
    and "request_ring s' = request_ring s" and "offers w' = offers w"
  shows "i2c_past offers s0 base t k F s' w' es"
  by (rule i2c_past_move [OF assms(1-3)]) (use assms(1) in \<open>simp_all add: assms(4,5) i2c_held_def i2c_past_def\<close>)

lemma i2c_past_stable:
  assumes "observes_offers offers p s0"
  shows "stable (i2c_isr_at p) offers (i2c_past offers s0 base t k F)"
proof (rule stableI)
  fix s w es e
  assume J: "i2c_past offers s0 base t k F s w es"
  then have tr: "i2c_track offers s0 base F s w es" and inv: "i2c_inv s" "hal s = hal s0"
    by (simp_all add: i2c_past_def i2c_track_def)
  obtain s' w' where
    s': "i2c_isr_at p e s w = Some (s', w')" "i2c_track offers s0 base F s' w' (es @ [e])"
    using stable_isr [OF i2c_track_stable [OF assms] tr, of e] by blast
  from i2c_isr_step [OF inv(1), of offers p e w] assms observes_offers_same [OF inv(2)] s'(1) have
    ring: "offers w' = offers w" "request_ring s' =
      (case e of I2C_ENQUEUE request \<Rightarrow> ring_enq (request_ring s) (request_bytes request) | _ \<Rightarrow> request_ring s)" by auto
  have r: "typed_inv sizeof_request (request_ring s)" "ring_newest (request_ring s)" using inv(1) by (simp_all add: i2c_inv_def)
  have "length (i2c_held s) \<le> length (i2c_held s')"
    using ring(2) request_objects.enq_refines(2) [OF r(1)] r(2)
    by (cases e) (simp_all add: i2c_held_def bounded_push_def)
  then show "\<exists>s' w'. i2c_isr_at p e s w = Some (s', w') \<and> i2c_past offers s0 base t k F s' w' (es @ [e])"
    using s' J ring(1) by (auto simp: i2c_past_def)
qed (simp add: i2c_past_def i2c_track_def)

section \<open>The run keeps the account\<close>

lemma i2c_completions_withstand:
  assumes "observes_offers offers p s0" and "i2c_past offers s0 base t k [] s w es"
  shows "withstands (i2c_isr_at p) offers (i2c_past offers s0 base t k []) (i2c_completions_prog p) s w es"
  unfolding i2c_completions_prog_def
proof (rule withstands_step [OF i2c_past_stable [OF assms(1)] assms(2)], simp)
  fix s w es
  let ?J = "i2c_past offers s0 base t k []"
  assume J: "?J s w es"
  note st = i2c_past_stable [OF assms(1), of base t k "[]"]
  have crit: "offers (crit p v) = offers v" for v using assms(1) by (simp add: observes_offers_def)
  show "withstands (i2c_isr_at p) offers ?J (drain_prog (unat (max_completions_per_run s))
      (field_pop completion_queue (\<lambda>q s. s\<lparr>completion_queue := q\<rparr>) (event_pop p))
      (\<lambda>completion s w. Some (True, s, w)) Stop 0) s w es"
  proof (rule withstands_drain [where I = ?J and H = "\<lambda>x. ?J", OF st st _ _ _ J])
    fix s w es x
    assume J: "?J s w es"
    then have inv: "i2c_inv s" by (rule i2c_past_inv)
    then have q: "event_inv (completion_queue s)" by (simp add: i2c_inv_def)
    let ?s = "s\<lparr>completion_queue := event_deq (completion_queue s)\<rparr>"
    have "i2c_inv ?s" using inv events.deq_simps [OF q] by (simp add: i2c_inv_def)
    then have "?J ?s (crit p w) es" by (rule i2c_past_keep [OF J]) (simp_all add: crit)
    moreover have "?J s (crit p w) es" by (rule i2c_past_keep [OF J inv]) (simp_all add: crit)
    ultimately show "\<exists>ok y s' w'. field_pop completion_queue (\<lambda>q s. s\<lparr>completion_queue := q\<rparr>) (event_pop p) s x w =
        Some (ok, y, s', w') \<and> (if ok then ?J s' w' es else ?J s' w' es)"
      by (auto simp: field_pop_def events.pop_eq [OF q])
  qed (auto intro: withstands.stop)
qed

lemma i2c_requests_withstand:
  assumes "observes_offers offers p s0" and "i2c_past offers s0 base t k [] s w es"
  shows "withstands (i2c_isr_at p) offers (i2c_past offers s0 base t (Suc k) []) (i2c_requests_prog p) s w es"
  unfolding i2c_requests_prog_def
proof (rule withstands_step [OF i2c_past_stable [OF assms(1)] assms(2)], simp)
  fix s w es
  let ?Past = "\<lambda>k. i2c_past offers s0 base t k" and ?isr = "i2c_isr_at p"
  let ?I = "\<lambda>n. ?Past (if n = 0 then Suc k else k) []" and ?H = "\<lambda>n :: nat. \<lambda>x. ?Past k [x]"
  assume J: "?Past k [] s w es"
  note st = i2c_past_stable [OF assms(1)]
  have crit: "offers (crit p v) = offers v" for v using assms(1) by (simp add: observes_offers_def)
  have "max_requests_per_run s \<noteq> 0" using i2c_past_inv [OF J] by (simp add: i2c_inv_def)
  then have I: "?I (unat (max_requests_per_run s)) s w es" using J by (simp add: unat_eq_zero)
  have more: "?I n s w es" if "?Past (Suc k) [] s w es" for n s w es
    using that i2c_past_less [OF that] by simp
  show "withstands ?isr offers (?Past (Suc k) []) (drain_prog (unat (max_requests_per_run s))
      (field_pop request_ring (\<lambda>r s. s\<lparr>request_ring := r\<rparr>) (ring_pop request_bytes request_of_bytes p))
      i2c_submit_body (i2c_completions_prog p) \<lparr>address = 0, length_req = 0, write_req = False\<rparr>) s w es"
  proof (rule withstands_drain_counted [where I = ?I and H = ?H and K = "?Past (Suc k) []",
      OF st st _ _ _ i2c_completions_withstand [OF assms(1)] I])
    fix n s w es x
    assume "?I (Suc n) s w es"
    then have J: "?Past k [] s w es" by simp
    then have inv: "i2c_inv s" by (rule i2c_past_inv)
    then have r: "typed_inv sizeof_request (request_ring s)" by (simp add: i2c_inv_def)
    note deq = request_objects.deq_refines [OF r]
    show "\<exists>ok y s' w'. field_pop request_ring (\<lambda>r s. s\<lparr>request_ring := r\<rparr>) (ring_pop request_bytes request_of_bytes p) s x w =
        Some (ok, y, s', w') \<and> (if ok then ?H n y s' w' es else ?Past (Suc k) [] s' w' es)"
    proof (cases "i2c_held s")
      case Nil
      have "?Past k [] s (crit p w) es" by (rule i2c_past_keep [OF J inv]) (simp_all add: crit)
      from i2c_past_all [OF this Nil] show ?thesis
        using Nil by (auto simp: field_pop_def request_objects.pop_refines [OF r] i2c_held_def simp del: typed_items_empty_iff)
    next
      case (Cons y ys)
      let ?s = "s\<lparr>request_ring := ring_deq (request_ring s)\<rparr>"
      have "i2c_held ?s = ys" using Cons deq(2) by (simp add: i2c_held_def)
      moreover have "i2c_inv ?s" using inv deq by (simp add: i2c_inv_def)
      moreover have "min t k \<le> length (offers w)" using J by (simp add: i2c_past_def)
      ultimately have "?Past k [y] ?s (crit p w) es" by (intro i2c_past_move [OF J]) (simp_all add: crit Cons deq)
      then show ?thesis using Cons by (auto simp: field_pop_def request_objects.pop_refines [OF r] i2c_held_def)
    qed
  next
    fix n s w es x
    assume H: "?H n x s w es"
    then have inv: "i2c_inv s" "hal s = hal s0" "min t k \<le> length (offers w)" by (simp_all add: i2c_past_def i2c_track_def)
    then obtain f where f: "submit_request (hal s) = Some f" by (auto simp: i2c_inv_def is_null_iff)
    obtain ok w1 where w1: "f (hal_ctx (hal s)) x w = (ok, w1)" by (metis surj_pair)
    have "observes_offers offers p s" using assms(1) observes_offers_same [OF inv(2)] by simp
    then have "offers (snd (i2c_submit s x w)) = offers w @ [x]" by (simp add: observes_offers_def)
    then have "?Past (Suc k) [] s w1 es"
      using inv(3) by (intro i2c_past_move [OF H inv(1)]) (simp_all add: i2c_submit_def f w1)
    moreover have "i2c_submit_body x s w = Some (ok, s, w1)" using f w1 by (simp add: i2c_submit_body_def)
    ultimately show "\<exists>continue s' w'. i2c_submit_body x s w = Some (continue, s', w') \<and>
        (if continue then ?I n s' w' es else ?Past (Suc k) [] s' w' es)"
      using more [of s w1 es n] by (intro exI [of _ ok] exI [of _ s] exI [of _ w1]) (cases ok; simp only: if_True if_False simp_thms)
  qed simp
qed

lemma i2c_withstands:
  assumes "observes_offers offers p s0" and "i2c_past offers s0 base t k [] s w es"
  shows "withstands (i2c_isr_at p) offers (i2c_past offers s0 base t (Suc k) []) (i2c_prog p) s w es"
proof -
  let ?J = "i2c_past offers s0 base t k []" and ?Q = "i2c_past offers s0 base t (Suc k) []" and ?isr = "i2c_isr_at p"
  note st = i2c_past_stable [OF assms(1), of base t _ "[]"] and requests = i2c_requests_withstand [OF assms(1)]
  have crit: "offers (crit p v) = offers v" for v using assms(1) by (simp add: observes_offers_def)
  have keep: "i2c_past offers s0 base t k [] s (crit p w) es" if "i2c_past offers s0 base t k [] s w es" for k s w es
    by (rule i2c_past_keep [OF that i2c_past_inv [OF that]]) (simp_all add: crit)
  have size: "withstands ?isr offers ?Q (Step (\<lambda>s w.
      let (n, w) = sch_event_queue_size p (Some (completion_queue s)) w
      in Some (if n = 0 then Stop else i2c_requests_prog p, s, w))) s w es" if "?Q s w es" for s w es
  proof (rule withstands_ask [OF st that])
    fix s w es
    assume J: "?Q s w es"
    then have "event_inv (completion_queue s)" using i2c_past_inv [OF J] by (simp add: i2c_inv_def)
    then show "?Q s (snd (sch_event_queue_size p (Some (completion_queue s)) w)) es" using keep [OF J] by (simp add: event_size_refines)
  qed (auto intro: withstands.stop requests i2c_past_less)
  have empty: "withstands ?isr offers ?Q (Step (\<lambda>s w.
      let (no_request, w) = sch_spsc_ring_is_empty p (Some (request_ring s)) w
      in Some (if \<not> no_request then i2c_requests_prog p
        else Step (\<lambda>s w.
          let (n, w) = sch_event_queue_size p (Some (completion_queue s)) w
          in Some (if n = 0 then Stop else i2c_requests_prog p, s, w)), s, w))) s w es" if "?J s w es" for s w es
  proof (rule withstands_ask_result [where P' = "\<lambda>no_request. if no_request then ?Q else ?J", OF st that])
    fix s w es
    assume J: "?J s w es"
    then have "typed_inv sizeof_request (request_ring s)" using i2c_past_inv [OF J] by (simp add: i2c_inv_def)
    then have "sch_spsc_ring_is_empty p (Some (request_ring s)) w = (i2c_held s = [], crit p w)"
      by (simp add: ring_is_empty_refines i2c_held_def typed_inv_def)
    then show "(if fst (sch_spsc_ring_is_empty p (Some (request_ring s)) w) then ?Q else ?J) s
        (snd (sch_spsc_ring_is_empty p (Some (request_ring s)) w)) es"
      using keep [OF J] i2c_past_all [OF keep [OF J]] by simp
  next
    fix no_request s w es
    assume "(if no_request then ?Q else ?J) s w es"
    then show "withstands ?isr offers ?Q (if \<not> no_request then i2c_requests_prog p
        else Step (\<lambda>s w.
          let (n, w) = sch_event_queue_size p (Some (completion_queue s)) w
          in Some (if n = 0 then Stop else i2c_requests_prog p, s, w))) s w es"
      using requests size by (cases no_request) (simp_all only: if_True if_False simp_thms)
  qed
  show ?thesis
    unfolding i2c_prog_def
  proof (rule withstands_step [OF st assms(2)])
    fix s w es
    assume J: "?J s w es"
    let ?s = "s\<lparr>irq_hint := False\<rparr>"
    have hint: "i2c_take_hint p s w = (irq_hint s, ?s, crit p w)"
      by (simp add: i2c_take_hint_def crit_def split_beta Let_def)
    have "i2c_inv s" using J by (rule i2c_past_inv)
    then have "?J ?s (crit p w) es"
      by (intro i2c_past_keep [OF J]) (simp_all add: crit i2c_inv_def)
    then show "\<exists>c s' w'. (let (had_irq_hint, s, w) = i2c_take_hint p s w
        in Some (if had_irq_hint then i2c_requests_prog p
          else Step (\<lambda>s w.
            let (no_request, w) = sch_spsc_ring_is_empty p (Some (request_ring s)) w
            in Some (if \<not> no_request then i2c_requests_prog p
              else Step (\<lambda>s w.
                let (n, w) = sch_event_queue_size p (Some (completion_queue s)) w
                in Some (if n = 0 then Stop else i2c_requests_prog p, s, w)), s, w)), s, w)) = Some (c, s', w') \<and>
        withstands ?isr offers ?Q c s' w' es"
      unfolding hint using requests empty by simp
  qed
qed

lemma i2c_keeps_track:
  assumes "observes_offers offers p s0" and "i2c_track offers s0 base [] s w es"
  shows "withstands (i2c_isr_at p) offers (i2c_track offers s0 base []) (i2c_prog p) s w es"
  using i2c_withstands [OF assms(1), of base 0 0 s w es] assms(2) by (simp add: i2c_past_0 [abs_def])

section \<open>Properties\<close>

text \<open>
  Requests reach the driver in order and once each, wherever interrupts arrive. Completion
  interrupts and requests enqueued by interrupts may come between any two critical sections or
  callbacks of any number of runs; no step of a run and no interrupt entry is ever undefined. When
  they stop, wherever that finds the run, the rest of the run ends, and the requests the driver was
  offered followed by those still queued are exactly those there were at the start followed by those
  enqueued since, less the ones a full ring turned away, whose number is in the drop counter. In
  particular a request the driver refuses is not offered again.
\<close>

lemma i2c_requests_in_order:
  assumes "i2c_inv s0" and "observes_offers offers p s0"
    and "interleaved (i2c_isr_at p) (i2c_prog p) (s0, w0) es (c, s, w)"
  shows "i2c_isr_at p e s w \<noteq> None \<and> (case c of Stop \<Rightarrow> True | Step f \<Rightarrow> f s w \<noteq> None) \<and>
    (\<exists>s1 w1 accepted. finish c s w = Some (s1, w1) \<and> i2c_inv s1 \<and> subseq accepted (i2c_enqueued es) \<and>
      offers w1 @ i2c_held s1 = offers w0 @ i2c_held s0 @ accepted \<and>
      drops (request_ring s1) = drops (request_ring s0) + of_nat (length (i2c_enqueued es) - length accepted))"
proof -
  let ?J = "i2c_track offers s0 (offers w0 @ i2c_held s0) []"
  note st = i2c_track_stable [OF assms(2), of "offers w0 @ i2c_held s0" "[]"]
  have "?J s0 w0 []" using assms(1) by (simp add: i2c_track_def)
  from interleaved_withstands [OF assms(3) this st i2c_keeps_track [OF assms(2)]]
  have ws: "withstands (i2c_isr_at p) offers ?J c s w es" .
  then obtain s1 w1 where s1: "finish c s w = Some (s1, w1)" "?J s1 w1 es" using withstands_finish [OF ws] by blast
  then have "i2c_inv s1 \<and> (\<exists>accepted. subseq accepted (i2c_enqueued es) \<and>
      offers w1 @ i2c_held s1 = offers w0 @ i2c_held s0 @ accepted \<and>
      drops (request_ring s1) = drops (request_ring s0) + of_nat (length (i2c_enqueued es) - length accepted))"
    by (auto simp: i2c_track_def)
  moreover have "i2c_isr_at p e s w \<noteq> None" by (rule withstands_isr [OF st ws])
  moreover have "case c of Stop \<Rightarrow> True | Step f \<Rightarrow> f s w \<noteq> None"
  proof (cases c)
    case (Step f)
    then show ?thesis using withstands_defined [OF ws [unfolded Step]] by simp
  qed simp
  ultimately show ?thesis using s1(1) by blast
qed

end
