(* ===== verification/I2c_Scheduled.thy ===== *)
theory I2c_Scheduled
  imports Board I2c_Preempted
begin

text \<open>
  The EEPROM service as a task of the scheduler, with interrupts anywhere: the driver is offered
  the requests in order, one at least at every dispatch of the task while some are queued.
\<close>

section \<open>The service under the scheduler\<close>

definition i2c_stage ::
  "('w \<Rightarrow> sch_eeprom_request list) \<Rightarrow> ('x, 'w) sch_i2c_eeprom_service \<Rightarrow> sch_eeprom_request list \<Rightarrow> nat \<times> nat \<Rightarrow> nat \<Rightarrow>
   ('x, 'w) sch_i2c_eeprom_service \<Rightarrow> 'w \<Rightarrow> i2c_interrupt list \<Rightarrow> bool" where
  "i2c_stage offers s0 base = (\<lambda>(t, k) n. i2c_past offers s0 base t (k + n) [])"

lemma i2c_preempted_service:
  assumes "observes_offers offers p s0"
  shows "preempted_service (i2c_isr_at p) (i2c_prog p) offers (i2c_track offers s0 base []) (i2c_stage offers s0 base)"
proof
  fix s v es
  show "stable (i2c_isr_at p) offers (i2c_track offers s0 base [])" by (rule i2c_track_stable [OF assms])
  show "stable (i2c_isr_at p) offers (i2c_stage offers s0 base k n)" for k n
    unfolding i2c_stage_def split_beta by (rule i2c_past_stable [OF assms])
  show "withstands (i2c_isr_at p) offers (i2c_track offers s0 base []) (i2c_prog p) s v es" if "i2c_track offers s0 base [] s v es"
    by (rule i2c_keeps_track [OF assms that])
  show "withstands (i2c_isr_at p) offers (i2c_stage offers s0 base k (Suc n)) (i2c_prog p) s v es" if "i2c_stage offers s0 base k n s v es"
    for k n
    using i2c_withstands [OF assms] that by (simp add: i2c_stage_def split_beta)
qed

lemma i2c_preempted_app:
  assumes "leaves_log p env offers" and "observes_offers offers p s0"
  shows "preempted_app (i2c_isr_at p) (i2c_prog p) p env offers (i2c_track offers s0 base []) (i2c_stage offers s0 base)"
  by (intro preempted_app.intro preempted_app_axioms.intro i2c_preempted_service [OF assms(2)] assms(1))

section \<open>The board\<close>

text \<open>A driver that refuses requests to address 0.\<close>

definition i2c_board_hal :: "(unit, sch_eeprom_request board) sch_i2c_eeprom_hal" where
  "i2c_board_hal = \<lparr>ack_irq = None,
     submit_request = Some (\<lambda>c x b. (address x \<noteq> 0, b\<lparr>board_log := board_log b @ [x]\<rparr>)),
     consume_completion = None, hal_ctx = None\<rparr>"

definition i2c_board_service :: "sch_eeprom_request list \<Rightarrow> (unit, sch_eeprom_request board) sch_i2c_eeprom_service" where
  "i2c_board_service requests = \<lparr>hal = i2c_board_hal,
     request_ring = request_ring (bus_service requests), completion_queue = completion_queue (bus_service requests),
     irq_hint = False, max_requests_per_run = 2, max_completions_per_run = 1\<rparr>"

lemma i2c_board_ok:
  "i2c_inv (i2c_board_service requests)" "i2c_held (i2c_board_service requests) = take 2 requests"
  "observes_offers board_log board_port (i2c_board_service requests)"
  using bus_service_ok(1,2) [of requests]
  by (simp_all add: i2c_board_service_def i2c_inv_def i2c_held_def i2c_board_hal_def observes_offers_def i2c_submit_def)

interpretation i2c_board: preempted_app "i2c_isr_at board_port" "i2c_prog board_port" board_port board_env board_log
  "i2c_track board_log (i2c_board_service requests) base []" "i2c_stage board_log (i2c_board_service requests) base"
  for requests base
  by (rule i2c_preempted_app [OF board_leaves i2c_board_ok(3)])

text \<open>The interrupts leave the clock of the board alone.\<close>

lemma i2c_board_stable:
  "stable (i2c_isr_at board_port) (\<lambda>v. v) (\<lambda>s v es. i2c_track board_log (i2c_board_service requests) base [] s v es \<and> board_ticks v = t)"
proof (rule stableI)
  fix s es e and v :: "sch_eeprom_request board"
  assume J: "i2c_track board_log (i2c_board_service requests) base [] s v es \<and> board_ticks v = t"
  then obtain s' v' where s': "i2c_isr_at board_port e s v = Some (s', v')"
    "i2c_track board_log (i2c_board_service requests) base [] s' v' (es @ [e])"
    using stable_isr [OF i2c_board.stable] by blast
  have "i2c_inv s" "hal s = i2c_board_hal" using J by (simp_all add: i2c_track_def i2c_board_service_def)
  then have "v' = v"
    using s'(1) by (cases e) (auto simp: i2c_isr_complete_eq i2c_enqueue_eq i2c_ack_def i2c_completion_def i2c_board_hal_def)
  then show "\<exists>s' v'. i2c_isr_at board_port e s v = Some (s', v') \<and>
      i2c_track board_log (i2c_board_service requests) base [] s' v' (es @ [e]) \<and> board_ticks v' = t" using s' J by blast
qed simp

section \<open>Properties\<close>

text \<open>
  C31. Requests reach the driver in order and in time. The run function of the EEPROM service is
  registered as a task, beside any tasks that leave the bus alone; interrupts queue requests and
  report completions wherever they are enabled, between critical sections of the scheduler, before
  any step of a run of the service, and between polls. No poll and no interrupt entry is ever
  undefined, and the interrupts arrive as supplied. What the driver was offered, followed by what is
  queued, is what there was at the start followed by the requests enqueued since, in their order,
  less those that a full ring turned away and counted. And the driver has been offered at least one
  more of the requests queued at the start for every point of the release grid of the task that the
  polls met, as long as there were any.
\<close>

theorem i2c_offered_in_time:
  assumes "i2c_inv s0" and "observes_offers offers p s0" and "leaves_log p env offers"
    and "sch_wf sc" and "sch_quiet sc" and "j < SCH_MAX_TASKS" and "fn (tasks sc ! j) = Some Service_Task"
    and "tracks R period T0 lo (tasks sc ! j)" and "0 < period" and "period \<le> 2 ^ 31"
    and "\<forall>h\<in>set hs. \<forall>v. offers (h v) = offers v"
  shows "\<exists>polls sc' w' accepted.
    run_seq cfg (interrupted (i2c_isr_at p) p) (interrupted_app (i2c_isr_at p) (i2c_prog p) env)
      (map (elapse (i2c_isr_at p)) hs) (Some sc) (system_start s0 v0 batches) = Some (polls, Some sc', w') \<and>
    \<not> broken w' \<and> arrived w' @ concat (coming w') = concat batches \<and>
    subseq accepted (i2c_enqueued (arrived w')) \<and>
    offers (platform w') @ i2c_held (service w') = offers v0 @ i2c_held s0 @ accepted \<and>
    drops (request_ring (service w')) =
      drops (request_ring s0) + of_nat (length (i2c_enqueued (arrived w')) - length accepted) \<and>
    (\<forall>Ts. map fst polls = map of_nat Ts \<and> polls_close T0 Ts \<longrightarrow>
      length (offers v0) + min (length (i2c_held s0)) (releases_met R period lo Ts) \<le> length (offers (platform w')))"
proof -
  let ?w = "system_start s0 v0 batches" and ?base = "offers v0 @ i2c_held s0"
  let ?goal = "(length ?base, length (offers v0))"
  have start: "i2c_track offers s0 ?base [] s0 v0 []" using assms(1) by (simp add: i2c_track_def)
  then have J: "holds (i2c_track offers s0 ?base []) ?w" and stage: "holds (i2c_stage offers s0 ?base ?goal 0) ?w"
    by (simp_all add: i2c_stage_def i2c_past_def)
  from preempted_app.polls_advance [OF i2c_preempted_app [OF assms(3,2)] assms(4,5) J assms(11,6-10), of cfg]
  obtain polls sc' w' n where
    r: "run_seq cfg (interrupted (i2c_isr_at p) p) (interrupted_app (i2c_isr_at p) (i2c_prog p) env)
      (map (elapse (i2c_isr_at p)) hs) (Some sc) ?w = Some (polls, Some sc', w')"
    and J': "holds (i2c_track offers s0 ?base []) w'" "supplied ?w w'"
    and prog: "\<forall>k m. holds (i2c_stage offers s0 ?base k m) ?w \<longrightarrow> holds (i2c_stage offers s0 ?base k (m + n)) w'"
    and met: "\<forall>Ts. map fst polls = map of_nat Ts \<longrightarrow> polls_close T0 Ts \<longrightarrow> releases_met R period lo Ts \<le> n" by blast
  from prog stage have "holds (i2c_stage offers s0 ?base ?goal n) w'" by (metis add_0)
  then have "length (offers v0) + min (length (i2c_held s0)) n \<le> length (offers (platform w'))"
    by (simp add: holds_def i2c_stage_def i2c_past_def min_add_distrib_right)
  then have "length (offers v0) + min (length (i2c_held s0)) (releases_met R period lo Ts) \<le> length (offers (platform w'))"
    if "map fst polls = map of_nat Ts" "polls_close T0 Ts" for Ts using met that by fastforce
  moreover from J'(1) have "\<not> broken w'" and "i2c_track offers s0 ?base [] (service w') (platform w') (arrived w')"
    by (simp_all add: holds_def)
  moreover from this(2) obtain accepted where "subseq accepted (i2c_enqueued (arrived w'))"
    "offers (platform w') @ i2c_held (service w') = ?base @ accepted"
    "drops (request_ring (service w')) =
      drops (request_ring s0) + of_nat (length (i2c_enqueued (arrived w')) - length accepted)"
    by (auto simp: i2c_track_def)
  moreover have "arrived w' @ concat (coming w') = concat batches" using J'(2) by (simp add: supplied_def system_start_def)
  ultimately show ?thesis using r by (intro exI [of _ polls] exI [of _ sc'] exI [of _ w'] exI [of _ accepted]) simp
qed

text \<open>Two requests queued, a third one enqueued by an interrupt before the poll at 500 ticks.\<close>

theorem i2c_offered_in_time_witness:
  "\<exists>polls sc' w' accepted.
    run_seq all_on (interrupted (i2c_isr_at board_port) board_port)
      (interrupted_app (i2c_isr_at board_port) (i2c_prog board_port) board_env)
      [elapse (i2c_isr_at board_port) (board_at 500)] (Some board_sch)
      (system_start (i2c_board_service [eeprom_read 1, eeprom_read 2]) board_start [[I2C_ENQUEUE (eeprom_read 3)]]) =
      Some (polls, Some sc', w') \<and>
    board_log (platform w') @ i2c_held (service w') = [eeprom_read 1, eeprom_read 2] @ accepted \<and>
    1 \<le> length (board_log (platform w'))"
proof -
  let ?isr = "i2c_isr_at board_port :: _ \<Rightarrow> (unit, sch_eeprom_request board) sch_i2c_eeprom_service \<Rightarrow> _"
  let ?p = "interrupted ?isr board_port" and ?env = "interrupted_app ?isr (i2c_prog board_port) board_env"
  let ?s = "i2c_board_service [eeprom_read 1, eeprom_read 2]"
  let ?w = "system_start ?s board_start [[I2C_ENQUEUE (eeprom_read 3)]]"
  let ?h = "board_at 500 :: sch_eeprom_request board \<Rightarrow> _"
  have hs: "\<forall>h\<in>set [?h]. \<forall>v. board_log (h v) = board_log v" by simp
  have num: "(0::nat) < 1000" "(1000::nat) \<le> 2 ^ 31" by simp_all
  obtain polls sc' w' accepted where
    r: "run_seq all_on ?p ?env (map (elapse ?isr) [?h]) (Some board_sch) ?w = Some (polls, Some sc', w')"
    and offers: "board_log (platform w') @ i2c_held (service w') = board_log board_start @ i2c_held ?s @ accepted"
    and met: "\<forall>Ts. map fst polls = map of_nat Ts \<and> polls_close 0 Ts \<longrightarrow>
      length (board_log (board_start :: sch_eeprom_request board)) + min (length (i2c_held ?s)) (releases_met 0 1000 0 Ts) \<le> length (board_log (platform w'))"
    using i2c_offered_in_time [OF i2c_board_ok(1,3) [of "[eeprom_read 1, eeprom_read 2]"] board_leaves board_ok num hs, of all_on board_start
        "[[I2C_ENQUEUE (eeprom_read 3)]]"] by (elim exE conjE)
  have J: "holds (i2c_track board_log ?s (i2c_held ?s) []) ?w"
    by (simp add: i2c_track_def i2c_board_ok(1) board_start_def)
  have "map fst polls = [500]"
    using run_seq_first_tick [of all_on ?p ?env, OF r [unfolded list.map]] board_poll_tick [OF i2c_board_stable J stable_log [OF i2c_board.stable]]
    by simp
  then have "map fst polls = map of_nat [500] \<and> polls_close 0 [500]" by simp
  moreover note board_grid(1)
  ultimately have "1 \<le> length (board_log (platform w'))"
    using met [THEN spec, of "[500]"] by (simp add: i2c_board_ok(2))
  then show ?thesis using r [unfolded list.map] offers by (auto simp: i2c_board_ok(2) board_start_def)
qed

end
