(* ===== verification/Checked_Tasks.thy ===== *)
theory Checked_Tasks
  imports Scheduler_Reach
begin

text \<open>
  Tasks that are only safe with the context they were registered with. \<open>allowed f c\<close> says that
  the function \<open>f\<close> may be called with the context \<open>c\<close>; the scheduler calls nothing but what is in
  its table, with the context that is in the same slot, so a table of allowed pairs makes a run
  indistinguishable from one in which every other call would be harmless. That reduces the
  contract of such an application to \<open>task_contract\<close>.
\<close>

definition table_ok :: "('f \<Rightarrow> 'c option \<Rightarrow> bool) \<Rightarrow> ('f, 'c, 'h) sch \<Rightarrow> bool" where
  "table_ok allowed s \<longleftrightarrow> length (tasks s) = SCH_MAX_TASKS \<and>
     (\<forall>i<SCH_MAX_TASKS. in_use (tasks s ! i) \<longrightarrow>
        (\<exists>f. fn (tasks s ! i) = Some f \<and> allowed f (ctx (tasks s ! i))))"

definition restricted ::
  "('f \<Rightarrow> 'c option \<Rightarrow> bool) \<Rightarrow> ('f, 'c, 'h, 'w) sch_env \<Rightarrow> ('f, 'c, 'h, 'w) sch_env" where
  "restricted allowed env =
     env\<lparr>call_task := (\<lambda>f c s w. if allowed f c then call_task env f c s w else Some (s, w))\<rparr>"

lemma table_ok_core: "same_core s s' \<Longrightarrow> table_ok allowed s' = table_ok allowed s"
  by (simp add: table_ok_def same_core_def)

lemma table_ok_tasks: "tasks s' = tasks s \<Longrightarrow> table_ok allowed s' = table_ok allowed s"
  by (simp add: table_ok_def)

lemma table_ok_upd_stats [simp]: "table_ok allowed (upd_stats i h s) = table_ok allowed s"
  by (simp add: table_ok_def)

lemma table_ok_upd_task:
  assumes "table_ok allowed s" and "\<And>t. in_use (g t) = in_use t \<and> fn (g t) = fn t \<and> ctx (g t) = ctx t"
  shows "table_ok allowed (upd_task i g s)"
  using assms by (auto simp: table_ok_def upd_task_def nth_list_update_if split: if_splits)

lemma table_ok_take: "table_ok allowed s \<Longrightarrow> table_ok allowed (sch_take_task now i s)"
  unfolding sch_take_task_def by (rule table_ok_upd_task) simp_all

lemma table_ok_mark:
  assumes "table_ok allowed s"
  shows "table_ok allowed (fst (sch_mark_periodic_ready cfg env s now w))"
proof -
  have "table_ok allowed (fst sw) \<Longrightarrow> table_ok allowed (fst (fold (sch_mark_slot cfg env now) is sw))" for "is" sw
  proof (induction "is" arbitrary: sw)
    case (Cons i "is")
    have "table_ok allowed (upd_task i (\<lambda>t. t\<lparr>pending := True\<rparr>) s')" if "tasks s' = tasks (fst sw)" for s' :: "('a, 'b, 'c) sch"
      using that Cons.prems by (intro table_ok_upd_task) (simp_all add: table_ok_def)
    then have "table_ok allowed (fst (sch_mark_slot cfg env now i sw))"
      using Cons.prems by (simp add: sch_mark_slot_def Let_def split_beta)
    then show ?case using Cons.IH by simp
  qed simp
  with assms show ?thesis by (simp add: sch_mark_periodic_ready_def)
qed

lemma selected_in_use:
  assumes "sch_select_pending_task s \<noteq> SCH_INVALID_TASK_ID"
  shows "unat (sch_select_pending_task s) < SCH_MAX_TASKS \<and> in_use (tasks s ! unat (sch_select_pending_task s))"
proof -
  obtain k where k: "k < SCH_MAX_TASKS" "is_ready (tasks s ! k)" "sch_select_pending_task s = of_nat k"
    using assms select_fold [OF order_refl, of s] by (auto simp: sch_select_pending_task_def split: if_splits)
  then have "unat (sch_select_pending_task s) = k" by simp
  with k show ?thesis by (simp add: is_ready_def)
qed

lemma background_in_use:
  assumes "sch_select_background_task s = (tid, s')"
  shows "tasks s' = tasks s \<and>
    (tid \<noteq> SCH_INVALID_TASK_ID \<longrightarrow> unat tid < SCH_MAX_TASKS \<and> in_use (tasks s ! unat tid))"
proof -
  have "unat (x mod of_nat SCH_MAX_TASKS) < SCH_MAX_TASKS" for x :: u32
    by (simp add: SCH_MAX_TASKS_def unat_mod)
  then show ?thesis
    using assms
    by (auto simp: sch_select_background_task_def Let_def find_upt_Some_iff split: option.splits)
qed

locale checked_tasks =
  fixes allowed :: "'f \<Rightarrow> 'c option \<Rightarrow> bool"
    and env :: "('f, 'c, 'h, 'w) sch_env"
  assumes keeps: "table_ok allowed s \<Longrightarrow> allowed f c \<Longrightarrow> call_task env f c s w = Some (s', w') \<Longrightarrow>
      table_ok allowed s'"
begin

abbreviation safe :: "('f, 'c, 'h, 'w) sch_env" where
  "safe \<equiv> restricted allowed env"

lemma emit_same: "sch_trace_emit safe = sch_trace_emit env"
  by (intro ext) (simp add: sch_trace_emit_def restricted_def split: option.split)

lemma exec_same:
  assumes "allowed f c"
  shows "sch_exec_periodic cfg p safe i (Some f) c period s w = sch_exec_periodic cfg p env i (Some f) c period s w"
proof -
  have "call_fn safe (Some f) c = call_fn env (Some f) c"
    using assms by (intro ext) (simp add: call_fn_def restricted_def)
  then show ?thesis by (simp only: sch_exec_periodic_def emit_same)
qed

lemma exec_table:
  assumes "table_ok allowed s" and "allowed f c"
    and "sch_exec_periodic cfg p env i (Some f) c period s w = Some (s', w')"
  shows "table_ok allowed s'"
proof -
  obtain s1 w1 where b: "exec_before cfg p env i s w = (s1, w1)" by (metis surj_pair)
  with assms(3) obtain s2 w2 where c: "call_task env f c s1 w1 = Some (s2, w2)"
    and a: "exec_after cfg p env i period s2 w2 = (s', w')"
    by (auto simp: exec_periodic_split split: option.splits)
  have "table_ok allowed s1"
    using assms(1) table_ok_core [OF exec_before_core, of allowed cfg p env i s w] b by simp
  then have "table_ok allowed s2" using keeps assms(2) c by blast
  then show ?thesis using table_ok_core [OF exec_after_core, of allowed cfg p env i period s2 w2] a by simp
qed

lemma periodic_same:
  assumes "table_ok allowed s"
  shows "sch_run_periodic n cfg p safe now s w = sch_run_periodic n cfg p env now s w \<and>
    (\<forall>s' w'. sch_run_periodic n cfg p env now s w = Some (s', w') \<longrightarrow> table_ok allowed s')"
  using assms
proof (induction n arbitrary: s w)
  case 0
  then show ?case by simp
next
  case (Suc n)
  show ?case
  proof (cases "sch_select_pending_task s = SCH_INVALID_TASK_ID")
    case True
    then show ?thesis using Suc.prems by (simp add: split_beta Let_def)
  next
    case False
    let ?i = "unat (sch_select_pending_task s)"
    obtain f where f: "fn (tasks s ! ?i) = Some f" "allowed f (ctx (tasks s ! ?i))"
      using Suc.prems selected_in_use [OF False] by (auto simp: table_ok_def)
    let ?s = "sch_take_task now ?i s"
    let ?w = "sch_port_exit_critical p (fst (sch_port_enter_critical p w)) (snd (sch_port_enter_critical p w))"
    let ?e = "sch_exec_periodic cfg p env ?i (Some f) (ctx (tasks s ! ?i)) (period_ticks (tasks s ! ?i)) ?s ?w"
    show ?thesis
    proof (cases ?e)
      case None
      then show ?thesis using False f exec_same [OF f(2)] by (simp add: split_beta Let_def)
    next
      case (Some sw)
      obtain s1 w1 where sw: "sw = (s1, w1)" by fastforce
      have "table_ok allowed s1"
        using exec_table [OF table_ok_take [OF Suc.prems] f(2)] Some sw by blast
      from Suc.IH [OF this, of w1] show ?thesis
        using False f exec_same [OF f(2)] Some sw by (simp add: split_beta Let_def)
    qed
  qed
qed

lemma background_same:
  assumes "table_ok allowed s"
  shows "sch_run_background cfg p safe s w = sch_run_background cfg p env s w"
proof -
  obtain tid s1 where b: "sch_select_background_task s = (tid, s1)" by (metis surj_pair)
  have "call_fn safe (fn (tasks s1 ! unat tid)) (ctx (tasks s1 ! unat tid)) =
      call_fn env (fn (tasks s1 ! unat tid)) (ctx (tasks s1 ! unat tid))" if found: "tid \<noteq> SCH_INVALID_TASK_ID"
  proof -
    obtain f where "fn (tasks s1 ! unat tid) = Some f" "allowed f (ctx (tasks s1 ! unat tid))"
      using assms background_in_use [OF b] found by (auto simp: table_ok_def)
    then show ?thesis by (simp add: call_fn_def restricted_def fun_eq_iff)
  qed
  then show ?thesis
    by (simp add: sch_run_background_def b emit_same split_beta Let_def)
qed

lemma background_table:
  assumes "table_ok allowed s" and "sch_run_background cfg p env s w = Some (s', w')"
  shows "table_ok allowed s'"
proof -
  obtain tid s1 where b: "sch_select_background_task s = (tid, s1)" by (metis surj_pair)
  have s1: "table_ok allowed s1" using assms(1) background_in_use [OF b] table_ok_tasks by metis
  show ?thesis
  proof (cases "tid = SCH_INVALID_TASK_ID")
    case True
    then show ?thesis using assms(2) s1 by (auto simp: sch_run_background_def b split_beta Let_def)
  next
    case False
    then obtain f where f: "fn (tasks s1 ! unat tid) = Some f" "allowed f (ctx (tasks s1 ! unat tid))"
      using assms(1) background_in_use [OF b] by (auto simp: table_ok_def)
    have after: "call_task env f (ctx (tasks s1 ! unat tid)) t v = Some (t', v') \<Longrightarrow> table_ok allowed t \<Longrightarrow>
        table_ok allowed t'" for t v t' v'
      using keeps [OF _ f(2)] by blast
    show ?thesis
      using assms(2) s1 False f(1)
      by (cases "sch_enable_stats cfg")
        (auto simp: sch_run_background_def b split_beta Let_def call_fn_def bind_eq_Some_conv dest!: after)
  qed
qed

lemma mark_same: "sch_mark_periodic_ready cfg safe = sch_mark_periodic_ready cfg env"
proof -
  have "sch_mark_slot cfg safe = sch_mark_slot cfg env"
    by (intro ext) (simp only: sch_mark_slot_def emit_same)
  then show ?thesis by (intro ext) (simp only: sch_mark_periodic_ready_def)
qed

lemma run_same:
  assumes "table_ok allowed s"
  shows "sch_run cfg p safe (Some s) w = sch_run cfg p env (Some s) w"
proof -
  let ?e = "sch_port_enter_critical p w"
  let ?t = "sch_port_now_ticks p (snd ?e)"
  let ?m = "sch_mark_periodic_ready cfg env s (fst ?t) (snd ?t)"
  let ?w = "sch_port_exit_critical p (fst ?e) (snd ?m)"
  note per = periodic_same [OF table_ok_mark [OF assms], of SCH_MAX_TASKS cfg p "fst ?t" cfg env "fst ?t" "snd ?t" ?w]
  show ?thesis
  proof (cases "sch_run_periodic SCH_MAX_TASKS cfg p env (fst ?t) (fst ?m) ?w")
    case None
    then show ?thesis using per by (simp add: sch_run_def split_beta Let_def mark_same)
  next
    case (Some sw)
    then have "table_ok allowed (fst sw)" using per by (cases sw) simp
    from background_same [OF this] show ?thesis
      using Some per by (simp add: sch_run_def split_beta Let_def mark_same)
  qed
qed

lemma run_table:
  assumes "table_ok allowed s" and "sch_run cfg p env (Some s) w = Some (Some s', w')"
  shows "table_ok allowed s'"
proof -
  let ?e = "sch_port_enter_critical p w"
  let ?t = "sch_port_now_ticks p (snd ?e)"
  let ?m = "sch_mark_periodic_ready cfg env s (fst ?t) (snd ?t)"
  let ?w = "sch_port_exit_critical p (fst ?e) (snd ?m)"
  note per = periodic_same [OF table_ok_mark [OF assms(1)], of SCH_MAX_TASKS cfg p "fst ?t" cfg env "fst ?t" "snd ?t" ?w]
  from assms(2) obtain s1 w1 s2 w2 where
    r: "sch_run_periodic SCH_MAX_TASKS cfg p env (fst ?t) (fst ?m) ?w = Some (s1, w1)"
    and b: "sch_run_background cfg p env s1 w1 = Some (s2, w2)" and s2: "s' = s2"
    by (auto simp: sch_run_def split_beta Let_def bind_eq_Some_conv)
  show ?thesis using background_table [OF _ b] per r s2 by blast
qed

end

end
