(* ===== verification/Events_Example.thy ===== *)
theory Events_Example
  imports Scheduler_Register Checked_Tasks Typed_Ring
begin

text \<open>
  \<^verbatim>\<open>examples/main_events_example.c\<close>: the program that puts the library together. Five tasks share
  one application object: a control task, a task that stands for the interrupts and fills a ring
  and an event queue in bursts, two services that drain them a few items at a time, and a
  background task that reports. The tasks are shown to meet the task contract of the scheduler,
  so that what is proved of \<open>sch_run\<close> holds of the program.

  The two storage arrays of the application object are the values of the \<open>storage\<close> fields.
  A call of \<^verbatim>\<open>printf\<close> is the list of the numbers it prints, added to the platform state.
\<close>

section \<open>Data\<close>

definition DEMO_RUNTIME_MS :: u32 where
  "DEMO_RUNTIME_MS = 120"

definition UART_RING_CAPACITY :: size_t where
  "UART_RING_CAPACITY = 8"

definition ETH_EVENT_CAPACITY :: size_t where
  "ETH_EVENT_CAPACITY = 6"

declare DEMO_RUNTIME_MS_def [c_consts] UART_RING_CAPACITY_def [c_consts] ETH_EVENT_CAPACITY_def [c_consts]

datatype demo_eth_event = DEMO_ETH_RX_READY | DEMO_ETH_TX_DONE | DEMO_ETH_LINK_CHANGE

fun demo_eth_value :: "demo_eth_event \<Rightarrow> u16" where
  "demo_eth_value DEMO_ETH_RX_READY = 1"
| "demo_eth_value DEMO_ETH_TX_DONE = 2"
| "demo_eth_value DEMO_ETH_LINK_CHANGE = 3"

record demo_app =
  uart_rx_ring :: sch_spsc_ring
  eth_event_queue :: sch_event_queue
  uart_irq_hint :: bool
  eth_irq_hint :: bool
  control_runs :: u32
  uart_empty_polls :: u32
  uart_processed :: u32
  eth_empty_polls :: u32
  eth_processed :: u32
  background_runs :: u32
  isr_uart_generated :: u32
  isr_eth_generated :: u32
  next_uart_byte :: u16
  next_eth_event :: u16
  last_report_tick :: u32

record demo = host +
  app :: demo_app
  printed :: "u32 list list"

text \<open>The object \<open>demo_app_t app = {0}\<close>.\<close>

definition zero_ring :: sch_spsc_ring where
  "zero_ring = \<lparr>storage = None, element_size = 0, capacity = 0, head = 0, tail = 0, count = 0, drops = 0,
     overflow = SCH_OVERFLOW_DROP_NEWEST\<rparr>"

definition zero_app :: demo_app where
  "zero_app = \<lparr>uart_rx_ring = zero_ring, eth_event_queue = \<lparr>ring = zero_ring\<rparr>, uart_irq_hint = False,
     eth_irq_hint = False, control_runs = 0, uart_empty_polls = 0, uart_processed = 0, eth_empty_polls = 0,
     eth_processed = 0, background_runs = 0, isr_uart_generated = 0, isr_eth_generated = 0, next_uart_byte = 0,
     next_eth_event = 0, last_report_tick = 0\<rparr>"

section \<open>Tasks\<close>

definition control_task :: "demo_app \<Rightarrow> demo_app" where
  "control_task a = a\<lparr>control_runs := control_runs a + 1\<rparr>"

definition simulated_isr_push_uart :: "'w port \<Rightarrow> demo_app \<Rightarrow> 'w \<Rightarrow> (demo_app \<times> 'w) option" where
  "simulated_isr_push_uart p a w = do {
     let byte = next_uart_byte a;
     let a = a\<lparr>next_uart_byte := next_uart_byte a + 1\<rparr>;
     (status, r, w) \<leftarrow> ring_push u16_bytes p (uart_rx_ring a) byte w;
     Some (a\<lparr>uart_rx_ring := r, uart_irq_hint := True, isr_uart_generated := isr_uart_generated a + 1\<rparr>, w)
   }"

definition simulated_isr_push_eth_event :: "'w port \<Rightarrow> demo_app \<Rightarrow> 'w \<Rightarrow> (demo_app \<times> 'w) option" where
  "simulated_isr_push_eth_event p a w = do {
     let event = next_eth_event a;
     let a = a\<lparr>next_eth_event := next_eth_event a + 1\<rparr>;
     let a = (if demo_eth_value DEMO_ETH_LINK_CHANGE < next_eth_event a
              then a\<lparr>next_eth_event := demo_eth_value DEMO_ETH_RX_READY\<rparr> else a);
     (status, q, w) \<leftarrow> event_push p (eth_event_queue a) event w;
     Some (a\<lparr>eth_event_queue := q, eth_irq_hint := True, isr_eth_generated := isr_eth_generated a + 1\<rparr>, w)
   }"

definition simulated_isr_task :: "'w port \<Rightarrow> demo_app \<Rightarrow> 'w \<Rightarrow> (demo_app \<times> 'w) option" where
  "simulated_isr_task p a w = do {
     (a, w) \<leftarrow> simulated_isr_push_uart p a w;
     (a, w) \<leftarrow> simulated_isr_push_uart p a w;
     (a, w) \<leftarrow> simulated_isr_push_uart p a w;
     (a, w) \<leftarrow> simulated_isr_push_eth_event p a w;
     simulated_isr_push_eth_event p a w
   }"

definition uart_service_task :: "'w port \<Rightarrow> demo_app \<Rightarrow> 'w \<Rightarrow> (demo_app \<times> 'w) option" where
  "uart_service_task p a w = do {
     let (nothing, w) =
       (if \<not> uart_irq_hint a then sch_spsc_ring_is_empty p (Some (uart_rx_ring a)) w else (False, w));
     if nothing then Some (a\<lparr>uart_empty_polls := uart_empty_polls a + 1\<rparr>, w)
     else do {
       (a, byte, w) \<leftarrow> drain_loop 2
         (field_pop uart_rx_ring (\<lambda>r a. a\<lparr>uart_rx_ring := r\<rparr>) (ring_pop u16_bytes u16_of_bytes p))
         (\<lambda>byte a w. Some (True, a\<lparr>uart_processed := uart_processed a + 1\<rparr>, w))
         (a\<lparr>uart_irq_hint := False\<rparr>) 0 w;
       Some (a, w)
     }
   }"

definition eth_service_task :: "'w port \<Rightarrow> demo_app \<Rightarrow> 'w \<Rightarrow> (demo_app \<times> 'w) option" where
  "eth_service_task p a w = do {
     let (nothing, w) =
       (if \<not> eth_irq_hint a
        then let (n, w) = sch_event_queue_size p (Some (eth_event_queue a)) w in (n = 0, w)
        else (False, w));
     if nothing then Some (a\<lparr>eth_empty_polls := eth_empty_polls a + 1\<rparr>, w)
     else do {
       (a, event, w) \<leftarrow> drain_loop 1
         (field_pop eth_event_queue (\<lambda>q a. a\<lparr>eth_event_queue := q\<rparr>) (event_pop p))
         (\<lambda>event a w. Some (True, a\<lparr>eth_processed := eth_processed a + 1\<rparr>, w))
         (a\<lparr>eth_irq_hint := False\<rparr>) 0 w;
       Some (a, w)
     }
   }"

text \<open>The arguments of the call of \<^verbatim>\<open>printf\<close> are evaluated from left to right here; none has an effect.\<close>

definition background_task ::
  "'w port \<Rightarrow> (u32 list \<Rightarrow> 'w \<Rightarrow> 'w) \<Rightarrow> demo_app \<Rightarrow> 'w \<Rightarrow> demo_app \<times> 'w" where
  "background_task p print a w =
     (let (now, w) = sch_port_now_ticks p w;
          a = a\<lparr>background_runs := background_runs a + 1\<rparr>
      in
        if now - last_report_tick a < 20 * 1000 then (a, w)
        else
          let a = a\<lparr>last_report_tick := now\<rparr>;
              (uart_q, w) = sch_spsc_ring_size p (Some (uart_rx_ring a)) w;
              (uart_drop, w) = sch_spsc_ring_drop_count p (Some (uart_rx_ring a)) w;
              (eth_q, w) = sch_event_queue_size p (Some (eth_event_queue a)) w;
              (eth_drop, w) = sch_event_queue_drop_count p (Some (eth_event_queue a)) w
          in (a, print [now, control_runs a, uart_processed a, uart_empty_polls a, uart_q, uart_drop,
                eth_processed a, eth_empty_polls a, eth_q, eth_drop] w))"

datatype demo_fn = CONTROL_TASK | SIMULATED_ISR_TASK | UART_SERVICE_TASK | ETH_SERVICE_TASK | BACKGROUND_TASK

text \<open>
  The call of a task through its pointer, with the address of \<open>app\<close> as its context. A null
  context is dereferenced, hence undefined. No hook is installed.
\<close>

definition demo_print :: "u32 list \<Rightarrow> demo \<Rightarrow> demo" where
  "demo_print line w = w\<lparr>printed := printed w @ [line]\<rparr>"

fun demo_task :: "(demo \<Rightarrow> demo) \<Rightarrow> demo_fn \<Rightarrow> demo_app \<Rightarrow> demo \<Rightarrow> (demo_app \<times> demo) option" where
  "demo_task clock CONTROL_TASK a w = Some (control_task a, w)"
| "demo_task clock SIMULATED_ISR_TASK a w = simulated_isr_task (example_port clock) a w"
| "demo_task clock UART_SERVICE_TASK a w = uart_service_task (example_port clock) a w"
| "demo_task clock ETH_SERVICE_TASK a w = eth_service_task (example_port clock) a w"
| "demo_task clock BACKGROUND_TASK a w = Some (background_task (example_port clock) demo_print a w)"

definition demo_env :: "(demo \<Rightarrow> demo) \<Rightarrow> (demo_fn, unit, unit, demo) sch_env" where
  "demo_env clock =
     \<lparr>call_task = (\<lambda>f c s w. case c of
         None \<Rightarrow> None
       | Some _ \<Rightarrow> do { (a, w) \<leftarrow> demo_task clock f (app w) w; Some (s, w\<lparr>app := a\<rparr>) }),
      call_hook = (\<lambda>h e i t c w. w)\<rparr>"

section \<open>The main function\<close>

text \<open>Everything before the loop; the results of the calls are ignored by the code.\<close>

definition demo_main_setup ::
  "sch_config \<Rightarrow> (demo \<Rightarrow> demo) \<Rightarrow> (demo_fn, unit, unit) sch \<Rightarrow> demo \<Rightarrow> (demo_fn, unit, unit) sch \<times> demo" where
  "demo_main_setup cfg clock raw w =
     (let p = example_port clock;
          a = zero_app;
          (start_us, w) = sch_mono_now_us clock w;
          w = w\<lparr>g_start_time := \<lparr>tv_sec = start_us div 1000000, tv_usec = start_us mod 1000000\<rparr>\<rparr>;
          (ok, r, w) = sch_spsc_ring_init p (Some (uart_rx_ring a)) (Some (replicate (unat UART_RING_CAPACITY * 2) 0))
            UART_RING_CAPACITY sizeof_u16 SCH_OVERFLOW_DROP_OLDEST w;
          a = a\<lparr>uart_rx_ring := the r\<rparr>;
          (ok, q, w) = sch_event_queue_init p (Some (eth_event_queue a)) (Some (replicate (unat ETH_EVENT_CAPACITY * 2) 0))
            ETH_EVENT_CAPACITY SCH_OVERFLOW_DROP_OLDEST w;
          a = a\<lparr>eth_event_queue := the q\<rparr>;
          a = a\<lparr>next_uart_byte := 1, next_eth_event := demo_eth_value DEMO_ETH_RX_READY\<rparr>;
          w = w\<lparr>app := a\<rparr>;
          (s, w) = sch_init cfg p (Some raw) w;
          (ids, s, w) = add_all cfg p
            [(CONTROL_TASK, Some (), 1000, 0, 0), (SIMULATED_ISR_TASK, Some (), 3000, 500, 1),
             (UART_SERVICE_TASK, Some (), 2000, 0, 5), (ETH_SERVICE_TASK, Some (), 5000, 0, 8),
             (BACKGROUND_TASK, Some (), 0, 0, 50)] s w
      in (the s, w))"

text \<open>The loop, with the number of iterations it may still make.\<close>

fun demo_main_loop ::
  "nat \<Rightarrow> sch_config \<Rightarrow> (demo \<Rightarrow> demo) \<Rightarrow> (demo_fn, unit, unit) sch \<Rightarrow> demo \<Rightarrow>
   (bool \<times> (demo_fn, unit, unit) sch \<times> demo) option" where
  "demo_main_loop 0 cfg clock s w = Some (False, s, w)"
| "demo_main_loop (Suc n) cfg clock s w =
     (let (now, w) = sch_port_now_ticks (example_port clock) w
      in
        if now < DEMO_RUNTIME_MS * 1000 then do {
          (s, w) \<leftarrow> sch_run cfg (example_port clock) (demo_env clock) (Some s) w;
          demo_main_loop n cfg clock (the s) w
        }
        else Some (True, s, w))"

text \<open>The summary: a heading, which prints no number, and ten lines with one number each.\<close>

definition demo_main_summary :: "demo port \<Rightarrow> demo \<Rightarrow> demo" where
  "demo_main_summary p w =
     (let a = app w;
          w = demo_print [] w;
          w = demo_print [control_runs a] w;
          w = demo_print [isr_uart_generated a] w;
          w = demo_print [uart_processed a] w;
          w = demo_print [uart_empty_polls a] w;
          (uart_drop, w) = sch_spsc_ring_drop_count p (Some (uart_rx_ring a)) w;
          w = demo_print [uart_drop] w;
          w = demo_print [isr_eth_generated a] w;
          w = demo_print [eth_processed a] w;
          w = demo_print [eth_empty_polls a] w;
          (eth_drop, w) = sch_event_queue_drop_count p (Some (eth_event_queue a)) w;
          w = demo_print [eth_drop] w
      in demo_print [background_runs a] w)"

text \<open>The whole function, which leaves the loop or has used up the number of iterations.\<close>

definition demo_main ::
  "nat \<Rightarrow> sch_config \<Rightarrow> (demo \<Rightarrow> demo) \<Rightarrow> (demo_fn, unit, unit) sch \<Rightarrow> demo \<Rightarrow> (bool \<times> demo) option" where
  "demo_main n cfg clock raw w =
     (let (s, w) = demo_main_setup cfg clock raw w
      in do {
        (finished, s, w) \<leftarrow> demo_main_loop n cfg clock s w;
        Some (finished, if finished then demo_main_summary (example_port clock) w else w)
      })"

section \<open>The tasks keep the application's invariant\<close>

text \<open>
  Both queues are well formed, drop their oldest items and have the capacities of the program;
  every item generated has been processed, is still held or has been counted as dropped, modulo
  the width of the counters; and the events are those of the enumeration.
\<close>

definition demo_inv :: "demo_app \<Rightarrow> bool" where
  "demo_inv a \<longleftrightarrow>
     typed_inv sizeof_u16 (uart_rx_ring a) \<and> \<not> ring_newest (uart_rx_ring a) \<and>
     ring_bound (uart_rx_ring a) = 8 \<and>
     event_inv (eth_event_queue a) \<and> \<not> ring_newest (ring (eth_event_queue a)) \<and>
     ring_bound (ring (eth_event_queue a)) = 6 \<and>
     isr_uart_generated a = uart_processed a + count (uart_rx_ring a) + drops (uart_rx_ring a) \<and>
     isr_eth_generated a = eth_processed a + count (ring (eth_event_queue a)) + drops (ring (eth_event_queue a)) \<and>
     next_eth_event a \<in> {1, 2, 3} \<and> set (event_items (eth_event_queue a)) \<subseteq> {1, 2, 3}"

interpretation demo_uart: queue_client
  "ring_push u16_bytes p" "ring_pop u16_bytes u16_of_bytes p" "crit p"
  "typed_inv sizeof_u16" "typed_items u16_of_bytes" ring_bound ring_newest drops
  "\<lambda>r x. ring_enq r (u16_bytes x)" ring_deq uart_rx_ring "\<lambda>r a. a\<lparr>uart_rx_ring := r\<rparr>"
  for p
  by unfold_locales simp_all

interpretation demo_eth: queue_client
  "event_push p" "event_pop p" "crit p" event_inv event_items "\<lambda>q. ring_bound (ring q)"
  "\<lambda>q. ring_newest (ring q)" "\<lambda>q. drops (ring q)" event_enq event_deq
  eth_event_queue "\<lambda>q a. a\<lparr>eth_event_queue := q\<rparr>"
  for p
  by unfold_locales simp_all

text \<open>Accounting: a push adds one to what is held or dropped, a pop takes one from what is held.\<close>

lemma enq_account:
  assumes "typed_inv sizeof_u16 r"
  shows "count (ring_enq r (u16_bytes x)) + drops (ring_enq r (u16_bytes x)) = count r + drops r + 1"
proof -
  note e = u16.enq_refines [OF assms, of x]
  have le: "unat (count r) \<le> ring_bound r" "0 < ring_bound r" using typed_inv_bound [OF assms] by simp_all
  have "unat (count (ring_enq r (u16_bytes x))) = length (bounded_push (ring_bound r) (ring_newest r) (typed_items u16_of_bytes r) x)"
    using e(2) length_typed_items by metis
  also have "\<dots> = (if unat (count r) = ring_bound r then unat (count r) else Suc (unat (count r)))"
    using le by (simp add: bounded_push_def)
  finally have n: "unat (count (ring_enq r (u16_bytes x))) =
      (if unat (count r) = ring_bound r then unat (count r) else Suc (unat (count r)))" .
  show ?thesis
  proof (cases "unat (count r) = ring_bound r")
    case True
    then have "count (ring_enq r (u16_bytes x)) = count r" using n by (simp add: word_unat_eq_iff)
    then show ?thesis using e(5) True by simp
  next
    case False
    then have "(of_nat (unat (count (ring_enq r (u16_bytes x)))) :: size_t) = of_nat (Suc (unat (count r)))"
      using n by simp
    then have "count (ring_enq r (u16_bytes x)) = count r + 1" by simp
    then show ?thesis using e(5) False by simp
  qed
qed

lemma deqs_account:
  assumes "typed_inv sizeof_u16 r"
  shows "count ((ring_deq ^^ k) r) = count r - of_nat (min k (unat (count r)))"
    and "drops ((ring_deq ^^ k) r) = drops r"
proof -
  note d = u16.queue.deqs_keep [OF assms, of k]
  have "length (typed_items u16_of_bytes ((ring_deq ^^ k) r)) = length (typed_items u16_of_bytes r) - k"
    using d by simp
  then have "unat (count ((ring_deq ^^ k) r)) = unat (count r) - min k (unat (count r))" by simp
  then have "(of_nat (unat (count ((ring_deq ^^ k) r))) :: size_t) = of_nat (unat (count r) - min k (unat (count r)))"
    by simp
  then show "count ((ring_deq ^^ k) r) = count r - of_nat (min k (unat (count r)))"
    by (simp add: of_nat_diff)
  show "drops ((ring_deq ^^ k) r) = drops r" using d by simp
qed

lemma event_deqs_ring: "ring ((event_deq ^^ k) q) = (ring_deq ^^ k) (ring q)"
  by (induction k) (simp_all add: event_deq_def)

lemma set_tlD: "x \<in> set (tl xs) \<Longrightarrow> x \<in> set xs"
  by (cases xs) simp_all

lemma push_uart_keeps:
  assumes "demo_inv a"
  shows "\<exists>a'. simulated_isr_push_uart p a w = Some (a', crit p w) \<and> demo_inv a'"
proof -
  have r: "typed_inv sizeof_u16 (uart_rx_ring a)" using assms by (simp add: demo_inv_def)
  show ?thesis
    using assms u16.enq_refines [OF r, of "next_uart_byte a"] enq_account [OF r, of "next_uart_byte a"]
    by (simp add: simulated_isr_push_uart_def demo_inv_def u16.push_refines [OF r] algebra_simps)
qed

lemma push_eth_keeps:
  assumes "demo_inv a"
  shows "\<exists>a'. simulated_isr_push_eth_event p a w = Some (a', crit p w) \<and> demo_inv a'"
proof -
  have q: "event_inv (eth_event_queue a)" and r: "typed_inv sizeof_u16 (ring (eth_event_queue a))"
    using assms by (simp_all add: demo_inv_def event_inv_def)
  have items: "set (event_items (event_enq (eth_event_queue a) (next_eth_event a))) \<subseteq> {1, 2, 3}"
    using assms events.items_enq [OF q, of "next_eth_event a"]
    by (auto simp: demo_inv_def bounded_push_def dest: set_tlD split: if_splits)
  have next_event: "(if (3 :: u16) < next_eth_event a + 1 then 1 else next_eth_event a + 1) \<in> {1, 2, 3}"
    using assms by (auto simp: demo_inv_def)
  have acc: "count (ring (event_enq (eth_event_queue a) x)) + drops (ring (event_enq (eth_event_queue a) x)) =
      count (ring (eth_event_queue a)) + drops (ring (eth_event_queue a)) + 1" for x
    using enq_account [OF r] by (simp add: event_enq_def)
  show ?thesis
    using assms items next_event events.enq_simps [OF q, of "next_eth_event a"] acc [of "next_eth_event a"]
    by (simp add: simulated_isr_push_eth_event_def demo_inv_def events.push_eq [OF q] Let_def algebra_simps
        split: if_splits)
qed

lemma simulated_isr_keeps:
  assumes "demo_inv a"
  shows "\<exists>a' w'. simulated_isr_task p a w = Some (a', w') \<and> demo_inv a'"
proof -
  obtain a1 w1 where 1: "simulated_isr_push_uart p a w = Some (a1, w1)" "demo_inv a1"
    using push_uart_keeps [OF assms, of p w] by blast
  obtain a2 w2 where 2: "simulated_isr_push_uart p a1 w1 = Some (a2, w2)" "demo_inv a2"
    using push_uart_keeps [OF 1(2), of p w1] by blast
  obtain a3 w3 where 3: "simulated_isr_push_uart p a2 w2 = Some (a3, w3)" "demo_inv a3"
    using push_uart_keeps [OF 2(2), of p w2] by blast
  obtain a4 w4 where 4: "simulated_isr_push_eth_event p a3 w3 = Some (a4, w4)" "demo_inv a4"
    using push_eth_keeps [OF 3(2), of p w3] by blast
  show ?thesis using push_eth_keeps [OF 4(2), of p w4] 1(1) 2(1) 3(1) 4(1) by (auto simp: simulated_isr_task_def)
qed

lemma drain_fold_uart:
  "drain_fold bracket (\<lambda>byte a w. (a\<lparr>uart_processed := uart_processed a + 1\<rparr>, w)) n xs a w =
    (a\<lparr>uart_processed := uart_processed a + of_nat (min n (length xs))\<rparr>, drain_world bracket (\<lambda>x w. w) n xs w)"
proof (induction n arbitrary: xs a w)
  case (Suc n)
  then show ?case by (cases xs) (simp_all add: add.assoc)
qed simp

lemma drain_fold_eth:
  "drain_fold bracket (\<lambda>event a w. (a\<lparr>eth_processed := eth_processed a + 1\<rparr>, w)) n xs a w =
    (a\<lparr>eth_processed := eth_processed a + of_nat (min n (length xs))\<rparr>, drain_world bracket (\<lambda>x w. w) n xs w)"
proof (induction n arbitrary: xs a w)
  case (Suc n)
  then show ?case by (cases xs) (simp_all add: add.assoc)
qed simp

lemma uart_service_keeps:
  assumes "demo_inv a"
  shows "\<exists>a' w'. uart_service_task p a w = Some (a', w') \<and> demo_inv a'"
proof -
  have r: "typed_inv sizeof_u16 (uart_rx_ring a)" using assms by (simp add: demo_inv_def)
  let ?a = "a\<lparr>uart_irq_hint := False\<rparr>"
  have drain: "drain_loop 2 (field_pop uart_rx_ring (\<lambda>r a. a\<lparr>uart_rx_ring := r\<rparr>) (ring_pop u16_bytes u16_of_bytes p))
      (\<lambda>byte a w. Some (True, a\<lparr>uart_processed := uart_processed a + 1\<rparr>, w)) ?a 0 v =
    Some (?a\<lparr>uart_processed := uart_processed a + of_nat (min 2 (unat (count (uart_rx_ring a)))),
             uart_rx_ring := (ring_deq ^^ min 2 (unat (count (uart_rx_ring a)))) (uart_rx_ring a)\<rparr>,
          last (0 # take 2 (typed_items u16_of_bytes (uart_rx_ring a))),
          drain_world (crit p) (\<lambda>x w. w) 2 (typed_items u16_of_bytes (uart_rx_ring a)) v)" for v
    using demo_uart.drain_steps [where s = ?a and P = "\<lambda>a. True" and n = 2 and x = 0 and w = v and p = p and
        body = "\<lambda>byte a w. Some (True, a\<lparr>uart_processed := uart_processed a + 1\<rparr>, w)" and
        step = "\<lambda>byte a w. (a\<lparr>uart_processed := uart_processed a + 1\<rparr>, w)"] r
    by (simp add: drain_fold_uart)
  have done_inv: "demo_inv (?a\<lparr>uart_processed := uart_processed a + of_nat (min 2 (unat (count (uart_rx_ring a)))),
      uart_rx_ring := (ring_deq ^^ min 2 (unat (count (uart_rx_ring a)))) (uart_rx_ring a)\<rparr>)"
    using assms u16.queue.deqs_keep [OF r, of "min 2 (unat (count (uart_rx_ring a)))"]
      deqs_account [OF r, of "min 2 (unat (count (uart_rx_ring a)))"]
    by (simp add: demo_inv_def)
  have "demo_inv (a\<lparr>uart_empty_polls := uart_empty_polls a + 1\<rparr>)" using assms by (simp add: demo_inv_def)
  with done_inv show ?thesis by (auto simp: uart_service_task_def split_beta Let_def drain)
qed

lemma eth_service_keeps:
  assumes "demo_inv a"
  shows "\<exists>a' w'. eth_service_task p a w = Some (a', w') \<and> demo_inv a'"
proof -
  have q: "event_inv (eth_event_queue a)" and r: "typed_inv sizeof_u16 (ring (eth_event_queue a))"
    using assms by (simp_all add: demo_inv_def event_inv_def)
  let ?a = "a\<lparr>eth_irq_hint := False\<rparr>" and ?c = "length (event_items (eth_event_queue a))"
  have len: "unat (count (ring (eth_event_queue a))) = ?c" by (simp add: event_items_def)
  have drain: "drain_loop 1 (field_pop eth_event_queue (\<lambda>q a. a\<lparr>eth_event_queue := q\<rparr>) (event_pop p))
      (\<lambda>event a w. Some (True, a\<lparr>eth_processed := eth_processed a + 1\<rparr>, w)) ?a 0 v =
    Some (?a\<lparr>eth_processed := eth_processed a + of_nat (min 1 ?c),
             eth_event_queue := (event_deq ^^ min 1 ?c) (eth_event_queue a)\<rparr>,
          last (0 # take 1 (event_items (eth_event_queue a))),
          drain_world (crit p) (\<lambda>x w. w) 1 (event_items (eth_event_queue a)) v)" for v
    using demo_eth.drain_steps [where s = ?a and P = "\<lambda>a. True" and n = 1 and x = 0 and w = v and p = p and
        body = "\<lambda>event a w. Some (True, a\<lparr>eth_processed := eth_processed a + 1\<rparr>, w)" and
        step = "\<lambda>event a w. (a\<lparr>eth_processed := eth_processed a + 1\<rparr>, w)"] q
    by (simp add: drain_fold_eth)
  have done_inv: "demo_inv (?a\<lparr>eth_processed := eth_processed a + of_nat (min 1 ?c),
      eth_event_queue := (event_deq ^^ min 1 ?c) (eth_event_queue a)\<rparr>)"
    using assms events.deqs_keep [OF q, of "min 1 ?c"] deqs_account [OF r, of "min 1 ?c"]
    by (auto simp: demo_inv_def event_deqs_ring len dest: in_set_dropD)
  have "demo_inv (a\<lparr>eth_empty_polls := eth_empty_polls a + 1\<rparr>)" using assms by (simp add: demo_inv_def)
  with done_inv drain show ?thesis by (auto simp: eth_service_task_def split_beta Let_def)
qed

lemma background_keeps: "demo_inv a \<Longrightarrow> demo_inv (fst (background_task p print a w))"
  by (simp add: background_task_def demo_inv_def Let_def split_beta)

lemma demo_task_keeps:
  assumes "demo_inv a"
  shows "\<exists>a' w'. demo_task clock f a w = Some (a', w') \<and> demo_inv a'"
proof (cases f)
  case CONTROL_TASK
  then show ?thesis using assms by (simp add: control_task_def demo_inv_def)
next
  case BACKGROUND_TASK
  then show ?thesis using background_keeps [OF assms] by (metis demo_task.simps(5) prod.collapse)
next
  case SIMULATED_ISR_TASK
  then show ?thesis using simulated_isr_keeps [OF assms, of "example_port clock" w] by simp
next
  case UART_SERVICE_TASK
  then show ?thesis using uart_service_keeps [OF assms, of "example_port clock" w] by simp
next
  case ETH_SERVICE_TASK
  then show ?thesis using eth_service_keeps [OF assms, of "example_port clock" w] by simp
qed

section \<open>The program on the scheduler\<close>

text \<open>Registrations that fit the table: what ends up in which slot.\<close>

lemma add_all_slots:
  assumes "packed n s" and "n + length ds \<le> SCH_MAX_TASKS" and "\<And>v. obs (snd (crit_now p v)) = obs v"
  shows "\<exists>s' w'. add_all cfg p ds (Some s) w = (map of_nat [n..<n + length ds], Some s', w') \<and>
    packed (n + length ds) s' \<and> obs w' = obs w \<and> (\<forall>i<n. tasks s' ! i = tasks s ! i) \<and>
    (\<forall>i<length ds. \<exists>r. tasks s' ! (n + i) =
       (case ds ! i of (f, c, period, delay, prio) \<Rightarrow> new_task (Some f) c period r prio))"
  using assms(1,2)
proof (induction ds arbitrary: n s w)
  case Nil
  then show ?case by simp
next
  case (Cons d ds)
  obtain f c period delay prio where d: "d = (f, c, period, delay, prio)" by (metis prod_cases5)
  have n: "n < SCH_MAX_TASKS" using Cons.prems(2) by simp
  let ?r = "fst (crit_now p w) + delay" and ?w = "snd (crit_now p w)"
  let ?s = "add_at cfg n (new_task (Some f) c period ?r prio) s"
  have len: "length (tasks s) = SCH_MAX_TASKS" using Cons.prems(1) by (simp add: packed_def wf_lengths)
  have "packed (Suc n) ?s" using Cons.prems(1) n by (rule packed_add_at)
  from Cons.IH [OF this, of ?w] Cons.prems(2) obtain s' w' where ih:
    "add_all cfg p ds (Some ?s) ?w = (map of_nat [Suc n..<Suc n + length ds], Some s', w')"
    "packed (Suc n + length ds) s'" "obs w' = obs ?w" "\<forall>i<Suc n. tasks s' ! i = tasks ?s ! i"
    "\<forall>i<length ds. \<exists>r. tasks s' ! (Suc n + i) =
       (case ds ! i of (f, c, period, delay, prio) \<Rightarrow> new_task (Some f) c period r prio)" by auto
  have "tasks s' ! n = new_task (Some f) c period ?r prio" "\<forall>i<n. tasks s' ! i = tasks s ! i"
    using ih(4) n len by (simp_all add: add_at_def)
  moreover have "\<exists>r. tasks s' ! (n + i) =
      (case (d # ds) ! i of (f, c, period, delay, prio) \<Rightarrow> new_task (Some f) c period r prio)"
    if "i < length (d # ds)" for i
    using that ih(5) \<open>tasks s' ! n = _\<close> by (cases i) (auto simp: d)
  ultimately show ?case
    using ih(1-3) n assms(3) by (simp add: d packed_add [OF Cons.prems(1)] upt_conv_Cons del: upt_Suc)
qed

interpretation demo_tasks: checked_tasks "\<lambda>f c. c \<noteq> None" "demo_env clock" for clock
  by unfold_locales (auto simp: demo_env_def bind_eq_Some_conv)

text \<open>Reading the host's clock does not touch the application object.\<close>

definition clock_ok :: "(demo \<Rightarrow> demo) \<Rightarrow> bool" where
  "clock_ok clock \<longleftrightarrow> (\<forall>w. app (clock w) = app w)"

lemma example_port_app:
  assumes "clock_ok clock"
  shows "app (snd (sch_port_now_ticks (example_port clock) w)) = app w"
    and "app (snd (sch_port_enter_critical (example_port clock) w)) = app w"
    and "app (sch_port_exit_critical (example_port clock) state w) = app w"
    and "app (sch_port_idle (example_port clock) w) = app w"
    and "crit (example_port clock) w = w"
  using assms by (simp_all add: example_port_def example_clock_defs clock_ok_def crit_def)

lemma demo_contract:
  assumes "clock_ok clock"
  shows "task_contract (example_port clock) (restricted (\<lambda>f c. c \<noteq> None) (demo_env clock)) (\<lambda>w. demo_inv (app w))"
proof unfold_locales
  fix s :: "(demo_fn, unit, unit) sch" and w :: demo and f and c :: "unit option"
  assume wf: "sch_wf s" and inv: "demo_inv (app w)"
  obtain a' w' where "demo_task clock f (app w) w = Some (a', w')" "demo_inv a'"
    using demo_task_keeps [OF inv] by blast
  then show "\<exists>s' w'. call_task (restricted (\<lambda>f c. c \<noteq> None) (demo_env clock)) f c s w = Some (s', w') \<and>
      task_frame s s' \<and> demo_inv (app w')"
    using frame_refl [OF wf] inv by (cases c) (simp_all add: restricted_def demo_env_def)
qed (simp_all add: example_port_app [OF assms] restricted_def demo_env_def)

text \<open>One iteration of the main loop, and all of them.\<close>

definition demo_state :: "(demo_fn, unit, unit) sch \<Rightarrow> demo \<Rightarrow> bool" where
  "demo_state s w \<longleftrightarrow> sch_wf s \<and> sch_quiet s \<and> table_ok (\<lambda>f c. c \<noteq> None) s \<and> demo_inv (app w)"

lemma demo_run:
  assumes "clock_ok clock" and "demo_state s w"
  obtains s' w' where "sch_run cfg (example_port clock) (demo_env clock) (Some s) w = Some (Some s', w')"
    "demo_state s' w'"
proof -
  have st: "sch_wf s" "sch_quiet s" "table_ok (\<lambda>f c. c \<noteq> None) s" "demo_inv (app w)"
    using assms(2) by (simp_all add: demo_state_def)
  from task_contract.run_step [OF demo_contract [OF assms(1)] st(1,2,4), of cfg] obtain s' w' where
    r: "sch_run cfg (example_port clock) (demo_env clock) (Some s) w = Some (Some s', w')"
    "sch_wf s'" "sch_quiet s'" "demo_inv (app w')"
    using demo_tasks.run_same [OF st(3)] by metis
  have "table_ok (\<lambda>f c. c \<noteq> None) s'" using demo_tasks.run_table [OF st(3) r(1)] .
  with r that show ?thesis by (simp add: demo_state_def)
qed

lemma demo_loop_state:
  assumes "clock_ok clock" and "demo_state s w"
  shows "\<exists>fin s' w'. demo_main_loop n cfg clock s w = Some (fin, s', w') \<and> demo_state s' w'"
  using assms(2)
proof (induction n arbitrary: s w)
  case 0
  then show ?case by (auto intro!: exI [of _ False])
next
  case (Suc n)
  obtain now w1 where t: "sch_port_now_ticks (example_port clock) w = (now, w1)" by (metis surj_pair)
  have s1: "demo_state s w1"
    using Suc.prems example_port_app(1) [OF assms(1), of w] t by (simp add: demo_state_def)
  then obtain s2 w2 where "sch_run cfg (example_port clock) (demo_env clock) (Some s) w1 = Some (Some s2, w2)"
    "demo_state s2 w2" by (rule demo_run [OF assms(1)])
  then show ?case using Suc.IH s1 by (simp add: t) blast
qed

lemma demo_setup:
  assumes "clock_ok clock" and "sch_shape raw" and "demo_main_setup cfg clock raw w = (s, w')"
  shows "demo_state s w'" and "packed 5 s"
    and "\<exists>ids ds a. length ds = 5 \<and> add_all cfg (example_port clock) ds (Some (empty_sch cfg raw))
      ((clock w)\<lparr>g_start_time := timeval_of (host_us (clock w)), app := a\<rparr>) = (ids, Some s, w')"
    and "\<exists>r. tasks s ! 0 = new_task (Some CONTROL_TASK) (Some ()) 1000 r 0"
    and "\<exists>r. tasks s ! 1 = new_task (Some SIMULATED_ISR_TASK) (Some ()) 3000 r 1"
    and "\<exists>r. tasks s ! 2 = new_task (Some UART_SERVICE_TASK) (Some ()) 2000 r 5"
    and "\<exists>r. tasks s ! 3 = new_task (Some ETH_SERVICE_TASK) (Some ()) 5000 r 8"
    and "\<exists>r. tasks s ! 4 = new_task (Some BACKGROUND_TASK) (Some ()) 0 r 50"
proof -
  let ?p = "example_port clock"
  let ?w0 = "(clock w)\<lparr>g_start_time := timeval_of (host_us (clock w))\<rparr>"
  let ?ds = "[(CONTROL_TASK, Some (), 1000, 0, 0), (SIMULATED_ISR_TASK, Some (), 3000, 500, 1),
     (UART_SERVICE_TASK, Some (), 2000, 0, 5), (ETH_SERVICE_TASK, Some (), 5000, 0, 8),
     (BACKGROUND_TASK, Some (), 0, 0, 50)] :: (demo_fn \<times> unit option \<times> u32 \<times> u32 \<times> u16) list"
  have fit: "unat UART_RING_CAPACITY * unat sizeof_u16 \<le> length (replicate (unat UART_RING_CAPACITY * 2) (0 :: u8))"
    by (simp add: c_consts sizeof_u16_def)
  obtain r where r: "sch_spsc_ring_init ?p (Some zero_ring) (Some (replicate (unat UART_RING_CAPACITY * 2) 0))
      UART_RING_CAPACITY sizeof_u16 SCH_OVERFLOW_DROP_OLDEST ?w0 = (True, Some r, crit ?p ?w0)"
    "typed_inv sizeof_u16 r" "typed_items u16_of_bytes r = []" "drops r = 0" "ring_bound r = unat UART_RING_CAPACITY"
    "ring_newest r \<longleftrightarrow> SCH_OVERFLOW_DROP_OLDEST = SCH_OVERFLOW_DROP_NEWEST" "count r = 0"
    by (rule u16.init_refines [OF _ disjI2 [OF refl] fit, of ?p zero_ring ?w0]) (simp_all add: c_consts)
  obtain q where q: "sch_event_queue_init ?p (Some \<lparr>ring = zero_ring\<rparr>) (Some (replicate (unat ETH_EVENT_CAPACITY * 2) 0))
      ETH_EVENT_CAPACITY SCH_OVERFLOW_DROP_OLDEST ?w0 = (True, Some q, crit ?p ?w0)"
    "event_inv q" "event_items q = []" "ring_bound (ring q) = unat ETH_EVENT_CAPACITY" "drops (ring q) = 0"
    "ring_newest (ring q) \<longleftrightarrow> SCH_OVERFLOW_DROP_OLDEST = SCH_OVERFLOW_DROP_NEWEST"
    by (rule event_init_refines [of ETH_EVENT_CAPACITY SCH_OVERFLOW_DROP_OLDEST
          "replicate (unat ETH_EVENT_CAPACITY * 2) 0" ?p "\<lparr>ring = zero_ring\<rparr>" ?w0]) (simp_all add: c_consts)
  let ?a = "zero_app\<lparr>uart_rx_ring := r, eth_event_queue := q, next_uart_byte := 1, next_eth_event := 1\<rparr>"
  let ?w1 = "?w0\<lparr>app := ?a\<rparr>"
  have inv: "demo_inv ?a"
    using r q event_items_empty_iff [of q] by (simp add: demo_inv_def zero_app_def c_consts)
  have crit: "crit ?p v = v" for v by (rule example_port_app(5) [OF assms(1)])
  have obs: "app (snd (crit_now ?p v)) = app v" for v
    by (simp add: crit_now_def split_beta example_port_app [OF assms(1)])
  have len: "0 + length ?ds \<le> SCH_MAX_TASKS" by (simp add: SCH_MAX_TASKS_def)
  obtain s1 w1 where a: "add_all cfg ?p ?ds (Some (empty_sch cfg raw)) ?w1 = (map of_nat [0..<0 + length ?ds], Some s1, w1)"
    "packed (0 + length ?ds) s1" "app w1 = app ?w1"
    "\<forall>i<length ?ds. \<exists>r. tasks s1 ! (0 + i) =
       (case ?ds ! i of (f, c, period, delay, prio) \<Rightarrow> new_task (Some f) c period r prio)"
    using add_all_slots [OF packed_init [OF assms(2)] len, of app ?p cfg cfg ?w1, OF obs] by auto
  have sw: "s = s1" "w' = w1"
    using assms(3) r(1) q(1) a(1)
    by (simp_all add: demo_main_setup_def sch_mono_now_us_def Let_def crit zero_app_def init_eq [OF assms(2)] c_consts)
  have "length ?ds = 5" by simp
  with a(1) show "\<exists>ids ds a. length ds = 5 \<and> add_all cfg ?p ds (Some (empty_sch cfg raw))
      ((clock w)\<lparr>g_start_time := timeval_of (host_us (clock w)), app := a\<rparr>) = (ids, Some s, w')"
    unfolding sw by blast
  show pk: "packed 5 s" using a(2) by (simp add: sw eval_nat_numeral)
  show t: "\<exists>r. tasks s ! 0 = new_task (Some CONTROL_TASK) (Some ()) 1000 r 0"
    "\<exists>r. tasks s ! 1 = new_task (Some SIMULATED_ISR_TASK) (Some ()) 3000 r 1"
    "\<exists>r. tasks s ! 2 = new_task (Some UART_SERVICE_TASK) (Some ()) 2000 r 5"
    "\<exists>r. tasks s ! 3 = new_task (Some ETH_SERVICE_TASK) (Some ()) 5000 r 8"
    "\<exists>r. tasks s ! 4 = new_task (Some BACKGROUND_TASK) (Some ()) 0 r 50"
    using a(4) [rule_format, of 0] a(4) [rule_format, of 1] a(4) [rule_format, of 2] a(4) [rule_format, of 3]
      a(4) [rule_format, of 4] by (simp_all add: sw numeral_2_eq_2)
  have "table_ok (\<lambda>f c. c \<noteq> None) s"
    unfolding table_ok_def
  proof (intro conjI allI impI)
    show "length (tasks s) = SCH_MAX_TASKS" using pk by (simp add: packed_def wf_lengths)
    fix i assume "i < SCH_MAX_TASKS" "in_use (tasks s ! i)"
    then have "i < 5" using pk by (simp add: packed_def)
    then consider "i = 0" | "i = 1" | "i = 2" | "i = 3" | "i = 4" by linarith
    then show "\<exists>f. fn (tasks s ! i) = Some f \<and> ctx (tasks s ! i) \<noteq> None"
      using t by cases (auto simp: new_task_def)
  qed
  then show "demo_state s w'" using pk inv a(3) by (simp add: demo_state_def packed_def sw)
qed

section \<open>Properties\<close>

text \<open>A host whose clock advances by a millisecond with every reading.\<close>

definition steady_clock :: "demo \<Rightarrow> demo" where
  "steady_clock w = w\<lparr>host_tv := timeval_of (host_us w + 1000)\<rparr>"

definition demo_start :: demo where
  "demo_start = \<lparr>host_tv = \<lparr>tv_sec = 5, tv_usec = 0\<rparr>, host_readings = 0, g_start_time = \<lparr>tv_sec = 0, tv_usec = 0\<rparr>, app = zero_app, printed = []\<rparr>"

definition demo_raw :: "(demo_fn, unit, unit) sch" where
  "demo_raw = \<lparr>tasks = replicate SCH_MAX_TASKS empty_task, task_count = 77, next_background_idx = 99,
     stats = replicate SCH_MAX_TASKS empty_stats, trace_hook = Some (), trace_user_ctx = None\<rparr>"

lemma demo_books:
  assumes "demo_inv a"
  shows "isr_uart_generated a - uart_processed a - drops (uart_rx_ring a) = count (uart_rx_ring a)"
    and "isr_eth_generated a - eth_processed a - drops (ring (eth_event_queue a)) = count (ring (eth_event_queue a))"
    and "count (uart_rx_ring a) \<le> 8" and "count (ring (eth_event_queue a)) \<le> 6"
proof -
  show "isr_uart_generated a - uart_processed a - drops (uart_rx_ring a) = count (uart_rx_ring a)"
    "isr_eth_generated a - eth_processed a - drops (ring (eth_event_queue a)) = count (ring (eth_event_queue a))"
    using assms by (simp_all add: demo_inv_def)
  have "typed_inv sizeof_u16 (uart_rx_ring a)" "typed_inv sizeof_u16 (ring (eth_event_queue a))"
    "ring_bound (uart_rx_ring a) = 8" "ring_bound (ring (eth_event_queue a)) = 6"
    using assms by (simp_all add: demo_inv_def event_inv_def)
  then show "count (uart_rx_ring a) \<le> 8" "count (ring (eth_event_queue a)) \<le> 6"
    using typed_inv_bound [of sizeof_u16] by (fastforce simp: word_le_nat_alt)+
qed

text \<open>
  C38. The example program works on the library as a whole. Set up from any contents of the
  scheduler's memory, the five tasks are in the slots 0 to 4, and however often the main loop
  goes round and whatever the clock shows, no call is undefined and the application's books
  balance: every UART byte and every Ethernet event generated has been processed, is still
  queued, or is counted as dropped, the queues never exceed their capacities, and the scheduler
  stays well formed.
\<close>

theorem demo_main_balances:
  assumes "clock_ok clock" and "sch_shape raw" and "demo_main_setup cfg clock raw w = (s0, w0)"
  shows "(\<forall>i<SCH_MAX_TASKS. in_use (tasks s0 ! i) = (i < 5)) \<and>
    (\<exists>fin s' w'. demo_main_loop n cfg clock s0 w0 = Some (fin, s', w') \<and> sch_wf s' \<and> sch_quiet s' \<and>
      isr_uart_generated (app w') = uart_processed (app w') + count (uart_rx_ring (app w')) + drops (uart_rx_ring (app w')) \<and>
      isr_eth_generated (app w') = eth_processed (app w') + count (ring (eth_event_queue (app w'))) +
        drops (ring (eth_event_queue (app w'))) \<and>
      count (uart_rx_ring (app w')) \<le> 8 \<and> count (ring (eth_event_queue (app w'))) \<le> 6)"
proof -
  have "packed 5 s0" and st: "demo_state s0 w0"
    using demo_setup [OF assms] by simp_all
  then have used: "\<forall>i<SCH_MAX_TASKS. in_use (tasks s0 ! i) = (i < 5)" by (simp add: packed_def)
  obtain fin s' w' where r: "demo_main_loop n cfg clock s0 w0 = Some (fin, s', w')" "demo_state s' w'"
    using demo_loop_state [OF assms(1) st] by blast
  have inv: "demo_inv (app w')" using r(2) by (simp add: demo_state_def)
  then show ?thesis using used r demo_books(3,4) [OF inv] by (auto simp: demo_state_def demo_inv_def)
qed

theorem demo_main_balances_witness:
  "\<exists>s0 w0 fin s' w'. demo_main_setup all_on steady_clock demo_raw demo_start = (s0, w0) \<and>
    demo_main_loop 1000 all_on steady_clock s0 w0 = Some (fin, s', w') \<and> sch_wf s' \<and>
    isr_uart_generated (app w') = uart_processed (app w') + count (uart_rx_ring (app w')) + drops (uart_rx_ring (app w'))"
proof -
  obtain s0 w0 where s0: "demo_main_setup all_on steady_clock demo_raw demo_start = (s0, w0)" by (metis surj_pair)
  have "clock_ok steady_clock" "sch_shape demo_raw"
    by (simp_all add: clock_ok_def steady_clock_def sch_shape_def demo_raw_def)
  from demo_main_balances [OF this s0, of 1000] s0 show ?thesis by blast
qed

end
