(* ===== verification/Demo_Termination.thy ===== *)
theory Demo_Termination
  imports Events_Example Scheduler_Work
begin

text \<open>
  The main function of the events example comes to its end on a host whose clock never goes back and
  at last shows that the time is over. Its loop stops when the clock has passed 120 ms, which it may
  miss when the 32-bit tick wraps between two readings; so the argument needs a bound on the readings
  made in one round, which is \<open>run_cost\<close>, and a bound on the time from one reading of the host's
  clock to the next.
\<close>

section \<open>The host's clock\<close>

text \<open>
  The host answers reading number \<open>k\<close>, counted from the start of the program, with \<open>answers k\<close>. The
  clock may stand still for any number of readings. \<open>in_time\<close>: it never goes back, moves by at most
  \<open>d\<close> microseconds from one reading to the next, and at reading number \<open>N\<close> 120 ms are over.
\<close>

definition host_clock :: "(nat \<Rightarrow> timeval) \<Rightarrow> demo \<Rightarrow> demo" where
  "host_clock answers w = w\<lparr>host_tv := answers (host_readings w), host_readings := Suc (host_readings w)\<rparr>"

abbreviation time_at :: "(nat \<Rightarrow> timeval) \<Rightarrow> nat \<Rightarrow> nat" where
  "time_at answers k \<equiv> unat (timeval_us (answers k))"

definition in_time :: "(nat \<Rightarrow> timeval) \<Rightarrow> nat \<Rightarrow> nat \<Rightarrow> bool" where
  "in_time answers d N \<longleftrightarrow>
     (\<forall>k. time_at answers k \<le> time_at answers (Suc k) \<and> time_at answers (Suc k) \<le> time_at answers k + d) \<and>
     time_at answers 0 + 120000 \<le> time_at answers N"

lemma in_time_steps:
  assumes "in_time answers d N"
  shows "time_at answers k \<le> time_at answers (k + n) \<and> time_at answers (k + n) \<le> time_at answers k + n * d"
proof (induction n)
  case (Suc n)
  have "time_at answers (k + n) \<le> time_at answers (Suc (k + n))"
    "time_at answers (Suc (k + n)) \<le> time_at answers (k + n) + d" using assms by (simp_all add: in_time_def)
  with Suc show ?case by simp
qed simp

lemma in_time_mono: "in_time answers d N \<Longrightarrow> j \<le> k \<Longrightarrow> time_at answers j \<le> time_at answers k"
  using in_time_steps [of answers d N j "k - j"] by simp

section \<open>The readings of one round\<close>

definition demo_span :: "nat \<Rightarrow> demo \<Rightarrow> demo \<Rightarrow> bool" where
  "demo_span n w w' \<longleftrightarrow> start_us w' = start_us w \<and>
     host_readings w \<le> host_readings w' \<and> host_readings w' \<le> host_readings w + n"

lemma demo_span_same: "start_us w' = start_us w \<Longrightarrow> host_readings w' = host_readings w \<Longrightarrow> demo_span n w w'"
  by (simp add: demo_span_def)

lemma demo_span_now: "demo_span 1 w (snd (sch_port_now_ticks (example_port (host_clock answers)) w))"
  by (simp add: demo_span_def example_port_def example_clock_defs host_clock_def)

text \<open>The buffers do not move the host: their sections are empty on its port.\<close>

lemma example_sections [simp]:
  "sch_port_enter_critical (example_port clock) w = (0, w)" "sch_port_exit_critical (example_port clock) st w = w"
  "sch_port_idle (example_port clock) w = w"
  by (simp_all add: example_port_def)

lemma push_still:
  "sch_spsc_ring_push_isr (example_port clock) r item w = Some (st, r', w') \<Longrightarrow> w' = w"
  by (auto simp: sch_spsc_ring_push_isr_def Let_def bind_eq_Some_conv split: if_splits)

lemma pop_still:
  "sch_spsc_ring_pop_task (example_port clock) r item w = Some (ok, out, r', w') \<Longrightarrow> w' = w"
  by (auto simp: sch_spsc_ring_pop_task_def Let_def bind_eq_Some_conv split: if_splits)

lemma observe_still [simp]:
  "snd (sch_spsc_ring_size (example_port clock) r w) = w"
  "snd (sch_spsc_ring_is_empty (example_port clock) r w) = w"
  "snd (sch_spsc_ring_drop_count (example_port clock) r w) = w"
  "snd (sch_event_queue_size (example_port clock) q w) = w"
  "snd (sch_event_queue_drop_count (example_port clock) q w) = w"
  by (simp_all add: sch_spsc_ring_size_def sch_spsc_ring_is_empty_def sch_spsc_ring_drop_count_def
      sch_event_queue_size_def sch_event_queue_drop_count_def Let_def split_beta)

lemma queue_still:
  "ring_push enc (example_port clock) r x w = Some (st, r', w') \<Longrightarrow> w' = w"
  "ring_pop enc dec (example_port clock) r x w = Some (ok, y, r', w') \<Longrightarrow> w' = w"
  "event_push (example_port clock) q e w = Some (st', q', w') \<Longrightarrow> w' = w"
  "event_pop (example_port clock) q e w = Some (ok', e', q', w') \<Longrightarrow> w' = w"
  by (auto simp: ring_push_def ring_pop_def event_push_def event_pop_def sch_event_queue_push_isr_def
      sch_event_queue_pop_task_def Let_def bind_eq_Some_conv dest!: push_still pop_still split: if_splits)

lemma demo_task_span:
  assumes "demo_task (host_clock answers) f a w = Some (a', w')"
  shows "demo_span 1 w w'"
proof (cases f)
  case CONTROL_TASK
  then show ?thesis using assms by (auto intro: demo_span_same)
next
  case BACKGROUND_TASK
  let ?w = "snd (sch_port_now_ticks (example_port (host_clock answers)) w)"
  have "host_readings w' = host_readings ?w" "start_us w' = start_us ?w"
    using assms BACKGROUND_TASK
    by (auto simp: background_task_def split_beta Let_def demo_print_def split: if_splits)
  then show ?thesis using demo_span_now [of w answers] by (simp add: demo_span_def)
next
  case SIMULATED_ISR_TASK
  then have "w' = w" using assms
    by (auto simp: simulated_isr_task_def simulated_isr_push_uart_def simulated_isr_push_eth_event_def
        Let_def bind_eq_Some_conv dest!: queue_still)
  then show ?thesis by (simp add: demo_span_same)
next
  case UART_SERVICE_TASK
  then have "w' = w" using assms
    by (auto simp: uart_service_task_def field_pop_def numeral_2_eq_2 split_beta Let_def bind_eq_Some_conv
        dest!: queue_still split: if_splits)
  then show ?thesis by (simp add: demo_span_same)
next
  case ETH_SERVICE_TASK
  then have "w' = w" using assms
    by (auto simp: eth_service_task_def field_pop_def numeral_2_eq_2 split_beta Let_def bind_eq_Some_conv
        dest!: queue_still split: if_splits)
  then show ?thesis by (simp add: demo_span_same)
qed

interpretation demo_costs: run_costs
  "example_port (host_clock answers)" "demo_env (host_clock answers)" "demo_span" 1
  for answers
proof unfold_locales
  fix m n and u v w :: demo
  assume "demo_span m u v" "demo_span n v w"
  then show "demo_span (m + n) u w" by (simp add: demo_span_def)
next
  fix m n and u v :: demo
  assume "demo_span m u v" "m \<le> n"
  then show "demo_span n u v" by (simp add: demo_span_def)
next
  fix f and c :: "unit option" and s s' :: "(demo_fn, unit, unit) sch" and w w' :: demo
  assume "call_task (demo_env (host_clock answers)) f c s w = Some (s', w')"
  then obtain a v where "demo_task (host_clock answers) f (app w) w = Some (a, v)" "w' = v\<lparr>app := a\<rparr>"
    by (auto simp: demo_env_def bind_eq_Some_conv split: option.splits)
  then show "demo_span 1 w w'" using demo_task_span [of answers f "app w" w a v] by (simp add: demo_span_def)
qed (simp_all add: demo_span_same demo_span_now [simplified] demo_env_def)

section \<open>The loop ends\<close>

lemma host_clock_ok: "clock_ok (host_clock answers)"
  by (simp add: clock_ok_def host_clock_def)

lemma reading_after_start:
  assumes "sch_port_now_ticks (example_port (host_clock answers)) w = (now, w1)"
    and "\<not> timeval_us (answers (host_readings w)) < start_us w"
  shows "now = ucast (timeval_us (answers (host_readings w)) - start_us w)"
  using assms by (simp add: example_port_def example_clock_defs host_clock_def split: if_splits)

text \<open>A reading shows the time since the start, as long as that fits 32 bits.\<close>

lemma reading_shows:
  assumes "sch_port_now_ticks (example_port (host_clock answers)) w = (now, w1)"
    and "start_us w = timeval_us (answers 0)" and "in_time answers d N"
    and "time_at answers (host_readings w) < time_at answers 0 + 2 ^ 32"
  shows "unat now = time_at answers (host_readings w) - time_at answers 0"
    and "host_us w1 = timeval_us (answers (host_readings w))" and "host_readings w1 = Suc (host_readings w)"
    and "start_us w1 = timeval_us (answers 0)"
proof -
  let ?t = "timeval_us (answers (host_readings w))" and ?start = "timeval_us (answers 0)"
  have le: "unat ?start \<le> unat ?t" using in_time_mono [OF assms(3)] by simp
  then have "\<not> ?t < start_us w" by (simp add: word_less_nat_alt assms(2))
  then have "now = ucast (?t - ?start)" using reading_after_start [OF assms(1)] assms(2) by simp
  moreover have "unat (?t - ?start) = unat ?t - unat ?start" using le by (simp add: unat_sub word_le_nat_alt)
  ultimately show "unat now = unat ?t - unat ?start"
    using assms(4) by (simp add: unsigned_ucast_eq take_bit_nat_eq_self)
  show "host_us w1 = ?t" "host_readings w1 = Suc (host_readings w)" "start_us w1 = ?start"
    using assms(1,2) by (auto simp: example_port_def example_clock_defs host_clock_def split: if_splits)
qed

text \<open>The readings of one round of the loop, beside the one in its condition.\<close>

lemma demo_round: "run_cost cfg 1 SCH_MAX_TASKS \<le> 390"
  by (simp add: run_cost_def instrument_cost_def SCH_MAX_TASKS_def)

lemma demo_limit: "now < DEMO_RUNTIME_MS * 1000 \<longleftrightarrow> unat now < 120000"
  by (simp add: c_consts word_less_nat_alt)

definition over_at :: "(nat \<Rightarrow> timeval) \<Rightarrow> nat \<Rightarrow> demo \<Rightarrow> bool" where
  "over_at answers d w \<longleftrightarrow> start_us w = timeval_us (answers 0) \<and>
     unat (start_us w) + 120000 \<le> unat (host_us w) \<and> unat (host_us w) \<le> unat (start_us w) + 120000 + 391 * d"

lemma demo_loop_ends:
  assumes "in_time answers d N" and "d \<le> 10000000"
    and "demo_state s w" and "start_us w = timeval_us (answers 0)"
    and "time_at answers (host_readings w) \<le> time_at answers 0 + 120000 + 391 * d" and "N \<le> host_readings w + n"
  shows "\<exists>s' w'. demo_main_loop (Suc n) cfg (host_clock answers) s w = Some (True, s', w') \<and> demo_state s' w' \<and>
    over_at answers d w'"
  using assms(3-6)
proof (induction n arbitrary: s w)
  case 0
  obtain now w1 where t: "sch_port_now_ticks (example_port (host_clock answers)) w = (now, w1)" by (metis surj_pair)
  have fits: "time_at answers (host_readings w) < time_at answers 0 + 2 ^ 32" using 0(3) assms(2) by simp
  note r = reading_shows [OF t 0(2) assms(1) fits]
  have "time_at answers N \<le> time_at answers (host_readings w)" using in_time_mono [OF assms(1)] 0(4) by simp
  then have over: "time_at answers 0 + 120000 \<le> time_at answers (host_readings w)" using assms(1) by (simp add: in_time_def)
  have "demo_state s w1" using 0(1) example_port_app(1) [OF host_clock_ok, of answers w] t by (simp add: demo_state_def)
  moreover have "(unat now < 120000) = False" using r(1) over by simp
  ultimately show ?case using r(2-4) over 0(3) by (simp add: t demo_limit over_at_def)
next
  case (Suc n)
  obtain now w1 where t: "sch_port_now_ticks (example_port (host_clock answers)) w = (now, w1)" by (metis surj_pair)
  have fits: "time_at answers (host_readings w) < time_at answers 0 + 2 ^ 32" using Suc.prems(3) assms(2) by simp
  note r = reading_shows [OF t Suc.prems(2) assms(1) fits]
  have s1: "demo_state s w1" using Suc.prems(1) example_port_app(1) [OF host_clock_ok, of answers w] t
    by (simp add: demo_state_def)
  show ?case
  proof (cases "unat now < 120000")
    case False
    then have "time_at answers 0 + 120000 \<le> time_at answers (host_readings w)" using r(1) by simp
    then show ?thesis using False r(2-4) s1 Suc.prems(3) by (simp add: t demo_limit over_at_def)
  next
    case True
    obtain s2 w2 where run: "sch_run cfg (example_port (host_clock answers)) (demo_env (host_clock answers)) (Some s) w1 =
        Some (Some s2, w2)" "demo_state s2 w2" by (rule demo_run [OF host_clock_ok s1])
    have "demo_span 390 w1 w2" by (rule demo_costs.mono [OF demo_costs.run_cost_max [OF run(1)] demo_round])
    then have w2: "start_us w2 = timeval_us (answers 0)" "Suc (host_readings w) \<le> host_readings w2"
      "host_readings w2 \<le> host_readings w + 391" using r(3,4) by (simp_all add: demo_span_def)
    have "time_at answers (host_readings w2) \<le> time_at answers (host_readings w + 391)"
      by (rule in_time_mono [OF assms(1) w2(3)])
    also have "\<dots> \<le> time_at answers (host_readings w) + 391 * d" using in_time_steps [OF assms(1)] by blast
    also have "\<dots> \<le> time_at answers 0 + 120000 + 391 * d" using True r(1) by simp
    finally have "\<exists>s' w'. demo_main_loop (Suc n) cfg (host_clock answers) s2 w2 = Some (True, s', w') \<and>
        demo_state s' w' \<and> over_at answers d w'"
      using Suc.IH [OF run(2) w2(1)] w2(2) Suc.prems(4) by simp
    then show ?thesis using True run(1) by (subst demo_main_loop.simps(2)) (simp add: t demo_limit del: demo_main_loop.simps)
  qed
qed

section \<open>From the start\<close>

lemma add_task_span:
  "demo_span 1 w (snd (snd (sch_add_task cfg (example_port (host_clock answers)) s f c period delay prio w)))"
  using demo_span_now [of w answers]
  by (auto simp: sch_add_task_def Let_def split_beta demo_span_same split: option.splits)

lemma add_all_span:
  "demo_span (length ds) w (snd (snd (add_all cfg (example_port (host_clock answers)) ds s w)))"
proof (induction ds arbitrary: s w)
  case Nil
  then show ?case by (simp add: demo_span_same)
next
  case (Cons d ds)
  obtain f c period delay prio where d: "d = (f, c, period, delay, prio)" by (metis prod_cases5)
  show ?case using demo_costs.trans [OF add_task_span Cons.IH] by (simp add: d split_beta Let_def)
qed

text \<open>What the summary prints.\<close>

lemma demo_summary:
  assumes "demo_inv (app w)"
  shows "demo_main_summary (example_port clock) w = w\<lparr>printed := printed w @ [[], [control_runs (app w)],
    [isr_uart_generated (app w)], [uart_processed (app w)], [uart_empty_polls (app w)], [drops (uart_rx_ring (app w))],
    [isr_eth_generated (app w)], [eth_processed (app w)], [eth_empty_polls (app w)],
    [drops (ring (eth_event_queue (app w)))], [background_runs (app w)]]\<rparr>"
proof -
  have "ring_inv (uart_rx_ring (app w))" "ring_inv (ring (eth_event_queue (app w)))"
    using assms by (simp_all add: demo_inv_def event_inv_def typed_inv_def)
  then have "sch_ring_valid (Some (uart_rx_ring (app w)))" "sch_ring_valid (Some (ring (eth_event_queue (app w))))"
    by (simp_all add: ring_inv_valid)
  then show ?thesis
    by (simp add: demo_main_summary_def sch_spsc_ring_drop_count_def sch_event_queue_drop_count_def
        demo_print_def example_port_def Let_def)
qed

text \<open>
  C40. The example program ends. On a host whose clock never goes back and may stand still for any
  number of readings, but moves by at most ten seconds from one reading to the next and at last, at
  reading number \<open>N\<close>, shows that 120 ms have passed since the first, the main function leaves its loop
  after at most \<open>N\<close> looks at the clock in the loop's condition, whatever the tasks do meanwhile. It
  leaves with a reading at or after the 120 ms it is meant to run, and at most 391 steps of the clock
  after it: the 32-bit tick is never read so late that it has wrapped past the limit. The summary it
  then prints balances: of the bytes generated at most 8 are neither processed nor counted as
  dropped, and of the Ethernet events at most 6.
\<close>

theorem demo_main_ends:
  assumes "in_time answers d N" and "d \<le> 10000000" and "host_readings w = 0" and "sch_shape raw"
  shows "\<exists>w' lines control ug up ue ud eg ep ee ed bg.
    demo_main N cfg (host_clock answers) raw w = Some (True, w') \<and>
    printed w' = lines @ [[], [control], [ug], [up], [ue], [ud], [eg], [ep], [ee], [ed], [bg]] \<and>
    ug - up - ud \<le> 8 \<and> eg - ep - ed \<le> 6 \<and> start_us w' = timeval_us (answers 0) \<and>
    unat (start_us w') + 120000 \<le> unat (host_us w') \<and> unat (host_us w') \<le> unat (start_us w') + 120000 + 391 * d"
proof -
  obtain s0 w0 where set_up: "demo_main_setup cfg (host_clock answers) raw w = (s0, w0)" by (metis surj_pair)
  have state: "demo_state s0 w0" by (rule demo_setup(1) [OF host_clock_ok assms(4) set_up])
  obtain ids ds a where ds: "length ds = 5" "add_all cfg (example_port (host_clock answers)) ds (Some (empty_sch cfg raw))
      ((host_clock answers w)\<lparr>g_start_time := timeval_of (host_us (host_clock answers w)), app := a\<rparr>) = (ids, Some s0, w0)"
    using demo_setup(3) [OF host_clock_ok assms(4) set_up] by blast
  let ?w = "(host_clock answers w)\<lparr>g_start_time := timeval_of (host_us (host_clock answers w)), app := a\<rparr>"
  have "demo_span 5 ?w w0" using add_all_span [of ds ?w cfg answers "Some (empty_sch cfg raw)"] ds by simp
  then have w0: "start_us w0 = timeval_us (answers 0)" "1 \<le> host_readings w0" "host_readings w0 \<le> 6"
    using assms(3) by (simp_all add: demo_span_def host_clock_def)
  have "time_at answers (host_readings w0) \<le> time_at answers 0 + 6 * d"
    using in_time_mono [OF assms(1) w0(3)] in_time_steps [OF assms(1), of 0 6] by simp
  then have early: "time_at answers (host_readings w0) \<le> time_at answers 0 + 120000 + 391 * d" by simp
  have "N \<noteq> 0" using assms(1) by (auto simp: in_time_def intro: ccontr)
  then obtain n where N: "N = Suc n" by (cases N) simp_all
  have "N \<le> host_readings w0 + n" using w0(2) N by simp
  from demo_loop_ends [OF assms(1,2) state w0(1) early this, of cfg] obtain s' w' where
    loop: "demo_main_loop N cfg (host_clock answers) s0 w0 = Some (True, s', w')" "demo_state s' w'" "over_at answers d w'"
    unfolding N by blast
  let ?w' = "demo_main_summary (example_port (host_clock answers)) w'"
  have inv: "demo_inv (app w')" using loop(2) by (simp add: demo_state_def)
  have "demo_main N cfg (host_clock answers) raw w = Some (True, ?w')"
    using loop(1) by (simp add: demo_main_def set_up)
  moreover have "over_at answers d ?w'" using loop(3) by (auto simp: demo_summary [OF inv] over_at_def)
  ultimately show ?thesis
    using demo_books [OF inv] demo_summary [OF inv, of "host_clock answers"] unfolding over_at_def
    by (elim conjE, intro exI conjI) (assumption | simp)+
qed

text \<open>
  A clock that moves by a millisecond at every third reading only, and stops for good after a second.
\<close>

definition coarse_clock :: "nat \<Rightarrow> timeval" where
  "coarse_clock k = timeval_of (5000000 + 1000 * of_nat (min (k div 3) 1000))"

lemma coarse_clock_at: "time_at coarse_clock k = 5000000 + 1000 * min (k div 3) 1000"
proof -
  have "unat (5000000 + 1000 * of_nat (min (k div 3) 1000) :: 64 word) = 5000000 + 1000 * min (k div 3) 1000"
    by (simp add: unat_word_ariths unat_of_nat)
  then show ?thesis by (simp add: coarse_clock_def)
qed

lemma coarse_clock_in_time: "in_time coarse_clock 1000 360"
proof -
  have "k div 3 \<le> Suc k div 3 \<and> Suc k div 3 \<le> k div 3 + 1" for k :: nat by linarith
  then show ?thesis by (auto simp: in_time_def coarse_clock_at min_def)
qed

theorem demo_main_ends_witness:
  "\<exists>w' lines control ug up ue ud eg ep ee ed bg.
    demo_main 360 all_on (host_clock coarse_clock) demo_raw demo_start = Some (True, w') \<and>
    printed w' = lines @ [[], [control], [ug], [up], [ue], [ud], [eg], [ep], [ee], [ed], [bg]] \<and>
    ug - up - ud \<le> 8 \<and> eg - ep - ed \<le> 6 \<and>
    unat (start_us w') + 120000 \<le> unat (host_us w') \<and> unat (host_us w') \<le> unat (start_us w') + 511000"
proof -
  have "host_readings demo_start = 0" "sch_shape demo_raw" by (simp_all add: demo_start_def demo_raw_def sch_shape_def)
  from demo_main_ends [OF coarse_clock_in_time _ this, of all_on] show ?thesis
    by simp (elim exE conjE, intro exI conjI, (assumption | simp)+)
qed

end
