(* ===== verification/Passive_Tasks.thy ===== *)
theory Passive_Tasks
  imports Scheduler_Cadence
begin

text \<open>
  Applications whose tasks leave the scheduler alone, as those of both example programs do. The
  table of such an application is fixed once it is set up: a run changes the flags and the
  releases of the slots, never what they hold.
\<close>

definition leaves_table :: "('f, 'c, 'h, 'w) sch_env \<Rightarrow> bool" where
  "leaves_table env \<longleftrightarrow> (\<forall>f c s w s' w'. call_task env f c s w = Some (s', w') \<longrightarrow> s' = s)"

definition same_table :: "('f, 'c, 'h) sch \<Rightarrow> ('f, 'c, 'h) sch \<Rightarrow> bool" where
  "same_table s s' \<longleftrightarrow> length (tasks s') = length (tasks s) \<and>
     (\<forall>j<length (tasks s). same_slot (tasks s ! j) (tasks s' ! j))"

lemma same_table_refl [simp]: "same_table s s"
  by (simp add: same_table_def same_slot_def)

lemma same_table_trans: "same_table s t \<Longrightarrow> same_table t u \<Longrightarrow> same_table s u"
  by (simp add: same_table_def same_slot_def)

lemma same_table_core: "same_core s s' \<Longrightarrow> same_table s s'"
  by (simp add: same_table_def same_slot_def same_core_def)

lemma same_table_upd:
  "(\<And>t. same_slot t (g t)) \<Longrightarrow> same_table s (upd_task i g s)"
  by (auto simp: same_table_def upd_task_def nth_list_update_if same_slot_def)

lemma same_table_take: "same_table s (sch_take_task now i s)"
  unfolding take_task_eq by (rule same_table_upd) (simp add: same_slot_def)

lemma same_table_marked: "same_table s (marked now s)"
  by (simp add: same_table_def marked_def mark_task_def same_slot_def)

lemma same_table_cursor: "same_table s (s\<lparr>next_background_idx := i\<rparr>)"
  by (simp add: same_table_def same_slot_def)

lemma leaves_tableD: "leaves_table env \<Longrightarrow> call_task env f c s w = Some (s', w') \<Longrightarrow> s' = s"
  unfolding leaves_table_def by blast

lemma passive_call: "leaves_table env \<Longrightarrow> call_fn env f c s w = Some (s', w') \<Longrightarrow> s' = s"
  by (auto simp: call_fn_def leaves_tableD split: option.splits)

lemma passive_exec:
  assumes "leaves_table env" and "sch_exec_periodic cfg p env i f c period s w = Some (s', w')"
  shows "same_table s s'"
proof (cases f)
  case None
  then show ?thesis using assms(2) by (simp add: sch_exec_periodic_def call_fn_def Let_def split_beta)
next
  case (Some g)
  obtain s1 w1 where b: "exec_before cfg p env i s w = (s1, w1)" by (metis surj_pair)
  with assms(2) Some obtain s2 w2 where c: "call_task env g c s1 w1 = Some (s2, w2)"
    and a: "exec_after cfg p env i period s2 w2 = (s', w')"
    by (auto simp: exec_periodic_split split: option.splits)
  have "same_core s s1" "same_core s2 s'" "s2 = s1"
    using exec_before_core [of s cfg p env i w] exec_after_core [of s2 cfg p env i period w2] a b
      leaves_tableD [OF assms(1) c] by simp_all
  then show ?thesis using same_table_trans same_table_core by metis
qed

lemma passive_dispatch:
  "leaves_table env \<Longrightarrow> dispatch_all cfg p env now is s w = Some (s', w') \<Longrightarrow> same_table s s'"
proof (induction "is" arbitrary: s w)
  case (Cons i "is")
  then obtain s1 w1 where d: "dispatch_slot cfg p env now i s w = Some (s1, w1)"
    and r: "dispatch_all cfg p env now is s1 w1 = Some (s', w')" by (auto simp: bind_eq_Some_conv)
  have "same_table s s1"
    using same_table_trans [OF same_table_take passive_exec [OF Cons.prems(1) d [unfolded dispatch_slot_def]]] .
  with Cons.IH [OF Cons.prems(1) r] show ?case using same_table_trans by blast
qed simp

lemma passive_background:
  assumes "leaves_table env" and "sch_wf s" and "sch_run_background cfg p env s w = Some (s', w')"
  shows "same_table s s'"
proof (cases "background_ring s")
  case Nil
  then show ?thesis using assms(2,3) by (auto simp: run_background_eq)
next
  case (Cons i "is")
  let ?s = "s\<lparr>next_background_idx := background_cursor i\<rparr>"
  obtain s1 w1 where b: "background_before cfg p env i ?s (crit p w) = (s1, w1)" by (metis surj_pair)
  from assms(2,3) Cons b obtain s2 w2 where
    c: "call_fn env (fn (tasks s ! i)) (ctx (tasks s ! i)) s1 w1 = Some (s2, w2)" and
    a: "background_after cfg p env i s2 w2 = (s', w')"
    by (auto simp: run_background_eq background_slot_def split: option.splits)
  have "same_core ?s s1" "same_core s2 s'" "s2 = s1"
    using background_before_core [of ?s cfg p env i "crit p w"] background_after_core [of s2 cfg p env i w2] a b
      passive_call [OF assms(1) c] by auto
  then show ?thesis using same_table_trans same_table_core same_table_cursor by metis
qed

text \<open>A run, with the middle state in which the background task is chosen.\<close>

context task_contract
begin

lemma passive_run:
  assumes "leaves_table env" and "sch_wf s" and "sch_quiet s" and "ok w" and "crit_now p w = (now, w1)"
  shows "\<exists>s2 w2 s3 w3.
    dispatch_all cfg p env now (dispatch_order (marked now s)) (marked now s) w1 = Some (s2, w2) \<and>
    sch_run cfg p env (Some s) w = Some (Some s3, w3) \<and> same_table s s2 \<and> same_table s s3 \<and>
    sch_wf s3 \<and> sch_quiet s3 \<and> ok w3"
proof -
  let ?order = "dispatch_order (marked now s)"
  from run_phases [OF assms(2-5)] obtain s2 w2 s3 w3 where r:
    "dispatch_all cfg p env now ?order (marked now s) w1 = Some (s2, w2)"
    "sch_run_background cfg p env s2 (if length ?order < SCH_MAX_TASKS then crit p w2 else w2) = Some (s3, w3)"
    "sch_run cfg p env (Some s) w = Some (Some s3, w3)" "sch_wf s2" "sch_wf s3" "sch_quiet s3" "ok w3" by metis
  have "same_table s s2" using same_table_trans [OF same_table_marked passive_dispatch [OF assms(1) r(1)]] .
  moreover from this have "same_table s s3" using same_table_trans passive_background [OF assms(1) r(4,2)] by blast
  ultimately show ?thesis using r by blast
qed

end

end
