(* ===== verification/Main_Example.thy ===== *)
theory Main_Example
  imports Scheduler_Register Scheduler_Log Passive_Tasks
begin

text \<open>
  \<^verbatim>\<open>examples/main_example.c\<close>: the minimal integration, two periodic tasks that print a line. Its
  main loop never ends; here it is any number of its rounds. What the host's \<^verbatim>\<open>gettimeofday\<close>
  answers is any sequence of readings and failures. The lines the program prints are shown to be
  those that the release grids of its two tasks ask for.
\<close>

section \<open>The platform\<close>

text \<open>\<open>host_clock k\<close> is the answer to call number \<open>k\<close> of \<^verbatim>\<open>gettimeofday\<close>, and none where that fails.\<close>

record main_host =
  g_time_us :: u32
  g_start_time :: timeval
  host_clock :: "nat \<Rightarrow> timeval option"
  host_calls :: nat
  main_printed :: "string list"

definition get_now_us :: "main_host \<Rightarrow> 64 word \<times> main_host" where
  "get_now_us w =
     (let tv = host_clock w (host_calls w);
          w = w\<lparr>host_calls := Suc (host_calls w)\<rparr>
      in case tv of None \<Rightarrow> (0, w) | Some tv \<Rightarrow> (timeval_us tv, w))"

definition sch_port_now_ticks_main :: "main_host \<Rightarrow> u32 \<times> main_host" where
  "sch_port_now_ticks_main w =
     (let (now_us, w) = get_now_us w;
          start_us = timeval_us (g_start_time w);
          w = (if now_us < start_us then w\<lparr>g_time_us := 0\<rparr>
               else w\<lparr>g_time_us := ucast (now_us - start_us)\<rparr>)
      in (g_time_us w, w))"

definition main_port :: "main_host port" where
  "main_port = \<lparr>sch_port_now_ticks = sch_port_now_ticks_main, sch_port_enter_critical = (\<lambda>w. (0, w)),
     sch_port_exit_critical = (\<lambda>state w. w), sch_port_idle = (\<lambda>w. w)\<rparr>"

section \<open>The tasks and the main function\<close>

datatype main_fn = MAIN_CONTROL_TASK | MAIN_DIAGNOSTICS_TASK

text \<open>A printed line, with the line feed and the carriage return at its end.\<close>

definition main_line :: "string \<Rightarrow> string" where
  "main_line txt = txt @ [CHR 0x0A, CHR 0x0D]"

definition main_control_task :: "main_host \<Rightarrow> main_host" where
  "main_control_task w = w\<lparr>main_printed := main_printed w @ [main_line ''I am in control task'']\<rparr>"

definition main_diagnostics_task :: "main_host \<Rightarrow> main_host" where
  "main_diagnostics_task w = w\<lparr>main_printed := main_printed w @ [main_line ''I am in diagnostics task'']\<rparr>"

definition main_env :: "(main_fn, unit, unit, main_host) sch_env" where
  "main_env =
     \<lparr>call_task = (\<lambda>f c s w. case f of
         MAIN_CONTROL_TASK \<Rightarrow> Some (s, main_control_task w)
       | MAIN_DIAGNOSTICS_TASK \<Rightarrow> Some (s, main_diagnostics_task w)),
      call_hook = (\<lambda>h e i t c w. w)\<rparr>"

definition main_setup ::
  "sch_config \<Rightarrow> (main_fn, unit, unit) sch \<Rightarrow> main_host \<Rightarrow>
   (main_fn, unit, unit) sch \<times> main_host" where
  "main_setup cfg raw w =
     (let p = main_port;
          (start_time_us, w) = get_now_us w;
          w = w\<lparr>g_start_time := \<lparr>tv_sec = start_time_us div 1000000, tv_usec = start_time_us mod 1000000\<rparr>\<rparr>;
          (s, w) = sch_init cfg p (Some raw) w;
          (r, s, w) = sch_add_task cfg p s (Some MAIN_CONTROL_TASK) None 1000000 1000 0 w;
          (r, s, w) = sch_add_task cfg p s (Some MAIN_DIAGNOSTICS_TASK) None 2000000 0 20 w
      in (the s, w))"

fun main_rounds ::
  "nat \<Rightarrow> sch_config \<Rightarrow> (main_fn, unit, unit) sch \<Rightarrow> main_host \<Rightarrow>
   ((main_fn, unit, unit) sch \<times> main_host) option" where
  "main_rounds 0 cfg s w = Some (s, w)"
| "main_rounds (Suc n) cfg s w = do {
     (s, w) \<leftarrow> sch_run cfg main_port main_env (Some s) w;
     main_rounds n cfg (the s) w
   }"

section \<open>What the program prints\<close>

fun main_message :: "main_fn \<Rightarrow> string list" where
  "main_message MAIN_CONTROL_TASK = [main_line ''I am in control task'']"
| "main_message MAIN_DIAGNOSTICS_TASK = [main_line ''I am in diagnostics task'']"

lemma silent_now: "main_printed (snd (sch_port_now_ticks main_port w)) = main_printed w"
  by (simp add: main_port_def sch_port_now_ticks_main_def get_now_us_def Let_def split_beta
      split: option.split)

lemma main_call:
  "call_task main_env f c s w = Some (s', w') \<longleftrightarrow> s' = s \<and> w' = w\<lparr>main_printed := main_printed w @ main_message f\<rparr>"
  by (cases f) (auto simp: main_env_def main_control_task_def main_diagnostics_task_def)

interpretation main_app: task_contract main_port main_env "\<lambda>w. True"
  by unfold_locales (auto simp: main_call frame_refl)

lemma main_leaves_table: "leaves_table main_env"
  by (simp add: leaves_table_def main_call)

interpretation main_log: logged_run main_port main_env "\<lambda>w. True" main_printed main_message
  by unfold_locales (simp_all add: silent_now main_call, simp_all add: main_port_def main_env_def)

text \<open>The table of the program.\<close>

definition main_table :: "(main_fn, unit, unit) sch \<Rightarrow> bool" where
  "main_table s \<longleftrightarrow> packed 2 s \<and>
     same_slot (new_task (Some MAIN_CONTROL_TASK) None 1000000 0 0) (tasks s ! 0) \<and>
     same_slot (new_task (Some MAIN_DIAGNOSTICS_TASK) None 2000000 0 20) (tasks s ! 1)"

lemma main_table_keeps:
  assumes "main_table s" and "same_table s s'" and "sch_wf s'" and "sch_quiet s'"
  shows "main_table s'"
proof -
  have "length (tasks s) = SCH_MAX_TASKS" "SCH_MAX_TASKS = 64"
    using assms(1) by (simp_all add: main_table_def packed_def wf_lengths SCH_MAX_TASKS_def)
  then have "same_slot (tasks s ! j) (tasks s' ! j)" if "j < SCH_MAX_TASKS" for j
    using that assms(2) by (simp add: same_table_def)
  from this this [of 0] this [of 1] show ?thesis
    using assms by (simp add: main_table_def packed_def same_slot_def SCH_MAX_TASKS_def)
qed

lemma main_no_background:
  assumes "main_table s" and "same_table s s'"
  shows "background_ring s' = []"
proof -
  have len: "length (tasks s) = SCH_MAX_TASKS" using assms(1) by (simp add: main_table_def packed_def wf_lengths)
  have "\<not> is_background (tasks s' ! j)" if j: "j < SCH_MAX_TASKS" for j
  proof -
    have "same_slot (tasks s ! j) (tasks s' ! j)" using j assms(2) len by (simp add: same_table_def)
    moreover have "in_use (tasks s ! j) \<Longrightarrow> j = 0 \<or> j = 1" using j assms(1) by (auto simp: main_table_def packed_def)
    ultimately show ?thesis using assms(1) by (auto simp: is_background_def same_slot_def main_table_def new_task_def)
  qed
  then have "set (background_ring s') = {}" using set_background_ring [of s'] by auto
  then show ?thesis by simp
qed

lemma main_order:
  assumes "main_table s"
  shows "dispatch_order (marked now s) = filter (\<lambda>i. is_due now (tasks s ! i)) [0, 1]"
proof -
  let ?m = "marked now s"
  have wf: "sch_wf s" "sch_quiet s" using assms by (simp_all add: main_table_def packed_def)
  let ?due = "\<lambda>i. is_due now (tasks s ! i)"
  have two: "SCH_MAX_TASKS = 2 + 62" by (simp add: SCH_MAX_TASKS_def)
  have none: "filter ?due [2..<SCH_MAX_TASKS] = []"
    using assms by (auto simp: filter_empty_conv main_table_def packed_def is_due_def)
  have "ready_slots ?m = filter ?due [0..<SCH_MAX_TASKS]"
    unfolding ready_slots_def using ready_marked [OF wf] by (intro filter_cong) auto
  also have "[0..<SCH_MAX_TASKS] = [0..<2] @ [2..<SCH_MAX_TASKS]"
    unfolding two by (rule upt_add_eq_append) simp
  also have "filter ?due ([0..<2] @ [2..<SCH_MAX_TASKS]) = filter ?due [0, 1]"
    unfolding filter_append none by (simp add: upt_rec)
  finally have "ready_slots ?m = filter ?due [0, 1]" .
  moreover have "priority (tasks ?m ! 0) = 0" "priority (tasks ?m ! 1) = 20"
    using assms wf by (auto simp: main_table_def same_slot_def new_task_def marked_def mark_task_def wf_lengths SCH_MAX_TASKS_def)
  ultimately show ?thesis
    by (simp add: dispatch_order_def slot_key_def key_le_iff)
qed

text \<open>
  One round: it never fails, and prints the message of each task exactly when its release has
  been reached, the control task's first.
\<close>

lemma main_round:
  assumes "main_table s" and "crit_now main_port w = (now, w1)"
  shows "\<exists>s' w'. sch_run cfg main_port main_env (Some s) w = Some (Some s', w') \<and> main_table s' \<and>
    main_printed w' = main_printed w @
      (if is_due now (tasks s ! 0) then [main_line ''I am in control task''] else []) @
      (if is_due now (tasks s ! 1) then [main_line ''I am in diagnostics task''] else [])"
proof -
  have wf: "sch_wf s" "sch_quiet s" using assms(1) by (simp_all add: main_table_def packed_def)
  obtain s2 w2 s3 w3 where r:
    "dispatch_all cfg main_port main_env now (dispatch_order (marked now s)) (marked now s) w1 = Some (s2, w2)"
    "sch_run cfg main_port main_env (Some s) w = Some (Some s3, w3)"
    "same_table s s2" "same_table s s3" "sch_wf s3" "sch_quiet s3"
    using main_app.passive_run [OF main_leaves_table wf TrueI assms(2), of cfg] by blast
  have "main_printed w3 = main_printed w @ concat (map (slot_msg main_message s) (dispatch_order (marked now s)))"
    using main_log.run_log [OF wf TrueI assms(2), of cfg] r(1,2)
      main_no_background [OF assms(1) r(3)] by auto
  moreover have "slot_msg main_message s 0 = [main_line ''I am in control task'']"
    "slot_msg main_message s 1 = [main_line ''I am in diagnostics task'']"
    using assms(1) by (simp_all add: slot_msg_def main_table_def same_slot_def new_task_def)
  ultimately show ?thesis
    using r(2) main_table_keeps [OF assms(1) r(4-6)] by (auto simp: main_order [OF assms(1)])
qed

lemma main_setup_table:
  assumes "sch_shape raw" and "main_setup cfg raw w = (s, w')"
  shows "main_table s"
proof -
  note p0 = packed_init [OF assms(1), of cfg]
  have p1: "packed 1 (add_at cfg 0 (new_task (Some f) c period r prio) (empty_sch cfg raw))" for f c period r prio
    using packed_add_at [OF p0] by (simp add: SCH_MAX_TASKS_def)
  obtain r1 r2 where s: "s = add_at cfg 1 (new_task (Some MAIN_DIAGNOSTICS_TASK) None 2000000 r2 20)
      (add_at cfg 0 (new_task (Some MAIN_CONTROL_TASK) None 1000000 r1 0) (empty_sch cfg raw))"
    using assms(2) by (auto simp: main_setup_def Let_def split_beta init_eq [OF assms(1)] packed_add [OF p0]
        packed_add [OF p1] SCH_MAX_TASKS_def)
  have "packed (Suc 1) s" unfolding s by (rule packed_add_at [OF p1]) (simp add: SCH_MAX_TASKS_def)
  then show ?thesis
    by (auto simp: main_table_def s same_slot_def new_task_def add_at_def empty_sch_def SCH_MAX_TASKS_def numeral_2_eq_2)
qed

end
