(* ===== verification/Main_Output.thy ===== *)
theory Main_Output
  imports Main_Example Scheduler_Work
begin

text \<open>
  The whole output of the minimal example. While the host's clock answers, does not go back and
  is read often enough, the lines printed by any number of rounds are those that the release
  grids of the two tasks ask for, however often the 32-bit tick wraps around.
\<close>

section \<open>A host clock that works\<close>

text \<open>
  The first \<open>K\<close> answers: the clock stands at \<open>start\<close> when the program reads it first, and
  \<open>el k\<close> microseconds later at call number \<open>k\<close>. Two consecutive answers are at most 2^27
  microseconds apart, some two minutes.
\<close>

definition clock_works :: "nat \<Rightarrow> nat \<Rightarrow> (nat \<Rightarrow> nat) \<Rightarrow> (nat \<Rightarrow> timeval option) \<Rightarrow> bool" where
  "clock_works K start el clock \<longleftrightarrow>
     (\<forall>k\<le>K. map_option timeval_us (clock k) = Some (of_nat (start + el k)) \<and> start + el k < 2 ^ 64) \<and>
     el 0 = 0 \<and> (\<forall>k<K. el k \<le> el (Suc k) \<and> el (Suc k) \<le> el k + 2 ^ 27)"

lemma clock_steps:
  assumes "clock_works K start el clock" and "k + n \<le> K"
  shows "el k \<le> el (k + n) \<and> el (k + n) \<le> el k + n * 2 ^ 27"
  using assms(2)
proof (induction n)
  case (Suc n)
  have "el (k + n) \<le> el (Suc (k + n)) \<and> el (Suc (k + n)) \<le> el (k + n) + 2 ^ 27"
    using assms(1) Suc.prems unfolding clock_works_def by simp
  then show ?case using Suc by simp
qed simp

text \<open>A platform on which the program runs that was started at \<open>start\<close>, and has read the clock \<open>k\<close> times.\<close>

definition started :: "nat \<Rightarrow> (nat \<Rightarrow> timeval option) \<Rightarrow> nat \<Rightarrow> main_host \<Rightarrow> bool" where
  "started start clock k w \<longleftrightarrow> timeval_us (g_start_time w) = of_nat start \<and> host_clock w = clock \<and> host_calls w = k"

lemma started_now:
  assumes "started start clock k w" and "clock_works K start el clock" and "k \<le> K"
  shows "crit_now main_port w = (of_nat (el k), snd (crit_now main_port w))"
    and "started start clock (Suc k) (snd (crit_now main_port w))"
    and "main_printed (snd (crit_now main_port w)) = main_printed w"
proof -
  obtain tv where tv: "clock k = Some tv" "timeval_us tv = of_nat (start + el k)" and b: "start + el k < 2 ^ 64"
    using assms(2,3) by (auto simp: clock_works_def)
  have us: "unat (of_nat (start + el k) :: 64 word) = start + el k" "unat (of_nat start :: 64 word) = start"
    using b by (simp_all add: unat_of_nat take_bit_nat_eq_self del: of_nat_add)
  then have le: "\<not> (of_nat (start + el k) :: 64 word) < of_nat start"
    by (simp add: word_less_nat_alt del: of_nat_add)
  have diff: "(of_nat (start + el k) :: 64 word) - of_nat start = of_nat (el k)" by simp
  have cast: "ucast (of_nat (el k) :: 64 word) = (of_nat (el k) :: u32)"
    using b by (simp add: unsigned_of_nat take_bit_nat_eq_self)
  show "crit_now main_port w = (of_nat (el k), snd (crit_now main_port w))"
    and "started start clock (Suc k) (snd (crit_now main_port w))"
    and "main_printed (snd (crit_now main_port w)) = main_printed w"
    using assms(1) tv le diff cast
    by (simp_all add: crit_now_def main_port_def sch_port_now_ticks_main_def get_now_us_def started_def
        Let_def del: of_nat_add)
qed

text \<open>The set-up reads the clock three times; the first releases are relative to the last two.\<close>

lemma main_setup_starts:
  assumes "sch_shape raw" and "main_setup cfg raw w = (s, w0)" and "host_calls w = 0"
    and "clock_works K start el (host_clock w)" and "2 \<le> K"
  shows "started start (host_clock w) 3 w0 \<and> main_printed w0 = main_printed w \<and> main_table s \<and>
    next_release (tasks s ! 0) = of_nat (el 1 + 1000) \<and> next_release (tasks s ! 1) = of_nat (el 2)"
proof -
  let ?clock = "host_clock w"
  let ?w1 = "(snd (get_now_us w))\<lparr>g_start_time := \<lparr>tv_sec = fst (get_now_us w) div 1000000,
    tv_usec = fst (get_now_us w) mod 1000000\<rparr>\<rparr>"
  obtain tv where "?clock 0 = Some tv" "timeval_us tv = of_nat start"
    using assms(4) by (auto simp: clock_works_def dest: spec [of _ 0])
  then have w1: "started start ?clock 1 ?w1" "main_printed ?w1 = main_printed w"
    using assms(3) by (simp_all add: get_now_us_def started_def timeval_us_def div_mult_mod_eq)
  let ?r2 = "crit_now main_port ?w1"
  let ?r3 = "crit_now main_port (snd ?r2)"
  have K: "1 \<le> K" using assms(5) by simp
  note r2 = started_now [OF w1(1) assms(4) K]
  have "started start ?clock 2 (snd ?r2)" using r2(2) by (simp add: numeral_2_eq_2)
  note r3 = started_now [OF this assms(4,5)]
  note p0 = packed_init [OF assms(1), of cfg]
  have p1: "packed 1 (add_at cfg 0 (new_task (Some f) c period r prio) (empty_sch cfg raw))" for f c period r prio
    using packed_add_at [OF p0] by (simp add: SCH_MAX_TASKS_def)
  have crit: "crit main_port v = v" for v by (simp add: crit_def main_port_def)
  have "s = add_at cfg 1 (new_task (Some MAIN_DIAGNOSTICS_TASK) None 2000000 (fst ?r3) 20)
      (add_at cfg 0 (new_task (Some MAIN_CONTROL_TASK) None 1000000 (fst ?r2 + 1000) 0) (empty_sch cfg raw))"
    and "w0 = snd ?r3"
    using assms(2) by (auto simp: main_setup_def Let_def split_beta init_eq [OF assms(1)] packed_add [OF p0]
        packed_add [OF p1] crit SCH_MAX_TASKS_def)
  moreover have "fst ?r2 = of_nat (el 1)" "fst ?r3 = of_nat (el 2)"
    using arg_cong [OF r2(1), of fst] arg_cong [OF r3(1), of fst] by simp_all
  ultimately show ?thesis
    using main_setup_table [OF assms(1,2)] r2(3) r3(2,3) w1(2)
    by (simp add: new_task_def add_at_def empty_sch_def SCH_MAX_TASKS_def numeral_3_eq_3 numeral_2_eq_2)
qed

section \<open>One round\<close>

definition reads_between :: "nat \<Rightarrow> main_host \<Rightarrow> main_host \<Rightarrow> bool" where
  "reads_between n w w' \<longleftrightarrow> g_start_time w' = g_start_time w \<and> host_clock w' = host_clock w \<and>
     host_calls w \<le> host_calls w' \<and> host_calls w' \<le> host_calls w + n"

interpretation main_costs: run_costs main_port main_env reads_between 0
  by unfold_locales
    (auto simp: reads_between_def main_port_def sch_port_now_ticks_main_def get_now_us_def main_env_def
      main_control_task_def main_diagnostics_task_def Let_def split_beta split: option.splits main_fn.splits)

lemma main_round_readings:
  assumes "main_table s" and "started start clock k w" and "clock_works K start el clock" and "k \<le> K"
    and "sch_run cfg main_port main_env (Some s) w = Some (s', w')"
  shows "\<exists>k'. started start clock k' w' \<and> k < k' \<and> k' \<le> k + 15"
proof -
  note now = started_now [OF assms(2-4)]
  let ?now = "of_nat (el k) :: u32" and ?w1 = "snd (crit_now main_port w)" and ?ic = "instrument_cost cfg"
  let ?order = "dispatch_order (marked ?now s)"
  have wf: "sch_wf s" "sch_quiet s" using assms(1) by (simp_all add: main_table_def packed_def)
  obtain s2 w2 s3 w3 where
    r: "dispatch_all cfg main_port main_env ?now ?order (marked ?now s) ?w1 = Some (s2, w2)"
      "sch_run_background cfg main_port main_env s2 (if length ?order < SCH_MAX_TASKS then crit main_port w2 else w2)
       = Some (s3, w3)"
      "sch_run cfg main_port main_env (Some s) w = Some (Some s3, w3)"
    by (rule main_app.run_phases [OF wf TrueI now(1), where cfg = cfg])
  have "crit main_port w2 = w2" by (simp add: crit_def main_port_def)
  then have "reads_between (?ic + 0) w2 w3" using main_costs.run_background_cost [OF r(2)]
    by (cases "length ?order < SCH_MAX_TASKS") simp_all
  then have "reads_between (length ?order * (?ic + 1 + 0) + (?ic + 0)) ?w1 w'"
    using main_costs.trans [OF main_costs.dispatch_all_cost [OF r(1)]] r(3) assms(5) by simp
  moreover have "length ?order * (?ic + 1 + 0) \<le> 2 * 5"
    by (rule mult_le_mono) (simp_all add: main_order [OF assms(1)] instrument_cost_def)
  moreover have "?ic \<le> 4" by (simp add: instrument_cost_def)
  ultimately show ?thesis using now(2) by (auto simp: reads_between_def started_def)
qed

text \<open>What a sequence of rounds prints, from the dispatches of its two tasks.\<close>

fun main_output :: "bool list \<Rightarrow> bool list \<Rightarrow> string list" where
  "main_output (c # cs) (d # ds) =
     (if c then [main_line ''I am in control task''] else []) @
     (if d then [main_line ''I am in diagnostics task''] else []) @ main_output cs ds"
| "main_output _ _ = []"

text \<open>
  The tasks between two rounds: each is on its grid, and was touched last (registered or polled)
  at a time less than half the tick range before the next reading.
\<close>

definition on_grids ::
  "(nat \<Rightarrow> nat) \<Rightarrow> nat \<Rightarrow> nat \<Rightarrow> nat \<Rightarrow> (main_fn, unit, unit) sch \<Rightarrow> bool" where
  "on_grids el k lo lo' s \<longleftrightarrow>
     (\<exists>T. tracks (el 1 + 1000) 1000000 T lo (tasks s ! 0) \<and> T \<le> el k \<and> el k < T + 2 ^ 31) \<and>
     (\<exists>T. tracks (el 2) 2000000 T lo' (tasks s ! 1) \<and> T \<le> el k \<and> el k < T + 2 ^ 31)"

lemma main_round_step:
  assumes "main_table s" and "started start clock k w" and "clock_works K start el clock" and "k + 15 \<le> K"
    and "on_grids el k lo lo' s"
  shows "\<exists>s' w' k'. sch_run cfg main_port main_env (Some s) w = Some (Some s', w') \<and> main_table s' \<and>
    started start clock k' w' \<and> k < k' \<and> k' \<le> k + 15 \<and> on_grids el k' (el k + 1) (el k + 1) s' \<and>
    main_printed w' = main_printed w @ main_output
      [released_within (el 1 + 1000) 1000000 lo (el k)] [released_within (el 2) 2000000 lo' (el k)]"
proof -
  obtain T T' where t: "tracks (el 1 + 1000) 1000000 T lo (tasks s ! 0)" "T \<le> el k" "el k < T + 2 ^ 31"
    and t': "tracks (el 2) 2000000 T' lo' (tasks s ! 1)" "T' \<le> el k" "el k < T' + 2 ^ 31"
    using assms(5) by (auto simp: on_grids_def)
  have "k \<le> K" using assms(4) by simp
  note now = started_now(1) [OF assms(2,3) \<open>k \<le> K\<close>]
  have wf: "sch_wf s" "sch_quiet s" using assms(1) by (simp_all add: main_table_def packed_def)
  obtain s' w' where r: "sch_run cfg main_port main_env (Some s) w = Some (Some s', w')" "main_table s'"
    and out: "main_printed w' = main_printed w @
      (if is_due (of_nat (el k)) (tasks s ! 0) then [main_line ''I am in control task''] else []) @
      (if is_due (of_nat (el k)) (tasks s ! 1) then [main_line ''I am in diagnostics task''] else [])"
    using main_round [OF assms(1) now, of cfg] by blast
  obtain k' where k': "started start clock k' w'" "k < k'" "k' \<le> k + 15"
    using main_round_readings [OF assms(1-3) \<open>k \<le> K\<close> r(1)] by blast
  have moved: "tasks s' ! j = run_task (of_nat (el k)) (tasks s ! j)" if "j = 0 \<or> j = 1" for j
  proof -
    have "j < SCH_MAX_TASKS" "in_use (tasks s ! j)"
      using that t(1) t'(1) by (auto simp: tracks_def SCH_MAX_TASKS_def)
    then show ?thesis using main_app.run_step [OF wf TrueI, of cfg w] r(1) now by (metis fst_conv option.inject prod.inject)
  qed
  note poll = tracks_poll [OF t(1) _ _ t(2,3)] and poll' = tracks_poll [OF t'(1) _ _ t'(2,3)]
  have "el k \<le> el k' \<and> el k' \<le> el k + (k' - k) * 2 ^ 27"
    using clock_steps [OF assms(3), of k "k' - k"] assms(4) k'(2,3) by simp
  moreover have "(k' - k) * 2 ^ 27 \<le> 15 * 2 ^ 27" using k'(3) by (intro mult_le_mono1) simp
  ultimately have "el k \<le> el k'" "el k' < el k + 2 ^ 31" by simp_all
  then have "on_grids el k' (el k + 1) (el k + 1) s'"
    using poll(2) poll'(2) moved [of 0] moved [of 1] unfolding on_grids_def by auto
  then show ?thesis using r k' out poll(1) poll'(1) by auto
qed

section \<open>Any number of rounds\<close>

text \<open>
  The numbers of the readings at which the rounds poll the clock, and how far apart they may be: a
  round makes at least one reading and at most fifteen.
\<close>

fun main_polls :: "nat \<Rightarrow> sch_config \<Rightarrow> (main_fn, unit, unit) sch \<Rightarrow> main_host \<Rightarrow> nat list" where
  "main_polls 0 cfg s w = []"
| "main_polls (Suc n) cfg s w = host_calls w #
     (case sch_run cfg main_port main_env (Some s) w of
        Some (Some s, w) \<Rightarrow> main_polls n cfg s w
      | _ \<Rightarrow> [])"

definition few_readings :: "nat list \<Rightarrow> bool" where
  "few_readings ks \<longleftrightarrow> successively (\<lambda>k k'. k < k' \<and> k' \<le> k + 15) ks"

lemma few_readings_Cons: "few_readings (k # k' # ks) \<longleftrightarrow> k < k' \<and> k' \<le> k + 15 \<and> few_readings (k' # ks)"
  by (simp add: few_readings_def)

lemma main_rounds_step:
  assumes "main_table s" and "started start clock k w" and "clock_works K start el clock" and "k + 15 * n \<le> K"
    and "on_grids el k lo lo' s"
  shows "\<exists>s' w' ks. main_rounds n cfg s w = Some (s', w') \<and> ks = main_polls n cfg s w \<and> length ks = n \<and>
    hd (ks @ [host_calls w']) = k \<and> few_readings (ks @ [host_calls w']) \<and> host_calls w' \<le> k + 15 * n \<and>
    main_printed w' = main_printed w @ main_output
      (expected_releases (el 1 + 1000) 1000000 lo (map el ks)) (expected_releases (el 2) 2000000 lo' (map el ks))"
  using assms
proof (induction n arbitrary: s w k lo lo')
  case 0
  then show ?case by (simp add: started_def few_readings_def)
next
  case (Suc n)
  have "k + 15 \<le> K" using Suc.prems(4) by simp
  from main_round_step [OF Suc.prems(1-3) this Suc.prems(5), of cfg] obtain s1 w1 k1 where
    r: "sch_run cfg main_port main_env (Some s) w = Some (Some s1, w1)" "main_table s1" "started start clock k1 w1"
      "k < k1" "k1 \<le> k + 15" "on_grids el k1 (el k + 1) (el k + 1) s1"
    and out: "main_printed w1 = main_printed w @ main_output
      [released_within (el 1 + 1000) 1000000 lo (el k)] [released_within (el 2) 2000000 lo' (el k)]" by blast
  have "k1 + 15 * n \<le> K" using r(5) Suc.prems(4) by simp
  from Suc.IH [OF r(2,3) Suc.prems(3) this r(6)] obtain s' w' ks where
    ih: "main_rounds n cfg s1 w1 = Some (s', w')" "ks = main_polls n cfg s1 w1" "length ks = n"
      "hd (ks @ [host_calls w']) = k1" "few_readings (ks @ [host_calls w'])" "host_calls w' \<le> k1 + 15 * n"
      "main_printed w' = main_printed w1 @ main_output
        (expected_releases (el 1 + 1000) 1000000 (el k + 1) (map el ks))
        (expected_releases (el 2) 2000000 (el k + 1) (map el ks))" by blast
  have k: "host_calls w = k" using Suc.prems(2) by (simp add: started_def)
  have "few_readings (k # ks @ [host_calls w'])"
    using ih(4,5) r(4,5) few_readings_Cons [of k k1] by (cases ks) (auto simp: few_readings_def)
  moreover have "main_polls (Suc n) cfg s w = k # ks" using ih(2) r(1) k by simp
  moreover have "host_calls w' \<le> k + 15 * Suc n" using ih(6) r(5) by simp
  moreover have "main_rounds (Suc n) cfg s w = Some (s', w')" using ih(1) r(1) by simp
  moreover have "main_printed w' = main_printed w @ main_output
      (expected_releases (el 1 + 1000) 1000000 lo (map el (k # ks))) (expected_releases (el 2) 2000000 lo' (map el (k # ks)))"
    using ih(7) out by simp
  ultimately show ?case using ih(3) by (intro exI [of _ s'] exI [of _ w'] exI [of _ "k # ks"]) simp
qed

text \<open>The tasks just registered are on their grids.\<close>

lemma setup_on_grids:
  assumes "main_table s" and "clock_works K start el clock" and "3 \<le> K"
    and "next_release (tasks s ! 0) = of_nat (el 1 + 1000)" and "next_release (tasks s ! 1) = of_nat (el 2)"
  shows "on_grids el 3 (el 1) (el 2) s"
proof -
  have near: "el 1 \<le> el 3 \<and> el 3 \<le> el 1 + 2 * 2 ^ 27" "el 2 \<le> el 3 \<and> el 3 \<le> el 2 + 1 * 2 ^ 27"
    using clock_steps [OF assms(2), of 1 2] clock_steps [OF assms(2), of 2 1] assms(3)
    by (simp_all add: numeral_3_eq_3)
  have slots: "in_use (tasks s ! 0)" "enabled (tasks s ! 0)" "period_ticks (tasks s ! 0) = of_nat 1000000"
    "in_use (tasks s ! 1)" "enabled (tasks s ! 1)" "period_ticks (tasks s ! 1) = of_nat 2000000"
    using assms(1) by (simp_all add: main_table_def same_slot_def new_task_def)
  have "tracks (el 1 + 1000) 1000000 (el 1) (el 1) (tasks s ! 0)"
    by (rule tracks_start [OF slots(1-3) assms(4)]) simp_all
  moreover have "tracks (el 2 + 0) 2000000 (el 2) (el 2) (tasks s ! 1)"
    by (rule tracks_start [OF slots(4-6)]) (use assms(5) in simp_all)
  ultimately show ?thesis using near unfolding on_grids_def by (intro conjI exI [of _ "el 1"] exI [of _ "el 2"]) simp_all
qed

text \<open>
  C20. What the minimal example prints. Started from arbitrary memory on a host whose clock answers,
  never goes back and is read at intervals of at most some two minutes (2^27 microseconds), for as many
  readings as the program makes, the program goes through any number \<open>n\<close> of rounds of its endless loop
  without an undefined call. Each round polls the clock once at its start and reads it at most 15
  times, all rounds together at most \<open>15 n\<close> times after the three readings of the set-up; and the lines
  printed are exactly these: in each round the control line if a point of the grid "one millisecond
  after its registration, then every second" lies between the previous poll and this one, followed by
  the diagnostics line if a point of the grid "its registration, then every two seconds" does.
\<close>

theorem main_example_output:
  assumes "sch_shape raw" and "main_setup cfg raw w = (s, w0)" and "host_calls w = 0"
    and "clock_works (3 + 15 * n) start el (host_clock w)"
  shows "\<exists>s' w' ks. main_rounds n cfg s w0 = Some (s', w') \<and> ks = main_polls n cfg s w0 \<and> length ks = n \<and>
    hd (ks @ [host_calls w']) = 3 \<and> few_readings (ks @ [host_calls w']) \<and> host_calls w' \<le> 3 + 15 * n \<and>
    main_printed w' = main_printed w @ main_output
      (expected_releases (el 1 + 1000) 1000000 (el 1) (map el ks))
      (expected_releases (el 2) 2000000 (el 2) (map el ks))"
proof -
  have K: "2 \<le> 3 + 15 * n" "3 \<le> 3 + 15 * n" by simp_all
  from main_setup_starts [OF assms(1-4) K(1)] have
    b: "started start (host_clock w) 3 w0" "main_printed w0 = main_printed w" "main_table s"
      "next_release (tasks s ! 0) = of_nat (el 1 + 1000)" "next_release (tasks s ! 1) = of_nat (el 2)" by blast+
  from main_rounds_step [OF b(3,1) assms(4) order.refl setup_on_grids [OF b(3) assms(4) K(2) b(4,5)], of cfg]
  show ?thesis unfolding b(2) .
qed

text \<open>A host whose clock is read once a second, and a scheduler in memory that was never written.\<close>

definition main_start :: main_host where
  "main_start = \<lparr>g_time_us = 0, g_start_time = \<lparr>tv_sec = 0, tv_usec = 0\<rparr>,
     host_clock = (\<lambda>k. Some \<lparr>tv_sec = 1700000000 + of_nat k, tv_usec = 0\<rparr>),
     host_calls = 0, main_printed = []\<rparr>"

definition main_raw :: "(main_fn, unit, unit) sch" where
  "main_raw = \<lparr>tasks = replicate SCH_MAX_TASKS empty_task, task_count = 77, next_background_idx = 99,
     stats = replicate SCH_MAX_TASKS empty_stats, trace_hook = Some (), trace_user_ctx = None\<rparr>"

lemma main_start_works: "clock_works (3 + 15 * 4) 1700000000000000 (\<lambda>k. k * 1000000) (host_clock main_start)"
  by (simp add: clock_works_def main_start_def timeval_us_def algebra_simps)

theorem main_example_output_witness:
  "\<exists>s w0 s' w' ks. main_setup all_on main_raw main_start = (s, w0) \<and>
    main_rounds 4 all_on s w0 = Some (s', w') \<and> ks = main_polls 4 all_on s w0 \<and> length ks = 4 \<and>
    few_readings (ks @ [host_calls w']) \<and> host_calls w' \<le> 63 \<and>
    main_printed w' = main_output
      (expected_releases 1001000 1000000 1000000 (map (\<lambda>k. k * 1000000) ks))
      (expected_releases 2000000 2000000 2000000 (map (\<lambda>k. k * 1000000) ks))"
proof -
  obtain s w0 where s: "main_setup all_on main_raw main_start = (s, w0)" by (metis surj_pair)
  have "sch_shape main_raw" "host_calls main_start = 0" "main_printed main_start = []"
    by (simp_all add: sch_shape_def main_raw_def main_start_def)
  with main_example_output [OF _ s _ main_start_works] s show ?thesis by fastforce
qed

end
