(* ===== verification/Ring_Trace.thy ===== *)
theory Ring_Trace
  imports Typed_Ring
begin

text \<open>
  Sequences of calls to a ring or an event queue, in any order, against an abstract bounded queue:
  what every call returns is what the abstract queue returns. With it the tests of
  \<^verbatim>\<open>tests/unit/test_isr_buffer.c\<close> are evaluated on the model.
\<close>

section \<open>The abstract queue\<close>

datatype 'a queue_call = PUSH 'a | POP | SIZE | DROPS | EMPTY | FULL | RESET

datatype 'a queue_result = PUSHED sch_ring_push_status | POPPED bool 'a | NUMBER size_t | TRUTH bool | DONE

text \<open>
  The state is the list held and the drop counter; \<open>out\<close> is the variable that pops write. Only a
  pop of an empty queue leaves it alone.
\<close>

fun spec_call ::
  "nat \<Rightarrow> bool \<Rightarrow> 'a queue_call \<Rightarrow> 'a list \<Rightarrow> size_t \<Rightarrow> 'a \<Rightarrow> 'a queue_result \<times> 'a list \<times> size_t \<times> 'a" where
  "spec_call bound newest (PUSH x) xs d out =
     (if length xs < bound then (PUSHED SCH_RING_PUSH_OK, xs @ [x], d, out)
      else if newest then (PUSHED SCH_RING_PUSH_DROPPED_NEWEST, xs, d + 1, out)
      else (PUSHED SCH_RING_PUSH_DROPPED_OLDEST, tl xs @ [x], d + 1, out))"
| "spec_call bound newest POP [] d out = (POPPED False out, [], d, out)"
| "spec_call bound newest POP (x # xs) d out = (POPPED True x, xs, d, x)"
| "spec_call bound newest SIZE xs d out = (NUMBER (of_nat (length xs)), xs, d, out)"
| "spec_call bound newest DROPS xs d out = (NUMBER d, xs, d, out)"
| "spec_call bound newest EMPTY xs d out = (TRUTH (xs = []), xs, d, out)"
| "spec_call bound newest FULL xs d out = (TRUTH (length xs = bound), xs, d, out)"
| "spec_call bound newest RESET xs d out = (DONE, [], 0, out)"

fun spec_calls :: "nat \<Rightarrow> bool \<Rightarrow> 'a queue_call list \<Rightarrow> 'a list \<Rightarrow> size_t \<Rightarrow> 'a \<Rightarrow> 'a queue_result list" where
  "spec_calls bound newest [] xs d out = []"
| "spec_calls bound newest (c # cs) xs d out =
     (case spec_call bound newest c xs d out of (result, xs, d, out) \<Rightarrow>
       result # spec_calls bound newest cs xs d out)"

section \<open>Calls of the code\<close>

text \<open>One after the other, with the function \<open>call\<close> that makes one.\<close>

fun run_calls ::
  "('c \<Rightarrow> 'q \<Rightarrow> 'a \<Rightarrow> 'w \<Rightarrow> ('r \<times> 'a \<times> 'q \<times> 'w) option) \<Rightarrow> 'c list \<Rightarrow> 'q \<Rightarrow> 'a \<Rightarrow> 'w \<Rightarrow> ('r list \<times> 'w) option" where
  "run_calls call [] q out w = Some ([], w)"
| "run_calls call (c # cs) q out w = do {
     (result, out, q, w) \<leftarrow> call c q out w;
     (results, w) \<leftarrow> run_calls call cs q out w;
     Some (result # results, w)
   }"

locale traced_queue =
  fixes call :: "'a queue_call \<Rightarrow> 'q \<Rightarrow> 'a \<Rightarrow> 'w \<Rightarrow> ('a queue_result \<times> 'a \<times> 'q \<times> 'w) option"
    and offered :: "'a queue_call \<Rightarrow> bool"
    and section_effect :: "'w \<Rightarrow> 'w"
    and invar :: "'q \<Rightarrow> bool"
    and items :: "'q \<Rightarrow> 'a list"
    and dropped :: "'q \<Rightarrow> size_t"
    and bound :: "'q \<Rightarrow> nat"
    and newest :: "'q \<Rightarrow> bool"
  assumes call_refines: "invar q \<Longrightarrow> offered c \<Longrightarrow>
      spec_call (bound q) (newest q) c (items q) (dropped q) out = (result, xs, d, out') \<Longrightarrow>
      \<exists>q'. call c q out w = Some (result, out', q', section_effect w) \<and> invar q' \<and> items q' = xs \<and> dropped q' = d \<and>
        bound q' = bound q \<and> newest q' = newest q"
begin

lemma run_refines:
  "invar q \<Longrightarrow> list_all offered cs \<Longrightarrow>
     run_calls call cs q out w =
       Some (spec_calls (bound q) (newest q) cs (items q) (dropped q) out, (section_effect ^^ length cs) w)"
proof (induction cs arbitrary: q out w)
  case (Cons c cs)
  obtain result xs d out' where spec: "spec_call (bound q) (newest q) c (items q) (dropped q) out = (result, xs, d, out')"
    by (metis surj_pair)
  from call_refines [OF Cons.prems(1) _ this] Cons.prems(2) obtain q' where
    "call c q out w = Some (result, out', q', section_effect w)" "invar q'" "items q' = xs" "dropped q' = d"
    "bound q' = bound q" "newest q' = newest q" by auto
  then show ?case
    using Cons.IH [of q' out' "section_effect w"] Cons.prems(2) spec by (simp add: funpow_swap1)
qed simp

end

text \<open>The calls of a ring of objects.\<close>

fun ring_call ::
  "('a \<Rightarrow> u8 list) \<Rightarrow> (u8 list \<Rightarrow> 'a) \<Rightarrow> 'w port \<Rightarrow> 'a queue_call \<Rightarrow> sch_spsc_ring \<Rightarrow> 'a \<Rightarrow> 'w \<Rightarrow>
   ('a queue_result \<times> 'a \<times> sch_spsc_ring \<times> 'w) option" where
  "ring_call enc dec p (PUSH x) r out w =
     do { (status, r, w) \<leftarrow> ring_push enc p r x w; Some (PUSHED status, out, r, w) }"
| "ring_call enc dec p POP r out w =
     do { (ok, out, r, w) \<leftarrow> ring_pop enc dec p r out w; Some (POPPED ok out, out, r, w) }"
| "ring_call enc dec p SIZE r out w =
     (let (n, w) = sch_spsc_ring_size p (Some r) w in Some (NUMBER n, out, r, w))"
| "ring_call enc dec p DROPS r out w =
     (let (n, w) = sch_spsc_ring_drop_count p (Some r) w in Some (NUMBER n, out, r, w))"
| "ring_call enc dec p EMPTY r out w =
     (let (b, w) = sch_spsc_ring_is_empty p (Some r) w in Some (TRUTH b, out, r, w))"
| "ring_call enc dec p FULL r out w =
     (let (b, w) = sch_spsc_ring_is_full p (Some r) w in Some (TRUTH b, out, r, w))"
| "ring_call enc dec p RESET r out w =
     (let (r, w) = sch_spsc_ring_reset p (Some r) w in Some (DONE, out, the r, w))"

lemma ring_is_full_refines:
  "ring_inv r \<Longrightarrow> sch_spsc_ring_is_full p (Some r) w = (unat (count r) = ring_bound r, crit p w)"
  by (simp add: sch_spsc_ring_is_full_def ring_inv_valid crit_def split_beta Let_def ring_bound_def word_unat_eq_iff)

context object_repr
begin

lemma ring_call_refines:
  assumes "typed_inv es r"
    and "spec_call (ring_bound r) (ring_newest r) c (typed_items dec r) (drops r) out = (result, xs, d, out')"
  shows "\<exists>r'. ring_call enc dec p c r out w = Some (result, out', r', crit p w) \<and> typed_inv es r' \<and>
    typed_items dec r' = xs \<and> drops r' = d \<and> ring_bound r' = ring_bound r \<and> ring_newest r' = ring_newest r"
proof -
  have inv: "ring_inv r" using assms(1) by (simp add: typed_inv_def)
  have le: "length (typed_items dec r) \<le> ring_bound r" using typed_inv_bound [OF assms(1)] by simp
  show ?thesis
  proof (cases c)
    case (PUSH x)
    then show ?thesis
      using assms(2) enq_refines [OF assms(1), of x] le
      by (auto simp: push_refines [OF assms(1)] push_status_def bounded_push_def split: if_splits)
  next
    case POP
    show ?thesis
    proof (cases "typed_items dec r")
      case Nil
      then show ?thesis using assms unfolding POP Nil by (auto simp: pop_refines [OF assms(1)] Nil simp del: typed_items_empty_iff)
    next
      case (Cons y ys)
      then show ?thesis using assms(2) POP deq_refines [OF assms(1)] by (auto simp: pop_refines [OF assms(1)])
    qed
  next
    case RESET
    have "sch_spsc_ring_reset p (Some r) w = (Some (r\<lparr>head := 0, tail := 0, count := 0, drops := 0\<rparr>), crit p w)"
      using ring_inv_valid [OF inv] by (simp add: sch_spsc_ring_reset_def crit_def split_beta Let_def)
    then show ?thesis
      using assms RESET by (auto simp: typed_inv_def ring_inv_iff ring_bound_def ring_newest_def)
  qed (use assms in \<open>auto simp: ring_size_refines [OF inv] ring_drop_count_refines [OF inv]
      ring_is_empty_refines [OF inv] ring_is_full_refines [OF inv]\<close>)
qed

end

interpretation u16_trace: traced_queue "ring_call u16_bytes u16_of_bytes p" "\<lambda>c. True" "crit p"
  "typed_inv sizeof_u16" "typed_items u16_of_bytes" drops ring_bound ring_newest for p
  by unfold_locales (rule u16.ring_call_refines)

text \<open>The calls of an event queue; it offers no test for emptiness or fullness and no reset.\<close>

fun event_call ::
  "'w port \<Rightarrow> u16 queue_call \<Rightarrow> sch_event_queue \<Rightarrow> u16 \<Rightarrow> 'w \<Rightarrow>
   (u16 queue_result \<times> u16 \<times> sch_event_queue \<times> 'w) option" where
  "event_call p (PUSH x) q out w =
     do { (status, q, w) \<leftarrow> event_push p q x w; Some (PUSHED status, out, q, w) }"
| "event_call p POP q out w =
     do { (ok, out, q, w) \<leftarrow> event_pop p q out w; Some (POPPED ok out, out, q, w) }"
| "event_call p SIZE q out w =
     (let (n, w) = sch_event_queue_size p (Some q) w in Some (NUMBER n, out, q, w))"
| "event_call p DROPS q out w =
     (let (n, w) = sch_event_queue_drop_count p (Some q) w in Some (NUMBER n, out, q, w))"
| "event_call p c q out w = None"

fun event_offers :: "u16 queue_call \<Rightarrow> bool" where
  "event_offers EMPTY = False"
| "event_offers FULL = False"
| "event_offers RESET = False"
| "event_offers c = True"

lemma event_call_ring:
  "event_offers c \<Longrightarrow> event_call p c q out w =
     map_option (\<lambda>(result, out, r, w). (result, out, q\<lparr>ring := r\<rparr>, w))
       (ring_call u16_bytes u16_of_bytes p c (ring q) out w)"
  by (cases c)
    (auto simp: event_push_ring event_pop_ring sch_event_queue_size_def sch_event_queue_drop_count_def Let_def
      split_beta split: Option.bind_splits)

interpretation event_trace: traced_queue "event_call p" event_offers "crit p" event_inv event_items
  "\<lambda>q. drops (ring q)" "\<lambda>q. ring_bound (ring q)" "\<lambda>q. ring_newest (ring q)" for p
proof unfold_locales
  fix q c out result xs d out' w
  assume "event_inv q" and c: "event_offers c"
    and "spec_call (ring_bound (ring q)) (ring_newest (ring q)) c (event_items q) (drops (ring q)) out = (result, xs, d, out')"
  then obtain r where "ring_call u16_bytes u16_of_bytes p c (ring q) out w = Some (result, out', r, crit p w)"
    "typed_inv sizeof_u16 r" "typed_items u16_of_bytes r = xs" "drops r = d" "ring_bound r = ring_bound (ring q)"
    "ring_newest r = ring_newest (ring q)"
    using u16.ring_call_refines [of "ring q" c out result xs d out' p w] by (auto simp: event_inv_def event_items_def)
  then show "\<exists>q'. event_call p c q out w = Some (result, out', q', crit p w) \<and> event_inv q' \<and> event_items q' = xs \<and>
      drops (ring q') = d \<and> ring_bound (ring q') = ring_bound (ring q) \<and> ring_newest (ring q') = ring_newest (ring q)"
    by (auto simp: event_call_ring [OF c] event_inv_def event_items_def)
qed

section \<open>From the initialisation on\<close>

lemma u16_calls:
  assumes "cap \<noteq> 0" and "mode = SCH_OVERFLOW_DROP_NEWEST \<or> mode = SCH_OVERFLOW_DROP_OLDEST"
    and "unat cap * 2 \<le> length m" and "length m < 2 ^ 32"
  shows "\<exists>r. sch_spsc_ring_init p (Some raw) (Some m) cap sizeof_u16 mode w = (True, Some r, crit p w) \<and>
    run_calls (ring_call u16_bytes u16_of_bytes p) cs r out v =
      Some (spec_calls (unat cap) (mode = SCH_OVERFLOW_DROP_NEWEST) cs [] 0 out, (crit p ^^ length cs) v)"
proof -
  have fit: "unat cap * unat sizeof_u16 \<le> length m" using assms(3) by (simp add: sizeof_u16_def)
  obtain r where r: "sch_spsc_ring_init p (Some raw) (Some m) cap sizeof_u16 mode w = (True, Some r, crit p w)"
    "typed_inv sizeof_u16 r" "typed_items u16_of_bytes r = []" "drops r = 0" "ring_bound r = unat cap"
    "ring_newest r \<longleftrightarrow> mode = SCH_OVERFLOW_DROP_NEWEST"
    by (rule u16.init_refines [OF assms(1,2) fit assms(4)])
  have "list_all (\<lambda>c. True) cs" by (simp add: list_all_iff)
  from u16_trace.run_refines [OF r(2) this, of p out v] r show ?thesis by simp
qed

lemma event_calls:
  assumes "cap \<noteq> 0" and "mode = SCH_OVERFLOW_DROP_NEWEST \<or> mode = SCH_OVERFLOW_DROP_OLDEST"
    and "unat cap * 2 \<le> length m" and "length m < 2 ^ 32" and "list_all event_offers cs"
  shows "\<exists>q. sch_event_queue_init p (Some raw) (Some m) cap mode w = (True, Some q, crit p w) \<and>
    run_calls (event_call p) cs q out v =
      Some (spec_calls (unat cap) (mode = SCH_OVERFLOW_DROP_NEWEST) cs [] 0 out, (crit p ^^ length cs) v)"
proof -
  obtain q where q: "sch_event_queue_init p (Some raw) (Some m) cap mode w = (True, Some q, crit p w)" "event_inv q"
    "event_items q = []" "ring_bound (ring q) = unat cap" "drops (ring q) = 0"
    "ring_newest (ring q) \<longleftrightarrow> mode = SCH_OVERFLOW_DROP_NEWEST"
    by (rule event_init_refines [OF assms(1-4)])
  from event_trace.run_refines [OF q(2) assms(5), of p out v] q show ?thesis by simp
qed

section \<open>Properties\<close>

text \<open>
  C19. A ring cannot be told from a bounded queue. Set up over any memory, with any valid policy, a
  ring answers every sequence of calls, of all seven operations in any order and of any length, with
  exactly the results of an abstract queue of that capacity that holds a list and a counter; no call
  is undefined and each takes one critical section. The same holds of an event queue and the four
  operations it offers.
\<close>

theorem ring_calls_refine:
  assumes "cap \<noteq> 0" and "mode = SCH_OVERFLOW_DROP_NEWEST \<or> mode = SCH_OVERFLOW_DROP_OLDEST"
    and "unat cap * 2 \<le> length m" and "length m < 2 ^ 32" and "list_all event_offers cs'"
  shows "(\<exists>r. sch_spsc_ring_init p (Some raw) (Some m) cap sizeof_u16 mode w = (True, Some r, crit p w) \<and>
      run_calls (ring_call u16_bytes u16_of_bytes p) cs r out v =
        Some (spec_calls (unat cap) (mode = SCH_OVERFLOW_DROP_NEWEST) cs [] 0 out, (crit p ^^ length cs) v)) \<and>
    (\<exists>q. sch_event_queue_init p (Some raw_q) (Some m) cap mode w = (True, Some q, crit p w) \<and>
      run_calls (event_call p) cs' q out v =
        Some (spec_calls (unat cap) (mode = SCH_OVERFLOW_DROP_NEWEST) cs' [] 0 out, (crit p ^^ length cs') v))"
  by (intro conjI u16_calls [OF assms(1-4)] event_calls [OF assms])

text \<open>Memory before the initialisation, with garbage in it.\<close>

definition raw_ring :: sch_spsc_ring where
  "raw_ring = \<lparr>storage = None, element_size = 9, capacity = 9, head = 9, tail = 9, count = 9, drops = 9,
     overflow = SCH_OVERFLOW_OTHER 7\<rparr>"

theorem ring_calls_refine_witness:
  "\<exists>r. sch_spsc_ring_init quiet_port (Some raw_ring) (Some [1, 2, 3, 4]) 2 sizeof_u16 SCH_OVERFLOW_DROP_OLDEST () = (True, Some r, ()) \<and>
    run_calls (ring_call u16_bytes u16_of_bytes quiet_port) [PUSH 10, PUSH 20, PUSH 30, DROPS, SIZE, POP, POP, POP] r 0 () =
      Some ([PUSHED SCH_RING_PUSH_OK, PUSHED SCH_RING_PUSH_OK, PUSHED SCH_RING_PUSH_DROPPED_OLDEST, NUMBER 1, NUMBER 2,
        POPPED True 20, POPPED True 30, POPPED False 30], ())"
  using ring_calls_refine [of 2 SCH_OVERFLOW_DROP_OLDEST "[1, 2, 3, 4]" "[]" quiet_port raw_ring "()"
      "[PUSH 10, PUSH 20, PUSH 30, DROPS, SIZE, POP, POP, POP]" 0 "()"] by simp

end
