(* ===== verification/Ring_Tests.thy ===== *)
theory Ring_Tests
  imports Ring_Trace
begin

text \<open>
  The seven tests of \<^verbatim>\<open>tests/unit/test_isr_buffer.c\<close> on the model, under the names they have there. A
  test sets up a ring or an event queue of 16-bit values and makes a sequence of calls; its lemma
  states the result of every call, those the test asserts among them, and that the critical
  sections are all closed at the end.
\<close>

text \<open>The port of the tests counts the sections that are open.\<close>

definition buffer_test_port :: "u32 port" where
  "buffer_test_port = \<lparr>sch_port_now_ticks = (\<lambda>depth. (0, depth)),
     sch_port_enter_critical = (\<lambda>depth. (0, depth + 1)),
     sch_port_exit_critical = (\<lambda>state depth. if 0 < depth then depth - 1 else depth),
     sch_port_idle = (\<lambda>depth. depth)\<rparr>"

definition ring_test ::
  "size_t \<Rightarrow> sch_overflow_mode \<Rightarrow> u16 queue_call list \<Rightarrow> (u16 queue_result list \<times> u32) option" where
  "ring_test n mode calls =
     (case sch_spsc_ring_init buffer_test_port (Some raw_ring) (Some (replicate (2 * unat n) 165)) n sizeof_u16 mode 0 of
        (ok, r, depth) \<Rightarrow>
          if ok then run_calls (ring_call u16_bytes u16_of_bytes buffer_test_port) calls (the r) 0 depth else None)"

definition event_test ::
  "size_t \<Rightarrow> sch_overflow_mode \<Rightarrow> u16 queue_call list \<Rightarrow> (u16 queue_result list \<times> u32) option" where
  "event_test n mode calls =
     (case sch_event_queue_init buffer_test_port (Some \<lparr>ring = raw_ring\<rparr>) (Some (replicate (2 * unat n) 165)) n mode 0 of
        (ok, q, depth) \<Rightarrow> if ok then run_calls (event_call buffer_test_port) calls (the q) 0 depth else None)"

lemma sections_closed: "(crit buffer_test_port ^^ n) 0 = 0"
  by (induction n) (simp_all add: crit_def buffer_test_port_def)

lemma ring_test_eq:
  assumes "n \<noteq> 0" and "mode = SCH_OVERFLOW_DROP_NEWEST \<or> mode = SCH_OVERFLOW_DROP_OLDEST" and "n < 2 ^ 16"
  shows "ring_test n mode calls = Some (spec_calls (unat n) (mode = SCH_OVERFLOW_DROP_NEWEST) calls [] 0 0, 0)"
proof -
  have "unat n < 2 ^ 16" using assms(3) by (simp add: word_less_nat_alt)
  with u16_calls [OF assms(1,2), of "replicate (2 * unat n) 165" buffer_test_port raw_ring 0 calls 0 0]
    sections_closed [of "length calls"] sections_closed [of 1]
  show ?thesis by (auto simp: ring_test_def)
qed

lemma event_test_eq:
  assumes "n \<noteq> 0" and "mode = SCH_OVERFLOW_DROP_NEWEST \<or> mode = SCH_OVERFLOW_DROP_OLDEST" and "n < 2 ^ 16"
    and "list_all event_offers calls"
  shows "event_test n mode calls = Some (spec_calls (unat n) (mode = SCH_OVERFLOW_DROP_NEWEST) calls [] 0 0, 0)"
proof -
  have "unat n < 2 ^ 16" using assms(3) by (simp add: word_less_nat_alt)
  with event_calls [OF assms(1,2) _ _ assms(4), of "replicate (2 * unat n) 165" buffer_test_port "\<lparr>ring = raw_ring\<rparr>" 0 0 0]
    sections_closed [of "length calls"] sections_closed [of 1]
  show ?thesis by (auto simp: event_test_def)
qed

lemma test_ring_should_preserve_fifo_order_for_isr_push_and_task_pop:
  "ring_test 4 SCH_OVERFLOW_DROP_NEWEST [PUSH 11, PUSH 22, PUSH 33, POP, POP, POP, POP, EMPTY] =
   Some ([PUSHED SCH_RING_PUSH_OK, PUSHED SCH_RING_PUSH_OK, PUSHED SCH_RING_PUSH_OK,
     POPPED True 11, POPPED True 22, POPPED True 33, POPPED False 33, TRUTH True], 0)"
  by (simp add: ring_test_eq)

lemma test_ring_drop_newest_should_reject_new_items_and_count_drops:
  "ring_test 2 SCH_OVERFLOW_DROP_NEWEST [PUSH 1, PUSH 2, PUSH 3, FULL, DROPS, SIZE, POP, POP] =
   Some ([PUSHED SCH_RING_PUSH_OK, PUSHED SCH_RING_PUSH_OK, PUSHED SCH_RING_PUSH_DROPPED_NEWEST,
     TRUTH True, NUMBER 1, NUMBER 2, POPPED True 1, POPPED True 2], 0)"
  by (simp add: ring_test_eq)

lemma test_ring_drop_oldest_should_keep_latest_items_and_count_drops:
  "ring_test 2 SCH_OVERFLOW_DROP_OLDEST [PUSH 10, PUSH 20, PUSH 30, DROPS, SIZE, POP, POP, POP] =
   Some ([PUSHED SCH_RING_PUSH_OK, PUSHED SCH_RING_PUSH_OK, PUSHED SCH_RING_PUSH_DROPPED_OLDEST,
     NUMBER 1, NUMBER 2, POPPED True 20, POPPED True 30, POPPED False 30], 0)"
  by (simp add: ring_test_eq)

lemma test_ring_reset_should_clear_contents_and_drop_counter:
  "ring_test 3 SCH_OVERFLOW_DROP_NEWEST [PUSH 1, PUSH 1, PUSH 1, PUSH 1, DROPS, RESET, EMPTY, DROPS] =
   Some ([PUSHED SCH_RING_PUSH_OK, PUSHED SCH_RING_PUSH_OK, PUSHED SCH_RING_PUSH_OK, PUSHED SCH_RING_PUSH_DROPPED_NEWEST,
     NUMBER 1, DONE, TRUTH True, NUMBER 0], 0)"
  by (simp add: ring_test_eq)

lemma test_ring_should_report_empty_and_full_transitions_across_wraparound:
  "ring_test 3 SCH_OVERFLOW_DROP_NEWEST
     [EMPTY, FULL, PUSH 1, PUSH 2, PUSH 3, EMPTY, FULL, POP, PUSH 4, FULL, POP, POP, POP, EMPTY] =
   Some ([TRUTH True, TRUTH False, PUSHED SCH_RING_PUSH_OK, PUSHED SCH_RING_PUSH_OK, PUSHED SCH_RING_PUSH_OK,
     TRUTH False, TRUTH True, POPPED True 1, PUSHED SCH_RING_PUSH_OK, TRUTH True,
     POPPED True 2, POPPED True 3, POPPED True 4, TRUTH True], 0)"
  by (simp add: ring_test_eq)

lemma test_event_queue_should_queue_descriptor_ids:
  "event_test 2 SCH_OVERFLOW_DROP_NEWEST [PUSH 100, PUSH 101, PUSH 102, SIZE, DROPS, POP, POP, POP] =
   Some ([PUSHED SCH_RING_PUSH_OK, PUSHED SCH_RING_PUSH_OK, PUSHED SCH_RING_PUSH_DROPPED_NEWEST,
     NUMBER 2, NUMBER 1, POPPED True 100, POPPED True 101, POPPED False 101], 0)"
  by (simp add: event_test_eq)

lemma test_event_queue_drop_oldest_should_keep_most_recent_descriptors:
  "event_test 2 SCH_OVERFLOW_DROP_OLDEST [PUSH 200, PUSH 201, PUSH 202, SIZE, DROPS, POP, POP, POP] =
   Some ([PUSHED SCH_RING_PUSH_OK, PUSHED SCH_RING_PUSH_OK, PUSHED SCH_RING_PUSH_DROPPED_OLDEST,
     NUMBER 2, NUMBER 1, POPPED True 201, POPPED True 202, POPPED False 202], 0)"
  by (simp add: event_test_eq)

end
