(* ===== verification/Scheduler_Table.thy ===== *)
theory Scheduler_Table
  imports Scheduler_Register Scheduler_Reach
begin

text \<open>
  The scheduler as a list. A run is a function on the list of the registered tasks and the list of
  their statistics: the tasks due are called, sorted by priority and slot, then one background task
  or the idle hook, and the trace hook sees it all. Gone are the table of 64 slots and the loops over
  it, the number of tasks and the flags of the slots. Tasks may call the scheduler themselves.
\<close>

section \<open>The list scheduler\<close>

text \<open>The tasks, their statistics, the cursor of the background tasks, the trace hook.\<close>

record ('f, 'c, 'h) sch_list =
  listed :: "('f, 'c) sch_task list"
  listed_stats :: "sch_task_stats list"
  turn :: nat
  tracer :: "('h \<times> 'c option) option"

definition empty_list :: "('f, 'c, 'h) sch_list" where
  "empty_list = \<lparr>listed = [], listed_stats = [], turn = 0, tracer = None\<rparr>"

definition due_order :: "u32 \<Rightarrow> ('f, 'c) sch_task list \<Rightarrow> nat list" where
  "due_order now ts =
     map key_slot (sort (map (\<lambda>i. Dispatch_Key (priority (ts ! i)) i) (filter (\<lambda>i. is_due now (ts ! i)) [0..<length ts])))"

definition background_turns :: "('f, 'c) sch_task list \<Rightarrow> nat \<Rightarrow> nat list" where
  "background_turns ts k = filter (\<lambda>i. is_background (ts ! i)) ([k..<length ts] @ [0..<k])"

definition upd_listed :: "nat \<Rightarrow> (sch_task_stats \<Rightarrow> sch_task_stats) \<Rightarrow> ('f, 'c, 'h) sch_list \<Rightarrow> ('f, 'c, 'h) sch_list" where
  "upd_listed i h q = q\<lparr>listed_stats := (listed_stats q)[i := h (listed_stats q ! i)]\<rparr>"

text \<open>An event is shown to the hook, if one is set, with the clock read then.\<close>

definition trace_to ::
  "('f, 'c, 'h, 'w) sch_env \<Rightarrow> ('f, 'c, 'h) sch_list \<Rightarrow> sch_trace_event \<Rightarrow> i32 \<Rightarrow> u32 \<Rightarrow> 'w \<Rightarrow> 'w" where
  "trace_to env q event task_id timestamp w =
     (case tracer q of None \<Rightarrow> w | Some (hook, user_ctx) \<Rightarrow> call_hook env hook event task_id timestamp user_ctx w)"

definition list_event ::
  "sch_config \<Rightarrow> 'w port \<Rightarrow> ('f, 'c, 'h, 'w) sch_env \<Rightarrow> ('f, 'c, 'h) sch_list \<Rightarrow> sch_trace_event \<Rightarrow> i32 \<Rightarrow> 'w \<Rightarrow> 'w" where
  "list_event cfg p env q event task_id w =
     (if sch_enable_trace cfg then (case sch_port_now_ticks p w of (t, w) \<Rightarrow> trace_to env q event task_id t w) else w)"

definition list_timed ::
  "sch_config \<Rightarrow> 'w port \<Rightarrow> nat \<Rightarrow> (u32 \<Rightarrow> sch_task_stats \<Rightarrow> sch_task_stats) \<Rightarrow> ('f, 'c, 'h) sch_list \<Rightarrow> 'w \<Rightarrow>
   ('f, 'c, 'h) sch_list \<times> 'w" where
  "list_timed cfg p i h q w =
     (if sch_enable_stats cfg then (case sch_port_now_ticks p w of (t, w) \<Rightarrow> (upd_listed i (h t) q, w)) else (q, w))"

abbreviation start_at :: "u32 \<Rightarrow> sch_task_stats \<Rightarrow> sch_task_stats" where
  "start_at t st \<equiv> st\<lparr>last_start_tick := t\<rparr>"

text \<open>
  The turn of task \<open>i\<close> among the periodic tasks that were due at \<open>now\<close>, and its turn as a background
  task. What the function of a task does to the list and to the platform is \<open>act\<close>.
\<close>

definition list_turn ::
  "sch_config \<Rightarrow> 'w port \<Rightarrow> ('f, 'c, 'h, 'w) sch_env \<Rightarrow>
   ('f \<Rightarrow> 'c option \<Rightarrow> ('f, 'c, 'h) sch_list \<Rightarrow> 'w \<Rightarrow> ('f, 'c, 'h) sch_list \<times> 'w) \<Rightarrow> u32 \<Rightarrow> nat \<Rightarrow>
   ('f, 'c, 'h) sch_list \<times> 'w \<Rightarrow> ('f, 'c, 'h) sch_list \<times> 'w" where
  "list_turn cfg p env act now i qw =
     (let (q, w) = qw;
          t = listed q ! i;
          q = q\<lparr>listed := (listed q)[i := taken now t]\<rparr>;
          (q, w) = list_timed cfg p i start_at q (crit p w);
          w = list_event cfg p env q SCH_TRACE_TASK_START (of_nat i) w;
          (q, w) = act (the (fn t)) (ctx t) q w;
          (q, w) = list_timed cfg p i sch_stats_account q w;
          w = list_event cfg p env q SCH_TRACE_TASK_END (of_nat i) w;
          (completed_at, w) = sch_port_now_ticks p w
      in
        if sch_time_reached completed_at (next_release (listed q ! i))
        then
          (if sch_enable_stats cfg then upd_listed i (\<lambda>st. st\<lparr>overrun_count := overrun_count st + 1\<rparr>) q else q,
           if sch_enable_trace cfg then trace_to env q SCH_TRACE_TASK_OVERRUN (of_nat i) completed_at w else w)
        else (q, w))"

definition list_background ::
  "sch_config \<Rightarrow> 'w port \<Rightarrow> ('f, 'c, 'h, 'w) sch_env \<Rightarrow>
   ('f \<Rightarrow> 'c option \<Rightarrow> ('f, 'c, 'h) sch_list \<Rightarrow> 'w \<Rightarrow> ('f, 'c, 'h) sch_list \<times> 'w) \<Rightarrow>
   ('f, 'c, 'h) sch_list \<times> 'w \<Rightarrow> ('f, 'c, 'h) sch_list \<times> 'w" where
  "list_background cfg p env act qw =
     (let (q, w) = qw; w = crit p w
      in
        case background_turns (listed q) (turn q) of
          [] \<Rightarrow> (q, sch_port_idle p (list_event cfg p env q SCH_TRACE_IDLE SCH_INVALID_TASK_ID w))
        | i # _ \<Rightarrow>
            let t = listed q ! i;
                q = q\<lparr>turn := Suc i mod SCH_MAX_TASKS\<rparr>;
                w = list_event cfg p env q SCH_TRACE_TASK_START (of_nat i) w;
                (q, w) = list_timed cfg p i start_at q w;
                (q, w) = act (the (fn t)) (ctx t) q w;
                (q, w) = list_timed cfg p i sch_stats_account q w
            in (q, list_event cfg p env q SCH_TRACE_TASK_END (of_nat i) w))"

text \<open>
  A run. It looks for a due task once more after the last one, in a section of its own, unless all
  slots were due.
\<close>

definition list_run ::
  "sch_config \<Rightarrow> 'w port \<Rightarrow> ('f, 'c, 'h, 'w) sch_env \<Rightarrow>
   ('f \<Rightarrow> 'c option \<Rightarrow> ('f, 'c, 'h) sch_list \<Rightarrow> 'w \<Rightarrow> ('f, 'c, 'h) sch_list \<times> 'w) \<Rightarrow>
   ('f, 'c, 'h) sch_list \<Rightarrow> 'w \<Rightarrow> ('f, 'c, 'h) sch_list \<times> 'w" where
  "list_run cfg p env act q w =
     (let (now, w) = crit_now p w;
          due = due_order now (listed q);
          (q, w) = fold (list_turn cfg p env act now) due (q, w)
      in list_background cfg p env act (q, if length due < SCH_MAX_TASKS then crit p w else w))"

section \<open>The table\<close>

text \<open>
  The list of a table whose first slots are in use, of which those in \<open>P\<close> are pending. A build
  without statistics or traces has none.
\<close>

definition counted :: "sch_config \<Rightarrow> sch_task_stats list \<Rightarrow> ('f, 'c, 'h) sch \<Rightarrow> bool" where
  "counted cfg sts s \<longleftrightarrow> (sch_enable_stats cfg \<longrightarrow> (\<forall>i<length sts. stats s ! i = sts ! i))"

definition traced :: "sch_config \<Rightarrow> ('h \<times> 'c option) option \<Rightarrow> ('f, 'c, 'h) sch \<Rightarrow> bool" where
  "traced cfg ho s \<longleftrightarrow>
     ho = (if sch_enable_trace cfg then map_option (\<lambda>h. (h, trace_user_ctx s)) (trace_hook s) else None)"

definition table :: "sch_config \<Rightarrow> ('f, 'c, 'h) sch_list \<Rightarrow> nat set \<Rightarrow> ('f, 'c, 'h) sch \<Rightarrow> bool" where
  "table cfg q P s \<longleftrightarrow> sch_wf s \<and> length (listed q) \<le> SCH_MAX_TASKS \<and> P \<subseteq> {..<length (listed q)} \<and>
     (\<forall>i<SCH_MAX_TASKS. in_use (tasks s ! i) \<longleftrightarrow> i < length (listed q)) \<and>
     (\<forall>i<length (listed q). tasks s ! i = (listed q ! i)\<lparr>pending := i \<in> P\<rparr> \<and> \<not> pending (listed q ! i)) \<and>
     unat (next_background_idx s) = turn q \<and> turn q \<le> length (listed q) \<and>
     length (listed_stats q) = length (listed q) \<and> counted cfg (listed_stats q) s \<and> traced cfg (tracer q) s"

lemma tableD:
  assumes "table cfg q P s"
  shows "sch_wf s" "length (listed q) \<le> SCH_MAX_TASKS" "length (listed_stats q) = length (listed q)"
    "unat (next_background_idx s) = turn q" "turn q \<le> length (listed q)"
    "counted cfg (listed_stats q) s" "traced cfg (tracer q) s" "P \<subseteq> {..<length (listed q)}"
  using assms by (simp_all add: table_def)

lemma table_used: "table cfg q P s \<Longrightarrow> i < SCH_MAX_TASKS \<Longrightarrow> in_use (tasks s ! i) \<longleftrightarrow> i < length (listed q)"
  by (simp add: table_def)

lemma table_nth:
  "table cfg q P s \<Longrightarrow> i < length (listed q) \<Longrightarrow> tasks s ! i = (listed q ! i)\<lparr>pending := i \<in> P\<rparr>"
  "table cfg q P s \<Longrightarrow> i < length (listed q) \<Longrightarrow> \<not> pending (listed q ! i)"
  by (simp_all add: table_def)

lemma table_slot: "table cfg q P s \<Longrightarrow> i < length (listed q) \<Longrightarrow> i < SCH_MAX_TASKS"
  by (simp add: table_def)

lemma table_in_use: "table cfg q P s \<Longrightarrow> i < length (listed q) \<Longrightarrow> in_use (listed q ! i)"
  using table_used [of cfg q P s i] table_slot [of cfg q P s i] table_nth(1) [of cfg q P s i] by simp

lemma table_pending:
  "table cfg q P s \<Longrightarrow> i < SCH_MAX_TASKS \<Longrightarrow> pending (tasks s ! i) \<longleftrightarrow> i < length (listed q) \<and> i \<in> P"
  using table_used [of cfg q P s i] wf_task [of s i] tableD(1) [of cfg q P s] table_nth(1) [of cfg q P s i]
  by (cases "i < length (listed q)") (auto simp: task_wf_def)

lemma table_quiet: "table cfg q {} s \<Longrightarrow> sch_quiet s"
  using table_pending [of cfg q "{}" s] tableD(1) [of cfg q "{}" s] by (simp add: sch_quiet_def list_all_length wf_lengths)

lemma table_fn:
  assumes "table cfg q P s" and "i < length (listed q)"
  shows "\<exists>f. fn (listed q ! i) = Some f"
proof -
  have "task_wf (tasks s ! i)" "in_use (tasks s ! i)"
    using wf_task [OF tableD(1) [OF assms(1)]] table_used [OF assms(1)] table_slot [OF assms] assms(2) by simp_all
  then show ?thesis using table_nth(1) [OF assms] by (cases "fn (listed q ! i)") (simp_all add: task_wf_def)
qed

lemma table_empty:
  assumes "sch_shape s"
  shows "table cfg empty_list {} (empty_sch cfg s)"
  using init_wf [OF assms, of cfg]
  by (simp add: table_def empty_list_def empty_sch_def empty_task_def counted_def traced_def)

text \<open>What a turn does to the table: it takes a task, it times it, it moves the cursor.\<close>

lemma table_take:
  assumes "table cfg q P s" and "i < length (listed q)"
  shows "table cfg (q\<lparr>listed := (listed q)[i := taken now (listed q ! i)]\<rparr>) (P - {i}) (upd_task i (taken now) s)"
proof -
  note i = table_slot [OF assms]
  have "sch_wf (upd_task i (taken now) s)" using take_wf [OF tableD(1) [OF assms(1)] i] by (simp add: take_task_eq)
  moreover have "tasks (upd_task i (taken now) s) ! j = (if j = i then taken now (tasks s ! i) else tasks s ! j)"
    if "j < SCH_MAX_TASKS" for j
    using tableD(1) [OF assms(1)] i that by (simp add: upd_task_def wf_lengths nth_list_update_if)
  moreover have "taken now ((listed q ! i)\<lparr>pending := b\<rparr>) = (taken now (listed q ! i))\<lparr>pending := False\<rparr>" for b
    by (simp add: taken_def)
  moreover have "counted cfg (listed_stats q) (upd_task i (taken now) s) = counted cfg (listed_stats q) s"
    "traced cfg (tracer q) (upd_task i (taken now) s) = traced cfg (tracer q) s"
    "next_background_idx (upd_task i (taken now) s) = next_background_idx s"
    by (simp_all add: counted_def traced_def upd_task_def)
  ultimately show ?thesis
    using assms table_slot [OF assms(1)] table_in_use [OF assms] by (auto simp: table_def nth_list_update_if)
qed

lemma table_upd:
  assumes "table cfg q P s" and "sch_enable_stats cfg" and "i < length (listed q)"
  shows "table cfg (upd_listed i h q) P (upd_stats i h s)"
proof -
  have "stats s ! i = listed_stats q ! i" "i < length (stats s)"
    using assms table_slot [OF assms(1,3)] tableD [OF assms(1)] by (simp_all add: counted_def wf_lengths)
  then have "counted cfg (listed_stats (upd_listed i h q)) (upd_stats i h s)"
    using tableD(6) [OF assms(1)] by (simp add: counted_def upd_listed_def upd_stats_def nth_list_update_if)
  moreover have "traced cfg (tracer q) (upd_stats i h s) = traced cfg (tracer q) s"
    "next_background_idx (upd_stats i h s) = next_background_idx s"
    by (simp_all add: traced_def upd_stats_def)
  ultimately show ?thesis using assms(1) by (simp add: table_def upd_listed_def)
qed

lemma upd_listed_fields [simp]:
  "listed (upd_listed i h q) = listed q" "turn (upd_listed i h q) = turn q" "tracer (upd_listed i h q) = tracer q"
  "length (listed_stats (upd_listed i h q)) = length (listed_stats q)"
  by (simp_all add: upd_listed_def)

lemma table_cursor:
  assumes "table cfg q P s" and "i < length (listed q)"
  shows "table cfg (q\<lparr>turn := Suc i mod SCH_MAX_TASKS\<rparr>) P (s\<lparr>next_background_idx := background_cursor i\<rparr>)"
proof -
  have "Suc i mod SCH_MAX_TASKS \<le> length (listed q)" using assms(2) by (metis Suc_leI le_trans mod_less_eq_dividend)
  moreover have "unat (background_cursor i) = Suc i mod SCH_MAX_TASKS" by (simp add: background_cursor_def)
  ultimately show ?thesis
    using assms(1) cursor_wf [OF tableD(1) [OF assms(1)], of i] by (simp add: table_def counted_def traced_def)
qed

lemma table_emit:
  "table cfg q P s \<Longrightarrow> sch_enable_trace cfg \<Longrightarrow> sch_trace_emit env (Some s) e i t w = trace_to env q e i t w"
  by (auto simp: table_def traced_def sch_trace_emit_def trace_to_def split: option.split)

section \<open>The order of dispatch and the turns of the background tasks\<close>

lemma upt_split: "(n :: nat) \<le> m \<Longrightarrow> [0..<m] = [0..<n] @ [n..<m]"
  using upt_add_eq_append [of 0 n "m - n"] by simp

lemma table_marked:
  assumes "table cfg q {} s"
  shows "table cfg q {i. i < length (listed q) \<and> is_due now (listed q ! i)} (marked now s)"
    and "i < length (listed q) \<Longrightarrow> is_due now (tasks s ! i) \<longleftrightarrow> is_due now (listed q ! i)"
proof -
  have due: "is_due now (tasks s ! i) \<longleftrightarrow> is_due now (listed q ! i)" if "i < length (listed q)" for i
    using table_nth(1) [OF assms that] by (simp add: is_due_def)
  then show "i < length (listed q) \<Longrightarrow> is_due now (tasks s ! i) \<longleftrightarrow> is_due now (listed q ! i)" .
  have m: "tasks (marked now s) ! i = mark_task now (tasks s ! i)" if "i < SCH_MAX_TASKS" for i
    using that tableD(1) [OF assms] by (simp add: marked_def wf_lengths)
  have "tasks (marked now s) ! i = (listed q ! i)\<lparr>pending := is_due now (listed q ! i)\<rparr>" if "i < length (listed q)" for i
    using m [OF table_slot [OF assms that]] due [OF that] table_nth [OF assms that] by (simp add: mark_task_def)
  moreover have "in_use (tasks (marked now s) ! i) \<longleftrightarrow> i < length (listed q)" if "i < SCH_MAX_TASKS" for i
    using m [OF that] table_used [OF assms that] by (simp add: mark_task_def)
  moreover have "{i. i < length (listed q) \<and> is_due now (listed q ! i)} \<subseteq> {..<length (listed q)}" by auto
  ultimately show "table cfg q {i. i < length (listed q) \<and> is_due now (listed q ! i)} (marked now s)"
    using assms marked_wf [OF tableD(1) [OF assms], of now] by (simp add: table_def counted_def traced_def marked_def)
qed

lemma table_order:
  assumes "table cfg q {} s"
  shows "dispatch_order (marked now s) = due_order now (listed q)"
proof -
  let ?ts = "listed q"
  have n: "length ?ts \<le> SCH_MAX_TASKS" by (rule tableD(2) [OF assms])
  have ready: "is_ready (tasks (marked now s) ! i) \<longleftrightarrow> i < length ?ts \<and> is_due now (?ts ! i)" if "i < SCH_MAX_TASKS" for i
    using ready_marked [OF tableD(1) [OF assms] table_quiet [OF assms] that] table_marked(2) [OF assms, of i now]
      table_used [OF assms that] by (auto simp: is_due_def)
  have slots: "ready_slots (marked now s) = filter (\<lambda>i. is_due now (?ts ! i)) [0..<length ?ts]"
    unfolding ready_slots_def upt_split [OF n] filter_append
    using ready n by (auto simp: filter_empty_conv intro!: filter_cong)
  have "slot_key (marked now s) i = Dispatch_Key (priority (?ts ! i)) i" if "i < length ?ts" for i
    using that table_nth(1) [OF table_marked(1) [OF assms] that] by (simp add: slot_key_def)
  then have keys: "map (slot_key (marked now s)) (filter (\<lambda>i. is_due now (?ts ! i)) [0..<length ?ts]) =
      map (\<lambda>i. Dispatch_Key (priority (?ts ! i)) i) (filter (\<lambda>i. is_due now (?ts ! i)) [0..<length ?ts])"
    by (intro map_cong) simp_all
  show ?thesis unfolding dispatch_order_def due_order_def slots keys ..
qed

lemma set_due_order: "set (due_order now ts) = {i. i < length ts \<and> is_due now (ts ! i)}"
  by (auto simp: due_order_def image_iff)

lemma table_ring:
  assumes "table cfg q P s"
  shows "background_ring s = background_turns (listed q) (turn q)"
proof -
  let ?ts = "listed q" and ?k = "turn q"
  have n: "length ?ts \<le> SCH_MAX_TASKS" and k: "unat (next_background_idx s) = ?k" "?k \<le> length ?ts"
    using tableD [OF assms] by simp_all
  have bg: "is_background (tasks s ! i) \<longleftrightarrow> i < length ?ts \<and> is_background (?ts ! i)" if "i < SCH_MAX_TASKS" for i
    using table_used [OF assms that] table_nth(1) [OF assms, of i] by (auto simp: is_background_def)
  have "rotate ?k [0..<SCH_MAX_TASKS] = [?k..<length ?ts] @ [length ?ts..<SCH_MAX_TASKS] @ [0..<?k]"
  proof (cases "?k = SCH_MAX_TASKS")
    case True
    then show ?thesis using k(2) n by simp
  next
    case False
    then have "rotate ?k [0..<SCH_MAX_TASKS] = [?k..<SCH_MAX_TASKS] @ [0..<?k]"
      using k(2) n by (simp add: rotate_drop_take)
    also have "[?k..<SCH_MAX_TASKS] = [?k..<length ?ts] @ [length ?ts..<SCH_MAX_TASKS]"
      using upt_add_eq_append [OF k(2), of "SCH_MAX_TASKS - length ?ts"] n by simp
    finally show ?thesis by simp
  qed
  moreover have "filter (\<lambda>i. is_background (tasks s ! i)) is = filter (\<lambda>i. is_background (?ts ! i)) is"
    if "set is \<subseteq> {..<length ?ts}" for "is"
    by (rule filter_cong) (use bg n that in auto)
  moreover have "filter (\<lambda>i. is_background (tasks s ! i)) [length ?ts..<SCH_MAX_TASKS] = []"
    using bg by (auto simp: filter_empty_conv)
  moreover have "set [?k..<length ?ts] \<subseteq> {..<length ?ts}" "set [0..<?k] \<subseteq> {..<length ?ts}" using k(2) by auto
  ultimately show ?thesis unfolding background_ring_def k(1) background_turns_def by (simp only: filter_append append_Nil)
qed

section \<open>Tasks\<close>

text \<open>
  A function of \<open>F\<close> acts on the list and the platform as \<open>act\<close> says: it may register functions of
  \<open>F\<close>, behind the tasks that are listed, and change the statistics and the hook. What the application
  relies on, \<open>ok\<close>, is kept.
\<close>

definition grown :: "'f set \<Rightarrow> ('f, 'c, 'h) sch_list \<Rightarrow> ('f, 'c, 'h) sch_list \<Rightarrow> bool" where
  "grown F q q' \<longleftrightarrow> turn q' = turn q \<and> (\<exists>new. listed q' = listed q @ new \<and> (\<forall>t\<in>set new. the (fn t) \<in> F))"

definition acts ::
  "sch_config \<Rightarrow> ('f, 'c, 'h, 'w) sch_env \<Rightarrow> ('w \<Rightarrow> bool) \<Rightarrow>
   ('f \<Rightarrow> 'c option \<Rightarrow> ('f, 'c, 'h) sch_list \<Rightarrow> 'w \<Rightarrow> ('f, 'c, 'h) sch_list \<times> 'w) \<Rightarrow> 'f set \<Rightarrow> bool" where
  "acts cfg env ok act F \<longleftrightarrow>
     (\<forall>f\<in>F. \<forall>c q P s w. table cfg q P s \<and> ok w \<longrightarrow>
        (case act f c q w of (q', w') \<Rightarrow>
           ok w' \<and> grown F q q' \<and> (\<exists>s'. call_task env f c s w = Some (s', w') \<and> table cfg q' P s')))"

lemma grown_refl [simp]: "grown F q q"
  by (simp add: grown_def)

lemma grown_trans: "grown F q q' \<Longrightarrow> grown F q' q'' \<Longrightarrow> grown F q q''"
  by (auto simp: grown_def)

lemma grown_upd [simp]: "grown F (upd_listed i h q) q' = grown F q q'" "grown F q (upd_listed i h q') = grown F q q'"
  by (simp_all add: grown_def)

lemma grown_length: "grown F q q' \<Longrightarrow> length (listed q) \<le> length (listed q')"
  by (auto simp: grown_def)

lemma grown_nth: "grown F q q' \<Longrightarrow> i < length (listed q) \<Longrightarrow> listed q' ! i = listed q ! i"
  by (auto simp: grown_def nth_append)

definition tasks_in :: "'f set \<Rightarrow> ('f, 'c, 'h) sch_list \<Rightarrow> bool" where
  "tasks_in F q \<longleftrightarrow> (\<forall>t\<in>set (listed q). the (fn t) \<in> F)"

lemma grown_tasks_in: "grown F q q' \<Longrightarrow> tasks_in F q \<Longrightarrow> tasks_in F q'"
  by (auto simp: grown_def tasks_in_def)

lemma table_grown:
  assumes "grown F q q'" and "i < length (listed q)"
  shows "i < length (listed q')"
  using grown_length [OF assms(1)] assms(2) by simp

lemma actsD:
  assumes "acts cfg env ok act F" and "f \<in> F" and "table cfg q P s" and "ok w" and "act f c q w = (q', w')"
  obtains s' where "call_task env f c s w = Some (s', w')" "table cfg q' P s'" "ok w'" "grown F q q'"
proof -
  have "case act f c q w of (q', w') \<Rightarrow>
      ok w' \<and> grown F q q' \<and> (\<exists>s'. call_task env f c s w = Some (s', w') \<and> table cfg q' P s')"
    by (rule assms(1) [unfolded acts_def, rule_format, OF assms(2) conjI [OF assms(3,4)]])
  then show thesis using assms(5) that by auto
qed

lemma table_fn_in:
  assumes "table cfg q P s" and "tasks_in F q" and "i < length (listed q)"
  obtains f where "fn (listed q ! i) = Some f" "f \<in> F"
proof -
  obtain f where f: "fn (listed q ! i) = Some f" using table_fn [OF assms(1,3)] by blast
  moreover have "the (fn (listed q ! i)) \<in> F" using assms(2,3) by (simp add: tasks_in_def)
  ultimately show thesis using that by simp
qed

text \<open>Tasks that leave the scheduler alone.\<close>

lemma acts_alone:
  assumes "\<And>f c s w. f \<in> F \<Longrightarrow> ok w \<Longrightarrow> call_task env f c s w = Some (s, h f c w) \<and> ok (h f c w)"
  shows "acts cfg env ok (\<lambda>f c q w. (q, h f c w)) F"
  using assms by (simp add: acts_def)

section \<open>A turn\<close>

text \<open>The instrumentation of the code in the same two steps.\<close>

definition timed ::
  "sch_config \<Rightarrow> 'w port \<Rightarrow> nat \<Rightarrow> (u32 \<Rightarrow> sch_task_stats \<Rightarrow> sch_task_stats) \<Rightarrow> ('f, 'c, 'h) sch \<Rightarrow> 'w \<Rightarrow>
   ('f, 'c, 'h) sch \<times> 'w" where
  "timed cfg p i h s w =
     (if sch_enable_stats cfg then (case sch_port_now_ticks p w of (t, w) \<Rightarrow> (upd_stats i (h t) s, w)) else (s, w))"

definition event ::
  "sch_config \<Rightarrow> 'w port \<Rightarrow> ('f, 'c, 'h, 'w) sch_env \<Rightarrow> ('f, 'c, 'h) sch \<Rightarrow> sch_trace_event \<Rightarrow> i32 \<Rightarrow> 'w \<Rightarrow> 'w" where
  "event cfg p env s e i w =
     (if sch_enable_trace cfg then (case sch_port_now_ticks p w of (t, w) \<Rightarrow> sch_trace_emit env (Some s) e i t w) else w)"

lemma instrumentation_eq:
  "exec_before cfg p env i s w =
    (case timed cfg p i start_at s w of (s, w) \<Rightarrow> (s, event cfg p env s SCH_TRACE_TASK_START (of_nat i) w))"
  "background_before cfg p env i s w = timed cfg p i start_at s (event cfg p env s SCH_TRACE_TASK_START (of_nat i) w)"
  "background_after cfg p env i s w =
    (case timed cfg p i sch_stats_account s w of (s, w) \<Rightarrow> (s, event cfg p env s SCH_TRACE_TASK_END (of_nat i) w))"
  "idle_phase cfg p env s w = sch_port_idle p (event cfg p env s SCH_TRACE_IDLE SCH_INVALID_TASK_ID w)"
  by (simp_all add: exec_before_def background_before_def background_after_def idle_phase_def timed_def event_def
      split_beta Let_def)

lemma exec_after_eq:
  "exec_after cfg p env i period s w =
    (case timed cfg p i sch_stats_account s w of (s, w) \<Rightarrow>
      (case sch_port_now_ticks p (event cfg p env s SCH_TRACE_TASK_END (of_nat i) w) of (completed_at, w) \<Rightarrow>
        if period \<noteq> 0 \<and> sch_time_reached completed_at (next_release (tasks s ! i))
        then
          (let s = (if sch_enable_stats cfg then upd_stats i (\<lambda>st. st\<lparr>overrun_count := overrun_count st + 1\<rparr>) s else s)
           in (s, if sch_enable_trace cfg then sch_trace_emit env (Some s) SCH_TRACE_TASK_OVERRUN (of_nat i) completed_at w else w))
        else (s, w)))"
  by (simp add: exec_after_def timed_def event_def split_beta Let_def)

lemma timed_table:
  assumes "table cfg q P s" and "i < length (listed q)" and "list_timed cfg p i h q w = (q', w')"
  obtains s' where "timed cfg p i h s w = (s', w')" "table cfg q' P s'" "listed q' = listed q" "grown F q q'"
  using assms table_upd [OF assms(1) _ assms(2)]
  by (cases "sch_enable_stats cfg"; cases "sch_port_now_ticks p w") (auto simp: list_timed_def timed_def)

lemma event_table: "table cfg q P s \<Longrightarrow> event cfg p env s e i w = list_event cfg p env q e i w"
  by (simp add: list_event_def event_def table_emit split: prod.split)

context task_contract
begin

lemma event_ok: "ok w \<Longrightarrow> ok (list_event cfg p env q e i w)"
  using now_ok [of w] hook_ok by (auto simp: list_event_def trace_to_def split: prod.split option.split)

lemma trace_ok: "ok w \<Longrightarrow> ok (trace_to env q e i t w)"
  using hook_ok by (auto simp: trace_to_def split: option.split)

lemma timed_ok: "ok w \<Longrightarrow> list_timed cfg p i h q w = (q', w') \<Longrightarrow> ok w'"
  using now_ok [of w] by (auto simp: list_timed_def split: prod.splits if_splits)

lemma dispatch_turn:
  assumes "acts cfg env ok act F" and "table cfg q P s" and "tasks_in F q" and "ok w"
    and "i < length (listed q)" and "i \<in> P" and "list_turn cfg p env act now i (q, w) = (q', w')"
  shows "\<exists>s'. dispatch_slot cfg p env now i s w = Some (s', w') \<and> table cfg q' (P - {i}) s' \<and> ok w' \<and>
    grown F (q\<lparr>listed := (listed q)[i := taken now (listed q ! i)]\<rparr>) q'"
proof -
  let ?t = "listed q ! i" and ?q = "q\<lparr>listed := (listed q)[i := taken now (listed q ! i)]\<rparr>"
  let ?s = "upd_task i (taken now) s"
  obtain f where f: "fn ?t = Some f" "f \<in> F" by (rule table_fn_in [OF assms(2,3,5)])
  note task = table_nth(1) [OF assms(2,5)]
  have "period_ticks ?t \<noteq> 0"
    using wf_task [OF tableD(1) [OF assms(2)] table_slot [OF assms(2,5)]] assms(6) by (simp add: task task_wf_def)
  have t0: "table cfg ?q (P - {i}) ?s" by (rule table_take [OF assms(2,5)])
  have i0: "i < length (listed ?q)" using assms(5) by simp
  obtain q1 w1 where l1: "list_timed cfg p i start_at ?q (crit p w) = (q1, w1)" by (metis surj_pair)
  from timed_table [OF t0 i0 l1] obtain s1 where s1:
    "timed cfg p i start_at ?s (crit p w) = (s1, w1)" "table cfg q1 (P - {i}) s1" "listed q1 = listed ?q" "grown F ?q q1" .
  let ?w2 = "list_event cfg p env q1 SCH_TRACE_TASK_START (of_nat i) w1"
  obtain q3 w3 where l3: "act f (ctx ?t) q1 ?w2 = (q3, w3)" by (metis surj_pair)
  have "ok ?w2" using event_ok timed_ok [OF crit_ok [OF assms(4)] l1] by simp
  from actsD [OF assms(1) f(2) s1(2) this l3] obtain s3 where
    s3: "call_task env f (ctx ?t) s1 ?w2 = Some (s3, w3)" "table cfg q3 (P - {i}) s3" "ok w3" "grown F q1 q3" .
  have i3: "i < length (listed q3)" using table_grown [OF s3(4)] i0 s1(3) by simp
  obtain q4 w4 where l4: "list_timed cfg p i sch_stats_account q3 w3 = (q4, w4)" by (metis surj_pair)
  from timed_table [OF s3(2) i3 l4] obtain s4 where s4:
    "timed cfg p i sch_stats_account s3 w3 = (s4, w4)" "table cfg q4 (P - {i}) s4" "listed q4 = listed q3" "grown F q3 q4" .
  let ?w5 = "list_event cfg p env q4 SCH_TRACE_TASK_END (of_nat i) w4"
  obtain at w6 where l6: "sch_port_now_ticks p ?w5 = (at, w6)" by (metis surj_pair)
  have ok6: "ok w6" using now_ok [OF event_ok [OF timed_ok [OF s3(3) l4]]] l6 by (metis snd_conv)
  have i4: "i < length (listed q4)" using i3 s4(3) by simp
  have before: "exec_before cfg p env i ?s (crit p w) = (s1, ?w2)"
    by (simp add: instrumentation_eq s1(1) event_table [OF s1(2)])
  have released: "next_release (tasks s4 ! i) = next_release (listed q4 ! i)" using table_nth(1) [OF s4(2) i4] by simp
  define late where "late \<longleftrightarrow> sch_time_reached at (next_release (listed q4 ! i))"
  let ?over = "\<lambda>st. st\<lparr>overrun_count := overrun_count st + 1\<rparr>"
  let ?s7 = "if sch_enable_stats cfg then upd_stats i ?over s4 else s4"
  let ?q7 = "if sch_enable_stats cfg then upd_listed i ?over q4 else q4"
  have t7: "table cfg ?q7 (P - {i}) ?s7" using table_upd [OF s4(2) _ i4] s4(2) by simp
  have emit: "sch_trace_emit env (Some ?s7) e j t v = trace_to env q4 e j t v" if "sch_enable_trace cfg" for e j t v
    unfolding table_emit [OF t7 that] by (simp add: trace_to_def)
  have "exec_after cfg p env i (period_ticks ?t) s3 w3 =
      (if late then (?s7, if sch_enable_trace cfg then trace_to env q4 SCH_TRACE_TASK_OVERRUN (of_nat i) at w6 else w6)
       else (s4, w6))"
    using emit \<open>period_ticks ?t \<noteq> 0\<close>
    by (simp add: exec_after_eq s4(1) event_table [OF s4(2)] l6 released late_def Let_def)
  then have "dispatch_slot cfg p env now i s w = Some
      (if late then (?s7, if sch_enable_trace cfg then trace_to env q4 SCH_TRACE_TASK_OVERRUN (of_nat i) at w6 else w6)
       else (s4, w6))"
    using f(1) by (simp add: dispatch_slot_def take_task_eq task exec_periodic_split before s3(1))
  moreover have "list_turn cfg p env act now i (q, w) =
      (if late then (?q7, if sch_enable_trace cfg then trace_to env q4 SCH_TRACE_TASK_OVERRUN (of_nat i) at w6 else w6)
       else (q4, w6))"
    using f(1) by (simp add: list_turn_def l1 l3 l4 l6 late_def)
  moreover have "grown F ?q q4" using s1(4) s3(4) s4(4) by (metis grown_trans)
  ultimately show ?thesis
    using assms(7) t7 s4(2) ok6 trace_ok by (cases late) auto
qed

text \<open>The turns of a run, and its background half.\<close>

lemma dispatch_turns:
  assumes "acts cfg env ok act F" and "table cfg q P s" and "tasks_in F q" and "ok w"
    and "distinct is" and "set is = P" and "P \<subseteq> {..<length (listed q)}"
    and "fold (list_turn cfg p env act now) is (q, w) = (q', w')"
  shows "\<exists>s'. dispatch_all cfg p env now is s w = Some (s', w') \<and> table cfg q' {} s' \<and> ok w' \<and> tasks_in F q'"
  using assms(2-)
proof (induction "is" arbitrary: q P s w)
  case (Cons i "is")
  have i: "i < length (listed q)" "i \<in> P" using Cons.prems(5,6) by auto
  obtain q1 w1 where t: "list_turn cfg p env act now i (q, w) = (q1, w1)" by (metis surj_pair)
  from dispatch_turn [OF assms(1) Cons.prems(1-3) i t] obtain s1 where s1:
    "dispatch_slot cfg p env now i s w = Some (s1, w1)" "table cfg q1 (P - {i}) s1" "ok w1"
    "grown F (q\<lparr>listed := (listed q)[i := taken now (listed q ! i)]\<rparr>) q1" by blast
  have "tasks_in F (q\<lparr>listed := (listed q)[i := taken now (listed q ! i)]\<rparr>)"
    using Cons.prems(2) i(1) set_update_subset_insert [of "listed q" i] by (fastforce simp: tasks_in_def)
  then have in1: "tasks_in F q1" by (rule grown_tasks_in [OF s1(4)])
  have "distinct is" "set is = P - {i}" "P - {i} \<subseteq> {..<length (listed q1)}"
    using Cons.prems(4-6) grown_length [OF s1(4)] by auto
  from Cons.IH [OF s1(2) in1 s1(3) this] Cons.prems(7) t s1(1) show ?case by simp
qed simp

lemma background_turn:
  assumes "acts cfg env ok act F" and "table cfg q {} s" and "tasks_in F q" and "ok w"
    and "list_background cfg p env act (q, w) = (q', w')"
  shows "\<exists>s'. sch_run_background cfg p env s w = Some (s', w') \<and> table cfg q' {} s' \<and> ok w' \<and> tasks_in F q'"
proof (cases "background_turns (listed q) (turn q)")
  case Nil
  have "ok (sch_port_idle p (list_event cfg p env q SCH_TRACE_IDLE SCH_INVALID_TASK_ID (crit p w)))"
    by (intro idle_ok event_ok crit_ok assms(4))
  then show ?thesis
    using assms(2,3,5) Nil
    by (auto simp: run_background_eq [OF tableD(1) [OF assms(2)]] table_ring [OF assms(2)] instrumentation_eq
        event_table [OF assms(2)] list_background_def)
next
  case (Cons i "is")
  then have "i \<in> set (background_turns (listed q) (turn q))" by simp
  then have i: "i < length (listed q)" using tableD(5) [OF assms(2)] by (auto simp: background_turns_def)
  let ?t = "listed q ! i" and ?q = "q\<lparr>turn := Suc i mod SCH_MAX_TASKS\<rparr>"
  let ?s = "s\<lparr>next_background_idx := background_cursor i\<rparr>"
  obtain f where f: "fn ?t = Some f" "f \<in> F" by (rule table_fn_in [OF assms(2,3) i])
  have t0: "table cfg ?q {} ?s" by (rule table_cursor [OF assms(2) i])
  have i0: "i < length (listed ?q)" using i by simp
  let ?w1 = "list_event cfg p env ?q SCH_TRACE_TASK_START (of_nat i) (crit p w)"
  obtain q2 w2 where l2: "list_timed cfg p i start_at ?q ?w1 = (q2, w2)" by (metis surj_pair)
  from timed_table [OF t0 i0 l2] obtain s2 where s2:
    "timed cfg p i start_at ?s ?w1 = (s2, w2)" "table cfg q2 {} s2" "listed q2 = listed ?q" "grown F ?q q2" .
  have "ok w2" using timed_ok [OF event_ok [OF crit_ok [OF assms(4)]] l2] .
  obtain q3 w3 where l3: "act f (ctx ?t) q2 w2 = (q3, w3)" by (metis surj_pair)
  from actsD [OF assms(1) f(2) s2(2) \<open>ok w2\<close> l3] obtain s3 where
    s3: "call_task env f (ctx ?t) s2 w2 = Some (s3, w3)" "table cfg q3 {} s3" "ok w3" "grown F q2 q3" .
  have i3: "i < length (listed q3)" using table_grown [OF s3(4)] i0 s2(3) by simp
  obtain q4 w4 where l4: "list_timed cfg p i sch_stats_account q3 w3 = (q4, w4)" by (metis surj_pair)
  from timed_table [OF s3(2) i3 l4] obtain s4 where s4:
    "timed cfg p i sch_stats_account s3 w3 = (s4, w4)" "table cfg q4 {} s4" "listed q4 = listed q3" "grown F q3 q4" .
  have run: "sch_run_background cfg p env s w = Some (s4, list_event cfg p env q4 SCH_TRACE_TASK_END (of_nat i) w4)"
    using Cons f(1)
    by (simp add: run_background_eq [OF tableD(1) [OF assms(2)]] table_ring [OF assms(2)] background_slot_def
        instrumentation_eq event_table [OF t0] s2(1) table_nth(1) [OF assms(2) i] call_fn_def s3(1) s4(1) event_table [OF s4(2)])
  have "list_background cfg p env act (q, w) = (q4, list_event cfg p env q4 SCH_TRACE_TASK_END (of_nat i) w4)"
    using Cons f(1) by (simp add: list_background_def Let_def l2 l3 l4)
  moreover have "tasks_in F ?q" using assms(3) by (simp add: tasks_in_def)
  then have "tasks_in F q4" using s2(4) s3(4) s4(4) by (metis grown_tasks_in)
  moreover have "ok (list_event cfg p env q4 SCH_TRACE_TASK_END (of_nat i) w4)" by (rule event_ok [OF timed_ok [OF s3(3) l4]])
  ultimately show ?thesis using assms(5) run s4(2) by simp
qed

lemma run_table:
  assumes "acts cfg env ok act F" and "table cfg q {} s" and "tasks_in F q" and "ok w"
    and "list_run cfg p env act q w = (q', w')"
  shows "\<exists>s'. sch_run cfg p env (Some s) w = Some (Some s', w') \<and> table cfg q' {} s' \<and> ok w' \<and> tasks_in F q'"
proof -
  obtain now w1 where now: "crit_now p w = (now, w1)" by (metis surj_pair)
  let ?due = "due_order now (listed q)"
  have set: "set ?due = {i. i < length (listed q) \<and> is_due now (listed q ! i)}" by (rule set_due_order)
  have ok1: "ok w1" using crit_now_ok [OF assms(4)] now by simp
  have due: "distinct ?due" using distinct_dispatch_order [of "marked now s"] by (simp add: table_order [OF assms(2)])
  obtain q2 w2 where turns: "fold (list_turn cfg p env act now) ?due (q, w1) = (q2, w2)" by (metis surj_pair)
  have "set ?due \<subseteq> {..<length (listed q)}" by (auto simp: set)
  moreover have "table cfg q (set ?due) (marked now s)" using table_marked(1) [OF assms(2)] by (simp add: set)
  ultimately
  obtain s2 where s2: "dispatch_all cfg p env now ?due (marked now s) w1 = Some (s2, w2)" "table cfg q2 {} s2" "ok w2"
    "tasks_in F q2" using dispatch_turns [OF assms(1) _ assms(3) ok1 due refl _ turns] by blast
  let ?w2 = "if length ?due < SCH_MAX_TASKS then crit p w2 else w2"
  have "ok ?w2" using s2(3) crit_ok by simp
  moreover have "list_background cfg p env act (q2, ?w2) = (q', w')"
    using assms(5) by (simp add: list_run_def now turns)
  ultimately obtain s3 where s3: "sch_run_background cfg p env s2 ?w2 = Some (s3, w')" "table cfg q' {} s3" "ok w'" "tasks_in F q'"
    using background_turn [OF assms(1) s2(2,4)] by blast
  have "sch_run cfg p env (Some s) w = Some (Some s3, w')"
    using run_eq [OF tableD(1) [OF assms(2)] table_quiet [OF assms(2)] assms(4) now table_order [OF assms(2), symmetric], of cfg]
      s2(1) s3(1) by simp
  then show ?thesis using s3 by blast
qed

end

section \<open>Sequences of calls\<close>

text \<open>
  The calls of the API, and anything else that happens on the platform; the results that the caller
  sees. The statistics come with the contents of the structure that the caller passes for them.
\<close>

datatype ('f, 'c, 'h, 'w) sch_call =
    INIT
  | ADD_TASK "'f option" "'c option" u32 u32 u16
  | ENABLE_TASK u32 bool
  | RESET_STATS
  | GET_TASK_STATS u32 "sch_task_stats option"
  | SET_TRACE_HOOK "'h option" "'c option"
  | PLATFORM "'w \<Rightarrow> 'w"
  | RUN

datatype 'w sch_result = TASK_ID i32 | TASK_STATS bool "sch_task_stats option" | AFTER_RUN 'w

fun call_sch ::
  "sch_config \<Rightarrow> 'w port \<Rightarrow> ('f, 'c, 'h, 'w) sch_env \<Rightarrow> ('f, 'c, 'h, 'w) sch_call \<Rightarrow>
   ('f, 'c, 'h) sch option \<Rightarrow> 'w \<Rightarrow> ('w sch_result list \<times> ('f, 'c, 'h) sch option \<times> 'w) option" where
  "call_sch cfg p env INIT s w = Some (Pair [] (sch_init cfg p s w))"
| "call_sch cfg p env (ADD_TASK f c period delay prio) s w =
     (case sch_add_task cfg p s f c period delay prio w of (task_id, s, w) \<Rightarrow> Some ([TASK_ID task_id], s, w))"
| "call_sch cfg p env (ENABLE_TASK task_id enable) s w = Some ([], sch_enable_task s task_id enable, w)"
| "call_sch cfg p env RESET_STATS s w = Some (Pair [] (sch_reset_stats p s w))"
| "call_sch cfg p env (GET_TASK_STATS task_id out_stats) s w =
     (case sch_get_task_stats s task_id out_stats of (found, out_stats) \<Rightarrow> Some ([TASK_STATS found out_stats], s, w))"
| "call_sch cfg p env (SET_TRACE_HOOK hook user_ctx) s w = Some (Pair [] (sch_set_trace_hook p s hook user_ctx w))"
| "call_sch cfg p env (PLATFORM h) s w = Some ([], s, h w)"
| "call_sch cfg p env RUN s w = do { (s, w) \<leftarrow> sch_run cfg p env s w; Some ([AFTER_RUN w], s, w) }"

fun sch_calls ::
  "sch_config \<Rightarrow> 'w port \<Rightarrow> ('f, 'c, 'h, 'w) sch_env \<Rightarrow> ('f, 'c, 'h, 'w) sch_call list \<Rightarrow>
   ('f, 'c, 'h) sch option \<Rightarrow> 'w \<Rightarrow> ('w sch_result list) option" where
  "sch_calls cfg p env [] s w = Some []"
| "sch_calls cfg p env (call # calls) s w = do {
     (results, s, w) \<leftarrow> call_sch cfg p env call s w;
     more \<leftarrow> sch_calls cfg p env calls s w;
     Some (results @ more)
   }"

text \<open>The same calls on the list. A registration is refused when the list is as long as the table.\<close>

definition list_add ::
  "'w port \<Rightarrow> 'f option \<Rightarrow> 'c option \<Rightarrow> u32 \<Rightarrow> u32 \<Rightarrow> u16 \<Rightarrow> ('f, 'c, 'h) sch_list \<Rightarrow> 'w \<Rightarrow>
   i32 \<times> ('f, 'c, 'h) sch_list \<times> 'w" where
  "list_add p f c period delay prio q w =
     (if f = None then (SCH_ERR_INVALID_ARG, q, w)
      else if length (listed q) < SCH_MAX_TASKS
      then (case crit_now p w of (now, w) \<Rightarrow>
        (of_nat (length (listed q)),
         q\<lparr>listed := listed q @ [new_task f c period (now + delay) prio], listed_stats := listed_stats q @ [empty_stats]\<rparr>, w))
      else (SCH_ERR_NO_SPACE, q, crit p w))"

fun call_list ::
  "sch_config \<Rightarrow> 'w port \<Rightarrow> ('f, 'c, 'h, 'w) sch_env \<Rightarrow>
   ('f \<Rightarrow> 'c option \<Rightarrow> ('f, 'c, 'h) sch_list \<Rightarrow> 'w \<Rightarrow> ('f, 'c, 'h) sch_list \<times> 'w) \<Rightarrow>
   ('f, 'c, 'h, 'w) sch_call \<Rightarrow> ('f, 'c, 'h) sch_list \<Rightarrow> 'w \<Rightarrow>
   'w sch_result list \<times> ('f, 'c, 'h) sch_list \<times> 'w" where
  "call_list cfg p env act INIT q w = ([], empty_list, crit p w)"
| "call_list cfg p env act (ADD_TASK f c period delay prio) q w =
     (case list_add p f c period delay prio q w of (task_id, q, w) \<Rightarrow> ([TASK_ID task_id], q, w))"
| "call_list cfg p env act (ENABLE_TASK task_id enable) q w = ([], q, w)"
| "call_list cfg p env act RESET_STATS q w =
     ([], q\<lparr>listed_stats := replicate (length (listed q)) empty_stats\<rparr>, crit p w)"
| "call_list cfg p env act (GET_TASK_STATS task_id out_stats) q w =
     ([if out_stats \<noteq> None \<and> unat task_id < length (listed q)
       then TASK_STATS True (Some (listed_stats q ! unat task_id)) else TASK_STATS False out_stats], q, w)"
| "call_list cfg p env act (SET_TRACE_HOOK hook user_ctx) q w =
     ([], q\<lparr>tracer := map_option (\<lambda>h. (h, user_ctx)) hook\<rparr>, crit p w)"
| "call_list cfg p env act (PLATFORM h) q w = ([], q, h w)"
| "call_list cfg p env act RUN q w = (case list_run cfg p env act q w of (q, w) \<Rightarrow> ([AFTER_RUN w], q, w))"

fun list_calls ::
  "sch_config \<Rightarrow> 'w port \<Rightarrow> ('f, 'c, 'h, 'w) sch_env \<Rightarrow>
   ('f \<Rightarrow> 'c option \<Rightarrow> ('f, 'c, 'h) sch_list \<Rightarrow> 'w \<Rightarrow> ('f, 'c, 'h) sch_list \<times> 'w) \<Rightarrow>
   ('f, 'c, 'h, 'w) sch_call list \<Rightarrow> ('f, 'c, 'h) sch_list \<Rightarrow> 'w \<Rightarrow> 'w sch_result list" where
  "list_calls cfg p env act [] q w = []"
| "list_calls cfg p env act (call # calls) q w =
     (case call_list cfg p env act call q w of (results, q, w) \<Rightarrow> results @ list_calls cfg p env act calls q w)"

text \<open>
  What a sequence of calls registers, and does to the platform. A build without statistics or traces
  lacks their functions. A task may make all calls but two.
\<close>

fun call_allowed :: "sch_config \<Rightarrow> ('w \<Rightarrow> bool) \<Rightarrow> 'f set \<Rightarrow> ('f, 'c, 'h, 'w) sch_call \<Rightarrow> bool" where
  "call_allowed cfg ok F (ADD_TASK f c period delay prio) \<longleftrightarrow> (\<forall>g. f = Some g \<longrightarrow> g \<in> F)"
| "call_allowed cfg ok F (PLATFORM h) \<longleftrightarrow> (\<forall>w. ok w \<longrightarrow> ok (h w))"
| "call_allowed cfg ok F RESET_STATS \<longleftrightarrow> sch_enable_stats cfg"
| "call_allowed cfg ok F (GET_TASK_STATS task_id out_stats) \<longleftrightarrow> sch_enable_stats cfg"
| "call_allowed cfg ok F (SET_TRACE_HOOK hook user_ctx) \<longleftrightarrow> sch_enable_trace cfg"
| "call_allowed cfg ok F _ \<longleftrightarrow> True"

fun from_task :: "('f, 'c, 'h, 'w) sch_call \<Rightarrow> bool" where
  "from_task INIT \<longleftrightarrow> False"
| "from_task RUN \<longleftrightarrow> False"
| "from_task _ \<longleftrightarrow> True"

lemma add_table:
  assumes "table cfg q P s" and "length (listed q) < SCH_MAX_TASKS"
  shows "table cfg (q\<lparr>listed := listed q @ [new_task (Some f) c period r prio], listed_stats := listed_stats q @ [empty_stats]\<rparr>) P
    (add_at cfg (length (listed q)) (new_task (Some f) c period r prio) s)"
proof -
  let ?n = "length (listed q)" and ?t = "new_task (Some f) c period r prio"
  note wf = tableD(1) [OF assms(1)]
  have free: "free_slot s = Some ?n"
    using assms(2) table_used [OF assms(1)] by (simp add: free_slot_def find_upt_Some_iff)
  have "sch_wf (add_at cfg ?n ?t s)" by (rule add_at_wf [OF wf free]) simp_all
  moreover have "tasks (add_at cfg ?n ?t s) ! i = (if i = ?n then ?t else tasks s ! i)" if "i < SCH_MAX_TASKS" for i
    using that assms(2) wf by (simp add: add_at_def wf_lengths nth_list_update_if)
  moreover have "?t\<lparr>pending := ?n \<in> P\<rparr> = ?t" using tableD(8) [OF assms(1)] by (auto simp: new_task_def)
  moreover have "counted cfg (listed_stats q @ [empty_stats]) (add_at cfg ?n ?t s)"
    using assms(2) tableD(3,6) [OF assms(1)] wf
    by (auto simp: counted_def add_at_def wf_lengths nth_append nth_list_update_if less_Suc_eq)
  moreover have "traced cfg (tracer q) (add_at cfg ?n ?t s)"
    using tableD(7) [OF assms(1)] by (simp add: traced_def add_at_def)
  ultimately show ?thesis
    using assms by (auto simp: table_def nth_append less_Suc_eq add_at_def)
qed

lemma list_add_table:
  assumes "table cfg q P s" and "\<And>g. f = Some g \<Longrightarrow> g \<in> F" and "list_add p f c period delay prio q w = (task_id, q', w')"
  obtains s' where "sch_add_task cfg p (Some s) f c period delay prio w = (task_id, Some s', w')" "table cfg q' P s'" "grown F q q'"
    "w' = w \<or> w' = crit p w \<or> w' = snd (crit_now p w)"
proof -
  note wf = tableD(1) [OF assms(1)]
  have "\<exists>s'. sch_add_task cfg p (Some s) f c period delay prio w = (task_id, Some s', w') \<and> table cfg q' P s' \<and> grown F q q' \<and>
    (w' = w \<or> w' = crit p w \<or> w' = snd (crit_now p w))"
  proof (cases f)
    case None
    then show ?thesis using assms by (auto simp: sch_add_task_def list_add_def)
  next
    case (Some g)
    obtain now v where now: "crit_now p w = (now, v)" by (metis surj_pair)
    show ?thesis
    proof (cases "length (listed q) < SCH_MAX_TASKS")
      case True
      then have "free_slot s = Some (length (listed q))"
        using table_used [OF assms(1)] by (simp add: free_slot_def find_upt_Some_iff)
      then show ?thesis
        using assms(2,3) Some True now add_table [OF assms(1) True, of g c period "now + delay" prio]
        by (auto simp: list_add_def add_task_free [OF wf] grown_def new_task_def)
    next
      case False
      then have "free_slot s = None"
        using tableD(2) [OF assms(1)] table_used [OF assms(1)] by (simp add: free_slot_def find_upt_None_iff)
      then show ?thesis
        using assms(1,3) Some False by (auto simp: list_add_def add_task_full [OF wf])
    qed
  qed
  then show thesis using that by blast
qed

text \<open>The calls of a task, in any state of a run.\<close>

lemma call_table:
  assumes "table cfg q P s" and "from_task call" and "call_allowed cfg ok F call" and "ok w"
    and "\<And>v. ok v \<Longrightarrow> ok (crit p v) \<and> ok (snd (crit_now p v))"
    and "call_list cfg p env act call q w = (results, q', w')"
  shows "\<exists>s'. call_sch cfg p env call (Some s) w = Some (results, Some s', w') \<and> table cfg q' P s' \<and>
    grown F q q' \<and> ok w'"
proof (cases call)
  case (ADD_TASK f c period delay prio)
  obtain task_id q1 w1 where l: "list_add p f c period delay prio q w = (task_id, q1, w1)" by (metis prod_cases3)
  have "g \<in> F" if "f = Some g" for g using that assms(3) ADD_TASK by simp
  from list_add_table [OF assms(1) this l] obtain s' where
    "sch_add_task cfg p (Some s) f c period delay prio w = (task_id, Some s', w1)" "table cfg q1 P s'" "grown F q q1"
    "w1 = w \<or> w1 = crit p w \<or> w1 = snd (crit_now p w)" .
  then show ?thesis using assms(4,6) assms(5) [OF assms(4)] ADD_TASK l by auto
next
  case RESET_STATS
  have "sch_shape s" using tableD(1) [OF assms(1)] by (rule wf_shape)
  moreover have "table cfg (q\<lparr>listed_stats := replicate (length (listed q)) empty_stats\<rparr>) P
      (s\<lparr>stats := replicate SCH_MAX_TASKS empty_stats\<rparr>)"
    using assms(1) by (simp add: table_def sch_wf_def sch_shape_def counted_def traced_def)
  ultimately show ?thesis
    using assms(4,6) assms(5) [OF assms(4)] RESET_STATS by (auto simp: reset_stats_eq grown_def)
next
  case (GET_TASK_STATS task_id out_stats)
  then have on: "sch_enable_stats cfg" using assms(3) by simp
  have "of_nat SCH_MAX_TASKS \<le> task_id \<longleftrightarrow> SCH_MAX_TASKS \<le> unat task_id"
    by (simp add: word_le_nat_alt SCH_MAX_TASKS_def)
  then have "(\<not> of_nat SCH_MAX_TASKS \<le> task_id \<and> in_use (tasks s ! unat task_id)) \<longleftrightarrow> unat task_id < length (listed q)"
    using table_used [OF assms(1), of "unat task_id"] tableD(2) [OF assms(1)] by auto
  moreover have "stats s ! i = listed_stats q ! i" if "i < length (listed q)" for i
    using tableD(3,6) [OF assms(1)] on that by (simp add: counted_def)
  ultimately show ?thesis
    using assms(1,4,6) GET_TASK_STATS by (cases out_stats) (auto simp: sch_get_task_stats_def)
next
  case (SET_TRACE_HOOK hook user_ctx)
  have "table cfg (q\<lparr>tracer := map_option (\<lambda>h. (h, user_ctx)) hook\<rparr>) P (s\<lparr>trace_hook := hook, trace_user_ctx := user_ctx\<rparr>)"
    using assms(1,3) SET_TRACE_HOOK by (simp add: table_def sch_wf_def sch_shape_def counted_def traced_def)
  then show ?thesis
    using assms(4,6) assms(5) [OF assms(4)] SET_TRACE_HOOK by (auto simp: set_trace_hook_eq grown_def)
qed (use assms in \<open>auto simp: sch_enable_task_def\<close>)

context task_contract
begin

lemma sections_ok: "ok v \<Longrightarrow> ok (crit p v) \<and> ok (snd (crit_now p v))"
  by (simp add: crit_ok crit_now_ok)

lemma sch_calls_table:
  assumes "acts cfg env ok act F" and "list_all (call_allowed cfg ok F) calls" and "ok w" and "table cfg q {} s" and "tasks_in F q"
  shows "sch_calls cfg p env calls (Some s) w = Some (list_calls cfg p env act calls q w)"
  using assms(2-)
proof (induction calls arbitrary: q s w)
  case (Cons call calls)
  obtain results q' w' where l: "call_list cfg p env act call q w = (results, q', w')" by (metis prod_cases3)
  have "\<exists>s'. call_sch cfg p env call (Some s) w = Some (results, Some s', w') \<and> table cfg q' {} s' \<and> tasks_in F q' \<and> ok w'"
  proof (cases "from_task call")
    case True
    have "call_allowed cfg ok F call" using Cons.prems(1) by simp
    from call_table [OF Cons.prems(3) True this Cons.prems(2) sections_ok l] obtain s' where
      "call_sch cfg p env call (Some s) w = Some (results, Some s', w')" "table cfg q' {} s'" "grown F q q'" "ok w'" by blast
    then show ?thesis using grown_tasks_in [OF _ Cons.prems(4)] by blast
  next
    case False
    then consider "call = INIT" | "call = RUN" by (cases call) simp_all
    then show ?thesis
    proof cases
      case 1
      have "sch_shape s" using tableD(1) [OF Cons.prems(3)] by (rule wf_shape)
      then show ?thesis
        using l Cons.prems(2) crit_ok [of w] init_eq [of s cfg p w] table_empty [of s cfg]
        by (auto simp: 1 tasks_in_def empty_list_def)
    next
      case 2
      obtain q1 w1 where r: "list_run cfg p env act q w = (q1, w1)" by (metis surj_pair)
      from run_table [OF assms(1) Cons.prems(3,4,2) r] l show ?thesis by (auto simp: 2 r)
    qed
  qed
  then show ?case using Cons.IH Cons.prems(1) l by fastforce
qed simp

text \<open>From the initialisation on.\<close>

lemma sch_calls_list:
  assumes "acts cfg env ok act F" and "list_all (call_allowed cfg ok F) calls" and "ok w" and "sch_shape raw"
  shows "\<exists>s. sch_init cfg p (Some raw) w = (Some s, crit p w) \<and>
    sch_calls cfg p env calls (Some s) (crit p w) = Some (list_calls cfg p env act calls empty_list (crit p w))"
  using sch_calls_table [OF assms(1,2) crit_ok [OF assms(3)] table_empty [OF assms(4)]]
  by (simp add: init_eq [OF assms(4)] tasks_in_def empty_list_def)

end

end
