(* ===== verification/Scheduler_Tests.thy ===== *)
theory Scheduler_Tests
  imports Scheduler_Table Scheduler_Records
begin

text \<open>
  The tests of \<^verbatim>\<open>tests/unit/test_scheduler.c\<close> on the model, under the names they have there. A test
  sets up the scheduler in uninitialised memory and makes a sequence of calls; its lemma states the
  result of every call, those that the test asserts among them.
\<close>

section \<open>The application of the tests\<close>

fun bench_act ::
  "bench_fn \<Rightarrow> unit option \<Rightarrow> (bench_fn, unit, unit) sch_list \<Rightarrow> bench \<Rightarrow> (bench_fn, unit, unit) sch_list \<times> bench" where
  "bench_act TASK_A c q b = (q, b\<lparr>call_trace := call_trace b @ [TASK_A], fake_time_us := fake_time_us b + task_a_delay b\<rparr>)"
| "bench_act (REGISTER_TASK g period prio) c q b =
     snd (list_add test_port (Some g) None period 0 prio q (b\<lparr>call_trace := call_trace b @ [REGISTER_TASK g period prio]\<rparr>))"
| "bench_act f c q b = (q, b\<lparr>call_trace := call_trace b @ [f]\<rparr>)"

lemma bench_acts: "acts cfg (bench_env cfg) (\<lambda>b. True) bench_act UNIV"
  unfolding acts_def
proof (intro ballI allI impI, elim conjE)
  fix f c P b and q :: "(bench_fn, unit, unit) sch_list" and s
  assume t: "table cfg q P s"
  show "case bench_act f c q b of (q', b') \<Rightarrow>
      True \<and> grown UNIV q q' \<and> (\<exists>s'. call_task (bench_env cfg) f c s b = Some (s', b') \<and> table cfg q' P s')"
  proof (cases f)
    case (REGISTER_TASK g period prio)
    let ?b = "b\<lparr>call_trace := call_trace b @ [f]\<rparr>"
    obtain task_id q' b' where l: "list_add test_port (Some g) None period 0 prio q ?b = (task_id, q', b')"
      by (metis prod_cases3)
    have "h \<in> UNIV" if "Some g = Some h" for h by simp
    from list_add_table [OF t this l] obtain s' where
      "sch_add_task cfg test_port (Some s) (Some g) None period 0 prio ?b = (task_id, Some s', b')"
      "table cfg q' P s'" "grown UNIV q q'" .
    then show ?thesis using l by (simp add: REGISTER_TASK bench_env_def)
  qed (use t in \<open>simp_all add: bench_env_def\<close>)
qed

section \<open>The tests\<close>

datatype bench_result = ID i32 | STATS bool "sch_task_stats option" | SEEN "bench_fn list" u32 "sch_trace_event list"

fun bench_seen :: "bench sch_result \<Rightarrow> bench_result" where
  "bench_seen (TASK_ID i) = ID i"
| "bench_seen (TASK_STATS found st) = STATS found st"
| "bench_seen (AFTER_RUN b) = SEEN (call_trace b) (idle_call_count b) (map fst (trace_calls b))"

definition scheduler_test ::
  "(bench_fn, unit, unit) sch \<Rightarrow> (bench_fn, unit, unit, bench) sch_call list \<Rightarrow> bench_result list option" where
  "scheduler_test raw calls =
     (case sch_init all_on test_port (Some raw) bench_start of
        (s, b) \<Rightarrow> map_option (map bench_seen) (sch_calls all_on test_port (bench_env all_on) calls s b))"

lemma scheduler_test_eq:
  assumes "sch_shape raw" and "list_all (call_allowed all_on (\<lambda>b. True) UNIV) calls"
  shows "scheduler_test raw calls =
    Some (map bench_seen (list_calls all_on test_port (bench_env all_on) bench_act calls empty_list bench_start))"
  using bench_app.sch_calls_list [OF bench_acts assms(2) TrueI assms(1), of bench_start]
  by (auto simp: scheduler_test_def)

abbreviation at_time :: "u32 \<Rightarrow> (bench_fn, unit, unit, bench) sch_call" where
  "at_time t \<equiv> PLATFORM (\<lambda>b. b\<lparr>fake_time_us := t\<rparr>)"

lemmas list_evaluation =
  list_run_def list_turn_def list_background_def list_timed_def list_event_def upd_listed_def list_add_def empty_list_def
  trace_to_def due_order_def background_turns_def taken_def new_task_def
  is_due_def is_background_def sch_time_reached_def sch_advance_next_release_def key_le_iff SCH_MAX_TASKS_def Let_def all_on_def
  bench_env_def bench_start_def sch_stats_account_def empty_stats_def

lemma test_sch_add_task_should_reject_invalid_params:
  "sch_add_task all_on test_port None (Some TASK_A) None 1000 0 1 bench_start = (SCH_ERR_INVALID_ARG, None, bench_start)"
  "sch_shape raw \<Longrightarrow> scheduler_test raw [ADD_TASK None None 1000 0 1] = Some [ID SCH_ERR_INVALID_ARG]"
  by (simp add: sch_add_task_def) (simp add: scheduler_test_eq list_evaluation)

text \<open>The test also expects that the idle hook was not called; there is no background task, so it was.\<close>

lemma test_sch_run_should_execute_ready_tasks_by_priority:
  "sch_shape raw \<Longrightarrow> scheduler_test raw
     [ADD_TASK (Some TASK_B) None 1000 1000 10, ADD_TASK (Some TASK_A) None 1000 1000 0, at_time 1000, RUN] =
   Some [ID 0, ID 1, SEEN [TASK_A, TASK_B] 1 []]"
  by (simp add: scheduler_test_eq list_evaluation)

lemma test_sch_run_should_catch_up_missed_periods_without_duplicate_execution:
  "sch_shape raw \<Longrightarrow> scheduler_test raw
     [ADD_TASK (Some TASK_A) None 1000 1000 0, at_time 3500, RUN, at_time 3999, RUN, at_time 4000, RUN] =
   Some [ID 0, SEEN [TASK_A] 1 [], SEEN [TASK_A] 2 [], SEEN [TASK_A, TASK_A] 3 []]"
  by (simp add: scheduler_test_eq list_evaluation)

lemma test_sch_run_should_execute_one_background_task_when_no_periodic_ready:
  "sch_shape raw \<Longrightarrow> scheduler_test raw
     [ADD_TASK (Some BACKGROUND_TASK) None 0 0 20, ADD_TASK (Some TASK_A) None 1000 5000 0, at_time 1000, RUN] =
   Some [ID 0, ID 1, SEEN [BACKGROUND_TASK] 0 []]"
  by (simp add: scheduler_test_eq list_evaluation)

lemma test_sch_run_should_call_idle_when_nothing_to_execute:
  "sch_shape raw \<Longrightarrow> scheduler_test raw [RUN] = Some [SEEN [] 1 []]"
  by (simp add: scheduler_test_eq list_evaluation)

lemma test_sch_enable_task_should_not_disable_background_task:
  "sch_shape raw \<Longrightarrow> scheduler_test raw
     [ADD_TASK (Some BACKGROUND_TASK) None 0 0 0, ENABLE_TASK 0 False, RUN, RUN, ENABLE_TASK 0 False, RUN] =
   Some [ID 0, SEEN [BACKGROUND_TASK] 0 [], SEEN [BACKGROUND_TASK, BACKGROUND_TASK] 0 [],
     SEEN [BACKGROUND_TASK, BACKGROUND_TASK, BACKGROUND_TASK] 0 []]"
  by (simp add: scheduler_test_eq list_evaluation)

lemma test_sch_enable_task_should_not_disable_periodic_task:
  "sch_shape raw \<Longrightarrow> scheduler_test raw
     [ADD_TASK (Some TASK_A) None 1000 1000 0, ENABLE_TASK 0 False, at_time 1000, RUN, at_time 2000, RUN] =
   Some [ID 0, SEEN [TASK_A] 1 [], SEEN [TASK_A, TASK_A] 2 []]"
  by (simp add: scheduler_test_eq list_evaluation)

lemma test_sch_enable_task_should_behave_identically_for_true_and_false_flags:
  "sch_shape raw \<Longrightarrow> scheduler_test raw
     [ADD_TASK (Some TASK_A) None 1000 1000 0, ADD_TASK (Some BACKGROUND_TASK) None 0 0 10,
      ENABLE_TASK 0 True, ENABLE_TASK 1 False, at_time 1000, RUN,
      ENABLE_TASK 0 False, ENABLE_TASK 1 True, at_time 2000, RUN] =
   Some [ID 0, ID 1, SEEN [TASK_A, BACKGROUND_TASK] 0 [], SEEN [TASK_A, BACKGROUND_TASK, TASK_A, BACKGROUND_TASK] 0 []]"
  by (simp add: scheduler_test_eq list_evaluation)

text \<open>The hook of the test moves the clock by a period while the task runs.\<close>

lemma test_sch_run_should_bound_periodic_work_per_cycle:
  "sch_shape raw \<Longrightarrow> scheduler_test raw
     [ADD_TASK (Some TASK_A) None 100 100 0, PLATFORM (\<lambda>b. b\<lparr>task_a_delay := 100\<rparr>), at_time 100, RUN, RUN] =
   Some [ID 0, SEEN [TASK_A] 1 [], SEEN [TASK_A, TASK_A] 2 []]"
  by (simp add: scheduler_test_eq list_evaluation)

text \<open>The task runs for one period, and so into its next release.\<close>

lemma test_sch_stats_should_capture_task_execution_observability:
  "sch_shape raw \<Longrightarrow> scheduler_test raw
     [ADD_TASK (Some TASK_A) None 100 100 0, at_time 100, PLATFORM (\<lambda>b. b\<lparr>task_a_delay := 100\<rparr>), RUN,
      GET_TASK_STATS 0 (Some out_stats), RESET_STATS, GET_TASK_STATS 0 (Some out_stats), GET_TASK_STATS 1 (Some out_stats)] =
   Some [ID 0, SEEN [TASK_A] 1 [],
     STATS True (Some \<lparr>run_count = 1, miss_count = 0, overrun_count = 1, last_start_tick = 100, last_end_tick = 200,
       last_exec_ticks = 100, max_exec_ticks = 100, total_exec_ticks = 100\<rparr>),
     STATS True (Some empty_stats), STATS False (Some out_stats)]"
  by (simp add: scheduler_test_eq list_evaluation)

lemma test_sch_trace_should_emit_task_and_idle_events:
  "sch_shape raw \<Longrightarrow> scheduler_test raw
     [SET_TRACE_HOOK (Some ()) None, ADD_TASK (Some TASK_A) None 100 100 0, at_time 100, RUN,
      SET_TRACE_HOOK (Some ()) None, PLATFORM (\<lambda>b. b\<lparr>trace_calls := []\<rparr>), INIT, SET_TRACE_HOOK (Some ()) None, RUN] =
   Some [ID 0, SEEN [TASK_A] 1 [SCH_TRACE_TASK_START, SCH_TRACE_TASK_END, SCH_TRACE_IDLE], SEEN [TASK_A] 2 [SCH_TRACE_IDLE]]"
  by (simp add: scheduler_test_eq list_evaluation)

section \<open>Properties\<close>

text \<open>
  C4. The scheduler is a list of tasks sorted by priority. The tasks of the application act as \<open>act\<close>
  says: on the platform, and on the scheduler only by what the API offers to tasks, that is they may
  register tasks, read and reset the statistics and set the trace hook, but they do not run or
  initialise the scheduler; they return. What the application relies on is kept by the tasks, the
  port and whatever happens on the platform between calls. Then, initialised in any memory, on any platform and with any clock, the scheduler answers every
  sequence of calls of its API, with anything happening on the platform in between, exactly as the
  list scheduler does. A registration appends to the list, or is refused when there are as many tasks
  as slots or no function is given; an enable call does nothing; a new initialisation empties the
  list. A run calls the tasks whose release is reached when it begins, sorted by priority and then by
  age, moves their releases past that time, and then gives one background task its turn, or calls the
  idle hook if there is none; each call is accounted in the statistics of its task and shown to the
  trace hook, with the clock read then. The statistics are returned for the registered tasks and for
  no other identifier. No call is undefined.
\<close>

theorem sch_calls_refine:
  assumes "task_contract p env ok" and "acts cfg env ok act F"
    and "list_all (call_allowed cfg ok F) calls" and "ok w" and "sch_shape raw"
  shows "\<exists>s. sch_init cfg p (Some raw) w = (Some s, crit p w) \<and>
    sch_calls cfg p env calls (Some s) (crit p w) = Some (list_calls cfg p env act calls empty_list (crit p w))"
  using task_contract.sch_calls_list [OF assms] .

text \<open>
  On a target whose clock moves with every reading: two periodic tasks, one of which registers a
  background task while it runs, a registration without a function, three runs of which the last two
  are traced, the statistics of the first task, and a fresh start.
\<close>

fun reading_act ::
  "bench_fn \<Rightarrow> unit option \<Rightarrow> (bench_fn, unit, unit) sch_list \<Rightarrow> reading_bench \<Rightarrow>
   (bench_fn, unit, unit) sch_list \<times> reading_bench" where
  "reading_act (REGISTER_TASK g period prio) c q w = snd (list_add reading_port (Some g) None period 0 prio q w)"
| "reading_act f c q w = (q, snd (sch_port_now_ticks reading_port w))"

lemma reading_acts: "acts all_on reading_env (\<lambda>w. True) reading_act UNIV"
  unfolding acts_def
proof (intro ballI allI impI, elim conjE)
  fix f c P w and q :: "(bench_fn, unit, unit) sch_list" and s
  assume t: "table all_on q P s"
  show "case reading_act f c q w of (q', w') \<Rightarrow>
      True \<and> grown UNIV q q' \<and> (\<exists>s'. call_task reading_env f c s w = Some (s', w') \<and> table all_on q' P s')"
  proof (cases f)
    case (REGISTER_TASK g period prio)
    obtain task_id q' w' where l: "list_add reading_port (Some g) None period 0 prio q w = (task_id, q', w')"
      by (metis prod_cases3)
    have "h \<in> UNIV" if "Some g = Some h" for h by simp
    from list_add_table [OF t this l] obtain s' where
      "sch_add_task all_on reading_port (Some s) (Some g) None period 0 prio w = (task_id, Some s', w')"
      "table all_on q' P s'" "grown UNIV q q'" .
    then show ?thesis using l by (simp add: REGISTER_TASK reading_env_def)
  qed (use t in \<open>simp_all add: reading_env_def\<close>)
qed

lemma reading_contract: "task_contract reading_port reading_env (\<lambda>w. True)"
proof unfold_locales
  fix s :: "(bench_fn, unit, unit) sch" and w f and c :: "unit option"
  assume wf: "sch_wf s"
  show "\<exists>s' w'. call_task reading_env f c s w = Some (s', w') \<and> task_frame s s' \<and> True"
  proof (cases f)
    case (REGISTER_TASK g period prio)
    obtain task_id s' w' where r:
      "sch_add_task all_on reading_port (Some s) (Some g) None period 0 prio w = (task_id, Some s', w')"
      by (cases "free_slot s") (simp_all add: add_task_full [OF wf] add_task_free [OF wf])
    from add_task_frame [OF wf r] r show ?thesis by (simp add: REGISTER_TASK reading_env_def)
  qed (simp_all add: reading_env_def frame_refl [OF wf])
qed simp_all

fun reading_seen :: "reading_bench sch_result \<Rightarrow> i32 + bool \<times> sch_task_stats option + nat \<times> (sch_trace_event \<times> i32 \<times> u32) list" where
  "reading_seen (TASK_ID i) = Inl i"
| "reading_seen (TASK_STATS found st) = Inr (Inl (found, st))"
| "reading_seen (AFTER_RUN w) = Inr (Inr (readings_made w, events_seen w))"

abbreviation sample_calls :: "(bench_fn, unit, unit, reading_bench) sch_call list" where
  "sample_calls \<equiv>
     [ADD_TASK (Some TASK_B) None 200 0 10, ADD_TASK None None 1000 0 1,
      ADD_TASK (Some (REGISTER_TASK BACKGROUND_TASK 0 20)) None 1000 0 0, RUN, ENABLE_TASK 2 False,
      SET_TRACE_HOOK (Some ()) None, RUN, GET_TASK_STATS 0 (Some empty_stats), RESET_STATS,
      GET_TASK_STATS 2 (Some empty_stats), INIT, GET_TASK_STATS 0 None, RUN]"

abbreviation sample_seen :: "(i32 + bool \<times> sch_task_stats option + nat \<times> (sch_trace_event \<times> i32 \<times> u32) list) list" where
  "sample_seen \<equiv>
     (let events = [(SCH_TRACE_TASK_START, 0, 220), (SCH_TRACE_TASK_END, 0, 250),
        (SCH_TRACE_TASK_START, 2, 270), (SCH_TRACE_TASK_END, 2, 310)]
      in [Inl 0, Inl SCH_ERR_INVALID_ARG, Inl 1, Inr (Inr (20, [])), Inr (Inr (32, events)),
        Inr (Inl (True, Some (empty_stats\<lparr>run_count := 2, last_start_tick := 210, last_end_tick := 240,
          last_exec_ticks := 30, max_exec_ticks := 30, total_exec_ticks := 60\<rparr>))),
        Inr (Inl (True, Some empty_stats)), Inr (Inl (False, None)), Inr (Inr (34, events))])"

theorem sch_calls_refine_witness:
  "\<exists>s results. sch_init all_on reading_port (Some stale_sch) \<lparr>readings_made = 0, events_seen = []\<rparr> =
      (Some s, \<lparr>readings_made = 0, events_seen = []\<rparr>) \<and>
    sch_calls all_on reading_port reading_env sample_calls (Some s) \<lparr>readings_made = 0, events_seen = []\<rparr> = Some results \<and>
    map reading_seen results = sample_seen"
proof -
  let ?w = "\<lparr>readings_made = 0, events_seen = []\<rparr>"
  have allowed: "list_all (call_allowed all_on (\<lambda>w. True) UNIV) sample_calls" by (simp add: all_on_def)
  have crit: "crit reading_port ?w = ?w" by (simp add: crit_def reading_port_def)
  have seen: "map reading_seen (list_calls all_on reading_port reading_env reading_act sample_calls empty_list ?w) = sample_seen"
    by code_simp
  obtain s where s: "sch_init all_on reading_port (Some stale_sch) ?w = (Some s, crit reading_port ?w)"
    "sch_calls all_on reading_port reading_env sample_calls (Some s) (crit reading_port ?w) =
      Some (list_calls all_on reading_port reading_env reading_act sample_calls empty_list (crit reading_port ?w))"
    using sch_calls_refine [OF reading_contract reading_acts allowed TrueI stale_shape, of ?w] by (elim exE conjE)
  show ?thesis by (intro exI conjI, rule s(1) [unfolded crit], rule s(2) [unfolded crit], rule seen)
qed

end
