(* ===== verification/Polling_Tests.thy ===== *)
theory Polling_Tests
  imports Scheduler_Tests Ring_Trace
begin

text \<open>
  The tests of \<^verbatim>\<open>tests/unit/test_scheduler.c\<close> with a polling service, under the names they have there: a
  task that drains an event queue, and a producer and a consumer of its events. A test has one object
  of each kind, which its tasks reach through their contexts.
\<close>

section \<open>The application of the tests\<close>

record polling_service =
  service_queue :: sch_event_queue
  hint :: bool
  max_items_per_run :: size_t
  polls :: u32
  empty_returns :: u32
  processed_count :: u32
  last_event_id :: u32

record producer_task_ctx =
  next_event_id :: u16
  produce_count :: u32
  first_produced_tick :: u32
  last_produced_tick :: u32

record consumer_task_ctx =
  consume_count :: u32
  first_consumed_tick :: u32

record polling_bench = test_bench +
  the_service :: polling_service
  the_producer :: producer_task_ctx
  the_consumer :: consumer_task_ctx

text \<open>
  The field \<^verbatim>\<open>run_count\<close> of a polling service is \<open>polls\<close> here. The storage that a reset gives to the queue is a field of the service,
  with any contents.
\<close>

definition polling_service_reset ::
  "u8 list \<Rightarrow> size_t \<Rightarrow> polling_service \<Rightarrow> 'a test_bench_scheme \<Rightarrow> polling_service \<times> 'a test_bench_scheme" where
  "polling_service_reset storage_arg max_items service w =
     (let (ok, q, w) = sch_event_queue_init test_port (Some (service_queue service)) (Some storage_arg) 4
            SCH_OVERFLOW_DROP_NEWEST w
      in (service\<lparr>service_queue := the q, hint := False, max_items_per_run := max_items, polls := 0,
            empty_returns := 0, processed_count := 0, last_event_id := 0\<rparr>, w))"

definition polling_service_push_event ::
  "u16 \<Rightarrow> bool \<Rightarrow> polling_service \<Rightarrow> 'a test_bench_scheme \<Rightarrow> (polling_service \<times> 'a test_bench_scheme) option" where
  "polling_service_push_event event_id set_hint service w = do {
     (status, q, w) \<leftarrow> event_push test_port (service_queue service) event_id w;
     let service = service\<lparr>service_queue := q\<rparr>;
     Some (if set_hint then service\<lparr>hint := True\<rparr> else service, w)
   }"

definition polling_service_task ::
  "polling_service \<Rightarrow> 'a test_bench_scheme \<Rightarrow> (polling_service \<times> 'a test_bench_scheme) option" where
  "polling_service_task service w = do {
     let service = service\<lparr>polls := polls service + 1\<rparr>;
     let (nothing, w) =
       (if \<not> hint service
        then let (n, w) = sch_event_queue_size test_port (Some (service_queue service)) w in (n = 0, w)
        else (False, w));
     if nothing then Some (service\<lparr>empty_returns := empty_returns service + 1\<rparr>, w)
     else do {
       (service, event_id, w) \<leftarrow> drain_loop (unat (max_items_per_run service))
         (field_pop service_queue (\<lambda>q s. s\<lparr>service_queue := q\<rparr>) (event_pop test_port))
         (\<lambda>event_id s w. Some (True,
            s\<lparr>processed_count := processed_count s + 1, last_event_id := ucast event_id\<rparr>, w))
         (service\<lparr>hint := False\<rparr>) 0 w;
       Some (service, w)
     }
   }"

definition producer_task :: "polling_bench \<Rightarrow> polling_bench option" where
  "producer_task w = do {
     let event_id = next_event_id (the_producer w);
     let c = (the_producer w)\<lparr>next_event_id := next_event_id (the_producer w) + 1\<rparr>;
     (s, w) \<leftarrow> polling_service_push_event event_id False (the_service w) w;
     let c = c\<lparr>produce_count := produce_count c + 1\<rparr>;
     let c = (if first_produced_tick c = 0 then c\<lparr>first_produced_tick := fake_time_us w\<rparr> else c);
     Some (w\<lparr>the_service := s, the_producer := c\<lparr>last_produced_tick := fake_time_us w\<rparr>\<rparr>)
   }"

definition consumer_task :: "polling_bench \<Rightarrow> polling_bench option" where
  "consumer_task w = do {
     (ok, event_id, q, w) \<leftarrow> event_pop test_port (service_queue (the_service w)) 0 w;
     let w = w\<lparr>the_service := (the_service w)\<lparr>service_queue := q\<rparr>\<rparr>;
     if ok
     then let c = (the_consumer w)\<lparr>consume_count := consume_count (the_consumer w) + 1\<rparr> in
       Some (w\<lparr>the_consumer := (if first_consumed_tick c = 0 then c\<lparr>first_consumed_tick := fake_time_us w\<rparr> else c)\<rparr>)
     else Some w
   }"

datatype polling_fn = POLLING_SERVICE_TASK | PRODUCER_TASK | CONSUMER_TASK

fun polling_task :: "polling_fn \<Rightarrow> polling_bench \<Rightarrow> polling_bench option" where
  "polling_task POLLING_SERVICE_TASK w =
     map_option (\<lambda>(s, w). w\<lparr>the_service := s\<rparr>) (polling_service_task (the_service w) w)"
| "polling_task PRODUCER_TASK w = producer_task w"
| "polling_task CONSUMER_TASK w = consumer_task w"

definition polling_env :: "(polling_fn, unit, unit, polling_bench) sch_env" where
  "polling_env = \<lparr>call_task = (\<lambda>f c s w. map_option (Pair s) (polling_task f w)),
     call_hook = (\<lambda>h e i t c w. w)\<rparr>"

section \<open>The application meets the task contract\<close>

definition polling_ok :: "polling_bench \<Rightarrow> bool" where
  "polling_ok w \<longleftrightarrow> event_inv (service_queue (the_service w))"

lemma test_crit [simp]: "crit test_port w = w"
  by (simp add: crit_def test_port_def)

lemma polling_drain:
  assumes "event_inv (service_queue s)"
  shows "\<exists>s' x'. drain_loop n (field_pop service_queue (\<lambda>q s. s\<lparr>service_queue := q\<rparr>) (event_pop test_port))
      (\<lambda>event_id s w. Some (True, s\<lparr>processed_count := processed_count s + 1, last_event_id := ucast event_id\<rparr>, w)) s x w =
    Some (s', x', w) \<and> event_inv (service_queue s')"
  using assms
proof (induction n arbitrary: s x)
  case (Suc n)
  show ?case
  proof (cases "event_items (service_queue s)")
    case Nil
    then show ?thesis using Suc.prems by (simp add: field_pop_def events.pop_eq)
  next
    case (Cons y ys)
    then show ?thesis
      using Suc.prems Suc.IH [of "s\<lparr>service_queue := event_deq (service_queue s),
        processed_count := processed_count s + 1, last_event_id := ucast y\<rparr>" y]
      by (simp add: field_pop_def events.pop_eq events.invar_deq)
  qed
qed simp

lemma polling_returns:
  "polling_ok w \<Longrightarrow> \<exists>w'. polling_task f w = Some w' \<and> polling_ok w'"
proof (cases f)
  case POLLING_SERVICE_TASK
  assume "polling_ok w"
  then have inv: "event_inv (service_queue (the_service w))" by (simp add: polling_ok_def)
  then obtain s x where "drain_loop (unat (max_items_per_run (the_service w)))
      (field_pop service_queue (\<lambda>q s. s\<lparr>service_queue := q\<rparr>) (event_pop test_port))
      (\<lambda>event_id s w. Some (True, s\<lparr>processed_count := processed_count s + 1, last_event_id := ucast event_id\<rparr>, w))
      ((the_service w)\<lparr>polls := polls (the_service w) + 1, hint := False\<rparr>) 0 w = Some (s, x, w)"
    "event_inv (service_queue s)"
    using polling_drain [of "(the_service w)\<lparr>polls := polls (the_service w) + 1, hint := False\<rparr>"
        "unat (max_items_per_run (the_service w))" 0 w] by auto
  then show ?thesis
    using inv by (simp add: POLLING_SERVICE_TASK polling_ok_def polling_service_task_def event_size_refines Let_def)
next
  case PRODUCER_TASK
  assume "polling_ok w"
  then show ?thesis
    by (simp add: PRODUCER_TASK polling_ok_def producer_task_def polling_service_push_event_def events.push_eq
        events.invar_enq Let_def)
next
  case CONSUMER_TASK
  assume "polling_ok w"
  then show ?thesis
    by (simp add: CONSUMER_TASK polling_ok_def consumer_task_def events.pop_eq events.invar_deq Let_def)
qed

interpretation polling_app: task_contract test_port polling_env polling_ok
proof unfold_locales
  fix s :: "(polling_fn, unit, unit) sch" and w f and c :: "unit option"
  assume "sch_wf s" "polling_ok w"
  then show "\<exists>s' w'. call_task polling_env f c s w = Some (s', w') \<and> task_frame s s' \<and> polling_ok w'"
    using polling_returns [of w f] frame_refl [of s] by (auto simp: polling_env_def)
qed (simp_all add: polling_env_def polling_ok_def test_port_def)

definition polling_act ::
  "polling_fn \<Rightarrow> unit option \<Rightarrow> (polling_fn, unit, unit) sch_list \<Rightarrow> polling_bench \<Rightarrow>
   (polling_fn, unit, unit) sch_list \<times> polling_bench" where
  "polling_act f c q w = (q, the (polling_task f w))"

lemma polling_acts: "acts cfg polling_env polling_ok polling_act UNIV"
  unfolding polling_act_def
proof (rule acts_alone)
  fix f and c :: "unit option" and s :: "(polling_fn, unit, unit) sch" and w
  assume "polling_ok w"
  then obtain w' where "polling_task f w = Some w'" "polling_ok w'" using polling_returns by blast
  then show "call_task polling_env f c s w = Some (s, the (polling_task f w)) \<and> polling_ok (the (polling_task f w))"
    by (simp add: polling_env_def)
qed

section \<open>The tests\<close>

text \<open>Every test resets the service, and then makes its calls; what it asserts are numbers.\<close>

definition polling_start :: "size_t \<Rightarrow> polling_bench" where
  "polling_start max_items =
     (let w = \<lparr>fake_time_us = 0, idle_call_count = 0,
           the_service = \<lparr>service_queue = \<lparr>ring = raw_ring\<rparr>, hint = False, max_items_per_run = 0, polls = 0,
             empty_returns = 0, processed_count = 0, last_event_id = 0\<rparr>,
           the_producer = \<lparr>next_event_id = 1, produce_count = 0, first_produced_tick = 0, last_produced_tick = 0\<rparr>,
           the_consumer = \<lparr>consume_count = 0, first_consumed_tick = 0\<rparr>\<rparr>
      in (case polling_service_reset (replicate 8 165) max_items (the_service w) w of (s, w) \<Rightarrow> w\<lparr>the_service := s\<rparr>))"

definition push_event :: "u16 \<Rightarrow> bool \<Rightarrow> polling_bench \<Rightarrow> polling_bench" where
  "push_event event_id set_hint w =
     (case the (polling_service_push_event event_id set_hint (the_service w) w) of (s, w) \<Rightarrow> w\<lparr>the_service := s\<rparr>)"

fun polling_seen :: "(polling_bench \<Rightarrow> u32 list) \<Rightarrow> polling_bench sch_result \<Rightarrow> i32 + u32 list" where
  "polling_seen counters (TASK_ID i) = Inl i"
| "polling_seen counters (TASK_STATS found st) = Inr []"
| "polling_seen counters (AFTER_RUN w) = Inr (counters w)"

definition queue_size :: "polling_bench \<Rightarrow> u32" where
  "queue_size w = fst (sch_event_queue_size test_port (Some (service_queue (the_service w))) w)"

definition polling_test ::
  "(polling_fn, unit, unit) sch \<Rightarrow> size_t \<Rightarrow> (polling_bench \<Rightarrow> u32 list) \<Rightarrow>
   (polling_fn, unit, unit, polling_bench) sch_call list \<Rightarrow> (i32 + u32 list) list option" where
  "polling_test raw max_items counters calls =
     (case sch_init all_on test_port (Some raw) (polling_start max_items) of
        (s, w) \<Rightarrow> map_option (map (polling_seen counters)) (sch_calls all_on test_port polling_env calls s w))"

lemma polling_start_ok: "polling_ok (polling_start max_items)"
proof -
  have n: "unat (4 :: size_t) * 2 \<le> length (replicate 8 (165 :: u8))" "length (replicate 8 (165 :: u8)) < 2 ^ 32" by simp_all
  let ?w = "\<lparr>fake_time_us = 0, idle_call_count = 0,
           the_service = \<lparr>service_queue = \<lparr>ring = raw_ring\<rparr>, hint = False, max_items_per_run = 0, polls = 0,
             empty_returns = 0, processed_count = 0, last_event_id = 0\<rparr>,
           the_producer = \<lparr>next_event_id = 1, produce_count = 0, first_produced_tick = 0, last_produced_tick = 0\<rparr>,
           the_consumer = \<lparr>consume_count = 0, first_consumed_tick = 0\<rparr>\<rparr>"
  obtain q where "sch_event_queue_init test_port (Some \<lparr>ring = raw_ring\<rparr>) (Some (replicate 8 165)) 4
      SCH_OVERFLOW_DROP_NEWEST ?w = (True, Some q, crit test_port ?w)" "event_inv q"
    by (rule event_init_refines [OF _ _ n, of SCH_OVERFLOW_DROP_NEWEST test_port "\<lparr>ring = raw_ring\<rparr>" ?w]) simp_all
  then show ?thesis by (simp add: polling_start_def polling_service_reset_def polling_ok_def Let_def)
qed

lemma push_event_ok: "polling_ok w \<Longrightarrow> polling_ok (push_event event_id set_hint w)"
  by (simp add: polling_ok_def push_event_def polling_service_push_event_def events.push_eq events.invar_enq Let_def)

lemma polling_testI:
  assumes "sch_shape raw" and "list_all (call_allowed all_on polling_ok UNIV) calls"
    and "map (polling_seen counters) (list_calls all_on test_port polling_env polling_act calls empty_list (polling_start max_items)) = results"
  shows "polling_test raw max_items counters calls = Some results"
proof -
  from polling_app.sch_calls_list [OF polling_acts assms(2) polling_start_ok [of max_items] assms(1)]
  obtain s where "sch_init all_on test_port (Some raw) (polling_start max_items) = (Some s, polling_start max_items)"
    "sch_calls all_on test_port polling_env calls (Some s) (polling_start max_items) =
      Some (list_calls all_on test_port polling_env polling_act calls empty_list (polling_start max_items))"
    by (auto simp: test_crit)
  with assms(3) show ?thesis by (simp add: polling_test_def)
qed

abbreviation time :: "u32 \<Rightarrow> (polling_fn, unit, unit, polling_bench) sch_call" where
  "time t \<equiv> PLATFORM (\<lambda>w. w\<lparr>fake_time_us := t\<rparr>)"

lemma test_polling_service_should_run_periodically_and_return_cleanly_when_empty:
  "sch_shape raw \<Longrightarrow> polling_test raw 2
     (\<lambda>w. [polls (the_service w), empty_returns (the_service w), processed_count (the_service w), queue_size w])
     [ADD_TASK (Some POLLING_SERVICE_TASK) (Some ()) 1000 1000 5, time 1000, RUN, time 2000, RUN] =
   Some [Inl 0, Inr [1, 1, 0, 0], Inr [2, 2, 0, 0]]"
  by (erule polling_testI) (simp add: polling_ok_def, code_simp)

lemma test_polling_service_should_defer_backlog_across_periodic_runs_with_bounded_work:
  "sch_shape raw \<Longrightarrow> polling_test raw 1
     (\<lambda>w. [polls (the_service w), processed_count (the_service w), last_event_id (the_service w), queue_size w])
     [PLATFORM (push_event 10 False), PLATFORM (push_event 11 False),
      ADD_TASK (Some POLLING_SERVICE_TASK) (Some ()) 1000 1000 5, time 1000, RUN, time 2000, RUN] =
   Some [Inl 0, Inr [1, 1, 10, 1], Inr [2, 2, 11, 0]]"
  by (erule polling_testI) (simp add: push_event_ok, simp add: polling_ok_def, code_simp)

lemma test_polling_service_should_treat_hint_as_advisory_only:
  "sch_shape raw \<Longrightarrow> polling_test raw 2
     (\<lambda>w. [polls (the_service w), processed_count (the_service w), last_event_id (the_service w), of_bool (hint (the_service w))])
     [ADD_TASK (Some POLLING_SERVICE_TASK) (Some ()) 1000 1000 5,
      PLATFORM (\<lambda>w. w\<lparr>the_service := (the_service w)\<lparr>hint := True\<rparr>\<rparr>), time 1000, RUN,
      PLATFORM (push_event 55 False), time 2000, RUN] =
   Some [Inl 0, Inr [1, 0, 0, 0], Inr [2, 1, 55, 0]]"
  by (erule polling_testI) (simp add: push_event_ok, simp add: polling_ok_def, code_simp)

lemma test_polling_service_latency_should_be_bounded_by_one_period_when_consumer_runs_before_producer:
  "sch_shape raw \<Longrightarrow> polling_test raw 1
     (\<lambda>w. [produce_count (the_producer w), consume_count (the_consumer w), queue_size w,
        first_produced_tick (the_producer w), first_consumed_tick (the_consumer w)])
     [ADD_TASK (Some CONSUMER_TASK) (Some ()) 1000 1000 0, ADD_TASK (Some PRODUCER_TASK) (Some ()) 1000 1000 1,
      time 1000, RUN, time 2000, RUN] =
   Some [Inl 0, Inl 1, Inr [1, 0, 1, 1000, 0], Inr [2, 1, 1, 1000, 2000]]"
  by (erule polling_testI) (simp add: polling_ok_def, code_simp)

end
