(* ===== verification/Service_Script.thy ===== *)
theory Service_Script
  imports Irq_Service
begin

text \<open>
  Scripts: sequences of calls to a service, of what a test asserts of it and of the counters of its
  fakes. A service is compared with a view of it, the lists and counters a client thinks in, on
  which every call is a function; the answers to every script are then those of the view.
\<close>

section \<open>Scripts\<close>

datatype answer = VOID | NUMBER u32 | TRUTH bool

fun script :: "('c \<Rightarrow> 's \<Rightarrow> 'w \<Rightarrow> (answer \<times> 's \<times> 'w) option) \<Rightarrow> 'c list \<Rightarrow> 's \<Rightarrow> 'w \<Rightarrow> answer list option" where
  "script call [] s w = Some []"
| "script call (c # cs) s w = do {
     (answer, s, w) \<leftarrow> call c s w;
     answers \<leftarrow> script call cs s w;
     Some (answer # answers)
   }"

fun view_script :: "('c \<Rightarrow> 'v \<Rightarrow> 'w \<Rightarrow> answer \<times> 'v \<times> 'w) \<Rightarrow> 'c list \<Rightarrow> 'v \<Rightarrow> 'w \<Rightarrow> answer list" where
  "view_script step [] v w = []"
| "view_script step (c # cs) v w = (case step c v w of (answer, v, w) \<Rightarrow> answer # view_script step cs v w)"

locale scripted =
  fixes call :: "'c \<Rightarrow> 's \<Rightarrow> 'w \<Rightarrow> (answer \<times> 's \<times> 'w) option"
    and offered :: "'c \<Rightarrow> bool"
    and invar :: "'s \<Rightarrow> bool"
    and still :: "'w \<Rightarrow> bool"
    and view :: "'s \<Rightarrow> 'v"
    and step :: "'c \<Rightarrow> 'v \<Rightarrow> 'w \<Rightarrow> answer \<times> 'v \<times> 'w"
  assumes call_steps: "offered c \<Longrightarrow> invar s \<Longrightarrow> still w \<Longrightarrow> step c (view s) w = (answer, v, w') \<Longrightarrow>
    \<exists>s'. call c s w = Some (answer, s', w') \<and> invar s' \<and> view s' = v \<and> still w'"
begin

lemma script_steps:
  "list_all offered cs \<Longrightarrow> invar s \<Longrightarrow> still w \<Longrightarrow> script call cs s w = Some (view_script step cs (view s) w)"
proof (induction cs arbitrary: s w)
  case (Cons c cs)
  obtain answer v w' where step: "step c (view s) w = (answer, v, w')" by (metis surj_pair)
  from call_steps [OF _ Cons.prems(2,3) step] Cons.prems(1) obtain s' where
    s': "call c s w = Some (answer, s', w')" "invar s'" "view s' = v" "still w'" by auto
  with Cons.IH [OF _ s'(2,4)] Cons.prems(1) step show ?case by simp
qed simp

end

text \<open>A loop of a test whose rounds leave the view as it was.\<close>

lemma script_loop:
  assumes "\<And>i w rest. view_script step (round i @ rest) v w = answers @ view_script step rest v (g w)"
  shows "view_script step (concat (map round rounds) @ rest) v w =
    concat (replicate (length rounds) answers) @ view_script step rest v ((g ^^ length rounds) w)"
  by (induction rounds arbitrary: w) (simp_all add: assms funpow_swap1)

section \<open>The platform of the service tests\<close>

text \<open>The port counts the sections that are open; the fakes of a service extend it with their counters.\<close>

record fakes =
  critical_depth :: u32

definition fake_port :: "'a fakes_scheme port" where
  "fake_port = \<lparr>sch_port_now_ticks = (\<lambda>w. (0, w)),
     sch_port_enter_critical = (\<lambda>w. (critical_depth w + 1, w\<lparr>critical_depth := critical_depth w + 1\<rparr>)),
     sch_port_exit_critical = (\<lambda>state w. if 0 < critical_depth w then w\<lparr>critical_depth := critical_depth w - 1\<rparr> else w),
     sch_port_idle = (\<lambda>w. w)\<rparr>"

definition outside :: "'a fakes_scheme \<Rightarrow> bool" where
  "outside w \<longleftrightarrow> critical_depth w = 0"

lemma fake_crit [simp]: "outside w \<Longrightarrow> crit fake_port w = w"
  by (simp add: crit_def fake_port_def outside_def)

lemma fake_section:
  "outside w \<Longrightarrow> sch_port_exit_critical fake_port (fst (sch_port_enter_critical fake_port w))
     (snd (sch_port_enter_critical fake_port w)) = w"
  using fake_crit [of w] by (simp add: crit_def split_beta del: fake_crit)

text \<open>Draining a queue into a callback outside the critical sections.\<close>

lemma fake_drain:
  "outside w \<Longrightarrow> (\<And>x v. outside v \<Longrightarrow> outside (eff x v)) \<Longrightarrow>
     drain_world (crit fake_port) eff n xs w = fold eff (take n xs) w \<and> outside (fold eff (take n xs) w)"
proof (induction n arbitrary: xs w)
  case (Suc n)
  then show ?case by (cases xs) simp_all
qed simp

lemma fake_discard: "outside w \<Longrightarrow> drain_world (crit fake_port) (\<lambda>x w. w) n xs w = w"
proof (induction n arbitrary: xs)
  case (Suc n)
  then show ?case by (cases xs) simp_all
qed simp

lemma fake_service:
  assumes "outside w" and "\<And>x v. outside v \<Longrightarrow> outside (eff x v)"
  shows "service_world (crit fake_port) eff n hinted xs w = fold eff (take n xs) w" and "outside (fold eff (take n xs) w)"
  using fake_drain [of w eff n xs, OF assms] assms(1) by (auto simp: service_world_def)

end
