(* ===== verification/Fsi_Tests.thy ===== *)
theory Fsi_Tests
  imports Fsi_Service Service_Script
begin

text \<open>
  The tests of the FSI service in \<^verbatim>\<open>tests/unit/test_service_module_contracts.c\<close> and
  \<^verbatim>\<open>tests/unit/test_service_shared_state.c\<close> on the model, under the names they have there.
\<close>

section \<open>The fakes\<close>

record fsi_fakes = fakes +
  fsi_ack_count :: u32
  fsi_rx_count :: u32
  fsi_tx_count :: u32
  fsi_err_count :: u32

definition fsi_fake_hal :: "(unit, fsi_fakes) sch_fsi_hal" where
  "fsi_fake_hal =
     \<lparr>ack_irq = Some (\<lambda>c tag ch w. w\<lparr>fsi_ack_count := fsi_ack_count w + 1\<rparr>),
      service_rx_frame = Some (\<lambda>c r w. (True, w\<lparr>fsi_rx_count := fsi_rx_count w + 1\<rparr>)),
      service_tx_complete = Some (\<lambda>c r w. (True, w\<lparr>fsi_tx_count := fsi_tx_count w + 1\<rparr>)),
      service_error = Some (\<lambda>c r w. (True, w\<lparr>fsi_err_count := fsi_err_count w + 1\<rparr>)),
      hal_ctx = None\<rparr>"

definition fsi_fakes_start :: fsi_fakes where
  "fsi_fakes_start = \<lparr>critical_depth = 0, fsi_ack_count = 0, fsi_rx_count = 0, fsi_tx_count = 0, fsi_err_count = 0\<rparr>"

section \<open>The calls of the tests\<close>

datatype fsi_test_call =
    FSI_INIT size_t size_t
  | FSI_ISR fsi_interrupt
  | FSI_RUN
  | FSI_SIZE
  | FSI_DROPS
  | FSI_BITS
  | FSI_COUNT "fsi_fakes \<Rightarrow> u32"

text \<open>The storage passed to an initialisation is large enough and its contents do not matter.\<close>

definition fsi_test_init ::
  "size_t \<Rightarrow> size_t \<Rightarrow> (unit, fsi_fakes) sch_fsi_service \<Rightarrow> fsi_fakes \<Rightarrow>
   bool \<times> (unit, fsi_fakes) sch_fsi_service option \<times> fsi_fakes" where
  "fsi_test_init cap budget s w =
     sch_fsi_service_init fake_port (Some s) (Some fsi_fake_hal) (Some (replicate (8 * unat cap) 165)) cap budget
       SCH_OVERFLOW_DROP_NEWEST w"

fun fsi_call ::
  "fsi_test_call \<Rightarrow> (unit, fsi_fakes) sch_fsi_service \<Rightarrow> fsi_fakes \<Rightarrow>
   (answer \<times> (unit, fsi_fakes) sch_fsi_service \<times> fsi_fakes) option" where
  "fsi_call (FSI_INIT cap budget) s w =
     (case fsi_test_init cap budget s w of (ok, s', w) \<Rightarrow> Some (TRUTH ok, the s', w))"
| "fsi_call (FSI_ISR e) s w = map_option (Pair VOID) (fsi_isr_at fake_port e s w)"
| "fsi_call FSI_RUN s w = map_option (Pair VOID) (fsi_run_at fake_port s w)"
| "fsi_call FSI_SIZE s w =
     (case sch_spsc_ring_size fake_port (Some (irq_records s)) w of (n, w) \<Rightarrow> Some (NUMBER n, s, w))"
| "fsi_call FSI_DROPS s w =
     (case sch_fsi_service_drop_count fake_port (Some s) w of (n, w) \<Rightarrow> Some (NUMBER n, s, w))"
| "fsi_call FSI_BITS s w = Some (NUMBER (event_bits s), s, w)"
| "fsi_call (FSI_COUNT counter) s w = Some (NUMBER (counter w), s, w)"

section \<open>The view\<close>

text \<open>The capacity, the budget, the records held, the number given up, the event bits.\<close>

type_synonym fsi_view = "nat \<times> nat \<times> sch_fsi_irq_record list \<times> size_t \<times> u32"

definition fsi_view :: "(unit, fsi_fakes) sch_fsi_service \<Rightarrow> fsi_view" where
  "fsi_view s = (ring_bound (irq_records s), unat (max_records_per_run s), fsi_items s, drops (irq_records s), event_bits s)"

fun fsi_view_step :: "fsi_test_call \<Rightarrow> fsi_view \<Rightarrow> fsi_fakes \<Rightarrow> answer \<times> fsi_view \<times> fsi_fakes" where
  "fsi_view_step (FSI_INIT cap budget) v w = (TRUTH True, (unat cap, unat budget, [], 0, 0), w)"
| "fsi_view_step (FSI_ISR e) (b, n, xs, d, bits) w =
     (VOID, (b, n, bounded_push b True xs (fsi_record e), if length xs = b then d + 1 else d, bits OR fsi_interrupt_bit e),
      w\<lparr>fsi_ack_count := fsi_ack_count w + 1\<rparr>)"
| "fsi_view_step FSI_RUN (b, n, xs, d, bits) w =
     (VOID, (b, n, drop n xs, d, 0), fold (fsi_dispatch fsi_fake_hal) (take n xs) w)"
| "fsi_view_step FSI_SIZE (b, n, xs, d, bits) w = (NUMBER (of_nat (length xs)), (b, n, xs, d, bits), w)"
| "fsi_view_step FSI_DROPS (b, n, xs, d, bits) w = (NUMBER d, (b, n, xs, d, bits), w)"
| "fsi_view_step FSI_BITS (b, n, xs, d, bits) w = (NUMBER bits, (b, n, xs, d, bits), w)"
| "fsi_view_step (FSI_COUNT counter) v w = (NUMBER (counter w), v, w)"

fun fsi_offered :: "fsi_test_call \<Rightarrow> bool" where
  "fsi_offered (FSI_INIT cap budget) \<longleftrightarrow> 0 < cap \<and> cap < 2 ^ 16 \<and> 0 < budget"
| "fsi_offered c \<longleftrightarrow> True"

definition fsi_tested :: "(unit, fsi_fakes) sch_fsi_service \<Rightarrow> bool" where
  "fsi_tested s \<longleftrightarrow> fsi_inv s \<and> hal s = fsi_fake_hal \<and> ring_newest (irq_records s)"

lemma fsi_fake_dispatch_eq:
  "fsi_dispatch fsi_fake_hal x w =
     (if irq_tag x = 1 then w\<lparr>fsi_rx_count := fsi_rx_count w + 1\<rparr>
      else if irq_tag x = 2 then w\<lparr>fsi_tx_count := fsi_tx_count w + 1\<rparr>
      else if irq_tag x = 3 then w\<lparr>fsi_err_count := fsi_err_count w + 1\<rparr> else w)"
  by (simp add: fsi_dispatch_def fsi_fake_hal_def Let_def)

lemma fsi_fake_dispatch: "outside w \<Longrightarrow> outside (fsi_dispatch fsi_fake_hal x w)"
  by (simp add: fsi_fake_dispatch_eq outside_def)

lemma fsi_test_init_ok:
  assumes "0 < cap" and "cap < 2 ^ 16" and "0 < budget" and "outside w"
  shows "\<exists>s'. fsi_test_init cap budget s w = (True, Some s', w) \<and> fsi_tested s' \<and>
    fsi_view s' = (unat cap, unat budget, [], 0, 0)"
proof -
  have cap: "unat cap < 2 ^ 16" using assms(2) by (simp add: word_less_nat_alt)
  obtain s' where "fsi_test_init cap budget s w = (True, Some s', crit fake_port w)" "fsi_inv s'" "fsi_items s' = []"
    "event_bits s' = 0" "hal s' = fsi_fake_hal" "ring_bound (irq_records s') = unat cap" "drops (irq_records s') = 0"
    "ring_newest (irq_records s')" "max_records_per_run s' = budget"
    unfolding fsi_test_init_def
    by (rule fsi_init_ok [of budget cap SCH_OVERFLOW_DROP_NEWEST "replicate (8 * unat cap) 165" fake_port s fsi_fake_hal w])
      (use assms cap in simp_all)
  then show ?thesis using assms(4) by (simp add: fsi_tested_def fsi_view_def)
qed

lemma fsi_test_steps:
  assumes "fsi_offered c" and "fsi_tested s" and "outside w" and "fsi_view_step c (fsi_view s) w = (answer, v, w')"
  shows "\<exists>s'. fsi_call c s w = Some (answer, s', w') \<and> fsi_tested s' \<and> fsi_view s' = v \<and> outside w'"
proof -
  have inv: "fsi_inv s" "typed_inv sizeof_fsi_record (irq_records s)" "ring_inv (irq_records s)" "hal s = fsi_fake_hal"
    "ring_newest (irq_records s)" using assms(2) by (auto simp: fsi_tested_def fsi_inv_def typed_inv_def)
  have ack: "fsi_ack s tag ch w = w\<lparr>fsi_ack_count := fsi_ack_count w + 1\<rparr>" for tag ch
    by (simp add: fsi_ack_def inv(4) fsi_fake_hal_def)
  have calls: "outside (w\<lparr>fsi_ack_count := fsi_ack_count w + 1\<rparr>)" using assms(3) by (simp add: outside_def)
  note run = fake_service [of w "fsi_dispatch fsi_fake_hal", OF assms(3) fsi_fake_dispatch]
  show ?thesis
  proof (cases c)
    case (FSI_INIT cap budget)
    then show ?thesis using assms(1,3,4) fsi_test_init_ok [of cap budget w s] by auto
  next
    case (FSI_ISR e)
    then show ?thesis
      using assms(2,4) inv calls fsi_ring.enq_refines [OF inv(2), of "fsi_record e"]
      by (auto simp: fsi_isr_eq ack fsi_view_def fsi_tested_def fsi_inv_def fsi_items_def)
  next
    case FSI_RUN
    then show ?thesis
      using assms(2-4) inv fsi_ring.queue.deqs_keep [OF inv(2)] run
      by (auto simp: fsi_run_eq fsi_view_def fsi_tested_def fsi_inv_def fsi_items_def drop_min_typed)
  next
    case FSI_SIZE
    then show ?thesis using assms by (auto simp: ring_size_refines [OF inv(3)] fsi_view_def fsi_items_def)
  next
    case FSI_DROPS
    then show ?thesis
      using assms by (auto simp: sch_fsi_service_drop_count_def ring_drop_count_refines [OF inv(3)] fsi_view_def)
  qed (use assms in \<open>auto simp: fsi_view_def\<close>)
qed

interpretation fsi_script: scripted fsi_call fsi_offered fsi_tested outside fsi_view fsi_view_step
  by unfold_locales (rule fsi_test_steps)

section \<open>The tests\<close>

definition fsi_test ::
  "(unit, fsi_fakes) sch_fsi_service \<Rightarrow> size_t \<Rightarrow> size_t \<Rightarrow> fsi_test_call list \<Rightarrow> answer list option" where
  "fsi_test raw cap budget calls =
     (case fsi_test_init cap budget raw fsi_fakes_start of
        (ok, s, w) \<Rightarrow> if ok then script fsi_call calls (the s) w else None)"

lemma fsi_test_eq:
  assumes "0 < cap" and "cap < 2 ^ 16" and "0 < budget" and "list_all fsi_offered calls"
  shows "fsi_test raw cap budget calls =
    Some (view_script fsi_view_step calls (unat cap, unat budget, [], 0, 0) fsi_fakes_start)"
proof -
  have start: "outside fsi_fakes_start" by (simp add: outside_def fsi_fakes_start_def)
  obtain s where s: "fsi_test_init cap budget raw fsi_fakes_start = (True, Some s, fsi_fakes_start)" "fsi_tested s"
    "fsi_view s = (unat cap, unat budget, [], 0, 0)"
    using fsi_test_init_ok [OF assms(1-3) start, of raw] by auto
  show ?thesis using fsi_script.script_steps [OF assms(4) s(2) start] by (simp add: fsi_test_def s)
qed

lemmas fsi_evaluation = fsi_test_eq fsi_fakes_start_def fsi_fake_dispatch_eq bounded_push_def c_consts

lemma test_fsi_contract_init_validation_and_hint_enqueue_and_bounded_and_empty_and_drop:
  "\<not> fst (sch_fsi_service_init p None (Some h) st 3 1 mode w)"
  "\<not> fst (sch_fsi_service_init p service None st 3 1 mode w)"
  "\<not> fst (sch_fsi_service_init p service (Some h) st 3 0 mode w)"
  "fsi_test raw 3 2
     [FSI_RUN, FSI_COUNT fsi_rx_count, FSI_COUNT fsi_tx_count, FSI_COUNT fsi_err_count,
      FSI_ISR (FSI_RX 1 2 3), FSI_ISR (FSI_TX 1 2 3), FSI_ISR (FSI_ERROR 1 4), FSI_BITS, FSI_SIZE, FSI_COUNT fsi_ack_count,
      FSI_RUN, FSI_COUNT fsi_rx_count, FSI_COUNT fsi_tx_count, FSI_COUNT fsi_err_count, FSI_SIZE,
      FSI_RUN, FSI_COUNT fsi_err_count,
      FSI_INIT 2 2, FSI_ISR (FSI_RX 1 1 1), FSI_ISR (FSI_TX 1 1 1), FSI_ISR (FSI_ERROR 1 1), FSI_DROPS] =
   Some [VOID, NUMBER 0, NUMBER 0, NUMBER 0,
      VOID, VOID, VOID, NUMBER (SCH_FSI_EVENT_BIT_RX OR SCH_FSI_EVENT_BIT_TX OR SCH_FSI_EVENT_BIT_ERROR), NUMBER 3, NUMBER 3,
      VOID, NUMBER 1, NUMBER 1, NUMBER 0, NUMBER 1, VOID, NUMBER 1, TRUTH True, VOID, VOID, VOID, NUMBER 1]"
  by (simp_all add: fsi_init_iff) (simp add: fsi_evaluation)

text \<open>A round of the loop of the second test leaves nothing queued.\<close>

definition fsi_served :: "fsi_fakes \<Rightarrow> fsi_fakes" where
  "fsi_served w = w\<lparr>fsi_ack_count := fsi_ack_count w + 3, fsi_rx_count := fsi_rx_count w + 1,
     fsi_tx_count := fsi_tx_count w + 1, fsi_err_count := fsi_err_count w + 1\<rparr>"

lemma fsi_served_times:
  "(fsi_served ^^ n) w = w\<lparr>fsi_ack_count := fsi_ack_count w + 3 * of_nat n, fsi_rx_count := fsi_rx_count w + of_nat n,
     fsi_tx_count := fsi_tx_count w + of_nat n, fsi_err_count := fsi_err_count w + of_nat n\<rparr>"
  by (induction n) (simp_all add: fsi_served_def algebra_simps)

definition fsi_test_round :: "nat \<Rightarrow> fsi_test_call list" where
  "fsi_test_round i =
     [FSI_RUN, FSI_ISR (FSI_RX (of_nat i) (of_nat i + 1) 0x10), FSI_ISR (FSI_TX (of_nat i) (of_nat i + 2) 0x20),
      FSI_ISR (FSI_ERROR (of_nat i) 0x40), FSI_RUN, FSI_RUN]"

lemma test_fsi_event_bits_should_not_drop_records_during_repeated_isr_task_alternation:
  "fsi_test raw 128 2
     (concat (map fsi_test_round [0..<40]) @ concat (map (\<lambda>i. [FSI_RUN]) [0..<20]) @
      [FSI_COUNT fsi_ack_count, FSI_COUNT fsi_rx_count, FSI_COUNT fsi_tx_count, FSI_COUNT fsi_err_count,
       FSI_SIZE, FSI_DROPS]) =
   Some (concat (replicate 40 [VOID, VOID, VOID, VOID, VOID, VOID]) @ concat (replicate 20 [VOID]) @
      [NUMBER 120, NUMBER 40, NUMBER 40, NUMBER 40, NUMBER 0, NUMBER 0])"
proof -
  let ?v = "(128, 2, [], 0, 0)"
  have round: "view_script fsi_view_step (fsi_test_round i @ rest) ?v w =
      [VOID, VOID, VOID, VOID, VOID, VOID] @ view_script fsi_view_step rest ?v (fsi_served w)" for i rest w
    by (simp add: fsi_evaluation fsi_test_round_def fsi_served_def add.commute)
  have "view_script fsi_view_step (([FSI_RUN] :: fsi_test_call list) @ rest) ?v w =
      [VOID] @ view_script fsi_view_step rest ?v (id w)" for rest w
    by simp
  from script_loop [where round = "\<lambda>i. [FSI_RUN]" and g = id and rounds = "[0..<20]", OF this]
  have idle: "view_script fsi_view_step (map (\<lambda>i. FSI_RUN) [0..<20] @ rest) ?v w =
      replicate 20 VOID @ view_script fsi_view_step rest ?v w" for rest w
    by simp
  show ?thesis
    by (subst fsi_test_eq)
      (auto simp: list_all_iff fsi_test_round_def, simp add: script_loop [OF round] idle fsi_served_times fsi_fakes_start_def)
qed

end
