(* ===== verification/Ipc_Tests.thy ===== *)
theory Ipc_Tests
  imports Ipc_Service Service_Script
begin

text \<open>
  The test of the IPC service in \<^verbatim>\<open>tests/unit/test_service_module_contracts.c\<close> on the model, under
  the name it has there.
\<close>

section \<open>The fakes\<close>

record ipc_fakes = fakes +
  ipc_ack_count :: u32
  ipc_notify_count :: u32
  ipc_service_ack_count :: u32
  ipc_fault_count :: u32

definition ipc_fake_hal :: "(unit, ipc_fakes) sch_ipc_hal" where
  "ipc_fake_hal =
     \<lparr>ack_irq = Some (\<lambda>c tag ch w. w\<lparr>ipc_ack_count := ipc_ack_count w + 1\<rparr>),
      service_notify = Some (\<lambda>c r w. (True, w\<lparr>ipc_notify_count := ipc_notify_count w + 1\<rparr>)),
      service_ack = Some (\<lambda>c r w. (True, w\<lparr>ipc_service_ack_count := ipc_service_ack_count w + 1\<rparr>)),
      service_fault = Some (\<lambda>c r w. (True, w\<lparr>ipc_fault_count := ipc_fault_count w + 1\<rparr>)),
      hal_ctx = None\<rparr>"

definition ipc_fakes_start :: ipc_fakes where
  "ipc_fakes_start = \<lparr>critical_depth = 0, ipc_ack_count = 0, ipc_notify_count = 0, ipc_service_ack_count = 0, ipc_fault_count = 0\<rparr>"

section \<open>The calls of the test\<close>

datatype ipc_test_call =
    IPC_INIT size_t size_t
  | IPC_ISR ipc_interrupt
  | IPC_RUN
  | IPC_SIZE
  | IPC_DROPS
  | IPC_BITS
  | IPC_COUNT "ipc_fakes \<Rightarrow> u32"

text \<open>The storage passed to an initialisation is large enough and its contents do not matter.\<close>

definition ipc_test_init ::
  "size_t \<Rightarrow> size_t \<Rightarrow> (unit, ipc_fakes) sch_ipc_service \<Rightarrow> ipc_fakes \<Rightarrow>
   bool \<times> (unit, ipc_fakes) sch_ipc_service option \<times> ipc_fakes" where
  "ipc_test_init cap budget s w =
     sch_ipc_service_init fake_port (Some s) (Some ipc_fake_hal) (Some (replicate (8 * unat cap) 165)) cap budget
       SCH_OVERFLOW_DROP_NEWEST w"

fun ipc_call ::
  "ipc_test_call \<Rightarrow> (unit, ipc_fakes) sch_ipc_service \<Rightarrow> ipc_fakes \<Rightarrow>
   (answer \<times> (unit, ipc_fakes) sch_ipc_service \<times> ipc_fakes) option" where
  "ipc_call (IPC_INIT cap budget) s w =
     (case ipc_test_init cap budget s w of (ok, s', w) \<Rightarrow> Some (TRUTH ok, the s', w))"
| "ipc_call (IPC_ISR e) s w = map_option (Pair VOID) (ipc_isr_at fake_port e s w)"
| "ipc_call IPC_RUN s w = map_option (Pair VOID) (ipc_run_at fake_port s w)"
| "ipc_call IPC_SIZE s w =
     (case sch_spsc_ring_size fake_port (Some (irq_records s)) w of (n, w) \<Rightarrow> Some (NUMBER n, s, w))"
| "ipc_call IPC_DROPS s w =
     (case sch_ipc_service_drop_count fake_port (Some s) w of (n, w) \<Rightarrow> Some (NUMBER n, s, w))"
| "ipc_call IPC_BITS s w = Some (NUMBER (event_bits s), s, w)"
| "ipc_call (IPC_COUNT counter) s w = Some (NUMBER (counter w), s, w)"

section \<open>The view\<close>

text \<open>The capacity, the budget, the records held, the number given up, the event bits.\<close>

type_synonym ipc_view = "nat \<times> nat \<times> sch_ipc_irq_record list \<times> size_t \<times> u32"

definition ipc_view :: "(unit, ipc_fakes) sch_ipc_service \<Rightarrow> ipc_view" where
  "ipc_view s = (ring_bound (irq_records s), unat (max_records_per_run s), ipc_items s, drops (irq_records s), event_bits s)"

fun ipc_view_step :: "ipc_test_call \<Rightarrow> ipc_view \<Rightarrow> ipc_fakes \<Rightarrow> answer \<times> ipc_view \<times> ipc_fakes" where
  "ipc_view_step (IPC_INIT cap budget) v w = (TRUTH True, (unat cap, unat budget, [], 0, 0), w)"
| "ipc_view_step (IPC_ISR e) (b, n, xs, d, bits) w =
     (VOID, (b, n, bounded_push b True xs (ipc_record e), if length xs = b then d + 1 else d, bits OR ipc_interrupt_bit e),
      w\<lparr>ipc_ack_count := ipc_ack_count w + 1\<rparr>)"
| "ipc_view_step IPC_RUN (b, n, xs, d, bits) w =
     (VOID, (b, n, drop n xs, d, 0), fold (ipc_dispatch ipc_fake_hal) (take n xs) w)"
| "ipc_view_step IPC_SIZE (b, n, xs, d, bits) w = (NUMBER (of_nat (length xs)), (b, n, xs, d, bits), w)"
| "ipc_view_step IPC_DROPS (b, n, xs, d, bits) w = (NUMBER d, (b, n, xs, d, bits), w)"
| "ipc_view_step IPC_BITS (b, n, xs, d, bits) w = (NUMBER bits, (b, n, xs, d, bits), w)"
| "ipc_view_step (IPC_COUNT counter) v w = (NUMBER (counter w), v, w)"

fun ipc_offered :: "ipc_test_call \<Rightarrow> bool" where
  "ipc_offered (IPC_INIT cap budget) \<longleftrightarrow> 0 < cap \<and> cap < 2 ^ 16 \<and> 0 < budget"
| "ipc_offered c \<longleftrightarrow> True"

definition ipc_tested :: "(unit, ipc_fakes) sch_ipc_service \<Rightarrow> bool" where
  "ipc_tested s \<longleftrightarrow> ipc_inv s \<and> hal s = ipc_fake_hal \<and> ring_newest (irq_records s)"

lemma ipc_fake_dispatch_eq:
  "ipc_dispatch ipc_fake_hal x w =
     (if irq_tag x = 1 then w\<lparr>ipc_notify_count := ipc_notify_count w + 1\<rparr>
      else if irq_tag x = 2 then w\<lparr>ipc_service_ack_count := ipc_service_ack_count w + 1\<rparr>
      else if irq_tag x = 3 then w\<lparr>ipc_fault_count := ipc_fault_count w + 1\<rparr> else w)"
  by (simp add: ipc_dispatch_def ipc_fake_hal_def Let_def)

lemma ipc_fake_dispatch: "outside w \<Longrightarrow> outside (ipc_dispatch ipc_fake_hal x w)"
  by (simp add: ipc_fake_dispatch_eq outside_def)

lemma ipc_test_init_ok:
  assumes "0 < cap" and "cap < 2 ^ 16" and "0 < budget" and "outside w"
  shows "\<exists>s'. ipc_test_init cap budget s w = (True, Some s', w) \<and> ipc_tested s' \<and>
    ipc_view s' = (unat cap, unat budget, [], 0, 0)"
proof -
  have cap: "unat cap < 2 ^ 16" using assms(2) by (simp add: word_less_nat_alt)
  obtain s' where "ipc_test_init cap budget s w = (True, Some s', crit fake_port w)" "ipc_inv s'" "ipc_items s' = []"
    "event_bits s' = 0" "hal s' = ipc_fake_hal" "ring_bound (irq_records s') = unat cap" "drops (irq_records s') = 0"
    "ring_newest (irq_records s')" "max_records_per_run s' = budget"
    unfolding ipc_test_init_def
    by (rule ipc_init_ok [of budget cap SCH_OVERFLOW_DROP_NEWEST "replicate (8 * unat cap) 165" fake_port s ipc_fake_hal w])
      (use assms cap in simp_all)
  then show ?thesis using assms(4) by (simp add: ipc_tested_def ipc_view_def)
qed

lemma ipc_test_steps:
  assumes "ipc_offered c" and "ipc_tested s" and "outside w" and "ipc_view_step c (ipc_view s) w = (answer, v, w')"
  shows "\<exists>s'. ipc_call c s w = Some (answer, s', w') \<and> ipc_tested s' \<and> ipc_view s' = v \<and> outside w'"
proof -
  have inv: "ipc_inv s" "typed_inv sizeof_ipc_record (irq_records s)" "ring_inv (irq_records s)" "hal s = ipc_fake_hal"
    "ring_newest (irq_records s)" using assms(2) by (auto simp: ipc_tested_def ipc_inv_def typed_inv_def)
  have ack: "ipc_ack s tag ch w = w\<lparr>ipc_ack_count := ipc_ack_count w + 1\<rparr>" for tag ch
    by (simp add: ipc_ack_def inv(4) ipc_fake_hal_def)
  have calls: "outside (w\<lparr>ipc_ack_count := ipc_ack_count w + 1\<rparr>)" using assms(3) by (simp add: outside_def)
  note run = fake_service [of w "ipc_dispatch ipc_fake_hal", OF assms(3) ipc_fake_dispatch]
  show ?thesis
  proof (cases c)
    case (IPC_INIT cap budget)
    then show ?thesis using assms(1,3,4) ipc_test_init_ok [of cap budget w s] by auto
  next
    case (IPC_ISR e)
    then show ?thesis
      using assms(2,4) inv calls ipc_ring.enq_refines [OF inv(2), of "ipc_record e"]
      by (auto simp: ipc_isr_eq ack ipc_view_def ipc_tested_def ipc_inv_def ipc_items_def)
  next
    case IPC_RUN
    then show ?thesis
      using assms(2-4) inv ipc_ring.queue.deqs_keep [OF inv(2)] run
      by (auto simp: ipc_run_eq ipc_view_def ipc_tested_def ipc_inv_def ipc_items_def drop_min_typed)
  next
    case IPC_SIZE
    then show ?thesis using assms by (auto simp: ring_size_refines [OF inv(3)] ipc_view_def ipc_items_def)
  next
    case IPC_DROPS
    then show ?thesis
      using assms by (auto simp: sch_ipc_service_drop_count_def ring_drop_count_refines [OF inv(3)] ipc_view_def)
  qed (use assms in \<open>auto simp: ipc_view_def\<close>)
qed

interpretation ipc_script: scripted ipc_call ipc_offered ipc_tested outside ipc_view ipc_view_step
  by unfold_locales (rule ipc_test_steps)

section \<open>The test\<close>

definition ipc_test ::
  "(unit, ipc_fakes) sch_ipc_service \<Rightarrow> size_t \<Rightarrow> size_t \<Rightarrow> ipc_test_call list \<Rightarrow> answer list option" where
  "ipc_test raw cap budget calls =
     (case ipc_test_init cap budget raw ipc_fakes_start of
        (ok, s, w) \<Rightarrow> if ok then script ipc_call calls (the s) w else None)"

lemma ipc_test_eq:
  assumes "0 < cap" and "cap < 2 ^ 16" and "0 < budget" and "list_all ipc_offered calls"
  shows "ipc_test raw cap budget calls =
    Some (view_script ipc_view_step calls (unat cap, unat budget, [], 0, 0) ipc_fakes_start)"
proof -
  have start: "outside ipc_fakes_start" by (simp add: outside_def ipc_fakes_start_def)
  obtain s where s: "ipc_test_init cap budget raw ipc_fakes_start = (True, Some s, ipc_fakes_start)" "ipc_tested s"
    "ipc_view s = (unat cap, unat budget, [], 0, 0)"
    using ipc_test_init_ok [OF assms(1-3) start, of raw] by auto
  show ?thesis using ipc_script.script_steps [OF assms(4) s(2) start] by (simp add: ipc_test_def s)
qed

lemmas ipc_evaluation = ipc_test_eq ipc_fakes_start_def ipc_fake_dispatch_eq bounded_push_def c_consts

lemma test_ipc_contract_init_validation_and_hint_enqueue_and_bounded_and_empty_and_drop:
  "\<not> fst (sch_ipc_service_init p None (Some h) st 3 1 mode w)"
  "\<not> fst (sch_ipc_service_init p service None st 3 1 mode w)"
  "\<not> fst (sch_ipc_service_init p service (Some h) st 3 0 mode w)"
  "ipc_test raw 3 2
     [IPC_RUN, IPC_COUNT ipc_notify_count, IPC_COUNT ipc_service_ack_count, IPC_COUNT ipc_fault_count,
      IPC_ISR (IPC_NOTIFY 1 1 1), IPC_ISR (IPC_ACK 1 1 2), IPC_ISR (IPC_FAULT 1 3 2), IPC_BITS, IPC_SIZE, IPC_COUNT ipc_ack_count,
      IPC_RUN, IPC_COUNT ipc_notify_count, IPC_COUNT ipc_service_ack_count, IPC_COUNT ipc_fault_count, IPC_SIZE,
      IPC_RUN, IPC_COUNT ipc_fault_count,
      IPC_INIT 2 2, IPC_ISR (IPC_NOTIFY 1 1 1), IPC_ISR (IPC_ACK 1 1 1), IPC_ISR (IPC_FAULT 1 1 1), IPC_DROPS] =
   Some [VOID, NUMBER 0, NUMBER 0, NUMBER 0,
      VOID, VOID, VOID, NUMBER (SCH_IPC_EVENT_BIT_NOTIFY OR SCH_IPC_EVENT_BIT_ACK OR SCH_IPC_EVENT_BIT_FAULT), NUMBER 3, NUMBER 3,
      VOID, NUMBER 1, NUMBER 1, NUMBER 0, NUMBER 1, VOID, NUMBER 1, TRUTH True, VOID, VOID, VOID, NUMBER 1]"
  by (simp_all add: ipc_init_iff) (simp add: ipc_evaluation)

end
