(* ===== verification/Eth_Tests.thy ===== *)
theory Eth_Tests
  imports Ethernet_Service Service_Script
begin

text \<open>
  The tests of the Ethernet service in \<^verbatim>\<open>tests/unit/test_service_module_contracts.c\<close> and
  \<^verbatim>\<open>tests/unit/test_service_shared_state.c\<close> on the model, under the names they have there.
\<close>

section \<open>The fakes\<close>

record eth_fakes = fakes +
  eth_ack_count :: u32
  eth_rx_count :: u32
  eth_tx_count :: u32
  eth_link_count :: u32

definition eth_fake_hal :: "(unit, eth_fakes) sch_eth_hal" where
  "eth_fake_hal =
     \<lparr>ack_irq = Some (\<lambda>c w. w\<lparr>eth_ack_count := eth_ack_count w + 1\<rparr>),
      fetch_rx_descriptor = Some (\<lambda>c d w. (True, ucast (eth_rx_count w), w\<lparr>eth_rx_count := eth_rx_count w + 1\<rparr>)),
      complete_tx_descriptor = Some (\<lambda>c d w. (True, ucast (eth_tx_count w), w\<lparr>eth_tx_count := eth_tx_count w + 1\<rparr>)),
      service_link_state = Some (\<lambda>c w. (True, w\<lparr>eth_link_count := eth_link_count w + 1\<rparr>)),
      hal_ctx = None\<rparr>"

definition eth_fakes_start :: eth_fakes where
  "eth_fakes_start = \<lparr>critical_depth = 0, eth_ack_count = 0, eth_rx_count = 0, eth_tx_count = 0, eth_link_count = 0\<rparr>"

section \<open>The calls of the tests\<close>

datatype eth_test_call =
    ETH_INIT size_t size_t
  | ETH_ISR eth_interrupt
  | ETH_RUN
  | ETH_SIZE
  | ETH_DROPS
  | ETH_HINT
  | ETH_COUNT "eth_fakes \<Rightarrow> u32"

text \<open>The storage passed to an initialisation is large enough and its contents do not matter.\<close>

definition eth_test_init ::
  "size_t \<Rightarrow> size_t \<Rightarrow> (unit, eth_fakes) sch_eth_service \<Rightarrow> eth_fakes \<Rightarrow>
   bool \<times> (unit, eth_fakes) sch_eth_service option \<times> eth_fakes" where
  "eth_test_init cap budget s w =
     sch_eth_service_init fake_port (Some s) (Some eth_fake_hal) (Some (replicate (2 * unat cap) 165)) cap budget w"

fun eth_call ::
  "eth_test_call \<Rightarrow> (unit, eth_fakes) sch_eth_service \<Rightarrow> eth_fakes \<Rightarrow>
   (answer \<times> (unit, eth_fakes) sch_eth_service \<times> eth_fakes) option" where
  "eth_call (ETH_INIT cap budget) s w =
     (case eth_test_init cap budget s w of (ok, s', w) \<Rightarrow> Some (TRUTH ok, the s', w))"
| "eth_call (ETH_ISR e) s w = map_option (Pair VOID) (eth_isr_at fake_port e s w)"
| "eth_call ETH_RUN s w = map_option (Pair VOID) (eth_run_at fake_port s w)"
| "eth_call ETH_SIZE s w =
     (case sch_event_queue_size fake_port (Some (event_queue s)) w of (n, w) \<Rightarrow> Some (NUMBER n, s, w))"
| "eth_call ETH_DROPS s w =
     (case sch_event_queue_drop_count fake_port (Some (event_queue s)) w of (n, w) \<Rightarrow> Some (NUMBER n, s, w))"
| "eth_call ETH_HINT s w = Some (TRUTH (irq_hint s), s, w)"
| "eth_call (ETH_COUNT counter) s w = Some (NUMBER (counter w), s, w)"

section \<open>The view\<close>

text \<open>The capacity, the budget, the events held, the number given up, the hint.\<close>

type_synonym eth_view = "nat \<times> nat \<times> u16 list \<times> size_t \<times> bool"

definition eth_view :: "(unit, eth_fakes) sch_eth_service \<Rightarrow> eth_view" where
  "eth_view s = (ring_bound (ring (event_queue s)), unat (max_events_per_run s), eth_items s,
     drops (ring (event_queue s)), irq_hint s)"

fun eth_view_step :: "eth_test_call \<Rightarrow> eth_view \<Rightarrow> eth_fakes \<Rightarrow> answer \<times> eth_view \<times> eth_fakes" where
  "eth_view_step (ETH_INIT cap budget) v w =
     (TRUTH True, (unat cap, unat budget, [], 0, False), w)"
| "eth_view_step (ETH_ISR e) (b, n, xs, d, h) w =
     (VOID, (b, n, bounded_push b False xs (eth_event e), if length xs = b then d + 1 else d, True),
      w\<lparr>eth_ack_count := eth_ack_count w + 1\<rparr>)"
| "eth_view_step ETH_RUN (b, n, xs, d, h) w =
     (VOID, (b, n, drop n xs, d, False), fold (eth_dispatch eth_fake_hal) (take n xs) w)"
| "eth_view_step ETH_SIZE (b, n, xs, d, h) w = (NUMBER (of_nat (length xs)), (b, n, xs, d, h), w)"
| "eth_view_step ETH_DROPS (b, n, xs, d, h) w = (NUMBER d, (b, n, xs, d, h), w)"
| "eth_view_step ETH_HINT (b, n, xs, d, h) w = (TRUTH h, (b, n, xs, d, h), w)"
| "eth_view_step (ETH_COUNT counter) v w = (NUMBER (counter w), v, w)"

fun eth_offered :: "eth_test_call \<Rightarrow> bool" where
  "eth_offered (ETH_INIT cap budget) \<longleftrightarrow> 0 < cap \<and> cap < 2 ^ 16 \<and> 0 < budget"
| "eth_offered c \<longleftrightarrow> True"

definition eth_tested :: "(unit, eth_fakes) sch_eth_service \<Rightarrow> bool" where
  "eth_tested s \<longleftrightarrow> eth_inv s \<and> hal s = eth_fake_hal"

lemma eth_fake_dispatch: "outside w \<Longrightarrow> outside (eth_dispatch eth_fake_hal x w)"
  by (simp add: eth_dispatch_def eth_fake_hal_def outside_def)

lemma eth_test_init_ok:
  assumes "0 < cap" and "cap < 2 ^ 16" and "0 < budget" and "outside w"
  shows "\<exists>s'. eth_test_init cap budget s w = (True, Some s', w) \<and> eth_tested s' \<and>
    eth_view s' = (unat cap, unat budget, [], 0, False)"
proof -
  have cap: "unat cap < 2 ^ 16" using assms(2) by (simp add: word_less_nat_alt)
  obtain s' where "eth_test_init cap budget s w = (True, Some s', crit fake_port w)" "eth_inv s'" "eth_items s' = []"
    "\<not> irq_hint s'" "hal s' = eth_fake_hal" "ring_bound (ring (event_queue s')) = unat cap"
    "drops (ring (event_queue s')) = 0" "max_events_per_run s' = budget"
    unfolding eth_test_init_def
    by (rule eth_init_ok [of eth_fake_hal _ budget cap "replicate (2 * unat cap) 165" fake_port s w])
      (use assms cap in \<open>simp_all add: eth_fake_hal_def\<close>)
  then show ?thesis using assms(4) by (simp add: eth_tested_def eth_view_def)
qed

lemma eth_test_steps:
  assumes "eth_offered c" and "eth_tested s" and "outside w" and "eth_view_step c (eth_view s) w = (answer, v, w')"
  shows "\<exists>s'. eth_call c s w = Some (answer, s', w') \<and> eth_tested s' \<and> eth_view s' = v \<and> outside w'"
proof -
  have inv: "eth_inv s" "event_inv (event_queue s)" "hal s = eth_fake_hal" "\<not> ring_newest (ring (event_queue s))"
    using assms(2) by (auto simp: eth_tested_def eth_inv_def)
  have ack: "eth_ack s w = w\<lparr>eth_ack_count := eth_ack_count w + 1\<rparr>"
    by (simp add: eth_ack_def inv(3) eth_fake_hal_def)
  have calls: "outside (w\<lparr>eth_ack_count := eth_ack_count w + 1\<rparr>)" using assms(3) by (simp add: outside_def)
  note run = fake_service [of w "eth_dispatch eth_fake_hal", OF assms(3) eth_fake_dispatch]
  show ?thesis
  proof (cases c)
    case (ETH_INIT cap budget)
    then show ?thesis using assms(1,3,4) eth_test_init_ok [of cap budget w s] by auto
  next
    case (ETH_ISR e)
    then show ?thesis
      using assms(2,4) inv calls events.enq_simps [OF inv(2), of "eth_event e"]
      by (auto simp: eth_isr_eq ack eth_view_def eth_tested_def eth_inv_def eth_items_def)
  next
    case ETH_RUN
    then show ?thesis
      using assms(2-4) inv events.deqs_keep [OF inv(2)] run
      by (auto simp: eth_run_eq eth_view_def eth_tested_def eth_inv_def eth_items_def drop_min)
  next
    case ETH_SIZE
    then show ?thesis
      using assms by (auto simp: event_size_refines [OF inv(2)] eth_view_def eth_items_def event_items_def)
  next
    case ETH_DROPS
    then show ?thesis
      using assms inv(2)
      by (auto simp: sch_event_queue_drop_count_def ring_drop_count_refines event_inv_def typed_inv_def eth_view_def)
  qed (use assms in \<open>auto simp: eth_view_def\<close>)
qed

interpretation eth_script: scripted eth_call eth_offered eth_tested outside eth_view eth_view_step
  by unfold_locales (rule eth_test_steps)

section \<open>The tests\<close>

definition eth_test ::
  "(unit, eth_fakes) sch_eth_service \<Rightarrow> size_t \<Rightarrow> size_t \<Rightarrow> eth_test_call list \<Rightarrow> answer list option" where
  "eth_test raw cap budget calls =
     (case eth_test_init cap budget raw eth_fakes_start of
        (ok, s, w) \<Rightarrow> if ok then script eth_call calls (the s) w else None)"

lemma eth_test_eq:
  assumes "0 < cap" and "cap < 2 ^ 16" and "0 < budget" and "list_all eth_offered calls"
  shows "eth_test raw cap budget calls =
    Some (view_script eth_view_step calls (unat cap, unat budget, [], 0, False) eth_fakes_start)"
proof -
  have start: "outside eth_fakes_start" by (simp add: outside_def eth_fakes_start_def)
  obtain s where s: "eth_test_init cap budget raw eth_fakes_start = (True, Some s, eth_fakes_start)" "eth_tested s"
    "eth_view s = (unat cap, unat budget, [], 0, False)"
    using eth_test_init_ok [OF assms(1-3) start, of raw] by auto
  show ?thesis using eth_script.script_steps [OF assms(4) s(2) start] by (simp add: eth_test_def s)
qed

lemmas eth_evaluation = eth_test_eq eth_fakes_start_def eth_dispatch_def eth_fake_hal_def bounded_push_def

text \<open>
  The last two counters show what the code does: the queue gives up the receive event, so the run
  calls \<^verbatim>\<open>complete_tx_descriptor\<close> a second time. The test expects the counter to be 1.
\<close>

lemma test_eth_contract_init_validation_and_hint_enqueue_and_bounded_and_empty_and_drop:
  "\<not> fst (sch_eth_service_init p None (Some h) st 3 1 w)"
  "\<not> fst (sch_eth_service_init p service None st 3 1 w)"
  "\<not> fst (sch_eth_service_init p service (Some (h\<lparr>ack_irq := None\<rparr>)) st 3 1 w)"
  "\<not> fst (sch_eth_service_init p service (Some h) st 3 0 w)"
  "eth_test raw 3 2
     [ETH_RUN, ETH_COUNT eth_rx_count, ETH_COUNT eth_tx_count, ETH_COUNT eth_link_count,
      ETH_ISR ETH_RX, ETH_ISR ETH_TX, ETH_ISR ETH_LINK, ETH_HINT, ETH_SIZE, ETH_COUNT eth_ack_count,
      ETH_RUN, ETH_COUNT eth_rx_count, ETH_COUNT eth_tx_count, ETH_COUNT eth_link_count, ETH_SIZE,
      ETH_RUN, ETH_COUNT eth_link_count, ETH_SIZE,
      ETH_INIT 2 2, ETH_ISR ETH_RX, ETH_ISR ETH_TX, ETH_ISR ETH_LINK, ETH_DROPS,
      ETH_RUN, ETH_COUNT eth_tx_count, ETH_COUNT eth_link_count] =
   Some [VOID, NUMBER 0, NUMBER 0, NUMBER 0, VOID, VOID, VOID, TRUTH True, NUMBER 3, NUMBER 3,
      VOID, NUMBER 1, NUMBER 1, NUMBER 0, NUMBER 1, VOID, NUMBER 1, NUMBER 0,
      TRUTH True, VOID, VOID, VOID, NUMBER 1, VOID, NUMBER 2, NUMBER 2]"
  by (simp_all add: eth_init_iff) (simp add: eth_evaluation)

text \<open>A round of either loop of the second test leaves nothing queued.\<close>

definition eth_received :: "eth_fakes \<Rightarrow> eth_fakes" where
  "eth_received w = w\<lparr>eth_ack_count := eth_ack_count w + 1, eth_rx_count := eth_rx_count w + 1\<rparr>"

lemma eth_received_times:
  "(eth_received ^^ n) w = w\<lparr>eth_ack_count := eth_ack_count w + of_nat n, eth_rx_count := eth_rx_count w + of_nat n\<rparr>"
  by (induction n) (simp_all add: eth_received_def algebra_simps)

lemma test_ethernet_irq_hint_should_not_lose_events_across_burst_and_alternating_runs:
  "eth_test raw 64 1
     (concat (map (\<lambda>i. [ETH_RUN, ETH_ISR ETH_RX, ETH_RUN]) [0..<32]) @
      concat (map (\<lambda>i. [ETH_ISR ETH_RX, ETH_ISR ETH_RX, ETH_ISR ETH_RX, ETH_RUN, ETH_RUN, ETH_RUN]) [0..<16]) @
      [ETH_COUNT eth_ack_count, ETH_COUNT eth_rx_count, ETH_SIZE]) =
   Some (concat (replicate 32 [VOID, VOID, VOID]) @
      concat (replicate 16 [VOID, VOID, VOID, VOID, VOID, VOID]) @ [NUMBER 80, NUMBER 80, NUMBER 0])"
proof -
  let ?v = "(64, Suc 0, [], 0, False)"
  have one: "view_script eth_view_step (([ETH_RUN, ETH_ISR ETH_RX, ETH_RUN] :: eth_test_call list) @ rest) ?v w =
      [VOID, VOID, VOID] @ view_script eth_view_step rest ?v (eth_received w)" for rest w
    by (simp add: eth_evaluation eth_received_def)
  have three: "view_script eth_view_step
        ([ETH_ISR ETH_RX, ETH_ISR ETH_RX, ETH_ISR ETH_RX, ETH_RUN, ETH_RUN, ETH_RUN] @ rest) ?v w =
      [VOID, VOID, VOID, VOID, VOID, VOID] @ view_script eth_view_step rest ?v ((eth_received ^^ 3) w)" for rest w
    by (simp add: eth_evaluation eth_received_times add.commute)
  show ?thesis
    by (subst eth_test_eq)
      (simp_all add: list_all_iff script_loop [OF one] script_loop [OF three] funpow_mult,
        simp add: eth_received_times eth_fakes_start_def)
qed

end
