(* ===== verification/Uart_Tests.thy ===== *)
theory Uart_Tests
  imports Uart_Service Service_Script
begin

text \<open>
  The tests of the UART service in \<^verbatim>\<open>tests/unit/test_service_module_contracts.c\<close> and
  \<^verbatim>\<open>tests/unit/test_service_shared_state.c\<close> on the model, under the names they have there.
\<close>

section \<open>The fakes\<close>

text \<open>A receiver that always has a byte, the next one each time, and a transmitter that is never busy.\<close>

record uart_fakes = fakes +
  uart_ack_count :: u32
  uart_next_rx_byte :: u16
  uart_try_read_count :: u32
  uart_try_write_count :: u32

definition uart_fake_hal :: "(unit, uart_fakes) sch_uart_hal" where
  "uart_fake_hal =
     \<lparr>try_read_byte = Some (\<lambda>c b w. (True, uart_next_rx_byte w,
        w\<lparr>uart_next_rx_byte := uart_next_rx_byte w + 1, uart_try_read_count := uart_try_read_count w + 1\<rparr>)),
      try_write_byte = Some (\<lambda>c b w. (True, w\<lparr>uart_try_write_count := uart_try_write_count w + 1\<rparr>)),
      ack_irq = Some (\<lambda>c w. w\<lparr>uart_ack_count := uart_ack_count w + 1\<rparr>),
      hal_ctx = None\<rparr>"

definition uart_fakes_start :: "u16 \<Rightarrow> uart_fakes" where
  "uart_fakes_start byte = \<lparr>critical_depth = 0, uart_ack_count = 0, uart_next_rx_byte = byte, uart_try_read_count = 0,
     uart_try_write_count = 0\<rparr>"

section \<open>The calls of the tests\<close>

datatype uart_test_call =
    UART_INIT size_t size_t size_t
  | UART_ISR_RX
  | UART_ISR_TX_READY
  | UART_QUEUE_TX u16
  | UART_RUN
  | UART_RX_HINT
  | UART_TX_HINT
  | UART_RX_SIZE
  | UART_TX_SIZE
  | UART_RX_DROPS
  | UART_TX_DROPS
  | UART_COUNT "uart_fakes \<Rightarrow> u32"

text \<open>Both rings have the same capacity. The contents of the storage passed do not matter.\<close>

definition uart_test_init ::
  "size_t \<Rightarrow> size_t \<Rightarrow> size_t \<Rightarrow> (unit, uart_fakes) sch_uart_service \<Rightarrow> uart_fakes \<Rightarrow>
   bool \<times> (unit, uart_fakes) sch_uart_service option \<times> uart_fakes" where
  "uart_test_init cap max_rx max_tx s w =
     sch_uart_service_init fake_port (Some s) (Some uart_fake_hal) (Some (replicate (2 * unat cap) 165)) cap
       (Some (replicate (2 * unat cap) 165)) cap max_rx max_tx w"

fun uart_call ::
  "uart_test_call \<Rightarrow> (unit, uart_fakes) sch_uart_service \<Rightarrow> uart_fakes \<Rightarrow>
   (answer \<times> (unit, uart_fakes) sch_uart_service \<times> uart_fakes) option" where
  "uart_call (UART_INIT cap max_rx max_tx) s w =
     (case uart_test_init cap max_rx max_tx s w of (ok, s', w) \<Rightarrow> Some (TRUTH ok, the s', w))"
| "uart_call UART_ISR_RX s w = do { (s, w) \<leftarrow> sch_uart_isr_rx fake_port (Some s) w; Some (VOID, the s, w) }"
| "uart_call UART_ISR_TX_READY s w = (case sch_uart_isr_tx_ready fake_port (Some s) w of (s, w) \<Rightarrow> Some (VOID, the s, w))"
| "uart_call (UART_QUEUE_TX byte) s w =
     do { (ok, s, w) \<leftarrow> sch_uart_service_queue_tx fake_port (Some s) byte w; Some (TRUTH ok, the s, w) }"
| "uart_call UART_RUN s w = do { (s, w) \<leftarrow> sch_uart_service_run fake_port (Some s) w; Some (VOID, the s, w) }"
| "uart_call UART_RX_HINT s w = Some (TRUTH (rx_hint s), s, w)"
| "uart_call UART_TX_HINT s w = Some (TRUTH (tx_hint s), s, w)"
| "uart_call UART_RX_SIZE s w =
     (case sch_spsc_ring_size fake_port (Some (rx_ring s)) w of (n, w) \<Rightarrow> Some (NUMBER n, s, w))"
| "uart_call UART_TX_SIZE s w =
     (case sch_spsc_ring_size fake_port (Some (tx_ring s)) w of (n, w) \<Rightarrow> Some (NUMBER n, s, w))"
| "uart_call UART_RX_DROPS s w =
     (case sch_spsc_ring_drop_count fake_port (Some (rx_ring s)) w of (n, w) \<Rightarrow> Some (NUMBER n, s, w))"
| "uart_call UART_TX_DROPS s w =
     (case sch_spsc_ring_drop_count fake_port (Some (tx_ring s)) w of (n, w) \<Rightarrow> Some (NUMBER n, s, w))"
| "uart_call (UART_COUNT counter) s w = Some (NUMBER (counter w), s, w)"

section \<open>The view\<close>

record uart_view =
  ring_capacity :: nat
  rx_budget :: nat
  tx_budget :: nat
  rx_held :: "u16 list"
  tx_held :: "u16 list"
  rx_lost :: size_t
  tx_lost :: size_t
  rx_woken :: bool
  tx_woken :: bool

definition uart_view_new :: "nat \<Rightarrow> nat \<Rightarrow> nat \<Rightarrow> uart_view" where
  "uart_view_new b nr nt = \<lparr>ring_capacity = b, rx_budget = nr, tx_budget = nt, rx_held = [], tx_held = [],
     rx_lost = 0, tx_lost = 0, rx_woken = False, tx_woken = False\<rparr>"

definition uart_view :: "(unit, uart_fakes) sch_uart_service \<Rightarrow> uart_view" where
  "uart_view s = \<lparr>ring_capacity = ring_bound (rx_ring s), rx_budget = unat (max_rx_items_per_run s),
     tx_budget = unat (max_tx_items_per_run s), rx_held = uart_rx s, tx_held = uart_tx s,
     rx_lost = drops (rx_ring s), tx_lost = drops (tx_ring s), rx_woken = rx_hint s, tx_woken = tx_hint s\<rparr>"

definition uart_fake_ack :: "uart_fakes \<Rightarrow> uart_fakes" where
  "uart_fake_ack w = w\<lparr>uart_ack_count := uart_ack_count w + 1\<rparr>"

definition uart_fake_read :: "uart_fakes \<Rightarrow> uart_fakes" where
  "uart_fake_read w =
     w\<lparr>uart_next_rx_byte := uart_next_rx_byte w + 1, uart_try_read_count := uart_try_read_count w + 1\<rparr>"

definition uart_fake_writes :: "nat \<Rightarrow> uart_fakes \<Rightarrow> uart_fakes" where
  "uart_fake_writes n w = w\<lparr>uart_try_write_count := uart_try_write_count w + of_nat n\<rparr>"

fun uart_view_step :: "uart_test_call \<Rightarrow> uart_view \<Rightarrow> uart_fakes \<Rightarrow> answer \<times> uart_view \<times> uart_fakes" where
  "uart_view_step (UART_INIT cap max_rx max_tx) v w = (TRUTH True, uart_view_new (unat cap) (unat max_rx) (unat max_tx), w)"
| "uart_view_step UART_ISR_RX v w =
     (VOID, v\<lparr>rx_held := bounded_push (ring_capacity v) False (rx_held v) (uart_next_rx_byte w),
        rx_lost := if length (rx_held v) = ring_capacity v then rx_lost v + 1 else rx_lost v, rx_woken := True\<rparr>,
      uart_fake_read (uart_fake_ack w))"
| "uart_view_step UART_ISR_TX_READY v w = (VOID, v\<lparr>tx_woken := True\<rparr>, uart_fake_ack w)"
| "uart_view_step (UART_QUEUE_TX byte) v w =
     (TRUTH (length (tx_held v) < ring_capacity v),
      v\<lparr>tx_held := bounded_push (ring_capacity v) True (tx_held v) byte,
        tx_lost := if length (tx_held v) = ring_capacity v then tx_lost v + 1 else tx_lost v\<rparr>, w)"
| "uart_view_step UART_RUN v w =
     (VOID, v\<lparr>rx_held := drop (rx_budget v) (rx_held v), tx_held := drop (tx_budget v) (tx_held v),
        rx_woken := False, tx_woken := False\<rparr>,
      uart_fake_writes (length (take (tx_budget v) (tx_held v))) w)"
| "uart_view_step UART_RX_HINT v w = (TRUTH (rx_woken v), v, w)"
| "uart_view_step UART_TX_HINT v w = (TRUTH (tx_woken v), v, w)"
| "uart_view_step UART_RX_SIZE v w = (NUMBER (of_nat (length (rx_held v))), v, w)"
| "uart_view_step UART_TX_SIZE v w = (NUMBER (of_nat (length (tx_held v))), v, w)"
| "uart_view_step UART_RX_DROPS v w = (NUMBER (rx_lost v), v, w)"
| "uart_view_step UART_TX_DROPS v w = (NUMBER (tx_lost v), v, w)"
| "uart_view_step (UART_COUNT counter) v w = (NUMBER (counter w), v, w)"

fun uart_offered :: "uart_test_call \<Rightarrow> bool" where
  "uart_offered (UART_INIT cap max_rx max_tx) \<longleftrightarrow> 0 < cap \<and> cap < 2 ^ 16 \<and> 0 < max_rx \<and> 0 < max_tx"
| "uart_offered c \<longleftrightarrow> True"

definition uart_tested :: "(unit, uart_fakes) sch_uart_service \<Rightarrow> bool" where
  "uart_tested s \<longleftrightarrow> uart_inv s \<and> hal s = uart_fake_hal \<and> ring_bound (tx_ring s) = ring_bound (rx_ring s)"

lemma uart_fakes_outside [simp]:
  "outside (uart_fake_ack w) = outside w" "outside (uart_fake_read w) = outside w"
  "outside (uart_fake_writes n w) = outside w"
  by (simp_all add: outside_def uart_fake_ack_def uart_fake_read_def uart_fake_writes_def)

lemma uart_fake_writes_add [simp]:
  "uart_fake_writes 0 w = w" "uart_fake_writes m (uart_fake_writes n w) = uart_fake_writes (n + m) w"
  by (simp_all add: uart_fake_writes_def algebra_simps)

lemma uart_fake_send:
  assumes "outside w" and "hal s = uart_fake_hal"
  shows "uart_send (crit fake_port) (uart_write s) n xs w =
    (take n xs, drop n xs, uart_fake_writes (length (take n xs)) w)"
  using assms(1)
proof (induction n arbitrary: xs w)
  case (Suc n)
  have "uart_write s x v = (True, uart_fake_writes 1 v)" for x v
    by (simp add: uart_write_def assms(2) uart_fake_hal_def uart_fake_writes_def)
  with Suc show ?case by (cases xs) simp_all
qed simp

lemma uart_test_init_ok:
  assumes "0 < cap" and "cap < 2 ^ 16" and "0 < max_rx" and "0 < max_tx" and "outside w"
  shows "\<exists>s'. uart_test_init cap max_rx max_tx s w = (True, Some s', w) \<and> uart_tested s' \<and>
    uart_view s' = uart_view_new (unat cap) (unat max_rx) (unat max_tx)"
proof -
  have cap: "unat cap < 2 ^ 16" using assms(2) by (simp add: word_less_nat_alt)
  have "crit fake_port (crit fake_port w) = w" using assms(5) by simp
  moreover
  obtain s' where "uart_test_init cap max_rx max_tx s w = (True, Some s', crit fake_port (crit fake_port w))"
    "uart_inv s'" "uart_rx s' = []" "uart_tx s' = []" "\<not> rx_hint s'" "\<not> tx_hint s'" "hal s' = uart_fake_hal"
    "ring_bound (rx_ring s') = unat cap" "ring_bound (tx_ring s') = unat cap"
    "drops (rx_ring s') = 0" "drops (tx_ring s') = 0"
    "max_rx_items_per_run s' = max_rx" "max_tx_items_per_run s' = max_tx"
    unfolding uart_test_init_def
    by (rule uart_init_ok [of uart_fake_hal _ _ max_rx max_tx cap cap "replicate (2 * unat cap) 165"
          "replicate (2 * unat cap) 165" fake_port s w])
      (use assms cap in \<open>simp_all add: uart_fake_hal_def\<close>)
  ultimately show ?thesis by (simp add: uart_tested_def uart_view_def uart_view_new_def)
qed

lemma uart_test_steps:
  assumes "uart_offered c" and "uart_tested s" and "outside w" and "uart_view_step c (uart_view s) w = (answer, v, w')"
  shows "\<exists>s'. uart_call c s w = Some (answer, s', w') \<and> uart_tested s' \<and> uart_view s' = v \<and> outside w'"
proof -
  have inv: "uart_inv s" "hal s = uart_fake_hal" "ring_bound (tx_ring s) = ring_bound (rx_ring s)"
    "typed_inv sizeof_u16 (rx_ring s)" "typed_inv sizeof_u16 (tx_ring s)" "ring_newest (tx_ring s)" "\<not> ring_newest (rx_ring s)"
    using assms(2) by (auto simp: uart_tested_def uart_inv_def)
  have rings: "ring_inv (rx_ring s)" "ring_inv (tx_ring s)" using inv(4,5) by (simp_all add: typed_inv_def)
  have ack: "uart_ack s w = uart_fake_ack w"
    and read: "uart_read s v = (True, uart_next_rx_byte v, uart_fake_read v)" for v
    by (simp_all add: uart_ack_def uart_read_def inv(2) uart_fake_hal_def uart_fake_ack_def uart_fake_read_def)
  have byte: "uart_next_rx_byte (uart_fake_ack w) = uart_next_rx_byte w" by (simp add: uart_fake_ack_def)
  show ?thesis
  proof (cases c)
    case (UART_INIT cap max_rx max_tx)
    then show ?thesis using assms(1,3,4) uart_test_init_ok [of cap max_rx max_tx w s] by auto
  next
    case UART_ISR_RX
    then show ?thesis
      using assms(2-4) inv u16.enq_refines [OF inv(4), of "uart_next_rx_byte w"]
      by (auto simp: uart_isr_rx_eq ack read byte uart_view_def uart_tested_def uart_inv_def uart_rx_def uart_tx_def)
  next
    case UART_ISR_TX_READY
    then show ?thesis
      using assms(2-4) by (auto simp: sch_uart_isr_tx_ready_def ack split_beta Let_def uart_view_def uart_tested_def
          uart_inv_def uart_rx_def uart_tx_def fake_section)
  next
    case (UART_QUEUE_TX x)
    then show ?thesis
      using assms(2-4) inv u16.enq_refines [OF inv(5), of x]
      by (auto simp: uart_queue_tx_eq uart_view_def uart_tested_def uart_inv_def uart_rx_def uart_tx_def)
  next
    case UART_RUN
    have entry: "uart_entry_world fake_port s w = w" using assms(3) by (simp add: uart_entry_world_def)
    have idle: "uart_idle s \<Longrightarrow> uart_fake_writes (min (length (uart_tx s)) n) w = w" for n
      by (simp add: uart_idle_def)
    show ?thesis
      using uart_run_eq [OF inv(1) refl, of fake_port w] UART_RUN assms(3,4) inv
      by (auto simp: entry uart_fake_send fake_discard idle uart_view_def uart_tested_def)
  next
    case UART_RX_SIZE
    then show ?thesis using assms by (auto simp: ring_size_refines [OF rings(1)] uart_view_def uart_rx_def)
  next
    case UART_TX_SIZE
    then show ?thesis using assms by (auto simp: ring_size_refines [OF rings(2)] uart_view_def uart_tx_def)
  next
    case UART_RX_DROPS
    then show ?thesis using assms by (auto simp: ring_drop_count_refines [OF rings(1)] uart_view_def)
  next
    case UART_TX_DROPS
    then show ?thesis using assms by (auto simp: ring_drop_count_refines [OF rings(2)] uart_view_def)
  qed (use assms in \<open>auto simp: uart_view_def\<close>)
qed

interpretation uart_script: scripted uart_call uart_offered uart_tested outside uart_view uart_view_step
  by unfold_locales (rule uart_test_steps)

section \<open>The tests\<close>

definition uart_test ::
  "u16 \<Rightarrow> (unit, uart_fakes) sch_uart_service \<Rightarrow> size_t \<Rightarrow> size_t \<Rightarrow> size_t \<Rightarrow> uart_test_call list \<Rightarrow> answer list option" where
  "uart_test byte raw cap max_rx max_tx calls =
     (case uart_test_init cap max_rx max_tx raw (uart_fakes_start byte) of
        (ok, s, w) \<Rightarrow> if ok then script uart_call calls (the s) w else None)"

lemma uart_test_eq:
  assumes "0 < cap" and "cap < 2 ^ 16" and "0 < max_rx" and "0 < max_tx" and "list_all uart_offered calls"
  shows "uart_test byte raw cap max_rx max_tx calls =
    Some (view_script uart_view_step calls (uart_view_new (unat cap) (unat max_rx) (unat max_tx)) (uart_fakes_start byte))"
proof -
  have start: "outside (uart_fakes_start byte)" by (simp add: outside_def uart_fakes_start_def)
  obtain s where s: "uart_test_init cap max_rx max_tx raw (uart_fakes_start byte) = (True, Some s, uart_fakes_start byte)"
    "uart_tested s" "uart_view s = uart_view_new (unat cap) (unat max_rx) (unat max_tx)"
    using uart_test_init_ok [OF assms(1-4) start, of raw] by auto
  show ?thesis using uart_script.script_steps [OF assms(5) s(2) start] by (simp add: uart_test_def s)
qed

lemmas uart_evaluation = uart_test_eq uart_view_new_def uart_fakes_start_def uart_fake_ack_def uart_fake_read_def
  uart_fake_writes_def bounded_push_def

lemma test_uart_contract_init_validation_and_hint_enqueue_and_bounded_and_empty_and_drop:
  "\<not> fst (sch_uart_service_init p None (Some h) rx 3 tx 3 1 1 w)"
  "\<not> fst (sch_uart_service_init p service None rx 3 tx 3 1 1 w)"
  "\<not> fst (sch_uart_service_init p service (Some (h\<lparr>try_read_byte := None\<rparr>)) rx 3 tx 3 1 1 w)"
  "\<not> fst (sch_uart_service_init p service (Some (h\<lparr>try_write_byte := None\<rparr>)) rx 3 tx 3 1 1 w)"
  "\<not> fst (sch_uart_service_init p service (Some h) rx 3 tx 3 0 1 w)"
  "\<not> fst (sch_uart_service_init p service (Some h) rx 3 tx 3 1 0 w)"
  "uart_test 1 raw 3 1 1
     [UART_RUN, UART_COUNT uart_try_read_count, UART_COUNT uart_try_write_count,
      UART_ISR_RX, UART_ISR_TX_READY, UART_RX_HINT, UART_TX_HINT, UART_COUNT uart_ack_count, UART_RX_SIZE,
      UART_QUEUE_TX 0x11, UART_QUEUE_TX 0x22, UART_ISR_RX, UART_RUN,
      UART_COUNT uart_try_write_count, UART_COUNT uart_try_read_count, UART_TX_SIZE, UART_RX_SIZE,
      UART_INIT 2 1 1, UART_QUEUE_TX 1, UART_QUEUE_TX 2, UART_QUEUE_TX 3, UART_TX_DROPS,
      UART_ISR_RX, UART_ISR_RX, UART_ISR_RX, UART_RX_DROPS] =
   Some [VOID, NUMBER 0, NUMBER 0, VOID, VOID, TRUTH True, TRUTH True, NUMBER 2, NUMBER 1,
      TRUTH True, TRUTH True, VOID, VOID, NUMBER 1, NUMBER 2, NUMBER 1, NUMBER 1,
      TRUTH True, TRUTH True, TRUTH True, TRUTH False, NUMBER 1, VOID, VOID, VOID, NUMBER 1]"
  by (simp_all add: uart_init_iff) (simp add: uart_evaluation)

text \<open>A round of the loop of the second test leaves both rings empty.\<close>

definition uart_served :: "uart_fakes \<Rightarrow> uart_fakes" where
  "uart_served w = w\<lparr>uart_ack_count := uart_ack_count w + 2, uart_next_rx_byte := uart_next_rx_byte w + 1,
     uart_try_read_count := uart_try_read_count w + 1, uart_try_write_count := uart_try_write_count w + 1\<rparr>"

lemma uart_served_times:
  "(uart_served ^^ n) w = w\<lparr>uart_ack_count := uart_ack_count w + 2 * of_nat n,
     uart_next_rx_byte := uart_next_rx_byte w + of_nat n, uart_try_read_count := uart_try_read_count w + of_nat n,
     uart_try_write_count := uart_try_write_count w + of_nat n\<rparr>"
  by (induction n) (simp_all add: uart_served_def algebra_simps)

definition uart_test_round :: "nat \<Rightarrow> uart_test_call list" where
  "uart_test_round i = [UART_QUEUE_TX (of_nat i), UART_ISR_TX_READY, UART_ISR_RX, UART_RUN]"

lemma test_uart_rx_tx_hints_should_preserve_wakeups_under_repeated_isr_task_alternation:
  "uart_test 0 raw 64 4 4
     (concat (map uart_test_round [0..<96]) @
      [UART_COUNT uart_ack_count, UART_COUNT uart_try_write_count, UART_TX_SIZE, UART_RX_SIZE]) =
   Some (concat (replicate 96 [TRUTH True, VOID, VOID, VOID]) @ [NUMBER 192, NUMBER 96, NUMBER 0, NUMBER 0])"
proof -
  have round: "view_script uart_view_step (uart_test_round i @ rest) (uart_view_new 64 4 4) w =
      [TRUTH True, VOID, VOID, VOID] @ view_script uart_view_step rest (uart_view_new 64 4 4) (uart_served w)" for i rest w
    by (simp add: uart_evaluation uart_test_round_def uart_served_def add.commute)
  show ?thesis
    by (subst uart_test_eq)
      (auto simp: list_all_iff uart_test_round_def,
        simp add: script_loop [OF round], simp add: uart_served_times uart_fakes_start_def uart_view_new_def)
qed

end
