(* ===== verification/I2c_Tests.thy ===== *)
theory I2c_Tests
  imports I2c_Eeprom_Service Service_Script
begin

text \<open>
  The test of the EEPROM service in \<^verbatim>\<open>tests/unit/test_service_module_contracts.c\<close> on the model,
  under the name it has there.
\<close>

section \<open>The fakes\<close>

text \<open>A driver that takes every request and reports the completion it is told to.\<close>

record i2c_fakes = fakes +
  i2c_ack_count :: u32
  i2c_submit_count :: u32
  i2c_consume_count :: u32
  i2c_next_completion_event :: sch_i2c_event_id

definition i2c_fake_hal :: "(unit, i2c_fakes) sch_i2c_eeprom_hal" where
  "i2c_fake_hal =
     \<lparr>ack_irq = Some (\<lambda>c w. w\<lparr>i2c_ack_count := i2c_ack_count w + 1\<rparr>),
      submit_request = Some (\<lambda>c r w. (True, w\<lparr>i2c_submit_count := i2c_submit_count w + 1\<rparr>)),
      consume_completion = Some (\<lambda>c e w.
        (True, i2c_next_completion_event w, w\<lparr>i2c_consume_count := i2c_consume_count w + 1\<rparr>)),
      hal_ctx = None\<rparr>"

definition i2c_fakes_start :: i2c_fakes where
  "i2c_fakes_start = \<lparr>critical_depth = 0, i2c_ack_count = 0, i2c_submit_count = 0, i2c_consume_count = 0,
     i2c_next_completion_event = SCH_I2C_EVENT_TRANSFER_DONE\<rparr>"

section \<open>The calls of the test\<close>

datatype i2c_test_call =
    I2C_INIT size_t size_t size_t
  | I2C_ENQUEUE sch_eeprom_request
  | I2C_ISR_COMPLETE
  | I2C_RUN
  | I2C_HINT
  | I2C_REQUESTS
  | I2C_COMPLETIONS
  | I2C_REQUEST_DROPS
  | I2C_COMPLETION_DROPS
  | I2C_COUNT "i2c_fakes \<Rightarrow> u32"

text \<open>Ring and queue have the same capacity. The contents of the storage passed do not matter.\<close>

definition i2c_test_init ::
  "size_t \<Rightarrow> size_t \<Rightarrow> size_t \<Rightarrow> (unit, i2c_fakes) sch_i2c_eeprom_service \<Rightarrow> i2c_fakes \<Rightarrow>
   bool \<times> (unit, i2c_fakes) sch_i2c_eeprom_service option \<times> i2c_fakes" where
  "i2c_test_init cap max_requests max_completions s w =
     sch_i2c_eeprom_service_init fake_port (Some s) (Some i2c_fake_hal) (Some (replicate (6 * unat cap) 165)) cap
       (Some (replicate (2 * unat cap) 165)) cap max_requests max_completions w"

fun i2c_call ::
  "i2c_test_call \<Rightarrow> (unit, i2c_fakes) sch_i2c_eeprom_service \<Rightarrow> i2c_fakes \<Rightarrow>
   (answer \<times> (unit, i2c_fakes) sch_i2c_eeprom_service \<times> i2c_fakes) option" where
  "i2c_call (I2C_INIT cap max_requests max_completions) s w =
     (case i2c_test_init cap max_requests max_completions s w of (ok, s', w) \<Rightarrow> Some (TRUTH ok, the s', w))"
| "i2c_call (I2C_ENQUEUE request) s w =
     do { (ok, s, w) \<leftarrow> sch_i2c_eeprom_enqueue_request_isr fake_port (Some s) (Some request) w; Some (TRUTH ok, the s, w) }"
| "i2c_call I2C_ISR_COMPLETE s w =
     do { (s, w) \<leftarrow> sch_i2c_eeprom_isr_complete fake_port (Some s) w; Some (VOID, the s, w) }"
| "i2c_call I2C_RUN s w = do { (s, w) \<leftarrow> sch_i2c_eeprom_service_run fake_port (Some s) w; Some (VOID, the s, w) }"
| "i2c_call I2C_HINT s w = Some (TRUTH (irq_hint s), s, w)"
| "i2c_call I2C_REQUESTS s w =
     (case sch_spsc_ring_size fake_port (Some (request_ring s)) w of (n, w) \<Rightarrow> Some (NUMBER n, s, w))"
| "i2c_call I2C_COMPLETIONS s w =
     (case sch_event_queue_size fake_port (Some (completion_queue s)) w of (n, w) \<Rightarrow> Some (NUMBER n, s, w))"
| "i2c_call I2C_REQUEST_DROPS s w =
     (case sch_spsc_ring_drop_count fake_port (Some (request_ring s)) w of (n, w) \<Rightarrow> Some (NUMBER n, s, w))"
| "i2c_call I2C_COMPLETION_DROPS s w =
     (case sch_event_queue_drop_count fake_port (Some (completion_queue s)) w of (n, w) \<Rightarrow> Some (NUMBER n, s, w))"
| "i2c_call (I2C_COUNT counter) s w = Some (NUMBER (counter w), s, w)"

section \<open>The view\<close>

record i2c_view =
  queue_capacity :: nat
  request_budget :: nat
  completion_budget :: nat
  requests_held :: "sch_eeprom_request list"
  completions_held :: "u16 list"
  requests_lost :: size_t
  completions_lost :: size_t
  woken :: bool

definition i2c_view_new :: "nat \<Rightarrow> nat \<Rightarrow> nat \<Rightarrow> i2c_view" where
  "i2c_view_new b nr nc = \<lparr>queue_capacity = b, request_budget = nr, completion_budget = nc, requests_held = [],
     completions_held = [], requests_lost = 0, completions_lost = 0, woken = False\<rparr>"

definition i2c_view :: "(unit, i2c_fakes) sch_i2c_eeprom_service \<Rightarrow> i2c_view" where
  "i2c_view s = \<lparr>queue_capacity = ring_bound (request_ring s), request_budget = unat (max_requests_per_run s),
     completion_budget = unat (max_completions_per_run s), requests_held = i2c_held s, completions_held = i2c_done s,
     requests_lost = drops (request_ring s), completions_lost = drops (ring (completion_queue s)), woken = irq_hint s\<rparr>"

definition i2c_fake_completion :: "i2c_fakes \<Rightarrow> i2c_fakes" where
  "i2c_fake_completion w = w\<lparr>i2c_ack_count := i2c_ack_count w + 1, i2c_consume_count := i2c_consume_count w + 1\<rparr>"

definition i2c_fake_submits :: "nat \<Rightarrow> i2c_fakes \<Rightarrow> i2c_fakes" where
  "i2c_fake_submits n w = w\<lparr>i2c_submit_count := i2c_submit_count w + of_nat n\<rparr>"

fun i2c_view_step :: "i2c_test_call \<Rightarrow> i2c_view \<Rightarrow> i2c_fakes \<Rightarrow> answer \<times> i2c_view \<times> i2c_fakes" where
  "i2c_view_step (I2C_INIT cap max_requests max_completions) v w =
     (TRUTH True, i2c_view_new (unat cap) (unat max_requests) (unat max_completions), w)"
| "i2c_view_step (I2C_ENQUEUE request) v w =
     (TRUTH (length (requests_held v) < queue_capacity v),
      v\<lparr>requests_held := bounded_push (queue_capacity v) True (requests_held v) request,
        requests_lost := if length (requests_held v) = queue_capacity v then requests_lost v + 1 else requests_lost v\<rparr>, w)"
| "i2c_view_step I2C_ISR_COMPLETE v w =
     (VOID, v\<lparr>completions_held := bounded_push (queue_capacity v) False (completions_held v) (ucast (i2c_next_completion_event w)),
        completions_lost := if length (completions_held v) = queue_capacity v then completions_lost v + 1 else completions_lost v,
        woken := True\<rparr>,
      i2c_fake_completion w)"
| "i2c_view_step I2C_RUN v w =
     (VOID, v\<lparr>requests_held := drop (request_budget v) (requests_held v),
        completions_held := drop (completion_budget v) (completions_held v), woken := False\<rparr>,
      i2c_fake_submits (length (take (request_budget v) (requests_held v))) w)"
| "i2c_view_step I2C_HINT v w = (TRUTH (woken v), v, w)"
| "i2c_view_step I2C_REQUESTS v w = (NUMBER (of_nat (length (requests_held v))), v, w)"
| "i2c_view_step I2C_COMPLETIONS v w = (NUMBER (of_nat (length (completions_held v))), v, w)"
| "i2c_view_step I2C_REQUEST_DROPS v w = (NUMBER (requests_lost v), v, w)"
| "i2c_view_step I2C_COMPLETION_DROPS v w = (NUMBER (completions_lost v), v, w)"
| "i2c_view_step (I2C_COUNT counter) v w = (NUMBER (counter w), v, w)"

fun i2c_offered :: "i2c_test_call \<Rightarrow> bool" where
  "i2c_offered (I2C_INIT cap max_requests max_completions) \<longleftrightarrow>
     0 < cap \<and> cap < 2 ^ 16 \<and> 0 < max_requests \<and> 0 < max_completions"
| "i2c_offered c \<longleftrightarrow> True"

definition i2c_tested :: "(unit, i2c_fakes) sch_i2c_eeprom_service \<Rightarrow> bool" where
  "i2c_tested s \<longleftrightarrow> i2c_inv s \<and> hal s = i2c_fake_hal \<and>
     ring_bound (ring (completion_queue s)) = ring_bound (request_ring s)"

lemma i2c_fakes_outside [simp]:
  "outside (i2c_fake_completion w) = outside w" "outside (i2c_fake_submits n w) = outside w"
  by (simp_all add: outside_def i2c_fake_completion_def i2c_fake_submits_def)

lemma i2c_fake_submits_add [simp]:
  "i2c_fake_submits 0 w = w" "i2c_fake_submits m (i2c_fake_submits n w) = i2c_fake_submits (n + m) w"
  by (simp_all add: i2c_fake_submits_def algebra_simps)

lemma i2c_fake_send:
  assumes "outside w" and "hal s = i2c_fake_hal"
  shows "drain_stop (crit fake_port) (i2c_submit s) n xs w =
    (take n xs, drop n xs, i2c_fake_submits (length (take n xs)) w)"
  using assms(1)
proof (induction n arbitrary: xs w)
  case (Suc n)
  have "i2c_submit s x v = (True, i2c_fake_submits 1 v)" for x v
    by (simp add: i2c_submit_def assms(2) i2c_fake_hal_def i2c_fake_submits_def)
  with Suc show ?case by (cases xs) simp_all
qed simp

lemma i2c_test_init_ok:
  assumes "0 < cap" and "cap < 2 ^ 16" and "0 < max_requests" and "0 < max_completions" and "outside w"
  shows "\<exists>s'. i2c_test_init cap max_requests max_completions s w = (True, Some s', w) \<and> i2c_tested s' \<and>
    i2c_view s' = i2c_view_new (unat cap) (unat max_requests) (unat max_completions)"
proof -
  have cap: "unat cap < 2 ^ 16" using assms(2) by (simp add: word_less_nat_alt)
  have "crit fake_port (crit fake_port w) = w" using assms(5) by simp
  moreover
  obtain s' where
    "i2c_test_init cap max_requests max_completions s w = (True, Some s', crit fake_port (crit fake_port w))"
    "i2c_inv s'" "i2c_held s' = []" "i2c_done s' = []" "\<not> irq_hint s'" "hal s' = i2c_fake_hal"
    "ring_bound (request_ring s') = unat cap" "ring_bound (ring (completion_queue s')) = unat cap"
    "drops (request_ring s') = 0" "drops (ring (completion_queue s')) = 0"
    "max_requests_per_run s' = max_requests" "max_completions_per_run s' = max_completions"
    unfolding i2c_test_init_def
    by (rule i2c_init_ok [of i2c_fake_hal _ max_requests max_completions cap cap "replicate (6 * unat cap) 165"
          "replicate (2 * unat cap) 165" fake_port s w])
      (use assms cap in \<open>simp_all add: i2c_fake_hal_def\<close>)
  ultimately show ?thesis by (simp add: i2c_tested_def i2c_view_def i2c_view_new_def)
qed

lemma i2c_test_steps:
  assumes "i2c_offered c" and "i2c_tested s" and "outside w" and "i2c_view_step c (i2c_view s) w = (answer, v, w')"
  shows "\<exists>s'. i2c_call c s w = Some (answer, s', w') \<and> i2c_tested s' \<and> i2c_view s' = v \<and> outside w'"
proof -
  have inv: "i2c_inv s" "hal s = i2c_fake_hal" "ring_bound (ring (completion_queue s)) = ring_bound (request_ring s)"
    "typed_inv sizeof_request (request_ring s)" "event_inv (completion_queue s)" "ring_newest (request_ring s)"
    "\<not> ring_newest (ring (completion_queue s))"
    using assms(2) by (auto simp: i2c_tested_def i2c_inv_def)
  have ring: "ring_inv (request_ring s)" "ring_inv (ring (completion_queue s))"
    using inv(4,5) by (simp_all add: typed_inv_def event_inv_def)
  have completion: "i2c_completion s (i2c_ack s w) = (i2c_next_completion_event w, i2c_fake_completion w)"
    by (simp add: i2c_completion_def i2c_ack_def inv(2) i2c_fake_hal_def i2c_fake_completion_def)
  show ?thesis
  proof (cases c)
    case (I2C_INIT cap max_requests max_completions)
    then show ?thesis using assms(1,3,4) i2c_test_init_ok [of cap max_requests max_completions w s] by auto
  next
    case (I2C_ENQUEUE x)
    then show ?thesis
      using assms(2-4) inv request_objects.enq_refines [OF inv(4), of x]
      by (auto simp: i2c_enqueue_eq i2c_view_def i2c_tested_def i2c_inv_def i2c_held_def i2c_done_def)
  next
    case I2C_ISR_COMPLETE
    then show ?thesis
      using assms(2-4) inv events.enq_simps [OF inv(5), of "ucast (i2c_next_completion_event w)"]
      by (auto simp: i2c_isr_complete_eq completion i2c_view_def i2c_tested_def i2c_inv_def i2c_held_def i2c_done_def)
  next
    case I2C_RUN
    have entry: "i2c_entry_world fake_port s w = w" using assms(3) by (simp add: i2c_entry_world_def)
    have idle: "i2c_idle s \<Longrightarrow> i2c_fake_submits (min (length (i2c_held s)) n) w = w" for n
      by (simp add: i2c_idle_def)
    have send: "drain_stop (crit fake_port) (i2c_submit s) (unat (max_requests_per_run s)) (i2c_held s)
        (i2c_entry_world fake_port s w) =
      (take (unat (max_requests_per_run s)) (i2c_held s), drop (unat (max_requests_per_run s)) (i2c_held s),
       i2c_fake_submits (length (take (unat (max_requests_per_run s)) (i2c_held s))) w)"
      unfolding entry by (rule i2c_fake_send [OF assms(3) inv(2)])
    show ?thesis
      using i2c_run_eq [OF inv(1) send] I2C_RUN assms(3,4) inv
      by (auto simp: entry fake_discard idle i2c_view_def i2c_tested_def)
  next
    case I2C_REQUESTS
    then show ?thesis using assms by (auto simp: ring_size_refines [OF ring(1)] i2c_view_def i2c_held_def)
  next
    case I2C_COMPLETIONS
    then show ?thesis using assms by (auto simp: event_size_refines [OF inv(5)] i2c_view_def i2c_done_def event_items_def)
  next
    case I2C_REQUEST_DROPS
    then show ?thesis using assms by (auto simp: ring_drop_count_refines [OF ring(1)] i2c_view_def)
  next
    case I2C_COMPLETION_DROPS
    then show ?thesis
      using assms by (auto simp: sch_event_queue_drop_count_def ring_drop_count_refines [OF ring(2)] i2c_view_def)
  qed (use assms in \<open>auto simp: i2c_view_def\<close>)
qed

interpretation i2c_script: scripted i2c_call i2c_offered i2c_tested outside i2c_view i2c_view_step
  by unfold_locales (rule i2c_test_steps)

section \<open>The test\<close>

definition i2c_test ::
  "(unit, i2c_fakes) sch_i2c_eeprom_service \<Rightarrow> size_t \<Rightarrow> size_t \<Rightarrow> size_t \<Rightarrow> i2c_test_call list \<Rightarrow> answer list option" where
  "i2c_test raw cap max_requests max_completions calls =
     (case i2c_test_init cap max_requests max_completions raw i2c_fakes_start of
        (ok, s, w) \<Rightarrow> if ok then script i2c_call calls (the s) w else None)"

lemma i2c_test_eq:
  assumes "0 < cap" and "cap < 2 ^ 16" and "0 < max_requests" and "0 < max_completions" and "list_all i2c_offered calls"
  shows "i2c_test raw cap max_requests max_completions calls =
    Some (view_script i2c_view_step calls (i2c_view_new (unat cap) (unat max_requests) (unat max_completions)) i2c_fakes_start)"
proof -
  have start: "outside i2c_fakes_start" by (simp add: outside_def i2c_fakes_start_def)
  obtain s where s: "i2c_test_init cap max_requests max_completions raw i2c_fakes_start = (True, Some s, i2c_fakes_start)"
    "i2c_tested s" "i2c_view s = i2c_view_new (unat cap) (unat max_requests) (unat max_completions)"
    using i2c_test_init_ok [OF assms(1-4) start, of raw] by auto
  show ?thesis using i2c_script.script_steps [OF assms(5) s(2) start] by (simp add: i2c_test_def s)
qed

lemmas i2c_evaluation = i2c_test_eq i2c_view_new_def i2c_fakes_start_def i2c_fake_completion_def i2c_fake_submits_def
  bounded_push_def c_consts

abbreviation i2c_test_request :: sch_eeprom_request where
  "i2c_test_request \<equiv> \<lparr>address = 0x10, length_req = 8, write_req = True\<rparr>"

lemma test_i2c_contract_init_validation_and_enqueue_hint_bounded_empty_and_drop:
  "\<not> fst (sch_i2c_eeprom_service_init p None (Some h) rq 3 cq 3 1 1 w)"
  "\<not> fst (sch_i2c_eeprom_service_init p service None rq 3 cq 3 1 1 w)"
  "\<not> fst (sch_i2c_eeprom_service_init p service (Some (h\<lparr>submit_request := None\<rparr>)) rq 3 cq 3 1 1 w)"
  "\<not> fst (sch_i2c_eeprom_service_init p service (Some h) rq 3 cq 3 0 1 w)"
  "\<not> fst (sch_i2c_eeprom_service_init p service (Some h) rq 3 cq 3 1 0 w)"
  "i2c_test raw 3 1 1
     [I2C_RUN, I2C_COUNT i2c_submit_count, I2C_ENQUEUE i2c_test_request, I2C_ISR_COMPLETE, I2C_HINT, I2C_REQUESTS,
      I2C_COMPLETIONS, I2C_COUNT i2c_ack_count, I2C_COUNT i2c_consume_count,
      I2C_ENQUEUE i2c_test_request, I2C_ISR_COMPLETE, I2C_RUN, I2C_COUNT i2c_submit_count, I2C_REQUESTS, I2C_COMPLETIONS,
      I2C_INIT 2 1 1, I2C_ENQUEUE i2c_test_request, I2C_ENQUEUE i2c_test_request, I2C_ENQUEUE i2c_test_request,
      I2C_REQUEST_DROPS, I2C_ISR_COMPLETE, I2C_ISR_COMPLETE, I2C_ISR_COMPLETE, I2C_COMPLETION_DROPS] =
   Some [VOID, NUMBER 0, TRUTH True, VOID, TRUTH True, NUMBER 1, NUMBER 1, NUMBER 1, NUMBER 1,
      TRUTH True, VOID, VOID, NUMBER 1, NUMBER 1, NUMBER 1,
      TRUTH True, TRUTH True, TRUTH True, TRUTH False, NUMBER 1, VOID, VOID, VOID, NUMBER 1]"
  by (simp_all add: i2c_init_iff) (simp add: i2c_evaluation)

end
