(* ===== verification/Motor_Tests.thy ===== *)
theory Motor_Tests
  imports Motor_Service Service_Script
begin

text \<open>
  The test of the motor supervision in \<^verbatim>\<open>tests/unit/test_service_module_contracts.c\<close> on the model,
  under the name it has there.
\<close>

section \<open>The fakes\<close>

text \<open>A motor that takes every command, and a sensor whose speed grows by one with each reading.\<close>

record motor_fakes = fakes +
  motor_ack_count :: u32
  motor_next_speed :: u16
  motor_read_feedback_count :: u32
  motor_set_enable_count :: u32
  motor_set_speed_count :: u32

definition motor_fake_hal :: "(unit, motor_fakes) sch_motor_hal" where
  "motor_fake_hal =
     \<lparr>ack_irq = Some (\<lambda>c w. w\<lparr>motor_ack_count := motor_ack_count w + 1\<rparr>),
      read_feedback_sample = Some (\<lambda>c f w. (True, \<lparr>speed_rpm = motor_next_speed w, current_ma = 100\<rparr>,
        w\<lparr>motor_next_speed := motor_next_speed w + 1, motor_read_feedback_count := motor_read_feedback_count w + 1\<rparr>)),
      set_enable = Some (\<lambda>c on w. (True, w\<lparr>motor_set_enable_count := motor_set_enable_count w + 1\<rparr>)),
      set_target_speed_rpm = Some (\<lambda>c rpm w. (True, w\<lparr>motor_set_speed_count := motor_set_speed_count w + 1\<rparr>)),
      hal_ctx = None\<rparr>"

definition motor_fakes_start :: motor_fakes where
  "motor_fakes_start = \<lparr>critical_depth = 0, motor_ack_count = 0, motor_next_speed = 10, motor_read_feedback_count = 0,
     motor_set_enable_count = 0, motor_set_speed_count = 0\<rparr>"

section \<open>The calls of the test\<close>

datatype motor_test_call =
    MOTOR_INIT size_t size_t size_t
  | MOTOR_SET_COMMAND bool u16
  | MOTOR_ISR motor_interrupt
  | MOTOR_RUN
  | MOTOR_HINT
  | MOTOR_EVENTS
  | MOTOR_SAMPLES
  | MOTOR_EVENT_DROPS
  | MOTOR_SAMPLE_DROPS
  | MOTOR_COUNT "motor_fakes \<Rightarrow> u32"

text \<open>Ring and queue have the same capacity. The contents of the storage passed do not matter.\<close>

definition motor_test_init ::
  "size_t \<Rightarrow> size_t \<Rightarrow> size_t \<Rightarrow> (unit, motor_fakes) sch_motor_service \<Rightarrow> motor_fakes \<Rightarrow>
   bool \<times> (unit, motor_fakes) sch_motor_service option \<times> motor_fakes" where
  "motor_test_init cap max_feedback max_events s w =
     sch_motor_supervision_service_init fake_port (Some s) (Some motor_fake_hal) (Some (replicate (4 * unat cap) 165)) cap
       (Some (replicate (2 * unat cap) 165)) cap max_feedback max_events w"

fun motor_test_step ::
  "motor_test_call \<Rightarrow> (unit, motor_fakes) sch_motor_service \<Rightarrow> motor_fakes \<Rightarrow>
   (answer \<times> (unit, motor_fakes) sch_motor_service \<times> motor_fakes) option" where
  "motor_test_step (MOTOR_INIT cap max_feedback max_events) s w =
     (case motor_test_init cap max_feedback max_events s w of (ok, s', w) \<Rightarrow> Some (TRUTH ok, the s', w))"
| "motor_test_step (MOTOR_SET_COMMAND on rpm) s w =
     Some (VOID, the (sch_motor_supervision_set_command (Some s) on rpm), w)"
| "motor_test_step (MOTOR_ISR e) s w = map_option (Pair VOID) (motor_isr_at fake_port e s w)"
| "motor_test_step MOTOR_RUN s w =
     do { (s, w) \<leftarrow> sch_motor_supervision_service_run fake_port (Some s) w; Some (VOID, the s, w) }"
| "motor_test_step MOTOR_HINT s w = Some (TRUTH (irq_hint s), s, w)"
| "motor_test_step MOTOR_EVENTS s w =
     (case sch_event_queue_size fake_port (Some (event_queue s)) w of (n, w) \<Rightarrow> Some (NUMBER n, s, w))"
| "motor_test_step MOTOR_SAMPLES s w =
     (case sch_spsc_ring_size fake_port (Some (feedback_ring s)) w of (n, w) \<Rightarrow> Some (NUMBER n, s, w))"
| "motor_test_step MOTOR_EVENT_DROPS s w =
     (case sch_event_queue_drop_count fake_port (Some (event_queue s)) w of (n, w) \<Rightarrow> Some (NUMBER n, s, w))"
| "motor_test_step MOTOR_SAMPLE_DROPS s w =
     (case sch_spsc_ring_drop_count fake_port (Some (feedback_ring s)) w of (n, w) \<Rightarrow> Some (NUMBER n, s, w))"
| "motor_test_step (MOTOR_COUNT counter) s w = Some (NUMBER (counter w), s, w)"

section \<open>The view\<close>

text \<open>
  The capacity, the budgets for samples and events, the samples and events held, the numbers of either
  given up, the hint, the command.
\<close>

type_synonym motor_view =
  "nat \<times> nat \<times> nat \<times> sch_motor_feedback list \<times> u16 list \<times> size_t \<times> size_t \<times> bool \<times> bool \<times> u16"

definition motor_view_new :: "nat \<Rightarrow> nat \<Rightarrow> nat \<Rightarrow> motor_view" where
  "motor_view_new b nf ne = (b, nf, ne, [], [], 0, 0, False, False, 0)"

definition motor_view :: "(unit, motor_fakes) sch_motor_service \<Rightarrow> motor_view" where
  "motor_view s = (ring_bound (feedback_ring s), unat (max_feedback_items_per_run s), unat (max_events_per_run s),
     motor_held s, motor_pending s, drops (feedback_ring s), drops (ring (event_queue s)), irq_hint s, enabled s,
     target_speed_rpm s)"

definition motor_fake_ack :: "motor_fakes \<Rightarrow> motor_fakes" where
  "motor_fake_ack w = w\<lparr>motor_ack_count := motor_ack_count w + 1\<rparr>"

definition motor_fake_read :: "motor_fakes \<Rightarrow> motor_fakes" where
  "motor_fake_read w =
     w\<lparr>motor_next_speed := motor_next_speed w + 1, motor_read_feedback_count := motor_read_feedback_count w + 1\<rparr>"

definition motor_fake_drive :: "nat \<Rightarrow> nat \<Rightarrow> motor_fakes \<Rightarrow> motor_fakes" where
  "motor_fake_drive m n w = w\<lparr>motor_set_enable_count := motor_set_enable_count w + of_nat m,
     motor_set_speed_count := motor_set_speed_count w + of_nat n\<rparr>"

fun motor_view_step :: "motor_test_call \<Rightarrow> motor_view \<Rightarrow> motor_fakes \<Rightarrow> answer \<times> motor_view \<times> motor_fakes" where
  "motor_view_step (MOTOR_INIT cap max_feedback max_events) v w =
     (TRUTH True, motor_view_new (unat cap) (unat max_feedback) (unat max_events), w)"
| "motor_view_step (MOTOR_SET_COMMAND enable target) (b, nf, ne, fb, ev, df, de, h, on, rpm) w =
     (VOID, (b, nf, ne, fb, ev, df, de, h, enable, target), w)"
| "motor_view_step (MOTOR_ISR MOTOR_FAULT) (b, nf, ne, fb, ev, df, de, h, on, rpm) w =
     (VOID, (b, nf, ne, fb, bounded_push b False ev 2, df, if length ev = b then de + 1 else de, True, on, rpm),
      motor_fake_ack w)"
| "motor_view_step (MOTOR_ISR MOTOR_FEEDBACK) (b, nf, ne, fb, ev, df, de, h, on, rpm) w =
     (VOID, (b, nf, ne, bounded_push b False fb \<lparr>speed_rpm = motor_next_speed w, current_ma = 100\<rparr>,
        bounded_push b False ev 1, if length fb = b then df + 1 else df, if length ev = b then de + 1 else de, True, on, rpm),
      motor_fake_read (motor_fake_ack w))"
| "motor_view_step MOTOR_RUN (b, nf, ne, fb, ev, df, de, h, on, rpm) w =
     (VOID, (b, nf, ne, drop nf fb, drop ne ev, df, de, False, on \<and> 2 \<notin> set (take ne ev), rpm),
      if \<not> h \<and> fb = [] \<and> ev = [] then w
      else motor_fake_drive (Suc (length (filter ((=) 2) (take ne ev)))) (if on then 1 else 0) w)"
| "motor_view_step MOTOR_HINT v w = (TRUTH (case v of (b, nf, ne, fb, ev, df, de, h, command) \<Rightarrow> h), v, w)"
| "motor_view_step MOTOR_EVENTS v w = (NUMBER (case v of (b, nf, ne, fb, ev, rest) \<Rightarrow> of_nat (length ev)), v, w)"
| "motor_view_step MOTOR_SAMPLES v w = (NUMBER (case v of (b, nf, ne, fb, rest) \<Rightarrow> of_nat (length fb)), v, w)"
| "motor_view_step MOTOR_EVENT_DROPS v w = (NUMBER (case v of (b, nf, ne, fb, ev, df, de, rest) \<Rightarrow> de), v, w)"
| "motor_view_step MOTOR_SAMPLE_DROPS v w = (NUMBER (case v of (b, nf, ne, fb, ev, df, rest) \<Rightarrow> df), v, w)"
| "motor_view_step (MOTOR_COUNT counter) v w = (NUMBER (counter w), v, w)"

fun motor_offered :: "motor_test_call \<Rightarrow> bool" where
  "motor_offered (MOTOR_INIT cap max_feedback max_events) \<longleftrightarrow> 0 < cap \<and> cap < 2 ^ 16 \<and> 0 < max_feedback \<and> 0 < max_events"
| "motor_offered c \<longleftrightarrow> True"

definition motor_tested :: "(unit, motor_fakes) sch_motor_service \<Rightarrow> bool" where
  "motor_tested s \<longleftrightarrow> motor_inv s \<and> hal s = motor_fake_hal \<and>
     ring_bound (ring (event_queue s)) = ring_bound (feedback_ring s)"

lemma motor_fakes_outside [simp]:
  "outside (motor_fake_ack w) = outside w" "outside (motor_fake_read w) = outside w"
  "outside (motor_fake_drive m n w) = outside w"
  by (simp_all add: outside_def motor_fake_ack_def motor_fake_read_def motor_fake_drive_def)

lemma motor_fake_drive_add [simp]:
  "motor_fake_drive 0 0 w = w"
  "motor_fake_drive m n (motor_fake_drive m' n' w) = motor_fake_drive (m' + m) (n' + n) w"
  by (simp_all add: motor_fake_drive_def algebra_simps)

lemma motor_fake_event: "motor_event_world motor_fake_hal x w = (if x = 2 then motor_fake_drive 1 0 w else w)"
  by (simp add: motor_event_world_def motor_enable_def motor_fake_hal_def motor_fake_drive_def)

lemma motor_fake_events: "fold (motor_event_world motor_fake_hal) xs w = motor_fake_drive (length (filter ((=) 2) xs)) 0 w"
  by (induction xs arbitrary: w) (auto simp: motor_fake_event)

lemma motor_fake_world:
  assumes "outside w" and "hal s = motor_fake_hal"
  shows "motor_world fake_port s w =
    (if motor_idle s then w
     else motor_fake_drive (Suc (length (filter ((=) 2) (take (unat (max_events_per_run s)) (motor_pending s)))))
       (if enabled s then 1 else 0) w)"
proof -
  have entry: "motor_entry_world fake_port s w = w" using assms(1) by (simp add: motor_entry_world_def)
  have events: "drain_world (crit fake_port) (motor_event_world motor_fake_hal) n xs v =
      motor_fake_drive (length (filter ((=) 2) (take n xs))) 0 v" if "outside v" for n xs v
    using fake_drain [of v "motor_event_world motor_fake_hal" n xs, OF that] by (simp add: motor_fake_event motor_fake_events)
  have apply_command: "motor_apply s v = motor_fake_drive 1 (if enabled s then 1 else 0) v" for v
    by (simp add: motor_apply_def motor_enable_def assms(2) motor_fake_hal_def motor_fake_drive_def Let_def)
  show ?thesis
    using assms by (simp add: motor_world_def Let_def entry apply_command events fake_discard)
qed

lemma motor_test_init_ok:
  assumes "0 < cap" and "cap < 2 ^ 16" and "0 < max_feedback" and "0 < max_events" and "outside w"
  shows "\<exists>s'. motor_test_init cap max_feedback max_events s w = (True, Some s', w) \<and> motor_tested s' \<and>
    motor_view s' = motor_view_new (unat cap) (unat max_feedback) (unat max_events)"
proof -
  have cap: "unat cap < 2 ^ 16" using assms(2) by (simp add: word_less_nat_alt)
  have "crit fake_port (crit fake_port w) = w" using assms(5) by simp
  moreover
  obtain s' where
    "motor_test_init cap max_feedback max_events s w = (True, Some s', crit fake_port (crit fake_port w))"
    "motor_inv s'" "motor_held s' = []" "motor_pending s' = []" "\<not> irq_hint s'" "hal s' = motor_fake_hal"
    "\<not> enabled s'" "target_speed_rpm s' = 0"
    "ring_bound (feedback_ring s') = unat cap" "ring_bound (ring (event_queue s')) = unat cap"
    "drops (feedback_ring s') = 0" "drops (ring (event_queue s')) = 0"
    "max_feedback_items_per_run s' = max_feedback" "max_events_per_run s' = max_events"
    unfolding motor_test_init_def
    by (rule motor_init_ok [of motor_fake_hal _ _ max_feedback max_events cap cap "replicate (4 * unat cap) 165"
          "replicate (2 * unat cap) 165" fake_port s w])
      (use assms cap in \<open>simp_all add: motor_fake_hal_def\<close>)
  ultimately show ?thesis by (simp add: motor_tested_def motor_view_def motor_view_new_def)
qed

lemma motor_test_steps:
  assumes "motor_offered c" and "motor_tested s" and "outside w" and "motor_view_step c (motor_view s) w = (answer, v, w')"
  shows "\<exists>s'. motor_test_step c s w = Some (answer, s', w') \<and> motor_tested s' \<and> motor_view s' = v \<and> outside w'"
proof -
  have inv: "motor_inv s" "hal s = motor_fake_hal" "ring_bound (ring (event_queue s)) = ring_bound (feedback_ring s)"
    "typed_inv sizeof_feedback (feedback_ring s)" "event_inv (event_queue s)" "\<not> ring_newest (feedback_ring s)"
    "\<not> ring_newest (ring (event_queue s))"
    using assms(2) by (auto simp: motor_tested_def motor_inv_def)
  have ring: "ring_inv (feedback_ring s)" "ring_inv (ring (event_queue s))"
    using inv(4,5) by (simp_all add: typed_inv_def event_inv_def)
  have ack: "motor_ack s w = motor_fake_ack w"
    by (simp add: motor_ack_def inv(2) motor_fake_hal_def motor_fake_ack_def)
  have sample: "motor_sample s (motor_fake_ack w) =
      (True, \<lparr>speed_rpm = motor_next_speed w, current_ma = 100\<rparr>, motor_fake_read (motor_fake_ack w))"
    by (simp add: motor_sample_def inv(2) motor_fake_hal_def motor_fake_read_def motor_fake_ack_def)
  show ?thesis
  proof (cases c)
    case (MOTOR_INIT cap max_feedback max_events)
    then show ?thesis using assms(1,3,4) motor_test_init_ok [of cap max_feedback max_events w s] by auto
  next
    case (MOTOR_SET_COMMAND on rpm)
    then show ?thesis
      using assms(2-4) by (auto simp: sch_motor_supervision_set_command_def motor_view_def motor_tested_def motor_inv_def
          motor_held_def motor_pending_def)
  next
    case (MOTOR_ISR e)
    then show ?thesis
      using assms(2-4) inv events.enq_simps [OF inv(5)]
        feedback_objects.enq_refines [OF inv(4), of "\<lparr>speed_rpm = motor_next_speed w, current_ma = 100\<rparr>"]
      by (cases e) (auto simp: motor_isr_fault_eq motor_isr_feedback_eq ack sample Let_def motor_view_def motor_tested_def
          motor_inv_def motor_held_def motor_pending_def)
  next
    case MOTOR_RUN
    then show ?thesis
      using motor_run_eq [OF inv(1), of fake_port w] assms(3,4) inv
      by (auto simp: motor_fake_world Let_def motor_idle_def motor_view_def motor_tested_def)
  next
    case MOTOR_EVENTS
    then show ?thesis using assms by (auto simp: event_size_refines [OF inv(5)] motor_view_def motor_pending_def event_items_def)
  next
    case MOTOR_SAMPLES
    then show ?thesis using assms by (auto simp: ring_size_refines [OF ring(1)] motor_view_def motor_held_def)
  next
    case MOTOR_EVENT_DROPS
    then show ?thesis
      using assms by (auto simp: sch_event_queue_drop_count_def ring_drop_count_refines [OF ring(2)] motor_view_def)
  next
    case MOTOR_SAMPLE_DROPS
    then show ?thesis using assms by (auto simp: ring_drop_count_refines [OF ring(1)] motor_view_def)
  qed (use assms in \<open>auto simp: motor_view_def\<close>)
qed

interpretation motor_script: scripted motor_test_step motor_offered motor_tested outside motor_view motor_view_step
  by unfold_locales (rule motor_test_steps)

section \<open>The test\<close>

definition motor_test ::
  "(unit, motor_fakes) sch_motor_service \<Rightarrow> size_t \<Rightarrow> size_t \<Rightarrow> size_t \<Rightarrow> motor_test_call list \<Rightarrow> answer list option" where
  "motor_test raw cap max_feedback max_events calls =
     (case motor_test_init cap max_feedback max_events raw motor_fakes_start of
        (ok, s, w) \<Rightarrow> if ok then script motor_test_step calls (the s) w else None)"

lemma motor_test_eq:
  assumes "0 < cap" and "cap < 2 ^ 16" and "0 < max_feedback" and "0 < max_events" and "list_all motor_offered calls"
  shows "motor_test raw cap max_feedback max_events calls =
    Some (view_script motor_view_step calls (motor_view_new (unat cap) (unat max_feedback) (unat max_events)) motor_fakes_start)"
proof -
  have start: "outside motor_fakes_start" by (simp add: outside_def motor_fakes_start_def)
  obtain s where s: "motor_test_init cap max_feedback max_events raw motor_fakes_start = (True, Some s, motor_fakes_start)"
    "motor_tested s" "motor_view s = motor_view_new (unat cap) (unat max_feedback) (unat max_events)"
    using motor_test_init_ok [OF assms(1-4) start, of raw] by auto
  show ?thesis using motor_script.script_steps [OF assms(5) s(2) start] by (simp add: motor_test_def s)
qed

lemmas motor_evaluation = motor_test_eq motor_view_new_def motor_fakes_start_def motor_fake_ack_def motor_fake_read_def
  motor_fake_drive_def bounded_push_def

lemma test_motor_contract_init_validation_and_enqueue_hint_bounded_empty_and_drop:
  "\<not> fst (sch_motor_supervision_service_init p None (Some h) fb 3 ev 3 1 1 w)"
  "\<not> fst (sch_motor_supervision_service_init p service None fb 3 ev 3 1 1 w)"
  "\<not> fst (sch_motor_supervision_service_init p service (Some (h\<lparr>set_enable := None\<rparr>)) fb 3 ev 3 1 1 w)"
  "\<not> fst (sch_motor_supervision_service_init p service (Some (h\<lparr>set_target_speed_rpm := None\<rparr>)) fb 3 ev 3 1 1 w)"
  "\<not> fst (sch_motor_supervision_service_init p service (Some h) fb 3 ev 3 0 1 w)"
  "\<not> fst (sch_motor_supervision_service_init p service (Some h) fb 3 ev 3 1 0 w)"
  "motor_test raw 3 1 1
     [MOTOR_RUN, MOTOR_COUNT motor_set_enable_count, MOTOR_COUNT motor_set_speed_count,
      MOTOR_SET_COMMAND True 1200, MOTOR_ISR MOTOR_FEEDBACK, MOTOR_ISR MOTOR_FEEDBACK, MOTOR_ISR MOTOR_FAULT,
      MOTOR_HINT, MOTOR_COUNT motor_ack_count, MOTOR_EVENTS, MOTOR_SAMPLES,
      MOTOR_RUN, MOTOR_COUNT motor_set_enable_count, MOTOR_COUNT motor_set_speed_count, MOTOR_EVENTS, MOTOR_SAMPLES,
      MOTOR_INIT 2 1 1, MOTOR_ISR MOTOR_FEEDBACK, MOTOR_ISR MOTOR_FEEDBACK, MOTOR_ISR MOTOR_FEEDBACK, MOTOR_SAMPLE_DROPS,
      MOTOR_ISR MOTOR_FAULT, MOTOR_ISR MOTOR_FAULT, MOTOR_ISR MOTOR_FAULT, MOTOR_EVENT_DROPS] =
   Some [VOID, NUMBER 0, NUMBER 0, VOID, VOID, VOID, VOID, TRUTH True, NUMBER 3, NUMBER 3, NUMBER 2,
      VOID, NUMBER 1, NUMBER 1, NUMBER 2, NUMBER 1,
      TRUTH True, VOID, VOID, VOID, NUMBER 1, VOID, VOID, VOID, NUMBER 4]"
  by (simp_all add: motor_init_iff) (simp add: motor_evaluation)

end
