(* ===== verification/Spec2Isabelle.thy ===== *)
theory Spec2Isabelle
  imports Scheduler_Props Queue_Props Fsi_Scheduled Eth_Scheduled Motor_Ipc_Together Uart_Scheduled I2c_Scheduled
    Events_Example Demo_Termination Main_Output Ring_Tests Scheduler_Tests
    Polling_Tests Fsi_Tests Ipc_Tests Eth_Tests Uart_Tests I2c_Tests Motor_Tests
begin

text \<open>
  Verification of scheduler-lib, a cooperative scheduler for small targets with a ring buffer and
  interrupt services on top of it. C paths below are relative to \<^verbatim>\<open>src/\<close>.

  \<^bold>\<open>The program.\<close> \<^verbatim>\<open>src/scheduler.c\<close> keeps a table of tasks with a bit for each task that is due;
  \<^verbatim>\<open>sch_run\<close> marks the due tasks, calls them in the order of their priorities and then calls one
  background task. \<^verbatim>\<open>src/isr_buffer.c\<close> is a ring buffer between an interrupt and a task, and an event
  queue built on it. Six services in \<^verbatim>\<open>src/services/\<close> use these rings: interrupt entries acknowledge,
  queue a record and leave a hint, and a run function, to be registered as a task, drains a bounded
  number of records into callbacks of the target. All shared state is changed in critical sections,
  the hooks of \<^verbatim>\<open>include/scheduler/port/scheduler_port.h\<close>. Two programs in \<^verbatim>\<open>examples/\<close> use the library.

  \<^bold>\<open>How it is modelled.\<close> A C structure is a record with the fields of the source, a C integer a word of
  its width, an enumeration a datatype, or a word where the code can store any value in it. The
  types \<^verbatim>\<open>size_t\<close> and \<^verbatim>\<open>int\<close> have 32 bits. A pointer that may be null is an option. A function takes the
  structure it works on and the state of the platform and returns both; where C behaviour can be
  undefined (a null function called, an access outside an array) it returns an option, and \<open>None\<close>
  is never an error return. Task functions, callbacks and port hooks are code of the application and
  of the target: parameters, whose contracts are locales. The compile-time switches
  \<^verbatim>\<open>SCH_ENABLE_STATS\<close> and \<^verbatim>\<open>SCH_ENABLE_TRACE\<close> are a record, so every theorem holds for all four builds.

  \<^bold>\<open>Theories and code.\<close>
  \<^item> \<open>Sched_Prelude\<close>: C types, null pointers, byte memory with \<^verbatim>\<open>memcpy\<close>, the bounded drain loop of the
    services, list and word lemmas.
  \<^item> \<open>Port\<close>: the port hooks as a record, the porting contract of \<^verbatim>\<open>docs/porting_contract.md\<close> as the locale
    \<open>port_contract\<close>, the ports of the repository as its interpretations.
  \<^item> \<open>Scheduler\<close>: every function of \<^verbatim>\<open>scheduler.c\<close>. The bodies of its loops and the phases of \<^verbatim>\<open>sch_run\<close>
    are definitions of their own (\<open>sch_mark_slot\<close>, \<open>sch_select_step\<close>, \<open>sch_take_task\<close>,
    \<open>sch_exec_periodic\<close>, \<open>sch_run_periodic\<close>, \<open>sch_run_background\<close>).
  \<^item> \<open>Isr_Buffer\<close>: every function of \<^verbatim>\<open>isr_buffer.c\<close>, on byte-addressed storage.
  \<^item> \<open>Fsi_Service\<close>, \<open>Ipc_Service\<close>, \<open>Ethernet_Service\<close>, \<open>Uart_Service\<close>, \<open>I2c_Eeprom_Service\<close>,
    \<open>Motor_Service\<close>: every function of the service of that name.
  \<^item> \<open>Events_Example\<close>, \<open>Main_Example\<close>: the programs \<^verbatim>\<open>main_events_example.c\<close> and \<^verbatim>\<open>main_example.c\<close>.
  \<^item> \<open>Test_Bench\<close>: stubs and tasks of \<^verbatim>\<open>tests/unit/test_scheduler.c\<close>, on which the witnesses run.

  \<^bold>\<open>The scheduler.\<close> \<open>Scheduler_Time\<close> states what the wrapping tick arithmetic computes, against
  unwrapped time. \<open>Scheduler_Inv\<close> has the well-formedness of the table and its preservation,
  \<open>Scheduler_Select\<close> the selection as the minimum of a linear order of dispatch keys (C33),
  \<open>Scheduler_Background\<close> the cyclic order of the background tasks. \<open>Scheduler_Run\<close> and
  \<open>Scheduler_Cycle\<close> refine \<^verbatim>\<open>sch_run\<close>, under the contract \<open>task_contract\<close> of the application, to a
  plain sequence: mark, dispatch the ready slots in key order, one background step. \<open>Scheduler_Log\<close>
  shows the calls of a run to an observer of the platform (\<open>called_run\<close>, and \<open>logged_run\<close> for a log),
  \<open>Scheduler_Cadence\<close> follows a task over many runs against its release grid, \<open>Scheduler_Polls\<close>
  counts its calls against that grid, \<open>Scheduler_Reach\<close> has the histories of API calls as an
  inductive relation, \<open>Scheduler_Effects\<close> the critical sections and the missed releases,
  \<open>Scheduler_Register\<close> registration as a client sees it, \<open>Scheduler_Work\<close> the number of clock
  readings of a run (\<open>run_costs\<close>), \<open>Scheduler_Records\<close> the number of the reading that each entry of
  the statistics and each trace event shows. \<open>Scheduler_Props\<close> states the properties C1 to C3, C5 to
  C16, C21 and C33. \<open>Scheduler_Table\<close> is the specification a client would write, a list of tasks with
  their statistics and a trace hook, on any platform and for tasks that may call the API themselves, and
  \<open>Scheduler_Tests\<close> proves that every sequence of calls of the API is answered as that list answers
  it (C4). The tests of \<^verbatim>\<open>tests/unit/test_scheduler.c\<close> follow there
  and, those with a polling service, in \<open>Polling_Tests\<close>.

  \<^bold>\<open>The rings.\<close> \<open>Ring_Refinement\<close> relates the bytes of a ring to the list of its elements. \<open>Isr_Queue\<close>
  states what a client may rely on as the locale \<open>isr_queue\<close>, bounded FIFO order with one of two
  overflow policies, and proves bursts, interleavings and drain loops in it; \<open>queue_client\<close> extends it
  to a structure that holds a queue in a field. \<open>Typed_Ring\<close> derives the contract for rings of C
  objects (\<open>object_repr\<close>, \<open>object_ring\<close>) and for the event queue. \<open>Ring_Trace\<close> (C19) compares
  whole sequences of calls with an abstract queue (\<open>traced_queue\<close>), and \<open>Ring_Tests\<close> has the tests of
  \<^verbatim>\<open>tests/unit/test_isr_buffer.c\<close> that follow. \<open>Queue_Props\<close> states the properties C17, C18, C22 and
  C24.

  \<^bold>\<open>The services.\<close> The locale \<open>irq_service\<close> is the contract shared by FSI, IPC and Ethernet: a burst of
  interrupts is served exactly once and in order, and what is not retained is counted. \<open>Served_Tasks\<close>
  puts such a service under the scheduler (\<open>served_app\<close>) and bounds its response to a burst by the
  release grid of its task (C25 for FSI). UART, EEPROM and motor services have run functions of other
  shapes; their theories give the exact effect of a run (C34) and what follows from it (C29, C32, C36,
  C37). \<open>Service_Script\<close> answers a script of calls of a service from a view of its state, as the locale
  \<open>scripted\<close>; \<open>Fsi_Tests\<close>, \<open>Ipc_Tests\<close>, \<open>Eth_Tests\<close>, \<open>Uart_Tests\<close>, \<open>I2c_Tests\<close> and
  \<open>Motor_Tests\<close> prove that view right for every script and have the tests of the services in
  \<^verbatim>\<open>tests/unit/\<close> as lemmas.

  \<^bold>\<open>The services under preemption.\<close> A run is not atomic. \<open>Resumption\<close> cuts a run function into a
  program of steps, its critical sections and callbacks, lets interrupts in before every step, and
  proves what holds in every execution with a weakest precondition, \<open>withstands\<close>. \<open>Preemption\<close> is the
  program of a service of \<open>irq_service\<close> (\<open>preemptible\<close>). The theories \<open>Fsi_Preempted\<close>,
  \<open>Ipc_Preempted\<close>, \<open>Eth_Preempted\<close>, \<open>Motor_Preempted\<close>, \<open>Uart_Preempted\<close> and \<open>I2c_Preempted\<close> cut the
  six run functions and show that the program without interrupts computes the C function; for IPC, C39
  says what that is. \<open>Preempted_Tasks\<close> makes such a service a task of the scheduler (\<open>preempted_service\<close>,
  \<open>preempted_app\<close>): interrupts from an arbitrary supply arrive between the critical sections of
  \<^verbatim>\<open>sch_run\<close>, before every step of the service and between polls. \<open>Irq_Scheduled\<close> does this for the
  services of \<open>irq_service\<close>. \<open>Ipc_Scheduled\<close> (C26, C35), \<open>Eth_Scheduled\<close> (C27), \<open>Motor_Scheduled\<close>
  (C23), \<open>Uart_Scheduled\<close> (C28) and \<open>I2c_Scheduled\<close> (C31) conclude what each service promises from
  the interrupt to the callback, and by when in terms of its release grid; \<open>Fsi_Scheduled\<close> has C25.
  \<open>Together\<close> composes two families of services that share a scheduler (\<open>part\<close>, \<open>preempted_services\<close>,
  \<open>preempted_apps\<close>); \<open>Motor_Ipc_Together\<close> (C30) is the motor supervision beside IPC, each preempted by
  the interrupts of both. \<open>Board\<close> is the concrete platform on which the witnesses run.

  \<^bold>\<open>The example programs.\<close> \<open>Checked_Tasks\<close> reduces applications whose tasks need their context to the
  task contract; \<open>Passive_Tasks\<close> is about tasks that leave the scheduler alone. C38: the books of the
  events example balance whatever the clock shows. \<open>Demo_Termination\<close>, C40: its main loop ends, on
  a clock that may stand still between readings, and the summary printed then balances.
  \<open>Main_Output\<close>, C20: what the minimal example prints.

  \<^bold>\<open>Bounds.\<close> The loop of \<^verbatim>\<open>sch_run\<close> over the ready set is bounded by \<^verbatim>\<open>SCH_MAX_TASKS\<close> in the code; the
  refinement shows that this is enough. Drain loops are bounded by the budgets of the services, and a
  program of steps is a finite tree by construction. The main loop of the events example is given as
  many rounds as there are readings until the clock shows that the 120 ms are over: every round makes
  one at least. The endless loop of the minimal example is any number of its rounds.
  \<^verbatim>\<open>SCH_MAX_TASKS\<close> is 64, its default, which a build may change.

  \<^bold>\<open>What the theorems bring to light.\<close> The branch that counts missed releases is dead (C13). For periods
  above half the tick range the release computed can already lie in the past (C9). A byte that a busy
  UART refuses goes behind the bytes queued after it (C29). An EEPROM request that the driver refuses
  is lost without a trace (C32). A motor fault can be evicted by feedback events before it is seen
  (C36), and a command set on an idle motor service waits for an interrupt (C37).

  \<^bold>\<open>Not modelled.\<close> The hardware side of HAL and port: parameters. Interrupts that interrupt each
  other, and interrupts inside a critical section, which the port forbids. \<^verbatim>\<open>sch_run\<close> itself is not
  cut into steps: between its critical sections interrupts change the platform and the services through
  the port hooks, never the table of tasks, which no interrupt entry of the library touches. Memory
  models of several cores: the library is written for one. Build files and documents hold no code, and
  the headers nothing beside the types, constants and prototypes of what is modelled.
\<close>

end
